(* ===== verification/Prelude.thy ===== *)
theory Prelude
  imports Main "HOL-Library.Word"
begin

text \<open>
  Shared vocabulary of the development: the machine types of \<open>kernel/types.h\<close>, the result type
  that makes a kernel panic, a kernel page fault and a call that has to sleep into values, the
  sequencing operator over it, and the generic lemmas on words that the components use.
\<close>

unbundle bit_operations_syntax

section \<open>Machine types\<close>

type_synonym u8 = "8 word"
type_synonym u16 = "16 word"
type_synonym u32 = "32 word"
type_synonym u64 = "64 word"

section \<open>Results of kernel code\<close>

text \<open>
  \<open>Panic msg\<close> is \<open>panic(msg)\<close> of \<open>kernel/printf.c\<close>, which never returns. \<open>PageFault a\<close> is a load or
  store of the kernel at an address its direct map does not cover: the hardware enters
  \<open>kerneltrap\<close>, which panics. \<open>Sleeps msg\<close> is a call that cannot go on before another thread of
  control acts (it has reached \<open>sleep()\<close>). \<open>Undefined what\<close> is an access to which C gives no meaning, past
  the end of the named array.
\<close>

datatype kerr = Panic string | PageFault u64 | Sleeps string | Undefined string

type_synonym 'a kres = "kerr + 'a"

definition kbind :: "'a kres \<Rightarrow> ('a \<Rightarrow> 'b kres) \<Rightarrow> 'b kres" where
  "kbind m f = (case m of Inl e \<Rightarrow> Inl e | Inr x \<Rightarrow> f x)"

named_theorems kbind_simps \<open>sequencing of kernel code\<close>

lemma kbind_Inr [simp, kbind_simps]: "kbind (Inr x) f = f x"
  by (simp add: kbind_def)

lemma kbind_Inl [simp, kbind_simps]: "kbind (Inl e) f = Inl e"
  by (simp add: kbind_def)

lemma kbind_eq_Inr: "kbind m f = Inr y \<longleftrightarrow> (\<exists>x. m = Inr x \<and> f x = Inr y)"
  by (cases m) auto

lemma kbind_eq_InrE [elim!]:
  assumes "kbind m f = Inr y"
  obtains x where "m = Inr x" and "f x = Inr y"
  using assms by (auto simp: kbind_eq_Inr)

lemma kbind_eq_Inl: "kbind m f = Inl e \<longleftrightarrow> m = Inl e \<or> (\<exists>x. m = Inr x \<and> f x = Inl e)"
  by (cases m) auto

lemma kbind_cong [fundef_cong]:
  "m = m' \<Longrightarrow> (\<And>x. m' = Inr x \<Longrightarrow> f x = f' x) \<Longrightarrow> kbind m f = kbind m' f'"
  by (cases m') auto

lemma kbind_assoc: "kbind (kbind m f) g = kbind m (\<lambda>x. kbind (f x) g)"
  by (cases m) auto

end
