(* ===== verification/Riscv.thy ===== *)
theory Riscv
  imports Prelude
begin

text \<open>
  The constants and macros of \<open>kernel/riscv.h\<close>, \<open>kernel/memlayout.h\<close> and \<open>kernel/param.h\<close> that the
  memory system uses: page rounding, the fields of an Sv39 page-table entry and of a virtual
  address, and the layout of physical memory; with the bit-level lemmas about them.
\<close>

section \<open>Constants\<close>

abbreviation (input) PGSIZE :: u64 where "PGSIZE \<equiv> 4096"
abbreviation (input) KERNBASE :: u64 where "KERNBASE \<equiv> 0x80000000"
abbreviation (input) PHYSTOP :: u64 where "PHYSTOP \<equiv> 0x88000000"
abbreviation (input) MAXVA :: u64 where "MAXVA \<equiv> 0x4000000000"
abbreviation (input) TRAMPOLINE :: u64 where "TRAMPOLINE \<equiv> 0x3FFFFFF000"
abbreviation (input) TRAPFRAME :: u64 where "TRAPFRAME \<equiv> 0x3FFFFFE000"

abbreviation (input) PTE_V :: u64 where "PTE_V \<equiv> 1"
abbreviation (input) PTE_R :: u64 where "PTE_R \<equiv> 2"
abbreviation (input) PTE_W :: u64 where "PTE_W \<equiv> 4"
abbreviation (input) PTE_X :: u64 where "PTE_X \<equiv> 8"
abbreviation (input) PTE_U :: u64 where "PTE_U \<equiv> 16"
abbreviation (input) PTE_RSW_COW :: u64 where "PTE_RSW_COW \<equiv> 256"

section \<open>Macros\<close>

definition PGROUNDUP :: "u64 \<Rightarrow> u64" where
  "PGROUNDUP sz = (sz + PGSIZE - 1) AND NOT (PGSIZE - 1)"

definition PGROUNDDOWN :: "u64 \<Rightarrow> u64" where
  "PGROUNDDOWN a = a AND NOT (PGSIZE - 1)"

definition PA2PTE :: "u64 \<Rightarrow> u64" where
  "PA2PTE pa = push_bit 10 (drop_bit 12 pa)"

definition PTE2PA :: "u64 \<Rightarrow> u64" where
  "PTE2PA pte = push_bit 12 (drop_bit 10 pte)"

definition PTE_FLAGS :: "u64 \<Rightarrow> u64" where
  "PTE_FLAGS pte = pte AND 0x3FF"

definition PX :: "nat \<Rightarrow> u64 \<Rightarrow> u64" where
  "PX level va = drop_bit (12 + 9 * level) va AND 0x1FF"

section \<open>Pages\<close>

definition page_aligned :: "u64 \<Rightarrow> bool" where
  "page_aligned a \<longleftrightarrow> a mod PGSIZE = 0"

lemma mask_4095: "(4095 :: u64) = mask 12"
  by (simp add: mask_eq_exp_minus_1)

lemma mask_511: "(511 :: u64) = mask 9"
  by (simp add: mask_eq_exp_minus_1)

lemma mask_1023: "(1023 :: u64) = mask 10"
  by (simp add: mask_eq_exp_minus_1)

lemma mod_PGSIZE: "(a :: u64) mod PGSIZE = take_bit 12 a"
  by (simp add: take_bit_eq_mod)

lemma bit_PGROUNDDOWN: "bit (PGROUNDDOWN a) n \<longleftrightarrow> 12 \<le> n \<and> bit a n"
  by (auto simp: PGROUNDDOWN_def mask_4095 bit_simps dest: bit_imp_le_length)

lemma page_aligned_iff: "page_aligned a \<longleftrightarrow> (\<forall>n<12. \<not> bit a n)"
  by (auto simp: page_aligned_def mod_PGSIZE bit_eq_iff bit_simps)

lemma page_aligned_unat: "page_aligned a \<longleftrightarrow> unat a mod 4096 = 0"
  unfolding page_aligned_def word_unat_eq_iff by (simp add: unat_mod)

lemma page_aligned_0 [simp]: "page_aligned 0"
  by (simp add: page_aligned_def)

lemma page_aligned_PGROUNDDOWN [simp]: "page_aligned (PGROUNDDOWN a)"
  by (simp add: page_aligned_iff bit_PGROUNDDOWN)

lemma PGROUNDDOWN_id [simp]: "page_aligned a \<Longrightarrow> PGROUNDDOWN a = a"
  unfolding page_aligned_iff by (metis bit_PGROUNDDOWN bit_word_eqI linorder_not_less)

lemma PGROUNDDOWN_idem [simp]: "PGROUNDDOWN (PGROUNDDOWN a) = PGROUNDDOWN a"
  by simp

lemma less_exp_bit:
  fixes x :: "'a::len word"
  assumes "x < 2 ^ k" and "k < LENGTH('a)"
  shows "\<not> bit x n \<or> n < k"
proof -
  have "take_bit k x = x"
    using assms by (metis less_mask_eq take_bit_eq_mask mask_eq_exp_minus_1)
  then show ?thesis by (metis bit_take_bit_iff)
qed

lemma add_offset_or:
  assumes "page_aligned a" and "x < PGSIZE"
  shows "a + x = a OR x"
proof (rule disjunctive_add_eq_or, rule bit_word_eqI)
  fix n
  have "\<not> bit x n \<or> n < 12" using less_exp_bit [of x 12 n] assms(2) by simp
  moreover have "n < 12 \<Longrightarrow> \<not> bit a n" using assms(1) unfolding page_aligned_iff by blast
  ultimately show "bit (a AND x) n = bit 0 n" by (auto simp: bit_simps)
qed

lemma PGROUNDDOWN_add [simp]:
  assumes "page_aligned a" and "x < PGSIZE"
  shows "PGROUNDDOWN (a + x) = a"
proof (rule bit_word_eqI)
  fix n
  have "\<not> bit x n \<or> n < 12" using less_exp_bit [of x 12 n] assms(2) by simp
  moreover have "n < 12 \<Longrightarrow> \<not> bit a n" using assms(1) unfolding page_aligned_iff by blast
  ultimately show "bit (PGROUNDDOWN (a + x)) n = bit a n"
    unfolding add_offset_or [OF assms] by (cases "n < 12") (auto simp: bit_PGROUNDDOWN bit_or_iff)
qed

lemma mod_PGSIZE_less [simp]: "(a :: u64) mod PGSIZE < PGSIZE"
  by (simp add: word_mod_less_divisor)

lemma bit_mod_PGSIZE: "bit ((a :: u64) mod PGSIZE) n \<longleftrightarrow> n < 12 \<and> bit a n"
  by (simp add: mod_PGSIZE bit_simps)

lemma PGROUNDDOWN_split: "PGROUNDDOWN a + a mod PGSIZE = a"
  unfolding add_offset_or [OF page_aligned_PGROUNDDOWN mod_PGSIZE_less]
  by (rule bit_word_eqI) (auto simp: bit_or_iff bit_PGROUNDDOWN bit_mod_PGSIZE)

lemma PGROUNDDOWN_offset: "a - PGROUNDDOWN a = a mod PGSIZE"
  by (metis PGROUNDDOWN_split add_diff_cancel_left')

lemma PGROUNDDOWN_le: "PGROUNDDOWN a \<le> a"
  by (simp add: PGROUNDDOWN_def word_and_le2)

lemma unat_PGROUNDDOWN: "unat (PGROUNDDOWN a) = unat a div 4096 * 4096"
proof -
  have "PGROUNDDOWN a = a - a mod PGSIZE" by (metis PGROUNDDOWN_split add_diff_cancel_right')
  moreover have "a mod PGSIZE \<le> a" by (simp add: word_le_nat_alt unat_mod)
  ultimately have "unat (PGROUNDDOWN a) = unat a - unat a mod 4096" by (simp add: unat_sub unat_mod)
  then show ?thesis by (simp add: minus_mod_eq_div_mult)
qed

lemma PGROUNDUP_eq: "PGROUNDUP a = PGROUNDDOWN (a + 4095)"
  by (simp add: PGROUNDUP_def PGROUNDDOWN_def add.commute)

lemma page_aligned_PGROUNDUP [simp]: "page_aligned (PGROUNDUP a)"
  by (simp add: PGROUNDUP_eq)

lemma unat_PGROUNDUP:
  "unat a + 4095 < 2 ^ 64 \<Longrightarrow> unat (PGROUNDUP a) = (unat a + 4095) div 4096 * 4096"
  by (simp add: PGROUNDUP_eq unat_PGROUNDDOWN unat_word_ariths)

lemma PGROUNDUP_least:
  assumes "unat a + 4095 < 2 ^ 64" and "page_aligned q"
  shows "PGROUNDUP a \<le> q \<longleftrightarrow> a \<le> q"
proof -
  have "4096 dvd unat q" using assms(2) by (simp add: page_aligned_unat dvd_eq_mod_eq_0)
  then obtain k where "unat q = 4096 * k" by blast
  then show ?thesis using unat_PGROUNDUP [OF assms(1)] by (simp add: word_le_nat_alt) linarith
qed

section \<open>Page-table entries\<close>

lemma bit_PTE2PA: "bit (PTE2PA pte) n \<longleftrightarrow> 12 \<le> n \<and> n < 64 \<and> bit pte (n - 2)"
  by (auto simp: PTE2PA_def bit_simps Nat.diff_add_assoc2)

lemma bit_PA2PTE: "bit (PA2PTE pa) n \<longleftrightarrow> 10 \<le> n \<and> n < 64 \<and> bit pa (n + 2)"
  by (auto simp: PA2PTE_def bit_simps Nat.diff_add_assoc2)

lemma bit_PTE_FLAGS: "bit (PTE_FLAGS pte) n \<longleftrightarrow> n < 10 \<and> bit pte n"
  by (auto simp: PTE_FLAGS_def mask_1023 bit_simps dest: bit_imp_le_length)

lemma page_aligned_PTE2PA [simp]: "page_aligned (PTE2PA pte)"
  unfolding page_aligned_iff by (simp add: bit_PTE2PA)

text \<open>An entry built by \<open>PA2PTE(pa) | perm\<close> gives back its address and its flags.\<close>

abbreviation flags_only :: "u64 \<Rightarrow> bool" where
  "flags_only perm \<equiv> perm < 0x400"

lemma PTE2PA_PA2PTE [simp]:
  assumes "page_aligned pa" and "pa < 2 ^ 56" and "flags_only perm"
  shows "PTE2PA (PA2PTE pa OR perm) = pa"
proof (rule bit_word_eqI)
  fix n
  have "\<not> bit perm (n - 2) \<or> n - 2 < 10" using less_exp_bit [of perm 10] assms(3) by simp
  moreover have "\<not> bit pa n \<or> n < 56" using less_exp_bit [of pa 56] assms(2) by simp
  moreover have "n < 12 \<Longrightarrow> \<not> bit pa n" using assms(1) unfolding page_aligned_iff by blast
  ultimately show "bit (PTE2PA (PA2PTE pa OR perm)) n = bit pa n"
    by (cases "12 \<le> n") (auto simp: bit_PTE2PA bit_or_iff bit_PA2PTE numeral_2_eq_2 Suc_diff_Suc)
qed

lemma PTE_FLAGS_PA2PTE [simp]:
  assumes "flags_only perm"
  shows "PTE_FLAGS (PA2PTE pa OR perm) = perm"
proof (rule bit_word_eqI)
  fix n
  have "\<not> bit perm n \<or> n < 10" using less_exp_bit [of perm 10] assms by simp
  then show "bit (PTE_FLAGS (PA2PTE pa OR perm)) n = bit perm n"
    by (auto simp: bit_PTE_FLAGS bit_or_iff bit_PA2PTE)
qed

lemma flags_only_PTE_FLAGS [simp]: "flags_only (PTE_FLAGS pte)"
  using word_and_le1 [of pte "0x3FF"] by (simp add: PTE_FLAGS_def word_le_nat_alt word_less_nat_alt)

lemma flags_only_or [simp]:
  assumes "flags_only a" and "flags_only b"
  shows "flags_only (a OR b)"
proof -
  have "take_bit 10 (a OR b) = a OR b"
    using less_exp_bit [of a 10] less_exp_bit [of b 10] assms
    by (intro bit_word_eqI) (auto simp: bit_simps)
  then show ?thesis
    by (metis mask_1023 one_less_numeral_iff take_bit_eq_mask word_and_le1 flags_only_PTE_FLAGS PTE_FLAGS_def)
qed

section \<open>Flag bits\<close>

named_theorems pte_bits "entries read bit by bit"

declare bit_numeral_word_iff [simp del] bit_neg_numeral_word_iff [simp del]

lemma pte_flag_iff [pte_bits]:
  fixes e :: u64
  shows "e AND PTE_V = 0 \<longleftrightarrow> \<not> bit e 0" "e AND PTE_R = 0 \<longleftrightarrow> \<not> bit e 1" "e AND PTE_W = 0 \<longleftrightarrow> \<not> bit e 2"
    "e AND PTE_X = 0 \<longleftrightarrow> \<not> bit e 3" "e AND PTE_U = 0 \<longleftrightarrow> \<not> bit e 4"
    "e AND PTE_RSW_COW = 0 \<longleftrightarrow> \<not> bit e 8"
  using and_exp_eq_0_iff_not_bit [of e 0] apply simp
  using and_exp_eq_0_iff_not_bit [of e 1] apply simp
  using and_exp_eq_0_iff_not_bit [of e 2] apply simp
  using and_exp_eq_0_iff_not_bit [of e 3] apply simp
  using and_exp_eq_0_iff_not_bit [of e 4] apply simp
  using and_exp_eq_0_iff_not_bit [of e 8] apply simp
  done

lemma bit_pte_flag [pte_bits]:
  "bit PTE_V i \<longleftrightarrow> i = 0" "bit PTE_R i \<longleftrightarrow> i = 1" "bit PTE_W i \<longleftrightarrow> i = 2" "bit PTE_X i \<longleftrightarrow> i = 3"
  "bit PTE_U i \<longleftrightarrow> i = 4" "bit PTE_RSW_COW i \<longleftrightarrow> i = 8"
proof -
  have e: "bit ((2 :: u64) ^ n) i \<longleftrightarrow> i = n" if "n < 64" for n
    using that by (auto simp: bit_exp_iff)
  show "bit PTE_V i \<longleftrightarrow> i = 0" using e [of 0] by simp
  show "bit PTE_R i \<longleftrightarrow> i = 1" using e [of 1] by simp
  show "bit PTE_W i \<longleftrightarrow> i = 2" using e [of 2] by simp
  show "bit PTE_X i \<longleftrightarrow> i = 3" using e [of 3] by simp
  show "bit PTE_U i \<longleftrightarrow> i = 4" using e [of 4] by simp
  show "bit PTE_RSW_COW i \<longleftrightarrow> i = 8" using e [of 8] by simp
qed

lemma bit_pte_mask [pte_bits]:
  "bit (- 2 :: u64) i \<longleftrightarrow> i < 64 \<and> i \<noteq> 0" "bit (- 5 :: u64) i \<longleftrightarrow> i < 64 \<and> i \<noteq> 2"
  "bit (- 17 :: u64) i \<longleftrightarrow> i < 64 \<and> i \<noteq> 4" "bit (- 257 :: u64) i \<longleftrightarrow> i < 64 \<and> i \<noteq> 8"
proof -
  show "bit (- 2 :: u64) i \<longleftrightarrow> i < 64 \<and> i \<noteq> 0"
    using bit_not_iff [of PTE_V i] by (simp add: pte_bits)
  show "bit (- 5 :: u64) i \<longleftrightarrow> i < 64 \<and> i \<noteq> 2"
    using bit_not_iff [of PTE_W i] by (simp add: pte_bits)
  show "bit (- 17 :: u64) i \<longleftrightarrow> i < 64 \<and> i \<noteq> 4"
    using bit_not_iff [of PTE_U i] by (simp add: pte_bits)
  show "bit (- 257 :: u64) i \<longleftrightarrow> i < 64 \<and> i \<noteq> 8"
    using bit_not_iff [of PTE_RSW_COW i] by (simp add: pte_bits)
qed

lemmas pte_ops = bit_and_iff bit_or_iff bit_not_iff bit_PTE_FLAGS bit_PTE2PA bit_PA2PTE

end
