(* ===== verification/Ram.thy ===== *)
theory Ram
  imports Riscv
begin

text \<open>
  Physical memory as the kernel sees it through its direct map: bytes addressed by 64-bit words,
  with the little-endian 64-bit loads and stores that page tables and the free list are made of,
  and the checked accesses of kernel code. The contract of a 64-bit memory is the locale
  \<open>dword_memory\<close>; the facts on linked lists in memory are proved from it.
\<close>

type_synonym mem = "u64 \<Rightarrow> u8"

section \<open>Little-endian 64-bit access\<close>

definition ld64 :: "mem \<Rightarrow> u64 \<Rightarrow> u64" where
  "ld64 m a =
     ucast (m a) OR push_bit 8 (ucast (m (a + 1))) OR push_bit 16 (ucast (m (a + 2))) OR
     push_bit 24 (ucast (m (a + 3))) OR push_bit 32 (ucast (m (a + 4))) OR
     push_bit 40 (ucast (m (a + 5))) OR push_bit 48 (ucast (m (a + 6))) OR
     push_bit 56 (ucast (m (a + 7)))"

definition st64 :: "mem \<Rightarrow> u64 \<Rightarrow> u64 \<Rightarrow> mem" where
  "st64 m a v = (\<lambda>x. if x - a < 8 then ucast (drop_bit (8 * unat (x - a)) v) else m x)"

lemma less_8_cases: "(n :: nat) < 8 \<Longrightarrow> n = 0 \<or> n = 1 \<or> n = 2 \<or> n = 3 \<or> n = 4 \<or> n = 5 \<or> n = 6 \<or> n = 7"
  by arith

lemma bit_ld64: "bit (ld64 m a) n \<longleftrightarrow> n < 64 \<and> bit (m (a + of_nat (n div 8))) (n mod 8)"
proof (cases "n < 64")
  case True
  define q r where "q = n div 8" and "r = n mod 8"
  then have n: "n = 8 * q + r" and "r < 8" and "q < 8" using True by auto
  have "\<And>b :: u8. \<And>k. 8 \<le> k \<Longrightarrow> \<not> bit b k" using bit_imp_le_length by fastforce
  then have "bit (ld64 m a) (8 * q + r) = bit (m (a + of_nat q)) r"
    using less_8_cases [OF \<open>q < 8\<close>] \<open>r < 8\<close>
    by (elim disjE) (simp_all add: ld64_def bit_or_iff bit_push_bit_iff bit_ucast_iff)
  then show ?thesis using True by (simp add: q_def r_def)
next
  case False
  then show ?thesis using bit_imp_le_length by fastforce
qed

lemma ld64_st64_same [simp]: "ld64 (st64 m a v) a = v"
proof (rule bit_word_eqI)
  fix n assume "n < LENGTH(64)"
  then have n: "n < 64" by simp
  have "unat (of_nat (n div 8) :: u64) = n div 8"
    using n by (simp add: unat_of_nat)
  moreover from this have "(of_nat (n div 8) :: u64) < 8"
    using n by (simp add: word_less_nat_alt)
  moreover have "n mod 8 + 8 * (n div 8) = n" and "n mod 8 < 8" by simp_all
  ultimately show "bit (ld64 (st64 m a v) a) n = bit v n"
    using n by (simp add: bit_ld64 st64_def bit_simps add.commute del: One_nat_def)
qed

lemma dword_or:
  assumes "(a :: u64) mod 8 = 0" and "x < 8"
  shows "a + x = a OR x"
proof (rule disjunctive_add_eq_or, rule bit_word_eqI)
  fix n
  have "\<not> bit x n \<or> n < 3" using less_exp_bit [of x 3 n] assms(2) by simp
  moreover have "n < 3 \<Longrightarrow> \<not> bit a n"
    using assms(1) take_bit_eq_mod [of 3 a] bit_take_bit_iff [of 3 a n] by auto
  ultimately show "bit (a AND x) n = bit 0 n" by (auto simp: bit_simps)
qed

lemma dword_base_unique:
  assumes "(a :: u64) mod 8 = 0" and "b mod 8 = 0" and "x < 8" and "y < 8" and "a + x = b + y"
  shows "a = b"
proof (rule bit_word_eqI)
  fix n
  have eq: "a OR x = b OR y" using assms dword_or by simp
  have "\<not> bit x n \<or> n < 3" "\<not> bit y n \<or> n < 3"
    using less_exp_bit [of x 3 n] less_exp_bit [of y 3 n] assms by simp_all
  moreover have "n < 3 \<Longrightarrow> \<not> bit a n" "n < 3 \<Longrightarrow> \<not> bit b n"
    using assms(1,2) take_bit_eq_mod [of 3 a] bit_take_bit_iff [of 3 a n]
      take_bit_eq_mod [of 3 b] bit_take_bit_iff [of 3 b n] by auto
  moreover have "bit (a OR x) n = bit (b OR y) n" using eq by simp
  ultimately show "bit a n = bit b n" by (auto simp: bit_or_iff)
qed

lemma of_nat_div8_less: "n < 64 \<Longrightarrow> (of_nat (n div 8) :: u64) < 8"
  by (simp add: word_less_nat_alt unat_of_nat)

lemma ld64_cong: "(\<And>x. x < 8 \<Longrightarrow> m (a + x) = m' (a + x)) \<Longrightarrow> ld64 m a = ld64 m' a"
  by (rule bit_word_eqI) (simp add: bit_ld64 of_nat_div8_less)

lemma ld64_st64_other [simp]:
  assumes "a mod 8 = 0" and "b mod 8 = 0" and "a \<noteq> b"
  shows "ld64 (st64 m a v) b = ld64 m b"
proof (rule ld64_cong)
  fix x :: u64 assume "x < 8"
  have "\<not> b + x - a < 8"
  proof
    assume "b + x - a < 8"
    then show False
      using dword_base_unique [OF assms(1,2), of "b + x - a" x] assms(3) \<open>x < 8\<close> by simp
  qed
  then show "st64 m a v (b + x) = m (b + x)" by (simp add: st64_def)
qed

section \<open>The contract of a 64-bit memory, and lists in it\<close>

text \<open>
  \<open>chain nxt h xs\<close>: from the pointer \<open>h\<close>, following \<open>nxt\<close>, the nodes are \<open>xs\<close> up to the null pointer.
\<close>

fun chain :: "(u64 \<Rightarrow> u64) \<Rightarrow> u64 \<Rightarrow> u64 list \<Rightarrow> bool" where
  "chain nxt h [] = (h = 0)"
| "chain nxt h (x # xs) = (h = x \<and> x \<noteq> 0 \<and> chain nxt (nxt x) xs)"

lemma chain_unique: "chain nxt h xs \<Longrightarrow> chain nxt h ys \<Longrightarrow> xs = ys"
proof (induction xs arbitrary: h ys)
  case Nil
  then show ?case by (cases ys) auto
next
  case (Cons x xs)
  then show ?case by (cases ys) auto
qed

lemma chain_cong: "(\<And>x. x \<in> set xs \<Longrightarrow> nxt x = nxt' x) \<Longrightarrow> chain nxt h xs = chain nxt' h xs"
  by (induction xs arbitrary: h) auto

lemma chain_0 [simp]: "chain nxt 0 xs \<longleftrightarrow> xs = []"
  by (cases xs) auto

lemma chain_nonzero: "h \<noteq> 0 \<Longrightarrow> chain nxt h xs \<longleftrightarrow> (\<exists>ys. xs = h # ys \<and> chain nxt (nxt h) ys)"
  by (cases xs) auto

locale dword_memory =
  fixes ld :: "'m \<Rightarrow> u64 \<Rightarrow> u64"
    and st :: "'m \<Rightarrow> u64 \<Rightarrow> u64 \<Rightarrow> 'm"
  assumes ld_st_same: "ld (st m a v) a = v"
    and ld_st_other: "a mod 8 = 0 \<Longrightarrow> b mod 8 = 0 \<Longrightarrow> a \<noteq> b \<Longrightarrow> ld (st m a v) b = ld m b"
begin

lemma chain_st_other:
  assumes "a mod 8 = 0" and "\<forall>x \<in> set xs. x mod 8 = 0" and "a \<notin> set xs"
  shows "chain (ld (st m a v)) h xs = chain (ld m) h xs"
  using assms by (intro chain_cong ld_st_other) auto

lemma chain_push:
  assumes "chain (ld m) h xs" and "a \<noteq> 0" and "a mod 8 = 0"
    and "\<forall>x \<in> set xs. x mod 8 = 0" and "a \<notin> set xs"
  shows "chain (ld (st m a h)) a (a # xs)"
  using assms chain_st_other [OF assms(3,4,5)] by (simp add: ld_st_same)

end

interpretation ram64: dword_memory ld64 st64
  by unfold_locales simp_all

section \<open>Checked access from kernel code\<close>

text \<open>
  The kernel page table maps \<open>[KERNBASE, PHYSTOP)\<close> one to one; an access to RAM outside of it is
  a kernel page fault.
\<close>

record mstate =
  ram :: mem

definition ram_ok :: "u64 \<Rightarrow> nat \<Rightarrow> bool" where
  "ram_ok a n \<longleftrightarrow> KERNBASE \<le> a \<and> unat a + n \<le> unat PHYSTOP"

definition load64 :: "'a mstate_scheme \<Rightarrow> u64 \<Rightarrow> u64 kres" where
  "load64 s a = (if ram_ok a 8 then Inr (ld64 (ram s) a) else Inl (PageFault a))"

definition store64 :: "'a mstate_scheme \<Rightarrow> u64 \<Rightarrow> u64 \<Rightarrow> 'a mstate_scheme kres" where
  "store64 s a v = (if ram_ok a 8 then Inr (s\<lparr>ram := st64 (ram s) a v\<rparr>) else Inl (PageFault a))"

lemma null_faults [simp]: "load64 s 0 = Inl (PageFault 0)"
  by (simp add: load64_def ram_ok_def)

lemma store64_null_faults [simp]: "store64 s 0 v = Inl (PageFault 0)"
  by (simp add: store64_def ram_ok_def)

end
