(* ===== verification/Kstring.thy ===== *)
theory Kstring
  imports Ram
begin

text \<open>
  The routines of \<open>kernel/string.c\<close>, translated loop by loop over the byte memory, and what they
  compute: \<open>memset\<close> and \<open>memmove\<close> have closed forms (the latter also for overlapping ranges), the
  string routines agree with lists of bytes. A \<open>char\<close> is unsigned on RISC-V.
\<close>

section \<open>memset, memcmp, memmove\<close>

function memset_from :: "mem \<Rightarrow> u64 \<Rightarrow> u8 \<Rightarrow> nat \<Rightarrow> nat \<Rightarrow> mem" where
  "memset_from m cdst c i n =
     (if i < n then memset_from (m(cdst + of_nat i := c)) cdst c (i + 1) n else m)"
  by pat_completeness auto
termination
  by (relation "measure (\<lambda>(m, cdst, c, i, n). n - i)") auto

declare memset_from.simps [simp del]

definition memset :: "mem \<Rightarrow> u64 \<Rightarrow> u8 \<Rightarrow> nat \<Rightarrow> mem" where
  "memset m dst c n = memset_from m dst c 0 n"

fun memcmp :: "mem \<Rightarrow> u64 \<Rightarrow> u64 \<Rightarrow> nat \<Rightarrow> int" where
  "memcmp m s1 s2 0 = 0"
| "memcmp m s1 s2 (Suc n) =
     (if m s1 \<noteq> m s2 then uint (m s1) - uint (m s2) else memcmp m (s1 + 1) (s2 + 1) n)"

text \<open>\<open>while(n-- > 0) *--d = *--s;\<close> and \<open>while(n-- > 0) *d++ = *s++;\<close>\<close>

fun copy_down :: "mem \<Rightarrow> u64 \<Rightarrow> u64 \<Rightarrow> nat \<Rightarrow> mem" where
  "copy_down m d s 0 = m"
| "copy_down m d s (Suc n) = copy_down (m(d - 1 := m (s - 1))) (d - 1) (s - 1) n"

fun copy_up :: "mem \<Rightarrow> u64 \<Rightarrow> u64 \<Rightarrow> nat \<Rightarrow> mem" where
  "copy_up m d s 0 = m"
| "copy_up m d s (Suc n) = copy_up (m(d := m s)) (d + 1) (s + 1) n"

definition memmove :: "mem \<Rightarrow> u64 \<Rightarrow> u64 \<Rightarrow> nat \<Rightarrow> mem" where
  "memmove m dst src n =
     (if n = 0 then m
      else if src < dst \<and> src + of_nat n > dst
      then copy_down m (dst + of_nat n) (src + of_nat n) n
      else copy_up m dst src n)"

definition memcpy :: "mem \<Rightarrow> u64 \<Rightarrow> u64 \<Rightarrow> nat \<Rightarrow> mem" where
  "memcpy m dst src n = memmove m dst src n"

section \<open>Strings\<close>

fun strncmp :: "mem \<Rightarrow> u64 \<Rightarrow> u64 \<Rightarrow> nat \<Rightarrow> int" where
  "strncmp m p q 0 = 0"
| "strncmp m p q (Suc n) =
     (if m p \<noteq> 0 \<and> m p = m q then strncmp m (p + 1) (q + 1) n
      else uint (m p) - uint (m q))"

fun zero_fill :: "mem \<Rightarrow> u64 \<Rightarrow> nat \<Rightarrow> mem" where
  "zero_fill m s 0 = m"
| "zero_fill m s (Suc n) = zero_fill (m(s := 0)) (s + 1) n"

fun strncpy_loop :: "mem \<Rightarrow> u64 \<Rightarrow> u64 \<Rightarrow> nat \<Rightarrow> mem" where
  "strncpy_loop m s t 0 = m"
| "strncpy_loop m s t (Suc n) =
     (if m t \<noteq> 0 then strncpy_loop (m(s := m t)) (s + 1) (t + 1) n
      else zero_fill (m(s := m t)) (s + 1) n)"

definition strncpy :: "mem \<Rightarrow> u64 \<Rightarrow> u64 \<Rightarrow> int \<Rightarrow> mem" where
  "strncpy m s t n = strncpy_loop m s t (nat n)"

text \<open>The loop of \<open>safestrcpy\<close>; its last argument is the value of \<open>--n\<close>.\<close>

fun safestrcpy_loop :: "mem \<Rightarrow> u64 \<Rightarrow> u64 \<Rightarrow> nat \<Rightarrow> mem" where
  "safestrcpy_loop m s t 0 = m(s := 0)"
| "safestrcpy_loop m s t (Suc n) =
     (if m t \<noteq> 0 then safestrcpy_loop (m(s := m t)) (s + 1) (t + 1) n
      else (m(s := m t))(s + 1 := 0))"

definition safestrcpy :: "mem \<Rightarrow> u64 \<Rightarrow> u64 \<Rightarrow> int \<Rightarrow> mem" where
  "safestrcpy m s t n = (if n \<le> 0 then m else safestrcpy_loop m s t (nat (n - 1)))"

partial_function (option) strlen_from :: "mem \<Rightarrow> u64 \<Rightarrow> nat \<Rightarrow> nat option" where
  "strlen_from m s n = (if m (s + of_nat n) = 0 then Some n else strlen_from m s (n + 1))"

definition strlen :: "mem \<Rightarrow> u64 \<Rightarrow> nat option" where
  "strlen m s = strlen_from m s 0"

section \<open>Closed forms of memset and memmove\<close>

lemma eq_add_of_nat:
  fixes a c :: u64
  assumes "i < 2 ^ 64"
  shows "a = c + of_nat i \<longleftrightarrow> unat (a - c) = i"
proof
  assume "a = c + of_nat i"
  then show "unat (a - c) = i" using assms by (simp add: unat_of_nat)
next
  assume "unat (a - c) = i"
  then have "of_nat i = a - c" by auto
  then show "a = c + of_nat i" by simp
qed

lemma unat_minus_Suc:
  fixes a d :: u64
  assumes "a \<noteq> d"
  shows "unat (a - d) = Suc (unat (a - (d + 1)))"
proof -
  have "1 + (a - (d + 1)) = a - d" by simp
  moreover from this have "1 + (a - (d + 1)) \<noteq> 0" using assms by simp
  ultimately show ?thesis using unatSuc [of "a - (d + 1)"] by simp
qed

lemma memset_from_eq:
  "n \<le> 2 ^ 64 \<Longrightarrow>
   memset_from m cdst c i n = (\<lambda>a. if i \<le> unat (a - cdst) \<and> unat (a - cdst) < n then c else m a)"
proof (induction m cdst c i n rule: memset_from.induct)
  case (1 m cdst c i n)
  show ?case
  proof (cases "i < n")
    case True
    then have at: "\<And>a. a = cdst + of_nat i \<longleftrightarrow> unat (a - cdst) = i"
      using "1.prems" by (intro eq_add_of_nat) simp
    have "memset_from m cdst c i n = memset_from (m(cdst + of_nat i := c)) cdst c (i + 1) n"
      using True by (simp add: memset_from.simps [of m cdst c i n])
    also have "\<dots> = (\<lambda>a. if i + 1 \<le> unat (a - cdst) \<and> unat (a - cdst) < n then c
        else (m(cdst + of_nat i := c)) a)"
      using "1.IH" [OF True "1.prems"] .
    also have "\<dots> = (\<lambda>a. if i \<le> unat (a - cdst) \<and> unat (a - cdst) < n then c else m a)"
      using True by (auto simp: fun_eq_iff at)
    finally show ?thesis .
  next
    case False
    then show ?thesis by (auto simp: memset_from.simps [of m cdst c i n] fun_eq_iff)
  qed
qed

lemma memset_apply: "n \<le> 2 ^ 64 \<Longrightarrow> memset m dst c n a = (if unat (a - dst) < n then c else m a)"
  by (simp add: memset_def memset_from_eq)

lemma copy_up_eq:
  assumes "n < 2 ^ 64"
    and "\<And>k j. k < j \<Longrightarrow> j < n \<Longrightarrow> d + of_nat k \<noteq> s + of_nat j"
  shows "copy_up m d s n = (\<lambda>a. if unat (a - d) < n then m (s + (a - d)) else m a)"
  using assms
proof (induction n arbitrary: m d s)
  case 0
  then show ?case by simp
next
  case (Suc n)
  have safe: "d + 1 + of_nat k \<noteq> s + 1 + of_nat j" if "k < j" "j < n" for k j
    using Suc.prems(2) [of "Suc k" "Suc j"] that by (simp add: add.assoc)
  have IH: "copy_up (m(d := m s)) (d + 1) (s + 1) n =
      (\<lambda>a. if unat (a - (d + 1)) < n then (m(d := m s)) (s + 1 + (a - (d + 1)))
        else (m(d := m s)) a)"
    using Suc.prems(1) by (intro Suc.IH safe) auto
  show ?case
  proof
    fix a
    show "copy_up m d s (Suc n) a = (if unat (a - d) < Suc n then m (s + (a - d)) else m a)"
    proof (cases "a = d")
      case True
      have "unat (- 1 :: u64) = 2 ^ 64 - 1" by (simp add: unsigned_minus_1_eq_mask mask_eq_exp_minus_1)
      then have "\<not> unat (d - (d + 1)) < n" using Suc.prems(1) by simp
      with True IH show ?thesis by simp
    next
      case False
      then have pos: "unat (a - d) = Suc (unat (a - (d + 1)))"
        by (rule unat_minus_Suc)
      have "s + (a - d) \<noteq> d" if "unat (a - d) < Suc n"
      proof
        assume "s + (a - d) = d"
        then have "d + of_nat 0 = s + of_nat (unat (a - d))" by simp
        then show False using Suc.prems(2) [of 0 "unat (a - d)"] that pos by simp
      qed
      with False IH pos show ?thesis by (auto simp: algebra_simps)
    qed
  qed
qed

lemma copy_down_eq:
  assumes "n < 2 ^ 64"
    and "\<And>k j. j < k \<Longrightarrow> k < n \<Longrightarrow> d + of_nat k \<noteq> s + of_nat j"
  shows "copy_down m (d + of_nat n) (s + of_nat n) n =
    (\<lambda>a. if unat (a - d) < n then m (s + (a - d)) else m a)"
  using assms
proof (induction n arbitrary: m)
  case 0
  then show ?case by simp
next
  case (Suc n)
  let ?m = "m(d + of_nat n := m (s + of_nat n))"
  have IH: "copy_down ?m (d + of_nat n) (s + of_nat n) n =
      (\<lambda>a. if unat (a - d) < n then ?m (s + (a - d)) else ?m a)"
    using Suc.prems by (intro Suc.IH) auto
  have at: "\<And>a. a = d + of_nat n \<longleftrightarrow> unat (a - d) = n"
    using Suc.prems(1) by (intro eq_add_of_nat) simp
  show ?case
  proof
    fix a
    have "copy_down m (d + of_nat (Suc n)) (s + of_nat (Suc n)) (Suc n) a =
        (if unat (a - d) < n then ?m (s + (a - d)) else ?m a)"
      using IH by (simp add: algebra_simps)
    moreover have "s + (a - d) \<noteq> d + of_nat n" if "unat (a - d) < n"
    proof
      assume "s + (a - d) = d + of_nat n"
      then have "d + of_nat n = s + of_nat (unat (a - d))" by simp
      then show False using Suc.prems(2) [of "unat (a - d)" n] that by simp
    qed
    ultimately show "copy_down m (d + of_nat (Suc n)) (s + of_nat (Suc n)) (Suc n) a =
        (if unat (a - d) < Suc n then m (s + (a - d)) else m a)"
      using at [of a] by (auto simp: less_Suc_eq)
  qed
qed

text \<open>
  The overlap test of \<open>memmove\<close> picks the direction in which no source byte is overwritten before
  it is read, whenever neither range wraps around the address space.
\<close>

lemma memmove_apply:
  assumes "unat dst + n \<le> 2 ^ 64" and "unat src + n < 2 ^ 64"
  shows "memmove m dst src n a = (if unat (a - dst) < n then m (src + (a - dst)) else m a)"
proof (cases "n = 0")
  case True
  then show ?thesis by (simp add: memmove_def)
next
  case False
  have n: "n < 2 ^ 64" using assms(2) by simp
  have off: "unat (src + of_nat j) = unat src + j" if "j \<le> n" for j
    using that assms(2) by (simp add: unat_word_ariths unat_of_nat)
  have doff: "unat (dst + of_nat j) = unat dst + j" if "j < n" for j
    using that assms(1) by (simp add: unat_word_ariths unat_of_nat)
  show ?thesis
  proof (cases "src < dst \<and> src + of_nat n > dst")
    case True
    have "dst + of_nat k \<noteq> src + of_nat j" if "j < k" "k < n" for k j
    proof
      assume "dst + of_nat k = src + of_nat j"
      then have "unat dst + k = unat src + j" using off [of j] doff [of k] that by simp
      then show False using True that by (simp add: word_less_nat_alt)
    qed
    then show ?thesis using True False n by (simp add: memmove_def copy_down_eq)
  next
    case dir: False
    have "dst + of_nat k \<noteq> src + of_nat j" if "k < j" "j < n" for k j
    proof
      assume "dst + of_nat k = src + of_nat j"
      then have "unat dst + k = unat src + j" using off [of j] doff [of k] that by simp
      then show False using dir that off [of n] by (auto simp: word_less_nat_alt)
    qed
    then show ?thesis using dir False n by (auto simp: memmove_def copy_up_eq)
  qed
qed

section \<open>C strings\<close>

text \<open>\<open>cstr m p bs\<close>: the bytes \<open>bs\<close>, none of them NUL, are stored at \<open>p\<close> and a NUL follows.\<close>

fun cstr :: "mem \<Rightarrow> u64 \<Rightarrow> u8 list \<Rightarrow> bool" where
  "cstr m p [] = (m p = 0)"
| "cstr m p (b # bs) = (b \<noteq> 0 \<and> m p = b \<and> cstr m (p + 1) bs)"

lemma strlen_from_cstr: "cstr m (s + of_nat n) bs \<Longrightarrow> strlen_from m s n = Some (n + length bs)"
proof (induction bs arbitrary: n)
  case Nil
  then show ?case by (subst strlen_from.simps) simp
next
  case (Cons b bs)
  have "cstr m (s + of_nat (n + 1)) bs" using Cons.prems by (simp add: ac_simps)
  then have "strlen_from m s (n + 1) = Some (n + 1 + length bs)" by (rule Cons.IH)
  with Cons.prems show ?case by (subst strlen_from.simps) auto
qed

lemma strncmp_cstr:
  "cstr m p xs \<Longrightarrow> cstr m q ys \<Longrightarrow> strncmp m p q n = 0 \<longleftrightarrow> take n xs = take n ys"
proof (induction m p q n arbitrary: xs ys rule: strncmp.induct)
  case (1 m p q)
  then show ?case by simp
next
  case (2 m p q n)
  then show ?case by (cases xs; cases ys) (auto simp: uint_0_iff dest: unsigned_word_eqI)
qed

text \<open>\<open>in_range a s n\<close>: the address \<open>a\<close> is one of the \<open>n\<close> bytes at \<open>s\<close>.\<close>

definition in_range :: "u64 \<Rightarrow> u64 \<Rightarrow> nat \<Rightarrow> bool" where
  "in_range a s n \<longleftrightarrow> unat (a - s) < n"

lemma in_range_Suc: "in_range a s (Suc n) \<longleftrightarrow> a = s \<or> (a \<noteq> s \<and> in_range a (s + 1) n)"
  by (cases "a = s") (simp_all add: in_range_def unat_minus_Suc)

lemma not_in_range_self: "n < 2 ^ 64 \<Longrightarrow> \<not> in_range s (s + 1) n"
  by (simp add: in_range_def unsigned_minus_1_eq_mask mask_eq_exp_minus_1)

lemma cstr_cong:
  "(\<And>j. j \<le> length bs \<Longrightarrow> m (p + of_nat j) = m' (p + of_nat j)) \<Longrightarrow> cstr m p bs = cstr m' p bs"
proof (induction bs arbitrary: p)
  case Nil
  from Nil [of 0] show ?case by simp
next
  case (Cons b bs)
  have "m (p + 1 + of_nat j) = m' (p + 1 + of_nat j)" if "j \<le> length bs" for j
    using Cons.prems [of "Suc j"] that by (simp add: ac_simps)
  then have "cstr m (p + 1) bs = cstr m' (p + 1) bs" by (rule Cons.IH)
  with Cons.prems [of 0] show ?case by simp
qed

lemma cstr_upd:
  assumes "cstr m t bs" and "\<forall>j \<le> length bs. t + of_nat j \<noteq> s"
  shows "cstr (m(s := v)) t bs"
  using assms cstr_cong [of bs "m(s := v)" t m] by simp

lemma safestrcpy_loop_frame:
  "\<not> in_range a s (Suc n) \<Longrightarrow> safestrcpy_loop m s t n a = m a"
proof (induction n arbitrary: m s t)
  case 0
  then show ?case by (simp add: in_range_Suc)
next
  case (Suc n)
  from Suc.prems have "a \<noteq> s" and "\<not> in_range a (s + 1) (Suc n)" by (auto simp: in_range_Suc [of a s])
  then show ?case using Suc.IH by (auto simp: in_range_Suc)
qed

lemma safestrcpy_loop_cstr:
  "\<lbrakk> n < 2 ^ 64 - 1; cstr m t bs; \<forall>j \<le> length bs. \<not> in_range (t + of_nat j) s (Suc n) \<rbrakk> \<Longrightarrow>
   cstr (safestrcpy_loop m s t n) s (take n bs)"
proof (induction n arbitrary: m s t bs)
  case 0
  then show ?case by simp
next
  case (Suc n)
  show ?case
  proof (cases bs)
    case Nil
    then show ?thesis using Suc.prems by simp
  next
    case (Cons b bs')
    have far: "t + 1 + of_nat j \<noteq> s" "\<not> in_range (t + 1 + of_nat j) (s + 1) (Suc n)"
      if "j \<le> length bs'" for j
      using Suc.prems(3) [rule_format, of "Suc j"] that Cons
      by (auto simp: in_range_Suc [of _ s] ac_simps)
    have "n < 2 ^ 64 - 1" using Suc.prems(1) by simp
    moreover have "cstr (m(s := m t)) (t + 1) bs'"
      using Suc.prems(2) Cons far by (intro cstr_upd) auto
    moreover have "\<forall>j \<le> length bs'. \<not> in_range (t + 1 + of_nat j) (s + 1) (Suc n)"
      using far by blast
    ultimately have "cstr (safestrcpy_loop (m(s := m t)) (s + 1) (t + 1) n) (s + 1) (take n bs')"
      by (rule Suc.IH)
    moreover have "safestrcpy_loop (m(s := m t)) (s + 1) (t + 1) n s = m t"
      using safestrcpy_loop_frame [OF not_in_range_self] Suc.prems(1) by simp
    ultimately show ?thesis using Suc.prems(2) Cons by auto
  qed
qed

lemma zero_fill_apply: "n < 2 ^ 64 \<Longrightarrow> zero_fill m s n a = (if in_range a s n then 0 else m a)"
proof (induction n arbitrary: m s)
  case 0
  then show ?case by (simp add: in_range_def)
next
  case (Suc n)
  then show ?case using not_in_range_self [of n s] by (auto simp: in_range_Suc)
qed

lemma strncpy_loop_frame: "n < 2 ^ 64 \<Longrightarrow> \<not> in_range a s n \<Longrightarrow> strncpy_loop m s t n a = m a"
proof (induction n arbitrary: m s t)
  case 0
  then show ?case by simp
next
  case (Suc n)
  then show ?case by (auto simp: in_range_Suc [of a s] zero_fill_apply)
qed

text \<open>The field \<open>strncpy\<close> leaves behind: the string, cut at \<open>n\<close> bytes or padded with NULs to \<open>n\<close>.\<close>

definition padded :: "nat \<Rightarrow> u8 list \<Rightarrow> u8 list" where
  "padded n bs = take n (bs @ replicate n 0)"

lemma padded_Cons: "padded (Suc n) (b # bs) = b # padded n bs"
  by (simp add: padded_def take_replicate min_def del: replicate_Suc)

lemma padded_Nil: "padded n [] = replicate n 0"
  by (simp add: padded_def)

lemma strncpy_loop_padded:
  "\<lbrakk> n < 2 ^ 64; cstr m t bs; \<forall>j \<le> length bs. \<not> in_range (t + of_nat j) s n; i < n \<rbrakk> \<Longrightarrow>
   strncpy_loop m s t n (s + of_nat i) = padded n bs ! i"
proof (induction n arbitrary: m s t bs i)
  case 0
  then show ?case by simp
next
  case (Suc n)
  have self: "strncpy_loop m' (s + 1) t' n s = m' s" for m' t'
    using Suc.prems(1) not_in_range_self by (intro strncpy_loop_frame) auto
  show ?case
  proof (cases bs)
    case Nil
    have "unat (of_nat i :: u64) = i" using Suc.prems by (simp add: unat_of_nat)
    then have "in_range (s + of_nat i) s (Suc n)" using Suc.prems by (simp add: in_range_def)
    then have "s + of_nat i = s \<or> in_range (s + of_nat i) (s + 1) n" by (auto simp: in_range_Suc)
    then show ?thesis using Suc.prems Nil by (auto simp: padded_Nil zero_fill_apply simp del: replicate_Suc)
  next
    case (Cons b bs')
    have far: "t + 1 + of_nat j \<noteq> s" "\<not> in_range (t + 1 + of_nat j) (s + 1) n"
      if "j \<le> length bs'" for j
      using Suc.prems(3) [rule_format, of "Suc j"] that Cons
      by (auto simp: in_range_Suc [of _ s] ac_simps)
    have "n < 2 ^ 64" using Suc.prems(1) by simp
    moreover have "cstr (m(s := m t)) (t + 1) bs'"
      using Suc.prems(2) Cons far by (intro cstr_upd) auto
    moreover have "\<forall>j \<le> length bs'. \<not> in_range (t + 1 + of_nat j) (s + 1) n"
      using far by blast
    ultimately have "strncpy_loop (m(s := m t)) (s + 1) (t + 1) n (s + 1 + of_nat k) = padded n bs' ! k"
      if "k < n" for k
      using that by (rule Suc.IH)
    then show ?thesis using Suc.prems Cons self [of "m(s := m t)" "t + 1"]
      by (cases i) (auto simp: padded_Cons ac_simps)
  qed
qed

section \<open>Whole pages\<close>

lemma offset_less_PGSIZE:
  assumes "page_aligned p"
  shows "unat (a - p) < 4096 \<longleftrightarrow> PGROUNDDOWN a = p"
proof
  assume "unat (a - p) < 4096"
  then have "a - p < 4096" by (simp add: word_less_nat_alt)
  then have "PGROUNDDOWN (p + (a - p)) = p" using assms by (intro PGROUNDDOWN_add)
  then show "PGROUNDDOWN a = p" by simp
next
  assume "PGROUNDDOWN a = p"
  then have "a - p < 4096" using PGROUNDDOWN_offset [of a] mod_PGSIZE_less [of a] by simp
  then show "unat (a - p) < 4096" by (simp add: word_less_nat_alt)
qed

lemma memset_page:
  "page_aligned p \<Longrightarrow> memset m p c 4096 a = (if PGROUNDDOWN a = p then c else m a)"
  by (simp add: memset_apply offset_less_PGSIZE)

lemma ld64_in_page:
  assumes "a mod 8 = 0" and "\<And>x. PGROUNDDOWN x = PGROUNDDOWN a \<Longrightarrow> m x = m' x"
  shows "ld64 m a = ld64 m' a"
proof (rule ld64_cong)
  fix x :: u64 assume "x < 8"
  have "bit (PGROUNDDOWN (a + x)) n = bit (PGROUNDDOWN a) n" for n
    using less_exp_bit [of x 3 n] \<open>x < 8\<close>
    unfolding dword_or [OF assms(1) \<open>x < 8\<close>] by (auto simp: bit_PGROUNDDOWN bit_or_iff)
  then have "PGROUNDDOWN (a + x) = PGROUNDDOWN a" by (intro bit_word_eqI)
  then show "m (a + x) = m' (a + x)" by (rule assms(2))
qed

lemma st64_frame:
  assumes "a mod 8 = 0" and "PGROUNDDOWN x \<noteq> PGROUNDDOWN a"
  shows "st64 m a v x = m x"
proof -
  have "\<not> x - a < 8"
  proof
    assume lt: "x - a < 8"
    have "bit (PGROUNDDOWN (a + (x - a))) n = bit (PGROUNDDOWN a) n" for n
      using less_exp_bit [of "x - a" 3 n] lt
      unfolding dword_or [OF assms(1) lt] by (auto simp: bit_PGROUNDDOWN bit_or_iff)
    then have "PGROUNDDOWN (a + (x - a)) = PGROUNDDOWN a" by (intro bit_word_eqI)
    with assms(2) show False by simp
  qed
  then show ?thesis by (simp add: st64_def)
qed

section \<open>The memory routines in kernel code\<close>

definition kmemset :: "'a mstate_scheme \<Rightarrow> u64 \<Rightarrow> u8 \<Rightarrow> nat \<Rightarrow> 'a mstate_scheme kres" where
  "kmemset s dst c n =
     (if ram_ok dst n then Inr (s\<lparr>ram := memset (ram s) dst c n\<rparr>) else Inl (PageFault dst))"

definition kmemmove :: "'a mstate_scheme \<Rightarrow> u64 \<Rightarrow> u64 \<Rightarrow> nat \<Rightarrow> 'a mstate_scheme kres" where
  "kmemmove s dst src n =
     (if \<not> ram_ok src n then Inl (PageFault src)
      else if \<not> ram_ok dst n then Inl (PageFault dst)
      else Inr (s\<lparr>ram := memmove (ram s) dst src n\<rparr>))"

section \<open>Properties\<close>

text \<open>
  C17. \<open>memmove\<close> copies the \<open>n\<close> bytes at \<open>src\<close>, as they were before the call, to \<open>dst\<close> and changes no other
  byte, however the two ranges overlap.
\<close>

theorem memmove_copies:
  assumes "unat dst + n \<le> 2 ^ 64" and "unat src + n < 2 ^ 64"
  shows "memmove m dst src n = (\<lambda>a. if in_range a dst n then m (src + (a - dst)) else m a)"
  using memmove_apply [OF assms] by (simp add: fun_eq_iff in_range_def)

theorem memmove_copies_witness:
  "memmove (\<lambda>a. ucast a) 12 10 4 13 = 11 \<and> memmove (\<lambda>a. ucast a) 10 12 4 13 = (15 :: u8)"
  using memmove_copies [of 12 4 10 "\<lambda>a. ucast a"] memmove_copies [of 10 4 12 "\<lambda>a. ucast a"]
  by (simp add: in_range_def)

text \<open>
  C18. \<open>safestrcpy\<close> leaves a NUL-terminated string at \<open>s\<close>, the first \<open>n - 1\<close> bytes of the source string,
  and writes nowhere but to the \<open>n\<close> bytes at \<open>s\<close>.
\<close>

theorem safestrcpy_terminates_string:
  assumes "0 < n" and "n < 2 ^ 31" and "cstr m t bs"
    and "\<forall>j \<le> length bs. \<not> in_range (t + of_nat j) s (nat n)"
  shows "cstr (safestrcpy m s t n) s (take (nat n - 1) bs) \<and>
    (\<forall>a. \<not> in_range a s (nat n) \<longrightarrow> safestrcpy m s t n a = m a)"
proof -
  have n: "nat n = Suc (nat (n - 1))" "nat (n - 1) = nat n - 1" using assms(1) by auto
  have "nat (n - 1) < 2 ^ 64 - 1" using assms(1,2) by auto
  then show ?thesis
    using assms safestrcpy_loop_cstr [of "nat (n - 1)" m t bs s] safestrcpy_loop_frame
    unfolding n(1) by (simp add: safestrcpy_def)
qed

theorem safestrcpy_witness:
  "cstr (safestrcpy ((\<lambda>_. 7)(100 := 65, 101 := 66, 102 := 67, 103 := 0)) 200 100 3) 200 [65, 66]"
proof -
  let ?m = "((\<lambda>_. 7)(100 := 65, 101 := 66, 102 := 67, 103 := 0)) :: mem"
  have "\<not> in_range (100 + of_nat j) 200 3" if "j \<le> 3" for j
  proof -
    have "j \<in> {0, 1, 2, 3}" using that by auto
    then show ?thesis by (auto simp: in_range_def)
  qed
  moreover have "cstr ?m 100 [65, 66, 67]" by simp
  ultimately show ?thesis using safestrcpy_terminates_string [of 3 ?m 100 "[65, 66, 67]" 200] by simp
qed

end
