(* ===== verification/Kalloc.thy ===== *)
theory Kalloc
  imports Kstring
begin

text \<open>
  The physical page allocator, \<open>kernel/kalloc.c\<close>: a free list threaded through the free pages
  themselves and, for copy-on-write, an 8-bit reference count per page. Each operation runs
  under \<open>kmem.lock\<close> and is one step here. The contract that the rest of the kernel relies on is the
  locale \<open>page_allocator\<close>, interpreted on the model at the end.
\<close>

section \<open>State and operations\<close>

text \<open>\<open>kend\<close> is the linker symbol \<open>end\<close>, the first address after the kernel image.\<close>

record kmem = mstate +
  kend :: u64
  freelist :: u64
  refer_count :: "u64 \<Rightarrow> u8"

definition ref_index :: "u64 \<Rightarrow> u64" where
  "ref_index pa = (pa - KERNBASE) div PGSIZE"

definition bad_page :: "'a kmem_scheme \<Rightarrow> u64 \<Rightarrow> bool" where
  "bad_page s pa \<longleftrightarrow> pa mod PGSIZE \<noteq> 0 \<or> pa < kend s \<or> pa \<ge> PHYSTOP"

text \<open>\<open>kfree\<close>: the count drops first; at zero the page is filled with junk and pushed on the list.\<close>

definition kfree :: "'a kmem_scheme \<Rightarrow> u64 \<Rightarrow> 'a kmem_scheme kres" where
  "kfree s pa =
     (if bad_page s pa then Inl (Panic ''kfree'')
      else
        let c = refer_count s (ref_index pa) - 1;
            s = s\<lparr>refer_count := (refer_count s)(ref_index pa := c)\<rparr>
        in if c > 0 then Inr s
           else kbind (kmemset s pa 1 4096) (\<lambda>s.
             kbind (store64 s pa (freelist s)) (\<lambda>s.
             Inr (s\<lparr>freelist := pa\<rparr>))))"

definition kalloc :: "'a kmem_scheme \<Rightarrow> (u64 \<times> 'a kmem_scheme) kres" where
  "kalloc s =
     (let r = freelist s in
      if r \<noteq> 0 then
        kbind (load64 s r) (\<lambda>nxt.
        let s = s\<lparr>freelist := nxt, refer_count := (refer_count s)(ref_index r := 1)\<rparr> in
        kbind (kmemset s r 5 4096) (\<lambda>s.
        Inr (r, s)))
      else Inr (r, s))"

definition increase_refer :: "'a kmem_scheme \<Rightarrow> u64 \<Rightarrow> 'a kmem_scheme kres" where
  "increase_refer s pa =
     (if bad_page s pa then Inl (Panic ''increase_refer'')
      else Inr (s\<lparr>refer_count :=
        (refer_count s)(ref_index pa := refer_count s (ref_index pa) + 1)\<rparr>))"

definition get_refcount :: "'a kmem_scheme \<Rightarrow> u64 \<Rightarrow> int kres" where
  "get_refcount s pa =
     (if bad_page s pa then Inl (Panic ''get_refcount'')
      else Inr (uint (refer_count s (ref_index pa))))"

lemma kfree_in_range: "kfree s pa = Inr s' \<Longrightarrow> pa < PHYSTOP"
  by (auto simp: kfree_def bad_page_def split: if_splits)

function freerange_loop :: "'a kmem_scheme \<Rightarrow> u64 \<Rightarrow> u64 \<Rightarrow> 'a kmem_scheme kres" where
  "freerange_loop s p pa_end =
     (if p + PGSIZE \<le> pa_end then
        kbind (kfree (s\<lparr>refer_count := (refer_count s)(ref_index p := 1)\<rparr>) p) (\<lambda>s.
        freerange_loop s (p + PGSIZE) pa_end)
      else Inr s)"
  by pat_completeness auto
termination
proof (relation "measure (\<lambda>(s, p, pa_end). 2 ^ 64 - unat p)", goal_cases)
  case 1
  then show ?case by simp
next
  case (2 s p pa_end s')
  then have "p < PHYSTOP" by (blast dest: kfree_in_range)
  then have "unat p < 0x88000000" by (simp add: word_less_nat_alt)
  then have "unat (p + PGSIZE) = unat p + 4096"
    by (simp add: unat_word_ariths)
  then show ?case using \<open>unat p < 0x88000000\<close> by simp
qed

declare freerange_loop.simps [simp del]

definition freerange :: "'a kmem_scheme \<Rightarrow> u64 \<Rightarrow> u64 \<Rightarrow> 'a kmem_scheme kres" where
  "freerange s pa_start pa_end = freerange_loop s (PGROUNDUP pa_start) pa_end"

definition kinit :: "'a kmem_scheme \<Rightarrow> 'a kmem_scheme kres" where
  "kinit s = freerange s (kend s) PHYSTOP"

section \<open>The invariant\<close>

definition kpage :: "'a kmem_scheme \<Rightarrow> u64 \<Rightarrow> bool" where
  "kpage s p \<longleftrightarrow> page_aligned p \<and> kend s \<le> p \<and> p < PHYSTOP"

definition refcnt :: "'a kmem_scheme \<Rightarrow> u64 \<Rightarrow> nat" where
  "refcnt s p = unat (refer_count s (ref_index p))"

definition kend_ok :: "'a kmem_scheme \<Rightarrow> bool" where
  "kend_ok s \<longleftrightarrow> KERNBASE \<le> kend s \<and> kend s \<le> PHYSTOP"

text \<open>
  The free list is a proper null-terminated list in memory without repetition, and it holds exactly
  the managed pages whose reference count is zero: no page is leaked, none is handed out twice.
\<close>

definition free_pages :: "'a kmem_scheme \<Rightarrow> u64 set" where
  "free_pages s = {p. kpage s p \<and> refcnt s p = 0}"

definition kmem_inv :: "'a kmem_scheme \<Rightarrow> bool" where
  "kmem_inv s \<longleftrightarrow> kend_ok s \<and>
     (\<exists>fl. chain (ld64 (ram s)) (freelist s) fl \<and> distinct fl \<and> set fl = free_pages s)"

lemma bad_page_iff: "bad_page s p \<longleftrightarrow> \<not> kpage s p"
  unfolding bad_page_def kpage_def page_aligned_def by (meson not_le)

lemma ref_index_inj:
  assumes "page_aligned p" "page_aligned q" "KERNBASE \<le> p" "KERNBASE \<le> q"
  shows "ref_index p = ref_index q \<longleftrightarrow> p = q"
proof
  have idx: "unat (ref_index x) * 4096 + 0x80000000 = unat x" if "page_aligned x" "KERNBASE \<le> x" for x
  proof -
    have "4096 dvd unat x" using that(1) by (simp add: page_aligned_unat dvd_eq_mod_eq_0)
    moreover have "(4096 :: nat) dvd 0x80000000" by simp
    ultimately have "4096 dvd unat x - 0x80000000" by (rule dvd_diff_nat)
    moreover have "unat (ref_index x) = (unat x - 0x80000000) div 4096"
      using that(2) by (simp add: ref_index_def unat_div unat_sub)
    moreover have "0x80000000 \<le> unat x" using that(2) by (simp add: word_le_nat_alt)
    ultimately show ?thesis by simp
  qed
  assume "ref_index p = ref_index q"
  then have "unat p = unat q" using idx [of p] idx [of q] assms by simp
  then show "p = q" by (simp add: word_unat_eq_iff)
qed simp

lemma kpage_ref_index:
  "kend_ok s \<Longrightarrow> kpage s p \<Longrightarrow> kpage s q \<Longrightarrow> ref_index p = ref_index q \<longleftrightarrow> p = q"
  by (rule ref_index_inj) (auto simp: kpage_def kend_ok_def)

lemma kpage_nonzero: "kend_ok s \<Longrightarrow> kpage s p \<Longrightarrow> p \<noteq> 0"
  by (auto simp: kpage_def kend_ok_def)

lemma page_mod8: "page_aligned p \<Longrightarrow> p mod 8 = 0"
proof -
  assume "page_aligned p"
  then have "\<forall>n<12. \<not> bit p n" unfolding page_aligned_iff .
  then have "take_bit 3 p = 0" by (auto simp: bit_eq_iff bit_simps)
  then show "p mod 8 = 0" by (simp add: take_bit_eq_mod)
qed

lemma kpage_ram_ok:
  assumes "kend_ok s" and "kpage s p" and "n \<le> 4096"
  shows "ram_ok p n"
proof -
  have "4096 dvd unat p" using assms(2) by (simp add: kpage_def page_aligned_unat dvd_eq_mod_eq_0)
  then obtain k where k: "unat p = 4096 * k" by blast
  have "unat p < 0x88000000" using assms(2) by (simp add: kpage_def word_less_nat_alt)
  then have "unat p + 4096 \<le> 0x88000000" using k by simp
  then show ?thesis using assms by (auto simp: ram_ok_def kpage_def kend_ok_def)
qed

section \<open>What the operations do\<close>

lemma kpage_aligned: "kpage s p \<Longrightarrow> page_aligned p"
  by (simp add: kpage_def)

lemma refcnt_upd:
  assumes "kend_ok s" and "kpage s p" and "kpage s q" and "kend s' = kend s"
    and "refer_count s' = (refer_count s)(ref_index p := c)"
  shows "refcnt s' q = (if q = p then unat c else refcnt s q)"
  using assms kpage_ref_index [of s q p] by (simp add: refcnt_def)

lemma kpage_cong: "kend s' = kend s \<Longrightarrow> kpage s' p = kpage s p"
  by (simp add: kpage_def)

lemma kend_ok_cong: "kend s' = kend s \<Longrightarrow> kend_ok s' = kend_ok s"
  by (simp add: kend_ok_def)

lemma ld64_kpage_frame:
  assumes "kpage s q" and "\<And>a. PGROUNDDOWN a = q \<Longrightarrow> m a = m' a"
  shows "ld64 m q = ld64 m' q"
  using assms by (intro ld64_in_page) (simp_all add: kpage_def page_mod8)

lemma chain_frame:
  assumes "\<forall>q \<in> set fl. kpage s q \<and> (\<forall>a. PGROUNDDOWN a = q \<longrightarrow> m a = m' a)"
  shows "chain (ld64 m) h fl = chain (ld64 m') h fl"
  using assms by (intro chain_cong ld64_kpage_frame) auto

text \<open>Without a free page \<open>kalloc\<close> returns the null pointer and changes nothing.\<close>

lemma kalloc_none:
  assumes "kmem_inv s" and "free_pages s = {}"
  shows "kalloc s = Inr (0, s)"
proof -
  obtain fl where "chain (ld64 (ram s)) (freelist s) fl" "set fl = free_pages s"
    using assms(1) by (auto simp: kmem_inv_def)
  then have "freelist s = 0" using assms(2) by simp
  then show ?thesis by (simp add: kalloc_def)
qed

text \<open>Otherwise it unlinks the first page of the list, gives it one reference and fills it with junk.\<close>

definition kalloc_post :: "'a kmem_scheme \<Rightarrow> u64 \<Rightarrow> 'a kmem_scheme" where
  "kalloc_post s p = s\<lparr>ram := memset (ram s) p 5 4096, freelist := ld64 (ram s) p,
     refer_count := (refer_count s)(ref_index p := 1)\<rparr>"

lemma kalloc_post_sel [simp]:
  "kend (kalloc_post s p) = kend s"
  "ram (kalloc_post s p) = memset (ram s) p 5 4096"
  "freelist (kalloc_post s p) = ld64 (ram s) p"
  "refer_count (kalloc_post s p) = (refer_count s)(ref_index p := 1)"
  "kmem.more (kalloc_post s p) = kmem.more s"
  by (simp_all add: kalloc_post_def)

lemma kalloc_some:
  assumes "kmem_inv s" and "free_pages s \<noteq> {}"
  obtains p where "kalloc s = Inr (p, kalloc_post s p)" and "p \<in> free_pages s"
    and "kmem_inv (kalloc_post s p)"
    and "free_pages (kalloc_post s p) = free_pages s - {p}"
proof -
  from assms(1) have kend: "kend_ok s" by (simp add: kmem_inv_def)
  from assms(1) obtain fl where fl: "chain (ld64 (ram s)) (freelist s) fl" "distinct fl"
    "set fl = free_pages s"
    by (auto simp: kmem_inv_def)
  with assms(2) obtain p ps where ps: "fl = p # ps" by (cases fl) auto
  let ?s = "kalloc_post s p"
  have p: "p \<in> free_pages s" and kp: "kpage s p" using fl(3) ps by (auto simp: free_pages_def)
  have rest: "kpage s q" "q \<noteq> p" if "q \<in> set ps" for q
    using fl(2,3) ps that by (auto simp: free_pages_def)
  have "kalloc s = Inr (p, ?s)"
    using fl(1) ps kpage_ram_ok [OF kend kp]
    by (auto simp: kalloc_def load64_def kmemset_def kalloc_post_def)
  moreover have free: "free_pages ?s = free_pages s - {p}"
    using refcnt_upd [OF kend kp, of _ ?s 1] kp
    by (auto simp: free_pages_def kpage_cong [of ?s s] split: if_splits)
  moreover have "kmem_inv ?s"
  proof -
    have "chain (ld64 (ram ?s)) (freelist ?s) ps = chain (ld64 (ram s)) (freelist ?s) ps"
      using rest kp by (intro chain_frame [where s = s])
        (auto simp: memset_page kpage_aligned)
    then have "chain (ld64 (ram ?s)) (freelist ?s) ps"
      using fl(1) ps by simp
    moreover have "distinct ps" "set ps = free_pages ?s"
      using fl(2,3) ps free by auto
    moreover have "kend_ok ?s" using kend by (simp add: kend_ok_def)
    ultimately show ?thesis by (auto simp: kmem_inv_def)
  qed
  ultimately show thesis using that p by blast
qed

text \<open>
  \<open>kfree\<close> of a page with several references drops one; of a page with one reference puts it on the
  free list. A count of zero wraps to 255: a double free leaves the list alone.
\<close>

definition kfree_dec :: "'a kmem_scheme \<Rightarrow> u64 \<Rightarrow> 'a kmem_scheme" where
  "kfree_dec s p = s\<lparr>refer_count := (refer_count s)(ref_index p := refer_count s (ref_index p) - 1)\<rparr>"

definition kfree_push :: "'a kmem_scheme \<Rightarrow> u64 \<Rightarrow> 'a kmem_scheme" where
  "kfree_push s p = s\<lparr>ram := st64 (memset (ram s) p 1 4096) p (freelist s), freelist := p\<rparr>"

lemma kfree_dec_sel [simp]:
  "kend (kfree_dec s p) = kend s"
  "ram (kfree_dec s p) = ram s"
  "freelist (kfree_dec s p) = freelist s"
  "refer_count (kfree_dec s p) = (refer_count s)(ref_index p := refer_count s (ref_index p) - 1)"
  "kmem.more (kfree_dec s p) = kmem.more s"
  by (simp_all add: kfree_dec_def)

lemma kfree_push_sel [simp]:
  "kend (kfree_push s p) = kend s"
  "ram (kfree_push s p) = st64 (memset (ram s) p 1 4096) p (freelist s)"
  "freelist (kfree_push s p) = p"
  "refer_count (kfree_push s p) = refer_count s"
  "kmem.more (kfree_push s p) = kmem.more s"
  by (simp_all add: kfree_push_def)

lemma kfree_shared:
  assumes "kpage s p" and "refcnt s p \<noteq> 1"
  shows "kfree s p = Inr (kfree_dec s p)"
proof -
  have "refer_count s (ref_index p) - 1 > 0"
    using assms(2) by (metis refcnt_def unat_1 eq_iff_diff_eq_0 word_gt_0)
  then show ?thesis using assms(1) by (simp add: kfree_def bad_page_iff kfree_dec_def Let_def)
qed

lemma kfree_last:
  assumes "kend_ok s" and "kpage s p" and "refcnt s p = 1"
  shows "kfree s p = Inr (kfree_push (kfree_dec s p) p)"
proof -
  have "refer_count s (ref_index p) = 1"
    using assms(3) by (metis refcnt_def unat_1 word_unat_eq_iff)
  then show ?thesis using assms(2) kpage_ram_ok [OF assms(1,2)]
    by (simp add: kfree_def bad_page_iff kfree_dec_def kfree_push_def kmemset_def store64_def Let_def)
qed

lemma free_pages_dec:
  assumes "kend_ok s" and "kpage s p" and "0 < refcnt s p"
  shows "free_pages (kfree_dec s p) = (if refcnt s p = 1 then insert p (free_pages s) else free_pages s)"
proof -
  have "unat (refer_count s (ref_index p) - 1) = refcnt s p - 1"
    using assms(3) by (simp add: refcnt_def unat_minus_one unat_gt_0)
  then have cnt: "refcnt (kfree_dec s p) q = (if q = p then refcnt s p - 1 else refcnt s q)"
    if "kpage s q" for q
    using refcnt_upd [OF assms(1,2) that, of "kfree_dec s p"] by simp
  show ?thesis
    using assms cnt by (auto simp: free_pages_def kpage_cong [of "kfree_dec s p" s] split: if_splits)
qed

lemma kfree_inv:
  assumes "kmem_inv s" and "kpage s p" and "0 < refcnt s p"
  obtains s' where "kfree s p = Inr s'" and "kmem_inv s'"
    and "free_pages s' = (if refcnt s p = 1 then insert p (free_pages s) else free_pages s)"
    and "s' = (if refcnt s p = 1 then kfree_push (kfree_dec s p) p else kfree_dec s p)"
proof -
  from assms(1) have kend: "kend_ok s" by (simp add: kmem_inv_def)
  from assms(1) obtain fl where fl: "chain (ld64 (ram s)) (freelist s) fl" "distinct fl"
    "set fl = free_pages s"
    by (auto simp: kmem_inv_def)
  note free = free_pages_dec [OF kend assms(2,3)]
  show thesis
  proof (cases "refcnt s p = 1")
    case False
    have "kmem_inv (kfree_dec s p)"
      using fl kend free False by (auto simp: kmem_inv_def kend_ok_def)
    with False free kfree_shared [OF assms(2)] show thesis by (intro that) auto
  next
    case True
    let ?s = "kfree_push (kfree_dec s p) p"
    have pages: "kpage s q" "q \<noteq> p" if "q \<in> set fl" for q
      using fl(3) that assms(3) by (auto simp: free_pages_def)
    have "chain (ld64 (memset (ram s) p 1 4096)) (freelist s) fl"
      using fl(1) pages assms(2)
      by (subst chain_frame [where s = s and m' = "ram s"]) (auto simp: memset_page kpage_aligned)
    then have "chain (ld64 (ram ?s)) p (p # fl)"
      unfolding kfree_push_sel kfree_dec_sel
      using pages assms(2) kpage_nonzero [OF kend]
      by (intro ram64.chain_push) (auto intro: page_mod8 kpage_aligned)
    moreover have "free_pages ?s = insert p (free_pages s)"
      using free True by (simp add: free_pages_def kpage_def refcnt_def)
    moreover have "p \<notin> set fl" using pages(2) by blast
    ultimately have "kmem_inv ?s"
      using fl kend by (auto simp: kmem_inv_def kend_ok_def intro!: exI [of _ "p # fl"])
    with True \<open>free_pages ?s = _\<close> kfree_last [OF kend assms(2)] show thesis by (intro that) auto
  qed
qed

lemma increase_refer_inv:
  assumes "kmem_inv s" and "kpage s p" and "0 < refcnt s p" and "refcnt s p < 255"
  obtains s' where "increase_refer s p = Inr s'" and "kmem_inv s'"
    and "free_pages s' = free_pages s"
    and "s' = s\<lparr>refer_count := (refer_count s)(ref_index p := refer_count s (ref_index p) + 1)\<rparr>"
    and "refcnt s' p = refcnt s p + 1"
proof -
  from assms(1) have kend: "kend_ok s" by (simp add: kmem_inv_def)
  let ?s = "s\<lparr>refer_count := (refer_count s)(ref_index p := refer_count s (ref_index p) + 1)\<rparr>"
  have "unat (refer_count s (ref_index p) + 1) = refcnt s p + 1"
    using assms(4) by (simp add: refcnt_def unat_word_ariths)
  then have cnt: "refcnt ?s q = (if q = p then refcnt s p + 1 else refcnt s q)" if "kpage s q" for q
    using refcnt_upd [OF kend assms(2) that, of ?s] by simp
  have free: "free_pages ?s = free_pages s"
    using assms(2,3) cnt by (auto simp: free_pages_def kpage_cong [of ?s s] split: if_splits)
  have "kmem_inv ?s" using assms(1) free by (simp add: kmem_inv_def kend_ok_def)
  moreover have "increase_refer s p = Inr ?s"
    using assms(2) by (simp add: increase_refer_def bad_page_iff)
  ultimately show thesis using free cnt [OF assms(2)] by (intro that) auto
qed

text \<open>Writing to pages that are not free does not disturb the allocator.\<close>

lemma kmem_inv_ram_frame:
  assumes "kmem_inv s" and "\<forall>a. PGROUNDDOWN a \<in> free_pages s \<longrightarrow> m a = ram s a"
  shows "kmem_inv (s\<lparr>ram := m\<rparr>)"
proof -
  obtain fl where fl: "chain (ld64 (ram s)) (freelist s) fl" "distinct fl" "set fl = free_pages s"
    using assms(1) by (auto simp: kmem_inv_def)
  have "chain (ld64 m) (freelist s) fl"
    using fl assms(2) by (subst chain_frame [where s = s and m' = "ram s"]) (auto simp: free_pages_def)
  moreover have "free_pages (s\<lparr>ram := m\<rparr>) = free_pages s"
    by (simp add: free_pages_def kpage_def refcnt_def)
  ultimately show ?thesis using fl assms(1) by (auto simp: kmem_inv_def kend_ok_def)
qed

lemma free_pages_ram [simp]: "free_pages (s\<lparr>ram := m\<rparr>) = free_pages s"
  by (simp add: free_pages_def kpage_def refcnt_def)

lemma refcnt_ram [simp]: "refcnt (s\<lparr>ram := m\<rparr>) p = refcnt s p"
  by (simp add: refcnt_def)

lemma kpage_ram [simp]: "kpage (s\<lparr>ram := m\<rparr>) p = kpage s p"
  by (simp add: kpage_def)

lemma kmem_inv_kend_ok: "kmem_inv s \<Longrightarrow> kend_ok s"
  by (simp add: kmem_inv_def)

lemma refcnt_kalloc_post:
  assumes "kend_ok s" and "kpage s p" and "kpage s q"
  shows "refcnt (kalloc_post s p) q = (if q = p then 1 else refcnt s q)"
  using refcnt_upd [OF assms, of "kalloc_post s p" 1] by simp

section \<open>Initialisation\<close>

lemma kpage_below_next:
  assumes "page_aligned p" and "p < PHYSTOP" and "kpage s q"
  shows "q < p + PGSIZE \<longleftrightarrow> q \<le> p"
proof -
  have "4096 dvd unat p" "4096 dvd unat q"
    using assms by (simp_all add: kpage_def page_aligned_unat dvd_eq_mod_eq_0)
  then obtain i j where "unat p = 4096 * i" "unat q = 4096 * j" by blast
  moreover have "unat p < 0x88000000" using assms(2) by (simp add: word_less_nat_alt)
  moreover from this have "unat (p + PGSIZE) = unat p + 4096" by (simp add: unat_word_ariths)
  ultimately show ?thesis by (auto simp: word_less_nat_alt word_le_nat_alt)
qed

lemma freerange_step:
  assumes "kend_ok s" and "chain (ld64 (ram s)) (freelist s) fl" and "distinct fl"
    and "set fl = {q. kpage s q \<and> q < p}" and "\<forall>q. kpage s q \<longrightarrow> refcnt s q = 0" and "kpage s p"
  defines "s1 \<equiv> s\<lparr>refer_count := (refer_count s)(ref_index p := 1)\<rparr>"
  defines "s2 \<equiv> kfree_push (kfree_dec s1 p) p"
  shows "kfree s1 p = Inr s2" and "kend s2 = kend s"
    and "chain (ld64 (ram s2)) (freelist s2) (p # fl)"
    and "set (p # fl) = {q. kpage s2 q \<and> q < p + PGSIZE}" and "p \<notin> set fl"
    and "\<forall>q. kpage s2 q \<longrightarrow> refcnt s2 q = 0"
proof -
  have kp1: "kpage s1 p" and kend1: "kend_ok s1" using assms by (simp_all add: kpage_def kend_ok_def)
  have "refcnt s1 p = 1" by (simp add: s1_def refcnt_def)
  then show "kfree s1 p = Inr s2" unfolding s2_def by (rule kfree_last [OF kend1 kp1])
  show "kend s2 = kend s" by (simp add: s2_def s1_def)
  show notin: "p \<notin> set fl" using assms(4) by simp
  have pages: "kpage s q" "q \<noteq> p" if "q \<in> set fl" for q using assms(4) that by auto
  have "chain (ld64 (memset (ram s) p 1 4096)) (freelist s) fl"
    using assms(2,6) pages
    by (subst chain_frame [where s = s and m' = "ram s"]) (auto simp: memset_page kpage_aligned)
  then show "chain (ld64 (ram s2)) (freelist s2) (p # fl)"
    unfolding s2_def kfree_push_sel kfree_dec_sel s1_def
    using pages assms(6) kpage_nonzero [OF assms(1)] notin
    by simp (intro ram64.chain_st_other [THEN iffD2], auto intro: page_mod8 kpage_aligned)
  have "p < PHYSTOP" "page_aligned p" using assms(6) by (simp_all add: kpage_def)
  then show "set (p # fl) = {q. kpage s2 q \<and> q < p + PGSIZE}"
    using assms(4,6) kpage_below_next [of p s] \<open>kend s2 = kend s\<close>
    by (auto simp: kpage_cong [of s2 s] order.strict_implies_order)
  show "\<forall>q. kpage s2 q \<longrightarrow> refcnt s2 q = 0"
    using assms(5) by (auto simp: s2_def s1_def refcnt_def kpage_def)
qed

lemma freerange_loop_inv:
  assumes "kend_ok s" and "page_aligned p" and "kend s \<le> p" and "unat p + 4096 * n = unat PHYSTOP"
    and "chain (ld64 (ram s)) (freelist s) fl" and "distinct fl"
    and "set fl = {q. kpage s q \<and> q < p}" and "\<forall>q. kpage s q \<longrightarrow> refcnt s q = 0"
  shows "\<exists>s'. freerange_loop s p PHYSTOP = Inr s' \<and> kmem_inv s' \<and> free_pages s' = {q. kpage s q}"
  using assms
proof (induction n arbitrary: s p fl)
  case 0
  then have "p = PHYSTOP" by (simp add: word_unat_eq_iff)
  moreover from this have "freerange_loop s p PHYSTOP = Inr s" by (simp add: freerange_loop.simps)
  moreover have "set fl = free_pages s" "free_pages s = {q. kpage s q}"
    using "0.prems" \<open>p = PHYSTOP\<close> by (auto simp: free_pages_def kpage_def)
  ultimately show ?case using "0.prems" by (auto simp: kmem_inv_def)
next
  case (Suc n)
  have lt: "unat p < 0x88000000" using Suc.prems(4) by simp
  then have nx: "unat (p + PGSIZE) = unat p + 4096" by (simp add: unat_word_ariths)
  have kp: "kpage s p" using Suc.prems(2,3) lt by (simp add: kpage_def word_less_nat_alt)
  note st = freerange_step [OF Suc.prems(1,5,6,7,8) kp]
  let ?s1 = "s\<lparr>refer_count := (refer_count s)(ref_index p := 1)\<rparr>"
  let ?s2 = "kfree_push (kfree_dec ?s1 p) p"
  have go: "freerange_loop s p PHYSTOP = freerange_loop ?s2 (p + PGSIZE) PHYSTOP"
    using st(1) nx Suc.prems(4)
    by (subst freerange_loop.simps) (simp add: word_le_nat_alt)
  have "page_aligned (p + PGSIZE)"
    using Suc.prems(2) nx by (simp add: page_aligned_unat)
  moreover have "kend ?s2 \<le> p + PGSIZE" using Suc.prems(3) nx by (simp add: word_le_nat_alt)
  moreover have "unat (p + PGSIZE) + 4096 * n = unat PHYSTOP" using Suc.prems(4) nx by simp
  moreover have "kend_ok ?s2" using Suc.prems(1) by (simp add: kend_ok_def)
  ultimately obtain s' where "freerange_loop ?s2 (p + PGSIZE) PHYSTOP = Inr s'" "kmem_inv s'"
    "free_pages s' = {q. kpage ?s2 q}"
    using Suc.IH [of ?s2 "p + PGSIZE" "p # fl"] st Suc.prems(6) by auto
  then show ?case using go by (auto simp: kpage_cong [of ?s2 s])
qed

text \<open>At boot the kernel's data is zero: no count, an empty list. \<open>kinit\<close> makes every page free.\<close>

lemma kinit_inv:
  assumes "kend_ok s" and "freelist s = 0" and "\<forall>i. refer_count s i = 0"
  shows "\<exists>s'. kinit s = Inr s' \<and> kmem_inv s' \<and> free_pages s' = {p. kpage s p}"
proof -
  have small: "unat (kend s) + 4095 < 2 ^ 64" and "unat (kend s) \<le> 0x88000000"
    using assms(1) by (simp_all add: kend_ok_def word_le_nat_alt)
  let ?p = "PGROUNDUP (kend s)"
  have "?p \<le> PHYSTOP"
    using PGROUNDUP_least [OF small, of PHYSTOP] assms(1) by (simp add: kend_ok_def page_aligned_def)
  then have le: "unat ?p \<le> 4096 * 557056" by (simp add: word_le_nat_alt)
  have "4096 dvd unat ?p" using page_aligned_PGROUNDUP [of "kend s"]
    by (simp add: page_aligned_unat dvd_eq_mod_eq_0)
  then obtain k where k: "unat ?p = 4096 * k" by blast
  have "\<exists>s'. freerange_loop s ?p PHYSTOP = Inr s' \<and> kmem_inv s' \<and> free_pages s' = {q. kpage s q}"
  proof (rule freerange_loop_inv)
    show "kend s \<le> ?p" using PGROUNDUP_least [OF small, of ?p] by simp
    show "unat ?p + 4096 * (557056 - k) = unat PHYSTOP" using k le by simp
    show "chain (ld64 (ram s)) (freelist s) []" using assms(2) by simp
    show "set [] = {q. kpage s q \<and> q < ?p}"
      using PGROUNDUP_least [OF small] by (auto simp: kpage_def simp flip: not_le)
    show "\<forall>q. kpage s q \<longrightarrow> refcnt s q = 0" using assms(3) by (simp add: refcnt_def)
  qed (use assms(1) in simp_all)
  then show ?thesis by (simp add: kinit_def freerange_def)
qed

lemma finite_free_pages: "kmem_inv s \<Longrightarrow> finite (free_pages s)"
  unfolding kmem_inv_def by (metis List.finite_set)

lemma refcnt_kfree:
  assumes "kend_ok s" and "kpage s p" and "kpage s q" and "0 < refcnt s p"
    and "s' = (if refcnt s p = 1 then kfree_push (kfree_dec s p) p else kfree_dec s p)"
  shows "refcnt s' q = (if q = p then refcnt s p - 1 else refcnt s q)"
proof -
  have "unat (refer_count s (ref_index p) - 1) = refcnt s p - 1"
    using assms(4) by (simp add: refcnt_def unat_minus_one unat_gt_0)
  then show ?thesis using refcnt_upd [OF assms(1,2,3), of s'] assms(5) by (simp split: if_splits)
qed

section \<open>The contract of the allocator\<close>

text \<open>
  What a client of the allocator relies on: an invariant, the set of free pages, the reference counts,
  and how \<open>alloc\<close> and \<open>release\<close> change them. A null page stands for failure, as in the code.
\<close>

locale page_allocator =
  fixes inv :: "'s \<Rightarrow> bool" and page :: "'s \<Rightarrow> u64 \<Rightarrow> bool"
    and free :: "'s \<Rightarrow> u64 set" and refs :: "'s \<Rightarrow> u64 \<Rightarrow> nat"
    and alloc :: "'s \<Rightarrow> (u64 \<times> 's) kres" and release :: "'s \<Rightarrow> u64 \<Rightarrow> 's kres"
  assumes free_def: "free s = {p. page s p \<and> refs s p = 0}"
    and free_finite: "inv s \<Longrightarrow> finite (free s)"
    and page_nonzero: "inv s \<Longrightarrow> page s p \<Longrightarrow> p \<noteq> 0"
    and alloc_empty: "inv s \<Longrightarrow> free s = {} \<Longrightarrow> alloc s = Inr (0, s)"
    and alloc_page: "inv s \<Longrightarrow> free s \<noteq> {} \<Longrightarrow>
      \<exists>p s'. alloc s = Inr (p, s') \<and> p \<in> free s \<and> inv s' \<and> page s' = page s \<and>
        (\<forall>q. page s q \<longrightarrow> refs s' q = (if q = p then 1 else refs s q))"
    and release_page: "inv s \<Longrightarrow> page s p \<Longrightarrow> 0 < refs s p \<Longrightarrow>
      \<exists>s'. release s p = Inr s' \<and> inv s' \<and> page s' = page s \<and>
        (\<forall>q. page s q \<longrightarrow> refs s' q = (if q = p then refs s p - 1 else refs s q))"

text \<open>Clients that take several pages and that give several back.\<close>

fun alloc_many :: "('s \<Rightarrow> (u64 \<times> 's) kres) \<Rightarrow> nat \<Rightarrow> 's \<Rightarrow> (u64 list \<times> 's) kres" where
  "alloc_many alloc 0 s = Inr ([], s)"
| "alloc_many alloc (Suc n) s =
     kbind (alloc s) (\<lambda>(p, s). kbind (alloc_many alloc n s) (\<lambda>(ps, s). Inr (p # ps, s)))"

fun release_many :: "('s \<Rightarrow> u64 \<Rightarrow> 's kres) \<Rightarrow> u64 list \<Rightarrow> 's \<Rightarrow> 's kres" where
  "release_many release [] s = Inr s"
| "release_many release (p # ps) s = kbind (release s p) (\<lambda>s. release_many release ps s)"

context page_allocator
begin

lemma alloc_free:
  assumes "inv s" and "free s \<noteq> {}"
  obtains p s' where "alloc s = Inr (p, s')" "p \<in> free s" "inv s'" "page s' = page s"
    "free s' = free s - {p}" "\<And>q. page s q \<Longrightarrow> refs s' q = (if q = p then 1 else refs s q)"
proof -
  obtain p s' where a: "alloc s = Inr (p, s')" "p \<in> free s" "inv s'" "page s' = page s"
    and r: "\<forall>q. page s q \<longrightarrow> refs s' q = (if q = p then 1 else refs s q)"
    using alloc_page [OF assms] by blast
  moreover have "free s' = free s - {p}" using a(4) r by (auto simp: free_def split: if_splits)
  ultimately show thesis using that by blast
qed

lemma alloc_many_fresh:
  assumes "inv s" and "n \<le> card (free s)"
  shows "\<exists>ps s'. alloc_many alloc n s = Inr (ps, s') \<and> inv s' \<and> page s' = page s \<and>
    length ps = n \<and> distinct ps \<and> set ps \<subseteq> free s \<and> free s' = free s - set ps \<and>
    (\<forall>q. page s q \<longrightarrow> refs s' q = (if q \<in> set ps then 1 else refs s q))"
  using assms
proof (induction n arbitrary: s)
  case 0
  then show ?case by auto
next
  case (Suc n)
  then have "free s \<noteq> {}" by auto
  then obtain p s1 where p: "alloc s = Inr (p, s1)" "p \<in> free s" "inv s1" "page s1 = page s"
    "free s1 = free s - {p}" "\<And>q. page s q \<Longrightarrow> refs s1 q = (if q = p then 1 else refs s q)"
    using alloc_free [OF Suc.prems(1)] by metis
  have "n \<le> card (free s1)" using Suc.prems p(2,5) free_finite by (simp add: card_Diff_singleton)
  then obtain ps s' where ps: "alloc_many alloc n s1 = Inr (ps, s')" "inv s'" "page s' = page s1"
    "length ps = n" "distinct ps" "set ps \<subseteq> free s1" "free s' = free s1 - set ps"
    "\<forall>q. page s1 q \<longrightarrow> refs s' q = (if q \<in> set ps then 1 else refs s1 q)"
    using Suc.IH [OF p(3)] by blast
  show ?case
    using p ps by (intro exI [of _ "p # ps"] exI [of _ s']) auto
qed

lemma alloc_many_exhausts:
  assumes "inv s"
  shows "\<exists>ps s'. alloc_many alloc (card (free s)) s = Inr (ps, s') \<and> set ps = free s \<and>
    inv s' \<and> alloc s' = Inr (0, s')"
proof -
  obtain ps s' where ps: "alloc_many alloc (card (free s)) s = Inr (ps, s')" "inv s'"
    "length ps = card (free s)" "distinct ps" "set ps \<subseteq> free s" "free s' = free s - set ps"
    using alloc_many_fresh [OF assms order.refl] by blast
  have "set ps = free s"
    using ps(3,4,5) free_finite [OF assms] by (intro card_subset_eq) (auto simp: distinct_card)
  then show ?thesis using ps alloc_empty [of s'] by auto
qed

lemma release_many_counts:
  assumes "inv s" and "distinct ps" and "\<forall>p \<in> set ps. page s p \<and> 0 < refs s p"
  shows "\<exists>s'. release_many release ps s = Inr s' \<and> inv s' \<and> page s' = page s \<and>
    (\<forall>q. page s q \<longrightarrow> refs s' q = (if q \<in> set ps then refs s q - 1 else refs s q))"
  using assms
proof (induction ps arbitrary: s)
  case Nil
  then show ?case by simp
next
  case (Cons p ps)
  then obtain s1 where s1: "release s p = Inr s1" "inv s1" "page s1 = page s"
    "\<forall>q. page s q \<longrightarrow> refs s1 q = (if q = p then refs s p - 1 else refs s q)"
    using release_page [of s p] by auto
  have "\<forall>q \<in> set ps. page s1 q \<and> 0 < refs s1 q" using Cons.prems s1(3,4) by auto
  then obtain s' where "release_many release ps s1 = Inr s'" "inv s'" "page s' = page s1"
    "\<forall>q. page s1 q \<longrightarrow> refs s' q = (if q \<in> set ps then refs s1 q - 1 else refs s1 q)"
    using Cons.IH [OF s1(2)] Cons.prems(2) by auto
  then show ?case using s1 Cons.prems(2) by auto
qed

lemma alloc_release_many:
  assumes "inv s" and "n \<le> card (free s)"
  shows "\<exists>ps s' s''. alloc_many alloc n s = Inr (ps, s') \<and> distinct ps \<and> set ps \<subseteq> free s \<and>
    release_many release ps s' = Inr s'' \<and> inv s'' \<and> free s'' = free s"
proof -
  obtain ps s' where ps: "alloc_many alloc n s = Inr (ps, s')" "inv s'" "page s' = page s"
    "distinct ps" "set ps \<subseteq> free s"
    "\<forall>q. page s q \<longrightarrow> refs s' q = (if q \<in> set ps then 1 else refs s q)"
    using alloc_many_fresh [OF assms] by blast
  have "\<forall>p \<in> set ps. page s' p \<and> 0 < refs s' p" using ps(3,5,6) by (auto simp: free_def)
  then obtain s'' where "release_many release ps s' = Inr s''" "inv s''" "page s'' = page s'"
    "\<forall>q. page s' q \<longrightarrow> refs s'' q = (if q \<in> set ps then refs s' q - 1 else refs s' q)"
    using release_many_counts [OF ps(2,4)] by blast
  moreover from this have "free s'' = free s"
    using ps(3,5,6) by (auto simp: free_def split: if_splits)
  ultimately show ?thesis using ps by blast
qed

end

interpretation kmem_alloc: page_allocator kmem_inv kpage free_pages refcnt kalloc kfree
proof unfold_locales
  fix s :: "'a kmem_scheme" and p
  show "free_pages s = {p. kpage s p \<and> refcnt s p = 0}" by (rule free_pages_def)
  assume inv: "kmem_inv s"
  then have kend: "kend_ok s" by (rule kmem_inv_kend_ok)
  show "finite (free_pages s)" using inv by (rule finite_free_pages)
  show "kpage s p \<Longrightarrow> p \<noteq> 0" using kend by (rule kpage_nonzero)
  show "free_pages s = {} \<Longrightarrow> kalloc s = Inr (0, s)" using inv by (rule kalloc_none)
  show "\<exists>p s'. kalloc s = Inr (p, s') \<and> p \<in> free_pages s \<and> kmem_inv s' \<and> kpage s' = kpage s \<and>
      (\<forall>q. kpage s q \<longrightarrow> refcnt s' q = (if q = p then 1 else refcnt s q))"
    if ne: "free_pages s \<noteq> {}"
  proof -
    obtain q where q: "kalloc s = Inr (q, kalloc_post s q)" "q \<in> free_pages s"
      "kmem_inv (kalloc_post s q)"
      using kalloc_some [OF inv ne] by blast
    moreover have "kpage (kalloc_post s q) = kpage s" by (intro ext kpage_cong) simp
    moreover have "kpage s q" using q(2) by (simp add: free_pages_def)
    ultimately show ?thesis using refcnt_kalloc_post [OF kend, of q] by auto
  qed
  show "\<exists>s'. kfree s p = Inr s' \<and> kmem_inv s' \<and> kpage s' = kpage s \<and>
      (\<forall>q. kpage s q \<longrightarrow> refcnt s' q = (if q = p then refcnt s p - 1 else refcnt s q))"
    if p: "kpage s p" "0 < refcnt s p"
  proof -
    obtain s' where s': "kfree s p = Inr s'" "kmem_inv s'"
      "s' = (if refcnt s p = 1 then kfree_push (kfree_dec s p) p else kfree_dec s p)"
      using kfree_inv [OF inv p] by blast
    moreover have "kpage s' = kpage s" using s'(3) by (intro ext kpage_cong) simp
    ultimately show ?thesis using refcnt_kfree [OF kend p(1) _ p(2) s'(3)] by auto
  qed
qed

section \<open>Properties\<close>

text \<open>The kernel's data at boot, for a kernel image that ends at \<open>e\<close>, and the state after \<open>kinit\<close>.\<close>

definition at_boot :: "u64 \<Rightarrow> kmem" where
  "at_boot e = \<lparr>ram = (\<lambda>_. 0), kend = e, freelist = 0, refer_count = (\<lambda>_. 0)\<rparr>"

definition booted :: kmem where
  "booted = projr (kinit (at_boot 0x80022000))"

lemma booted_kinit:
  "kinit (at_boot 0x80022000) = Inr booted" "kmem_inv booted"
  "free_pages booted = {p. kpage (at_boot 0x80022000) p}"
proof -
  have "\<exists>s'. kinit (at_boot 0x80022000) = Inr s' \<and> kmem_inv s' \<and>
      free_pages s' = {p. kpage (at_boot 0x80022000) p}"
    by (rule kinit_inv) (simp_all add: at_boot_def kend_ok_def)
  then show "kinit (at_boot 0x80022000) = Inr booted" "kmem_inv booted"
    "free_pages booted = {p. kpage (at_boot 0x80022000) p}"
    by (auto simp: booted_def)
qed

lemma booted_free: "0x80022000 \<in> free_pages booted" "0x80023000 \<in> free_pages booted"
  by (simp_all add: booted_kinit kpage_def at_boot_def page_aligned_def)

lemma booted_card: "2 \<le> card (free_pages booted)"
proof -
  have "card {0x80022000, 0x80023000 :: u64} \<le> card (free_pages booted)"
    using booted_free finite_free_pages [OF booted_kinit(2)] by (intro card_mono) auto
  then show ?thesis by simp
qed

text \<open>
  C19. At boot, with all counts zero and an empty list, \<open>kinit\<close> returns and puts every page between the
  end of the kernel and \<open>PHYSTOP\<close> on the free list, exactly once.
\<close>

theorem kinit_frees_all:
  assumes "kend_ok s" and "freelist s = 0" and "\<forall>i. refer_count s i = 0"
  shows "\<exists>s'. kinit s = Inr s' \<and> kmem_inv s' \<and> free_pages s' = {p. kpage s p}"
  using assms by (rule kinit_inv)

theorem kinit_frees_all_witness:
  "\<exists>s'. kinit (at_boot 0x80022000) = Inr s' \<and> kmem_inv s' \<and> 0x80023000 \<in> free_pages s'"
proof -
  have "\<exists>s'. kinit (at_boot 0x80022000) = Inr s' \<and> kmem_inv s' \<and>
      free_pages s' = {p. kpage (at_boot 0x80022000) p}"
    by (rule kinit_frees_all) (simp_all add: at_boot_def kend_ok_def)
  then show ?thesis by (auto simp: kpage_def at_boot_def page_aligned_def)
qed

text \<open>
  C20. \<open>kalloc\<close> succeeds exactly as often as there are free pages: that many calls return all of them,
  each once, and the next call returns the null pointer.
\<close>

theorem kalloc_hands_out_all:
  assumes "kmem_inv s"
  shows "\<exists>ps s'. alloc_many kalloc (card (free_pages s)) s = Inr (ps, s') \<and>
    distinct ps \<and> set ps = free_pages s \<and> kmem_inv s' \<and> kalloc s' = Inr (0, s')"
proof -
  obtain ps s' where ps: "alloc_many kalloc (card (free_pages s)) s = Inr (ps, s')"
    "set ps = free_pages s" "kmem_inv s'" "kalloc s' = Inr (0, s')"
    using kmem_alloc.alloc_many_exhausts [OF assms] by blast
  moreover have "distinct ps"
    using kmem_alloc.alloc_many_fresh [OF assms order.refl] ps(1) by auto
  ultimately show ?thesis by blast
qed

theorem kalloc_hands_out_all_witness:
  "\<exists>ps s'. alloc_many kalloc (card (free_pages booted)) booted = Inr (ps, s') \<and>
    0x80022000 \<in> set ps \<and> kalloc s' = Inr (0, s')"
  using kalloc_hands_out_all [OF booted_kinit(2)] booted_free(1) by blast

text \<open>
  Pages taken with \<open>kalloc\<close> are distinct and were free, and giving them back with \<open>kfree\<close> makes
  the set of free pages what it was.
\<close>

lemma kalloc_kfree_roundtrip:
  assumes "kmem_inv s" and "n \<le> card (free_pages s)"
  shows "\<exists>ps s' s''. alloc_many kalloc n s = Inr (ps, s') \<and> distinct ps \<and> set ps \<subseteq> free_pages s \<and>
    release_many kfree ps s' = Inr s'' \<and> kmem_inv s'' \<and> free_pages s'' = free_pages s"
  using assms by (rule kmem_alloc.alloc_release_many)

text \<open>
  \<open>kfree\<close> of a page with several references only drops one of them; the last reference puts the
  page on the free list. Either way the allocator's invariant holds afterwards and no other page's
  count changes.
\<close>

lemma kfree_drops_reference:
  assumes "kmem_inv s" and "kpage s p" and "0 < refcnt s p"
  shows "\<exists>s'. kfree s p = Inr s' \<and> kmem_inv s' \<and> refcnt s' p = refcnt s p - 1 \<and>
    (\<forall>q. kpage s q \<and> q \<noteq> p \<longrightarrow> refcnt s' q = refcnt s q) \<and>
    (p \<in> free_pages s' \<longleftrightarrow> refcnt s p = 1) \<and> (1 < refcnt s p \<longrightarrow> ram s' = ram s)"
proof -
  obtain s' where s': "kfree s p = Inr s'" "kmem_inv s'"
    "free_pages s' = (if refcnt s p = 1 then insert p (free_pages s) else free_pages s)"
    "s' = (if refcnt s p = 1 then kfree_push (kfree_dec s p) p else kfree_dec s p)"
    using kfree_inv [OF assms] by blast
  have "refcnt s' q = (if q = p then refcnt s p - 1 else refcnt s q)" if "kpage s q" for q
    using refcnt_kfree [OF kmem_inv_kend_ok [OF assms(1)] assms(2) that assms(3) s'(4)] .
  moreover have "p \<notin> free_pages s" using assms(3) by (simp add: free_pages_def)
  moreover have "ram s' = ram s" if "1 < refcnt s p" using s'(4) that by simp
  ultimately show ?thesis using s'(1-3) assms(2) by auto
qed

end
