(* ===== verification/Vm.thy ===== *)
theory Vm
  imports Kalloc
begin

text \<open>
  Page tables and user memory, \<open>kernel/vm.c\<close>, with the copy-on-write helpers of \<open>kernel/trap.c\<close>.
  Page tables live in physical memory: an operation reads and writes the 64-bit entries through
  pointers as the code does. Kernel buffers that are no pages (local variables, arrays of kernel
  data) are lists of bytes.
\<close>

section \<open>Walking the tree\<close>

text \<open>
  The loop of \<open>walk\<close>; the last argument is \<open>level\<close>. The result is the address of the entry, or the
  null pointer.
\<close>

fun walk_loop :: "'a kmem_scheme \<Rightarrow> u64 \<Rightarrow> u64 \<Rightarrow> bool \<Rightarrow> nat \<Rightarrow> (u64 \<times> 'a kmem_scheme) kres" where
  "walk_loop s pagetable va alloc 0 = Inr (pagetable + 8 * PX 0 va, s)"
| "walk_loop s pagetable va alloc (Suc l) =
     (let pte = pagetable + 8 * PX (Suc l) va in
      kbind (load64 s pte) (\<lambda>e.
      if e AND PTE_V \<noteq> 0 then walk_loop s (PTE2PA e) va alloc l
      else if \<not> alloc then Inr (0, s)
      else kbind (kalloc s) (\<lambda>(pagetable, s).
        if pagetable = 0 then Inr (0, s)
        else kbind (kmemset s pagetable 0 4096) (\<lambda>s.
          kbind (store64 s pte (PA2PTE pagetable OR PTE_V)) (\<lambda>s.
          walk_loop s pagetable va alloc l)))))"

definition walk :: "'a kmem_scheme \<Rightarrow> u64 \<Rightarrow> u64 \<Rightarrow> bool \<Rightarrow> (u64 \<times> 'a kmem_scheme) kres" where
  "walk s pagetable va alloc =
     (if va \<ge> MAXVA then Inl (Panic ''walk'') else walk_loop s pagetable va alloc 2)"

definition walkaddr :: "'a kmem_scheme \<Rightarrow> u64 \<Rightarrow> u64 \<Rightarrow> u64 kres" where
  "walkaddr s pagetable va =
     (if va \<ge> MAXVA then Inr 0
      else kbind (walk s pagetable va False) (\<lambda>(pte, s).
        if pte = 0 then Inr 0
        else kbind (load64 s pte) (\<lambda>e.
          if e AND PTE_V = 0 then Inr 0
          else if e AND PTE_U = 0 then Inr 0
          else Inr (PTE2PA e))))"

lemma walk_in_range: "walk s pagetable va alloc = Inr r \<Longrightarrow> va < MAXVA"
  by (auto simp: walk_def split: if_splits)

lemma next_page_decreases:
  assumes "a < MAXVA"
  shows "2 ^ 64 - unat (a + PGSIZE) < 2 ^ 64 - unat a"
proof -
  have "unat a < 0x4000000000" using assms by (simp add: word_less_nat_alt)
  moreover from this have "unat (a + PGSIZE) = unat a + 4096" by (simp add: unat_word_ariths)
  ultimately show ?thesis by simp
qed

section \<open>Mapping and unmapping\<close>

text \<open>The loop of \<open>mappages\<close>; it ends at \<open>last\<close> (here \<open>last_a\<close>) or in the panic of \<open>walk\<close>.\<close>

function mappages_loop ::
  "'a kmem_scheme \<Rightarrow> u64 \<Rightarrow> u64 \<Rightarrow> u64 \<Rightarrow> u64 \<Rightarrow> u64 \<Rightarrow> (int \<times> 'a kmem_scheme) kres" where
  "mappages_loop s pagetable a last_a pa perm =
     kbind (walk s pagetable a True) (\<lambda>(pte, s).
     if pte = 0 then Inr (-1, s)
     else kbind (load64 s pte) (\<lambda>e.
       if e AND PTE_V \<noteq> 0 then Inl (Panic ''mappages: remap'')
       else kbind (store64 s pte (PA2PTE pa OR perm OR PTE_V)) (\<lambda>s.
         if a = last_a then Inr (0, s)
         else mappages_loop s pagetable (a + PGSIZE) last_a (pa + PGSIZE) perm)))"
  by pat_completeness auto
termination
  by (relation "measure (\<lambda>(s, pagetable, a, last_a, pa, perm). 2 ^ 64 - unat a)")
    (auto dest!: walk_in_range next_page_decreases)

declare mappages_loop.simps [simp del]

definition mappages ::
  "'a kmem_scheme \<Rightarrow> u64 \<Rightarrow> u64 \<Rightarrow> u64 \<Rightarrow> u64 \<Rightarrow> u64 \<Rightarrow> (int \<times> 'a kmem_scheme) kres" where
  "mappages s pagetable va sz pa perm =
     (if sz = 0 then Inl (Panic ''mappages: size'')
      else mappages_loop s pagetable (PGROUNDDOWN va) (PGROUNDDOWN (va + sz - 1)) pa perm)"

definition kvmmap :: "'a kmem_scheme \<Rightarrow> u64 \<Rightarrow> u64 \<Rightarrow> u64 \<Rightarrow> u64 \<Rightarrow> u64 \<Rightarrow> 'a kmem_scheme kres" where
  "kvmmap s kpgtbl va pa sz perm =
     kbind (mappages s kpgtbl va sz pa perm) (\<lambda>(r, s).
     if r \<noteq> 0 then Inl (Panic ''kvmmap'') else Inr s)"

function uvmunmap_loop :: "'a kmem_scheme \<Rightarrow> u64 \<Rightarrow> u64 \<Rightarrow> u64 \<Rightarrow> bool \<Rightarrow> 'a kmem_scheme kres" where
  "uvmunmap_loop s pagetable a e do_free =
     (if a < e then
        kbind (walk s pagetable a False) (\<lambda>(pte, s).
        if pte = 0 then Inl (Panic ''uvmunmap: walk'')
        else kbind (load64 s pte) (\<lambda>v.
          if v AND PTE_V = 0 then Inl (Panic ''uvmunmap: not mapped'')
          else if PTE_FLAGS v = PTE_V then Inl (Panic ''uvmunmap: not a leaf'')
          else kbind (if do_free then kfree s (PTE2PA v) else Inr s) (\<lambda>s.
            kbind (store64 s pte 0) (\<lambda>s.
            uvmunmap_loop s pagetable (a + PGSIZE) e do_free))))
      else Inr s)"
  by pat_completeness auto
termination
  by (relation "measure (\<lambda>(s, pagetable, a, e, do_free). 2 ^ 64 - unat a)")
    (auto dest!: walk_in_range next_page_decreases)

declare uvmunmap_loop.simps [simp del]

definition uvmunmap :: "'a kmem_scheme \<Rightarrow> u64 \<Rightarrow> u64 \<Rightarrow> u64 \<Rightarrow> bool \<Rightarrow> 'a kmem_scheme kres" where
  "uvmunmap s pagetable va npages do_free =
     (if va mod PGSIZE \<noteq> 0 then Inl (Panic ''uvmunmap: not aligned'')
      else uvmunmap_loop s pagetable va (va + npages * PGSIZE) do_free)"

definition uvmcreate :: "'a kmem_scheme \<Rightarrow> (u64 \<times> 'a kmem_scheme) kres" where
  "uvmcreate s =
     kbind (kalloc s) (\<lambda>(pagetable, s).
     if pagetable = 0 then Inr (0, s)
     else kbind (kmemset s pagetable 0 4096) (\<lambda>s.
       Inr (pagetable, s)))"

text \<open>Bytes of a kernel buffer copied into a page: \<open>memmove(dst, buf, n)\<close>.\<close>

definition put_bytes :: "mem \<Rightarrow> u64 \<Rightarrow> u8 list \<Rightarrow> mem" where
  "put_bytes m dst bs = (\<lambda>a. if unat (a - dst) < length bs then bs ! unat (a - dst) else m a)"

definition kput_bytes :: "'a mstate_scheme \<Rightarrow> u64 \<Rightarrow> u8 list \<Rightarrow> 'a mstate_scheme kres" where
  "kput_bytes s dst bs =
     (if ram_ok dst (length bs) then Inr (s\<lparr>ram := put_bytes (ram s) dst bs\<rparr>)
      else Inl (PageFault dst))"

definition kget_bytes :: "'a mstate_scheme \<Rightarrow> u64 \<Rightarrow> nat \<Rightarrow> u8 list kres" where
  "kget_bytes s src n =
     (if ram_ok src n then Inr (map (\<lambda>i. ram s (src + of_nat i)) [0..<n])
      else Inl (PageFault src))"

definition uvmfirst :: "'a kmem_scheme \<Rightarrow> u64 \<Rightarrow> u8 list \<Rightarrow> 'a kmem_scheme kres" where
  "uvmfirst s pagetable src =
     (if length src \<ge> 4096 then Inl (Panic ''uvmfirst: more than a page'')
      else kbind (kalloc s) (\<lambda>(mem, s).
        kbind (kmemset s mem 0 4096) (\<lambda>s.
        kbind (mappages s pagetable 0 PGSIZE mem (PTE_W OR PTE_R OR PTE_X OR PTE_U)) (\<lambda>(_, s).
        kput_bytes s mem src))))"

section \<open>Growing and shrinking\<close>

text \<open>\<open>int npages = ...\<close> keeps the low 32 bits, which the call widens again with their sign.\<close>

definition uvmdealloc :: "'a kmem_scheme \<Rightarrow> u64 \<Rightarrow> u64 \<Rightarrow> u64 \<Rightarrow> (u64 \<times> 'a kmem_scheme) kres" where
  "uvmdealloc s pagetable oldsz newsz =
     (if newsz \<ge> oldsz then Inr (oldsz, s)
      else if PGROUNDUP newsz < PGROUNDUP oldsz then
        let npages = scast (ucast ((PGROUNDUP oldsz - PGROUNDUP newsz) div PGSIZE) :: u32) in
        kbind (uvmunmap s pagetable (PGROUNDUP newsz) npages True) (\<lambda>s.
        Inr (newsz, s))
      else Inr (newsz, s))"

lemma PGROUNDDOWN_less_MAXVA: "PGROUNDDOWN a < MAXVA \<longleftrightarrow> a < MAXVA"
proof -
  have "unat a div 4096 * 4096 < 0x4000000 * 4096 \<longleftrightarrow> unat a < 0x4000000 * 4096"
    by (simp only: mult_less_cancel2 div_less_iff_less_mult) simp
  then show ?thesis by (simp add: word_less_nat_alt unat_PGROUNDDOWN)
qed

lemma mappages_in_range:
  assumes "mappages s pagetable va sz pa perm = Inr r"
  shows "va < MAXVA"
proof -
  from assms have "PGROUNDDOWN va < MAXVA"
    by (auto simp: mappages_def mappages_loop.simps [of s pagetable] split: if_splits dest!: walk_in_range)
  then show ?thesis by (simp only: PGROUNDDOWN_less_MAXVA)
qed

function uvmalloc_loop ::
  "'a kmem_scheme \<Rightarrow> u64 \<Rightarrow> u64 \<Rightarrow> u64 \<Rightarrow> u64 \<Rightarrow> u64 \<Rightarrow> (u64 \<times> 'a kmem_scheme) kres" where
  "uvmalloc_loop s pagetable a oldsz newsz xperm =
     (if a < newsz then
        kbind (kalloc s) (\<lambda>(mem, s).
        if mem = 0 then
          kbind (uvmdealloc s pagetable a oldsz) (\<lambda>(_, s). Inr (0, s))
        else
          kbind (kmemset s mem 0 4096) (\<lambda>s.
          kbind (mappages s pagetable a PGSIZE mem (PTE_R OR PTE_U OR xperm)) (\<lambda>(r, s).
          if r \<noteq> 0 then
            kbind (kfree s mem) (\<lambda>s.
            kbind (uvmdealloc s pagetable a oldsz) (\<lambda>(_, s). Inr (0, s)))
          else uvmalloc_loop s pagetable (a + PGSIZE) oldsz newsz xperm)))
      else Inr (newsz, s))"
  by pat_completeness auto
termination
  by (relation "measure (\<lambda>(s, pagetable, a, oldsz, newsz, xperm). 2 ^ 64 - unat a)")
    (auto dest!: mappages_in_range next_page_decreases)

declare uvmalloc_loop.simps [simp del]

definition uvmalloc ::
  "'a kmem_scheme \<Rightarrow> u64 \<Rightarrow> u64 \<Rightarrow> u64 \<Rightarrow> u64 \<Rightarrow> (u64 \<times> 'a kmem_scheme) kres" where
  "uvmalloc s pagetable oldsz newsz xperm =
     (if newsz < oldsz then Inr (oldsz, s)
      else uvmalloc_loop s pagetable (PGROUNDUP oldsz) (PGROUNDUP oldsz) newsz xperm)"

section \<open>Freeing a page table\<close>

text \<open>
  \<open>freewalk\<close> and its loop, from index \<open>i\<close> on. The recursion of the C function is bounded by the
  kernel stack; the first argument is the number of nested calls that still fit, and running
  out of it is the fault on the stack's guard page.
\<close>

function freewalk_from :: "nat \<Rightarrow> 'a kmem_scheme \<Rightarrow> u64 \<Rightarrow> nat \<Rightarrow> 'a kmem_scheme kres" where
  "freewalk_from d s pagetable i =
     (if i < 512 then
        kbind (load64 s (pagetable + 8 * of_nat i)) (\<lambda>pte.
        if pte AND PTE_V \<noteq> 0 \<and> pte AND (PTE_R OR PTE_W OR PTE_X) = 0 then
          (case d of 0 \<Rightarrow> Inl (PageFault 0)
           | Suc d' \<Rightarrow>
             kbind (freewalk_from d' s (PTE2PA pte) 0) (\<lambda>s.
             kbind (store64 s (pagetable + 8 * of_nat i) 0) (\<lambda>s.
             freewalk_from d s pagetable (i + 1))))
        else if pte AND PTE_V \<noteq> 0 then Inl (Panic ''freewalk: leaf'')
        else freewalk_from d s pagetable (i + 1))
      else kfree s pagetable)"
  by pat_completeness auto
termination
  by (relation "measures [\<lambda>(d, s, pagetable, i). d, \<lambda>(d, s, pagetable, i). 512 - i]") auto

declare freewalk_from.simps [simp del]

definition freewalk :: "nat \<Rightarrow> 'a kmem_scheme \<Rightarrow> u64 \<Rightarrow> 'a kmem_scheme kres" where
  "freewalk d s pagetable = freewalk_from d s pagetable 0"

definition uvmfree :: "nat \<Rightarrow> 'a kmem_scheme \<Rightarrow> u64 \<Rightarrow> u64 \<Rightarrow> 'a kmem_scheme kres" where
  "uvmfree d s pagetable sz =
     kbind (if sz > 0 then uvmunmap s pagetable 0 (PGROUNDUP sz div PGSIZE) True else Inr s) (\<lambda>s.
     freewalk d s pagetable)"

section \<open>Copy-on-write\<close>

text \<open>\<open>*p = f(*p)\<close>, as in \<open>*pte |= PTE_W\<close>.\<close>

definition update64 :: "'a mstate_scheme \<Rightarrow> u64 \<Rightarrow> (u64 \<Rightarrow> u64) \<Rightarrow> 'a mstate_scheme kres" where
  "update64 s a f = kbind (load64 s a) (\<lambda>e. store64 s a (f e))"

text \<open>One round of the loop of \<open>uvmcopy\<close> changes the parent's entry before it is copied.\<close>

definition cow_mark :: "u64 \<Rightarrow> u64" where
  "cow_mark e = (if e AND PTE_W \<noteq> 0 then (e AND NOT PTE_W) OR PTE_RSW_COW else e)"

function uvmcopy_loop :: "'a kmem_scheme \<Rightarrow> u64 \<Rightarrow> u64 \<Rightarrow> u64 \<Rightarrow> u64 \<Rightarrow> (int \<times> 'a kmem_scheme) kres" where
  "uvmcopy_loop s old new i sz =
     (if i < sz then
        kbind (walk s old i False) (\<lambda>(pte, s).
        if pte = 0 then Inl (Panic ''uvmcopy: pte should exist'')
        else kbind (load64 s pte) (\<lambda>e.
          if e AND PTE_V = 0 then Inl (Panic ''uvmcopy: page not present'')
          else
            kbind (if e AND PTE_W \<noteq> 0 then store64 s pte (cow_mark e) else Inr s) (\<lambda>s.
            kbind (mappages s new i PGSIZE (PTE2PA e) (PTE_FLAGS (cow_mark e))) (\<lambda>(r, s).
            if r \<noteq> 0 then
              kbind (uvmunmap s new 0 (i div PGSIZE) True) (\<lambda>s. Inr (-1, s))
            else kbind (increase_refer s (PTE2PA e)) (\<lambda>s.
              uvmcopy_loop s old new (i + PGSIZE) sz)))))
      else Inr (0, s))"
  by pat_completeness auto
termination
  by (relation "measure (\<lambda>(s, old, new, i, sz). 2 ^ 64 - unat i)")
    (auto dest!: walk_in_range next_page_decreases)

declare uvmcopy_loop.simps [simp del]

definition uvmcopy :: "'a kmem_scheme \<Rightarrow> u64 \<Rightarrow> u64 \<Rightarrow> u64 \<Rightarrow> (int \<times> 'a kmem_scheme) kres" where
  "uvmcopy s old new sz = uvmcopy_loop s old new 0 sz"

definition uvmclear :: "'a kmem_scheme \<Rightarrow> u64 \<Rightarrow> u64 \<Rightarrow> 'a kmem_scheme kres" where
  "uvmclear s pagetable va =
     kbind (walk s pagetable va False) (\<lambda>(pte, s).
     if pte = 0 then Inl (Panic ''uvmclear'')
     else update64 s pte (\<lambda>e. e AND NOT PTE_U))"

definition is_cowpage :: "'a kmem_scheme \<Rightarrow> u64 \<Rightarrow> u64 \<Rightarrow> bool kres" where
  "is_cowpage s pagetable va =
     kbind (walk s pagetable va False) (\<lambda>(pte, s).
     kbind (load64 s pte) (\<lambda>e.
     Inr (e AND PTE_RSW_COW \<noteq> 0)))"

definition cow_alloc :: "'a kmem_scheme \<Rightarrow> u64 \<Rightarrow> u64 \<Rightarrow> (u64 \<times> 'a kmem_scheme) kres" where
  "cow_alloc s pagetable va =
     kbind (walk s pagetable va False) (\<lambda>(pte, s).
     kbind (load64 s pte) (\<lambda>e.
     let pa = PTE2PA e in
     kbind (get_refcount s pa) (\<lambda>c.
     if c = 1 then
       kbind (update64 s pte (\<lambda>e. e OR PTE_W)) (\<lambda>s.
       kbind (update64 s pte (\<lambda>e. e AND NOT PTE_RSW_COW)) (\<lambda>s.
       Inr (pa, s)))
     else
       kbind (update64 s pte (\<lambda>e. e OR PTE_W)) (\<lambda>s.
       kbind (load64 s pte) (\<lambda>e.
       let flags = PTE_FLAGS e; pa = PTE2PA e in
       kbind (kalloc s) (\<lambda>(new_mem, s).
       if new_mem = 0 then Inr (0, s)
       else
         kbind (kmemmove s new_mem pa 4096) (\<lambda>s.
         kbind (update64 s pte (\<lambda>e. e AND NOT PTE_V)) (\<lambda>s.
         kbind (mappages s pagetable va PGSIZE new_mem flags) (\<lambda>(r, s).
         if r \<noteq> 0 then
           kbind (update64 s pte (\<lambda>e. e OR PTE_V)) (\<lambda>s.
           kbind (kfree s new_mem) (\<lambda>s.
           Inr (0, s)))
         else
           kbind (kfree s pa) (\<lambda>s.
           Inr (new_mem, s)))))))))))"

section \<open>Copying between kernel and user\<close>

lemma page_rest: "unat (PGSIZE - (a - PGROUNDDOWN a)) = 4096 - unat a mod 4096"
proof -
  have "a mod PGSIZE \<le> 4096" by (simp add: order.strict_implies_order)
  then show ?thesis by (simp add: PGROUNDDOWN_offset unat_sub unat_mod)
qed

function copyout :: "'a kmem_scheme \<Rightarrow> u64 \<Rightarrow> u64 \<Rightarrow> u8 list \<Rightarrow> (int \<times> 'a kmem_scheme) kres" where
  "copyout s pagetable dstva src =
     (if length src > 0 then
        let va0 = PGROUNDDOWN dstva in
        kbind (walkaddr s pagetable va0) (\<lambda>pa0.
        if pa0 = 0 then Inr (-1, s)
        else
          let n = min (unat (PGSIZE - (dstva - va0))) (length src) in
          kbind (is_cowpage s pagetable va0) (\<lambda>cow.
          kbind (if cow then cow_alloc s pagetable va0 else Inr (pa0, s)) (\<lambda>(pa0, s).
          if pa0 = 0 then Inr (-1, s)
          else kbind (kput_bytes s (pa0 + (dstva - va0)) (take n src)) (\<lambda>s.
            copyout s pagetable (va0 + PGSIZE) (drop n src)))))
      else Inr (0, s))"
  by pat_completeness auto
termination
  by (relation "measure (\<lambda>(s, pagetable, dstva, src). length src)") (auto simp: page_rest)

declare copyout.simps [simp del]

text \<open>The second argument is what the loop has copied to \<open>dst\<close> so far.\<close>

function copyin_loop :: "'a kmem_scheme \<Rightarrow> u8 list \<Rightarrow> u64 \<Rightarrow> u64 \<Rightarrow> nat \<Rightarrow> (int \<times> u8 list) kres" where
  "copyin_loop s dst pagetable srcva len =
     (if len > 0 then
        let va0 = PGROUNDDOWN srcva in
        kbind (walkaddr s pagetable va0) (\<lambda>pa0.
        if pa0 = 0 then Inr (-1, dst)
        else
          let n = min (unat (PGSIZE - (srcva - va0))) len in
          kbind (kget_bytes s (pa0 + (srcva - va0)) n) (\<lambda>bs.
          copyin_loop s (dst @ bs) pagetable (va0 + PGSIZE) (len - n)))
      else Inr (0, dst))"
  by pat_completeness auto
termination
  by (relation "measure (\<lambda>(s, dst, pagetable, srcva, len). len)") (auto simp: page_rest)

declare copyin_loop.simps [simp del]

definition copyin :: "'a kmem_scheme \<Rightarrow> u64 \<Rightarrow> u64 \<Rightarrow> nat \<Rightarrow> (int \<times> u8 list) kres" where
  "copyin s pagetable srcva len = copyin_loop s [] pagetable srcva len"

definition kget8 :: "'a mstate_scheme \<Rightarrow> u64 \<Rightarrow> u8 kres" where
  "kget8 s p = (if ram_ok p 1 then Inr (ram s p) else Inl (PageFault p))"

text \<open>The inner loop of \<open>copyinstr\<close>: \<open>n\<close> bytes at \<open>p\<close>, up to the NUL. It gives \<open>got_null\<close>, the bytes
  of \<open>dst\<close> and \<open>max\<close>.\<close>

fun copyinstr_page :: "'a mstate_scheme \<Rightarrow> u64 \<Rightarrow> nat \<Rightarrow> u8 list \<Rightarrow> nat \<Rightarrow> (bool \<times> u8 list \<times> nat) kres" where
  "copyinstr_page s p 0 dst mx = Inr (False, dst, mx)"
| "copyinstr_page s p (Suc n) dst mx =
     kbind (kget8 s p) (\<lambda>c.
     if c = 0 then Inr (True, dst @ [0], mx)
     else copyinstr_page s (p + 1) n (dst @ [c]) (mx - 1))"

lemma copyinstr_page_max:
  "copyinstr_page s p n dst mx = Inr (False, dst', mx') \<Longrightarrow> mx' = mx - n"
  by (induction s p n dst mx rule: copyinstr_page.induct) (auto split: if_splits)

function copyinstr_loop ::
  "'a kmem_scheme \<Rightarrow> u8 list \<Rightarrow> u64 \<Rightarrow> u64 \<Rightarrow> nat \<Rightarrow> bool \<Rightarrow> (int \<times> u8 list) kres" where
  "copyinstr_loop s dst pagetable srcva mx got_null =
     (if \<not> got_null \<and> mx > 0 then
        let va0 = PGROUNDDOWN srcva in
        kbind (walkaddr s pagetable va0) (\<lambda>pa0.
        if pa0 = 0 then Inr (-1, dst)
        else
          let n = min (unat (PGSIZE - (srcva - va0))) mx in
          kbind (copyinstr_page s (pa0 + (srcva - va0)) n dst mx) (\<lambda>(got_null, dst, mx).
          copyinstr_loop s dst pagetable (va0 + PGSIZE) mx got_null))
      else Inr (if got_null then 0 else -1, dst))"
  by pat_completeness auto
termination
proof (relation "measure (\<lambda>(s, dst, pagetable, srcva, mx, got_null). if got_null then 0 else Suc mx)", goal_cases)
  case 1
  then show ?case by simp
next
  case (2 s dst pagetable srcva mx got_null va0 pa0 n r g dm dst' mx')
  then show ?case
    by (cases g) (auto dest!: copyinstr_page_max simp: page_rest)
qed

declare copyinstr_loop.simps [simp del]

definition copyinstr :: "'a kmem_scheme \<Rightarrow> u64 \<Rightarrow> u64 \<Rightarrow> nat \<Rightarrow> (int \<times> u8 list) kres" where
  "copyinstr s pagetable srcva mx = copyinstr_loop s [] pagetable srcva mx False"

end
