(* ===== verification/Ptree.thy ===== *)
theory Ptree
  imports Vm
begin

text \<open>
  The abstract view of a page table in memory: the table page reached by a path of indices, the
  entry of a virtual address, when the pages form a proper tree, and how the view changes when
  one entry is written or a fresh table page is hung into the tree.
\<close>

section \<open>Entries of a table page\<close>

lemma PX_less: "PX l va < 512"
  using word_and_le1 [of "drop_bit (12 + 9 * l) va" 511]
  by (simp add: PX_def word_le_nat_alt word_less_nat_alt)

lemma unat_index8: "i < 512 \<Longrightarrow> unat (8 * i :: u64) = 8 * unat i"
  by (simp add: unat_word_ariths word_less_nat_alt)

lemma index8_less: "i < 512 \<Longrightarrow> (8 * i :: u64) < PGSIZE"
  using unat_index8 [of i] by (simp add: word_less_nat_alt)

lemma entry_page [simp]: "page_aligned pt \<Longrightarrow> i < 512 \<Longrightarrow> PGROUNDDOWN (pt + 8 * i) = pt"
  by (rule PGROUNDDOWN_add [OF _ index8_less])

lemma entry_mod8 [simp]:
  assumes "page_aligned pt" and "i < 512"
  shows "(pt + 8 * i) mod 8 = 0"
proof -
  have "take_bit 3 (8 * i) = take_bit 3 (push_bit 3 i)" by (simp add: push_bit_eq_mult mult.commute)
  also have "\<dots> = 0" by (simp add: take_bit_push_bit)
  finally have "take_bit 3 (pt OR 8 * i) = take_bit 3 pt" by simp
  then have "take_bit 3 (pt + 8 * i) = take_bit 3 pt"
    using add_offset_or [OF assms(1) index8_less [OF assms(2)]] by simp
  then show ?thesis using page_mod8 [OF assms(1)] by (simp add: take_bit_eq_mod)
qed

lemma entry_inj:
  assumes "i < 512" and "j < 512"
  shows "(pt :: u64) + 8 * i = pt + 8 * j \<longleftrightarrow> i = j"
proof
  assume "pt + 8 * i = pt + 8 * j"
  then have "unat (8 * i) = unat (8 * j)" by simp
  then show "i = j" using assms by (simp add: unat_index8 word_unat_eq_iff)
qed simp

lemma entry_ram_ok:
  assumes "kend_ok s" and "kpage s pt" and "i < 512"
  shows "ram_ok (pt + 8 * i) 8"
proof -
  have "ram_ok pt 4096" using assms kpage_ram_ok by blast
  then have b: "0x80000000 \<le> unat pt" "unat pt + 4096 \<le> 0x88000000"
    by (simp_all add: ram_ok_def word_le_nat_alt)
  moreover have "unat i < 512" using assms(3) by (simp add: word_less_nat_alt)
  moreover from this b have "unat (pt + 8 * i) = unat pt + 8 * unat i"
    using unat_index8 [OF assms(3)] by (simp add: unat_plus_if')
  ultimately show ?thesis by (simp add: ram_ok_def word_le_nat_alt)
qed

section \<open>The tree\<close>

fun node :: "mem \<Rightarrow> u64 \<Rightarrow> u64 list \<Rightarrow> u64 option" where
  "node m pt [] = Some pt"
| "node m pt (i # is) =
     (if ld64 m (pt + 8 * i) AND PTE_V \<noteq> 0 then node m (PTE2PA (ld64 m (pt + 8 * i))) is else None)"

definition path :: "u64 \<Rightarrow> u64 list" where
  "path va = [PX 2 va, PX 1 va]"

definition idx_ok :: "u64 list \<Rightarrow> bool" where
  "idx_ok is \<longleftrightarrow> length is \<le> 2 \<and> (\<forall>i \<in> set is. i < 512)"

definition tpages :: "mem \<Rightarrow> u64 \<Rightarrow> u64 set" where
  "tpages m root = {p. \<exists>is. idx_ok is \<and> node m root is = Some p}"

text \<open>A proper tree: its pages are allocated once each, and different paths lead to different pages.\<close>

definition wf_pt :: "'a kmem_scheme \<Rightarrow> u64 \<Rightarrow> bool" where
  "wf_pt s root \<longleftrightarrow>
     (\<forall>p \<in> tpages (ram s) root. kpage s p \<and> refcnt s p = 1) \<and>
     (\<forall>is js p. idx_ok is \<and> idx_ok js \<and> node (ram s) root is = Some p \<and> node (ram s) root js = Some p
        \<longrightarrow> is = js)"

definition pte_slot :: "mem \<Rightarrow> u64 \<Rightarrow> u64 \<Rightarrow> u64 option" where
  "pte_slot m root va = map_option (\<lambda>l0. l0 + 8 * PX 0 va) (node m root (path va))"

text \<open>The entry of \<open>va\<close>; the entry of an address without a level-0 table is 0, which is invalid.\<close>

definition pte_at :: "mem \<Rightarrow> u64 \<Rightarrow> u64 \<Rightarrow> u64" where
  "pte_at m root va = (case pte_slot m root va of None \<Rightarrow> 0 | Some a \<Rightarrow> ld64 m a)"

lemma idx_ok_path [simp]: "idx_ok (path va)"
  by (simp add: idx_ok_def path_def PX_less)

lemma idx_ok_Nil [simp]: "idx_ok []"
  by (simp add: idx_ok_def)

lemma idx_ok_snoc: "idx_ok (is @ [i]) \<longleftrightarrow> idx_ok is \<and> length is \<le> 1 \<and> i < 512"
  by (auto simp: idx_ok_def)

lemma root_tpages [simp]: "root \<in> tpages m root"
  by (auto simp: tpages_def intro!: exI [of _ "[]"])

lemma node_tpages: "idx_ok is \<Longrightarrow> node m root is = Some p \<Longrightarrow> p \<in> tpages m root"
  by (auto simp: tpages_def)

lemma node_append: "node m root (is @ js) = Option.bind (node m root is) (\<lambda>pt. node m pt js)"
  by (induction "is" arbitrary: root) auto

lemma node_snoc:
  "node m root (is @ [i]) = Option.bind (node m root is) (\<lambda>pt.
     if ld64 m (pt + 8 * i) AND PTE_V \<noteq> 0 then Some (PTE2PA (ld64 m (pt + 8 * i))) else None)"
  by (cases "node m root is") (simp_all add: node_append)

lemma wf_pt_kpage: "wf_pt s root \<Longrightarrow> p \<in> tpages (ram s) root \<Longrightarrow> kpage s p"
  by (simp add: wf_pt_def)

lemma wf_pt_refcnt: "wf_pt s root \<Longrightarrow> p \<in> tpages (ram s) root \<Longrightarrow> refcnt s p = 1"
  by (simp add: wf_pt_def)

lemma wf_pt_aligned: "wf_pt s root \<Longrightarrow> p \<in> tpages (ram s) root \<Longrightarrow> page_aligned p"
  by (blast dest: wf_pt_kpage kpage_aligned)

lemma wf_pt_inj:
  "\<lbrakk> wf_pt s root; idx_ok is; idx_ok js; node (ram s) root is = Some p; node (ram s) root js = Some p \<rbrakk>
   \<Longrightarrow> is = js"
  unfolding wf_pt_def by blast

section \<open>Frames\<close>

text \<open>Memory outside the table pages does not matter to the tree.\<close>

lemma node_frame:
  assumes "\<forall>p \<in> tpages m root. page_aligned p"
    and "\<forall>a. PGROUNDDOWN a \<in> tpages m root \<longrightarrow> m' a = m a"
    and "idx_ok is"
  shows "node m' root is = node m root is"
  using assms(3)
proof (induction "is" rule: rev_induct)
  case Nil
  then show ?case by simp
next
  case (snoc i "is")
  then have IH: "node m' root is = node m root is" and ok: "idx_ok is" "i < 512"
    by (simp_all add: idx_ok_snoc)
  have "ld64 m' (pt + 8 * i) = ld64 m (pt + 8 * i)" if "node m root is = Some pt" for pt
  proof -
    have "pt \<in> tpages m root" using ok(1) that by (rule node_tpages)
    then show ?thesis using assms(1,2) ok(2) by (intro ld64_in_page) auto
  qed
  then show ?case by (cases "node m root is") (simp_all add: node_snoc IH)
qed

lemma tpages_frame:
  assumes "\<forall>p \<in> tpages m root. page_aligned p"
    and "\<forall>a. PGROUNDDOWN a \<in> tpages m root \<longrightarrow> m' a = m a"
  shows "tpages m' root = tpages m root"
  unfolding tpages_def [of m'] tpages_def [of m] using node_frame [OF assms] by auto

lemma pte_at_frame:
  assumes "\<forall>p \<in> tpages m root. page_aligned p"
    and "\<forall>a. PGROUNDDOWN a \<in> tpages m root \<longrightarrow> m' a = m a"
  shows "pte_at m' root va = pte_at m root va"
proof (cases "node m root (path va)")
  case None
  then show ?thesis using node_frame [OF assms idx_ok_path] by (simp add: pte_at_def pte_slot_def)
next
  case (Some l0)
  then have "l0 \<in> tpages m root" by (intro node_tpages [OF idx_ok_path])
  then have "ld64 m' (l0 + 8 * PX 0 va) = ld64 m (l0 + 8 * PX 0 va)"
    using assms PX_less by (intro ld64_in_page) auto
  then show ?thesis using Some node_frame [OF assms idx_ok_path] by (simp add: pte_at_def pte_slot_def)
qed

lemma wf_pt_frame:
  assumes "wf_pt s root" and "kend s' = kend s"
    and "\<forall>a. PGROUNDDOWN a \<in> tpages (ram s) root \<longrightarrow> ram s' a = ram s a"
    and "\<forall>p \<in> tpages (ram s) root. refcnt s' p = refcnt s p"
  shows "wf_pt s' root"
proof -
  have al: "\<forall>p \<in> tpages (ram s) root. page_aligned p" using wf_pt_aligned [OF assms(1)] by blast
  show ?thesis
    using assms(1,2,4) tpages_frame [OF al assms(3)] node_frame [OF al assms(3)]
    unfolding wf_pt_def by (auto simp: kpage_cong [of s' s])
qed

section \<open>Which addresses share an entry\<close>

definition same_page :: "u64 \<Rightarrow> u64 \<Rightarrow> bool" where
  "same_page va va' \<longleftrightarrow> PGROUNDDOWN va = PGROUNDDOWN va'"

lemma bit_PX: "bit (PX l va) n \<longleftrightarrow> n < 9 \<and> bit va (12 + 9 * l + n)"
  by (auto simp: PX_def mask_511 bit_simps dest: bit_imp_le_length)

lemma same_page_iff_PX:
  assumes "va < MAXVA" and "va' < MAXVA"
  shows "same_page va va' \<longleftrightarrow> path va = path va' \<and> PX 0 va = PX 0 va'"
proof
  assume "same_page va va'"
  then have "bit va n = bit va' n" if "12 \<le> n" for n
    using that by (metis same_page_def bit_PGROUNDDOWN)
  then have "PX l va = PX l va'" for l by (intro bit_word_eqI) (simp add: bit_PX)
  then show "path va = path va' \<and> PX 0 va = PX 0 va'" by (simp add: path_def)
next
  assume eq: "path va = path va' \<and> PX 0 va = PX 0 va'"
  have "bit va n = bit va' n" if n: "12 \<le> n" for n
  proof -
    consider "n < 21" | "21 \<le> n" "n < 30" | "30 \<le> n" "n < 39" | "39 \<le> n" by linarith
    then show ?thesis
    proof cases
      case 1
      then have "n - 12 < 9" using n by arith
      then show ?thesis using eq bit_PX [of 0 va "n - 12"] bit_PX [of 0 va' "n - 12"] n by simp
    next
      case 2
      then have "n - 21 < 9" by arith
      then show ?thesis
        using 2 eq bit_PX [of 1 va "n - 21"] bit_PX [of 1 va' "n - 21"] n by (simp add: path_def)
    next
      case 3
      then have "n - 30 < 9" by arith
      then show ?thesis
        using 3 eq bit_PX [of 2 va "n - 30"] bit_PX [of 2 va' "n - 30"] n by (simp add: path_def)
    next
      case 4
      then show ?thesis
        using less_exp_bit [of va 38 n] less_exp_bit [of va' 38 n] assms by simp
    qed
  qed
  then show "same_page va va'"
    unfolding same_page_def by (intro bit_word_eqI) (auto simp: bit_PGROUNDDOWN)
qed

section \<open>Writing a leaf entry\<close>

lemma node_leaf_store:
  assumes wf: "wf_pt s root" and l0: "node (ram s) root (path va) = Some l0" and "idx_ok is"
  shows "node (st64 (ram s) (l0 + 8 * PX 0 va) v) root is = node (ram s) root is"
  using assms(3)
proof (induction "is" rule: rev_induct)
  case Nil
  then show ?case by simp
next
  case (snoc i "is")
  let ?a = "l0 + 8 * PX 0 va"
  have l0t: "l0 \<in> tpages (ram s) root" using l0 by (intro node_tpages [OF idx_ok_path])
  have al: "page_aligned l0" using wf l0t by (rule wf_pt_aligned)
  from snoc have IH: "node (st64 (ram s) ?a v) root is = node (ram s) root is"
    and ok: "idx_ok is" "length is \<le> 1" "i < 512" by (simp_all add: idx_ok_snoc)
  have "ld64 (st64 (ram s) ?a v) (pt + 8 * i) = ld64 (ram s) (pt + 8 * i)"
    if pt: "node (ram s) root is = Some pt" for pt
  proof (rule ld64_in_page)
    have pa: "page_aligned pt" using wf node_tpages [OF ok(1) pt] by (rule wf_pt_aligned)
    show "(pt + 8 * i) mod 8 = 0" using pa ok(3) by simp
    have "pt \<noteq> l0"
    proof
      assume "pt = l0"
      then have "is = path va" using wf_pt_inj [OF wf ok(1) idx_ok_path pt] l0 by simp
      then show False using ok(2) by (simp add: path_def)
    qed
    then show "st64 (ram s) ?a v x = ram s x" if "PGROUNDDOWN x = PGROUNDDOWN (pt + 8 * i)" for x
      using that al pa ok(3) PX_less by (intro st64_frame) simp_all
  qed
  then show ?case by (cases "node (ram s) root is") (simp_all add: node_snoc IH)
qed

lemma pte_at_leaf_store:
  assumes wf: "wf_pt s root" and l0: "node (ram s) root (path va) = Some l0"
    and "va < MAXVA" and "va' < MAXVA"
  shows "pte_at (st64 (ram s) (l0 + 8 * PX 0 va) v) root va' =
    (if same_page va va' then v else pte_at (ram s) root va')"
proof -
  let ?a = "l0 + 8 * PX 0 va" and ?m = "st64 (ram s) (l0 + 8 * PX 0 va) v"
  have nodes: "node ?m root (path va') = node (ram s) root (path va')"
    by (rule node_leaf_store [OF wf l0 idx_ok_path])
  have l0t: "l0 \<in> tpages (ram s) root" using l0 by (intro node_tpages [OF idx_ok_path])
  have al: "page_aligned l0" using wf l0t by (rule wf_pt_aligned)
  show ?thesis
  proof (cases "node (ram s) root (path va')")
    case None
    then have "path va' \<noteq> path va" using l0 by auto
    then show ?thesis
      using None nodes same_page_iff_PX [OF assms(3,4)] by (auto simp: pte_at_def pte_slot_def)
  next
    case (Some l0')
    have al': "page_aligned l0'"
      using wf node_tpages [OF idx_ok_path Some] by (rule wf_pt_aligned)
    have at: "pte_at ?m root va' = ld64 ?m (l0' + 8 * PX 0 va')"
      "pte_at (ram s) root va' = ld64 (ram s) (l0' + 8 * PX 0 va')"
      using Some nodes by (simp_all add: pte_at_def pte_slot_def)
    show ?thesis
    proof (cases "path va = path va'")
      case True
      then have "l0' = l0" using l0 Some by simp
      then show ?thesis
        using True at al same_page_iff_PX [OF assms(3,4)] entry_inj [OF PX_less PX_less] PX_less by auto
    next
      case False
      then have "l0' \<noteq> l0" using wf_pt_inj [OF wf idx_ok_path idx_ok_path Some] l0 by auto
      then have "ld64 ?m (l0' + 8 * PX 0 va') = ld64 (ram s) (l0' + 8 * PX 0 va')"
        using al al' PX_less by (intro ld64_in_page st64_frame) auto
      then show ?thesis using False at same_page_iff_PX [OF assms(3,4)] by simp
    qed
  qed
qed

lemma wf_pt_leaf_store:
  assumes wf: "wf_pt s root" and l0: "node (ram s) root (path va) = Some l0"
  shows "wf_pt (s\<lparr>ram := st64 (ram s) (l0 + 8 * PX 0 va) v\<rparr>) root"
    and "tpages (st64 (ram s) (l0 + 8 * PX 0 va) v) root = tpages (ram s) root"
proof -
  show t: "tpages (st64 (ram s) (l0 + 8 * PX 0 va) v) root = tpages (ram s) root"
    using node_leaf_store [OF wf l0] by (auto simp: tpages_def)
  show "wf_pt (s\<lparr>ram := st64 (ram s) (l0 + 8 * PX 0 va) v\<rparr>) root"
    using wf node_leaf_store [OF wf l0] t unfolding wf_pt_def by (auto simp: kpage_def refcnt_def)
qed

section \<open>Hanging a fresh table page into the tree\<close>

lemma ld64_zero:
  assumes "a mod 8 = 0" and "\<And>x. PGROUNDDOWN x = PGROUNDDOWN a \<Longrightarrow> m x = 0"
  shows "ld64 m a = 0"
proof -
  have "ld64 m a = ld64 (\<lambda>_. 0) a" using assms by (intro ld64_in_page) auto
  also have "\<dots> = 0" by (simp add: ld64_def)
  finally show ?thesis .
qed

lemma PA2PTE_valid [simp]: "(PA2PTE pa OR PTE_V) AND PTE_V \<noteq> 0"
  by (auto simp: bit_eq_iff bit_simps intro!: exI [of _ 0])

lemma kpage_PTE2PA [simp]:
  assumes "kpage s p" and "flags_only perm"
  shows "PTE2PA (PA2PTE p OR perm) = p"
proof -
  have "p < 2 ^ 56" using assms(1) by (simp add: kpage_def word_less_nat_alt)
  then show ?thesis using assms by (intro PTE2PA_PA2PTE) (simp_all add: kpage_def)
qed

text \<open>\<open>hang m p a\<close>: page \<open>p\<close> cleared and its address stored as a table pointer at \<open>a\<close>.\<close>

definition hang :: "mem \<Rightarrow> u64 \<Rightarrow> u64 \<Rightarrow> mem" where
  "hang m p a = st64 (memset m p 0 4096) a (PA2PTE p OR PTE_V)"

lemma hang_frame:
  assumes "page_aligned pt" "page_aligned p" "i < 512" "PGROUNDDOWN x \<noteq> pt" "PGROUNDDOWN x \<noteq> p"
  shows "hang m p (pt + 8 * i) x = m x"
  using assms by (simp add: hang_def st64_frame memset_page)

lemma hang_fresh_zero:
  assumes "page_aligned pt" "page_aligned p" "pt \<noteq> p" "i < 512" "k < 512"
  shows "ld64 (hang m p (pt + 8 * i)) (p + 8 * k) = 0"
  using assms by (intro ld64_zero) (simp_all add: hang_def st64_frame memset_page)

lemma hang_other_entry:
  assumes "page_aligned pt" "page_aligned p" "page_aligned q" "pt \<noteq> p" "q \<noteq> p"
    "i < 512" "k < 512" "q = pt \<Longrightarrow> k \<noteq> i"
  shows "ld64 (hang m p (pt + 8 * i)) (q + 8 * k) = ld64 m (q + 8 * k)"
proof -
  have "q + 8 * k \<noteq> pt + 8 * i"
    using assms by (metis entry_inj entry_page)
  then have "ld64 (hang m p (pt + 8 * i)) (q + 8 * k) = ld64 (memset m p 0 4096) (q + 8 * k)"
    using assms unfolding hang_def by (intro ld64_st64_other) simp_all
  also have "\<dots> = ld64 m (q + 8 * k)"
    using assms by (intro ld64_in_page) (simp_all add: memset_page)
  finally show ?thesis .
qed

lemma node_hang:
  assumes wf: "wf_pt s root" and js: "node (ram s) root js = Some pt" "idx_ok (js @ [i])"
    and inv: "ld64 (ram s) (pt + 8 * i) AND PTE_V = 0"
    and p: "kpage s p" "p \<notin> tpages (ram s) root" and "idx_ok is"
  shows "node (hang (ram s) p (pt + 8 * i)) root is =
    (if is = js @ [i] then Some p else node (ram s) root is)"
  using assms(7)
proof (induction "is" rule: rev_induct)
  case Nil
  then show ?case by simp
next
  case (snoc k ks)
  let ?m = "hang (ram s) p (pt + 8 * i)"
  from js(2) have ijs: "idx_ok js" "i < 512" by (simp_all add: idx_ok_snoc)
  from snoc.prems have ok: "idx_ok ks" "k < 512" by (simp_all add: idx_ok_snoc)
  have ptt: "pt \<in> tpages (ram s) root" using ijs(1) js(1) by (rule node_tpages)
  have al: "page_aligned pt" "page_aligned p" "pt \<noteq> p"
    using wf_pt_aligned [OF wf ptt] p ptt kpage_aligned by auto
  note IH = snoc.IH [OF ok(1)]
  show ?case
  proof (cases "ks = js @ [i]")
    case True
    have "node (ram s) root ks = None" using True js(1) inv by (simp add: node_snoc)
    moreover have "node ?m root ks = Some p" using True IH by simp
    moreover have "ld64 ?m (p + 8 * k) = 0" using al ijs ok by (intro hang_fresh_zero)
    ultimately have "node ?m root (ks @ [k]) = None" "node (ram s) root (ks @ [k]) = None"
      by (simp_all add: node_snoc)
    moreover have "ks @ [k] \<noteq> js @ [i]" using True by simp
    ultimately show ?thesis by simp
  next
    case False
    then have eq: "node ?m root ks = node (ram s) root ks" using IH by simp
    show ?thesis
    proof (cases "node (ram s) root ks")
      case None
      then have "ks @ [k] \<noteq> js @ [i]" using js(1) by auto
      then show ?thesis using None eq by (simp add: node_snoc)
    next
      case (Some q)
      have qt: "q \<in> tpages (ram s) root" using ok(1) Some by (rule node_tpages)
      have qal: "page_aligned q" "q \<noteq> p" using wf_pt_aligned [OF wf qt] p qt by auto
      have ks: "q = pt \<longleftrightarrow> ks = js"
        using wf_pt_inj [OF wf ok(1) ijs(1) Some] js(1) Some by auto
      show ?thesis
      proof (cases "ks = js \<and> k = i")
        case True
        then have "ld64 ?m (q + 8 * k) = PA2PTE p OR PTE_V" using ks by (simp add: hang_def)
        then show ?thesis using True Some eq p(1) by (simp add: node_snoc)
      next
        case False
        then have "ld64 ?m (q + 8 * k) = ld64 (ram s) (q + 8 * k)"
          using al qal ijs ok ks by (intro hang_other_entry) auto
        then show ?thesis using False Some eq by (auto simp: node_snoc)
      qed
    qed
  qed
qed

lemma tpages_hang:
  assumes "wf_pt s root" "node (ram s) root js = Some pt" "idx_ok (js @ [i])"
    "ld64 (ram s) (pt + 8 * i) AND PTE_V = 0" "kpage s p" "p \<notin> tpages (ram s) root"
  shows "tpages (hang (ram s) p (pt + 8 * i)) root = insert p (tpages (ram s) root)"
proof -
  have "node (ram s) root (js @ [i]) = None" using assms(2,4) by (simp add: node_snoc)
  then have "(\<exists>is. idx_ok is \<and> node (hang (ram s) p (pt + 8 * i)) root is = Some q) \<longleftrightarrow>
      q = p \<or> (\<exists>is. idx_ok is \<and> node (ram s) root is = Some q)" for q
    using node_hang [OF assms] assms(3) by (metis option.distinct(1) option.inject)
  then show ?thesis unfolding tpages_def by blast
qed

lemma pte_at_hang:
  assumes wf: "wf_pt s root" and js: "node (ram s) root js = Some pt" "idx_ok (js @ [i])"
    and inv: "ld64 (ram s) (pt + 8 * i) AND PTE_V = 0"
    and p: "kpage s p" "p \<notin> tpages (ram s) root"
  shows "pte_at (hang (ram s) p (pt + 8 * i)) root va = pte_at (ram s) root va"
proof -
  let ?m = "hang (ram s) p (pt + 8 * i)"
  note nodes = node_hang [OF assms idx_ok_path]
  from js(2) have ijs: "idx_ok js" "i < 512" "length js \<le> 1" by (simp_all add: idx_ok_snoc)
  have ptt: "pt \<in> tpages (ram s) root" using ijs(1) js(1) by (rule node_tpages)
  have al: "page_aligned pt" "page_aligned p" "pt \<noteq> p"
    using wf_pt_aligned [OF wf ptt] p ptt kpage_aligned by auto
  show ?thesis
  proof (cases "path va = js @ [i]")
    case True
    have "node (ram s) root (path va) = None" using True js(1) inv by (simp add: node_snoc)
    moreover have "ld64 ?m (p + 8 * PX 0 va) = 0" using al ijs PX_less by (intro hang_fresh_zero)
    moreover have "node ?m root (path va) = Some p" using True nodes [of va] by simp
    ultimately show ?thesis by (simp add: pte_at_def pte_slot_def)
  next
    case False
    show ?thesis
    proof (cases "node (ram s) root (path va)")
      case None
      then show ?thesis using False nodes by (simp add: pte_at_def pte_slot_def)
    next
      case (Some q)
      have qt: "q \<in> tpages (ram s) root" using Some by (rule node_tpages [OF idx_ok_path])
      have qal: "page_aligned q" "q \<noteq> p" using wf_pt_aligned [OF wf qt] p qt by auto
      have "q \<noteq> pt"
      proof
        assume "q = pt"
        then have "path va = js" using wf_pt_inj [OF wf idx_ok_path ijs(1) Some] js(1) by simp
        then show False using ijs(3) by (auto simp: path_def)
      qed
      then have "ld64 ?m (q + 8 * PX 0 va) = ld64 (ram s) (q + 8 * PX 0 va)"
        using al qal ijs PX_less by (intro hang_other_entry) auto
      then show ?thesis using False Some nodes by (simp add: pte_at_def pte_slot_def)
    qed
  qed
qed

end
