(* ===== verification/Vmmap.thy ===== *)
theory Vmmap
  imports Ptree
begin

text \<open>
  What \<open>walk\<close> and \<open>mappages\<close> of \<open>kernel/vm.c\<close> do to a page-table tree: the relations \<open>evolve\<close>
  (the table may take free pages, everything else is kept) and \<open>grow\<close> (and no entry changes), and
  the behaviour of both functions on every branch.
\<close>

section \<open>Evolution of a page table\<close>

text \<open>Between \<open>s\<close> and \<open>s'\<close> only bytes of the pages \<open>W\<close> differ.\<close>

definition frame :: "'a kmem_scheme \<Rightarrow> 'a kmem_scheme \<Rightarrow> u64 set \<Rightarrow> bool" where
  "frame s s' W \<longleftrightarrow> kend s' = kend s \<and> kmem.more s' = kmem.more s \<and>
     (\<forall>a. PGROUNDDOWN a \<notin> W \<longrightarrow> ram s' a = ram s a)"

definition taken :: "'a kmem_scheme \<Rightarrow> 'a kmem_scheme \<Rightarrow> u64 set" where
  "taken s s' = free_pages s - free_pages s'"

text \<open>
  The table at \<open>root\<close> has taken some free pages as table pages; the counts of all other pages are
  kept, and only bytes of its own table pages and of free pages have changed.
\<close>

definition evolve :: "'a kmem_scheme \<Rightarrow> u64 \<Rightarrow> 'a kmem_scheme \<Rightarrow> bool" where
  "evolve s root s' \<longleftrightarrow>
     kmem_inv s' \<and> wf_pt s' root \<and> free_pages s' \<subseteq> free_pages s \<and>
     tpages (ram s') root = tpages (ram s) root \<union> taken s s' \<and>
     (\<forall>p. kpage s p \<and> p \<notin> taken s s' \<longrightarrow> refcnt s' p = refcnt s p) \<and>
     frame s s' (tpages (ram s) root \<union> free_pages s)"

definition grow :: "'a kmem_scheme \<Rightarrow> u64 \<Rightarrow> 'a kmem_scheme \<Rightarrow> bool" where
  "grow s root s' \<longleftrightarrow> evolve s root s' \<and>
     (\<forall>va < MAXVA. pte_at (ram s') root va = pte_at (ram s) root va)"

lemma frame_refl [simp]: "frame s s W"
  by (simp add: frame_def)

lemma frame_trans: "frame s s' W \<Longrightarrow> frame s' s'' W' \<Longrightarrow> frame s s'' (W \<union> W')"
  by (simp add: frame_def)

lemma frame_mono: "frame s s' W \<Longrightarrow> W \<subseteq> W' \<Longrightarrow> frame s s' W'"
  by (auto simp: frame_def)

lemma frame_kpage: "frame s s' W \<Longrightarrow> kpage s' p = kpage s p"
  by (intro kpage_cong) (simp add: frame_def)

lemma frame_kend_ok: "frame s s' W \<Longrightarrow> kend_ok s' = kend_ok s"
  by (intro kend_ok_cong) (simp add: frame_def)

lemma evolve_refl: "kmem_inv s \<Longrightarrow> wf_pt s root \<Longrightarrow> evolve s root s"
  by (simp add: evolve_def taken_def)

lemma grow_refl: "kmem_inv s \<Longrightarrow> wf_pt s root \<Longrightarrow> grow s root s"
  by (simp add: grow_def evolve_refl)

lemma evolve_trans:
  assumes 1: "evolve s root s'" and 2: "evolve s' root s''"
  shows "evolve s root s''"
proof -
  have t: "taken s s'' = taken s s' \<union> taken s' s''"
    using assms by (auto simp: evolve_def taken_def)
  have k: "kpage s' p = kpage s p" for p using 1 frame_kpage unfolding evolve_def by blast
  have "frame s s'' ((tpages (ram s) root \<union> free_pages s) \<union> (tpages (ram s') root \<union> free_pages s'))"
    using frame_trans 1 2 unfolding evolve_def by blast
  then have "frame s s'' (tpages (ram s) root \<union> free_pages s)"
    using 1 by (elim frame_mono) (auto simp: evolve_def taken_def)
  moreover have "tpages (ram s'') root = tpages (ram s) root \<union> taken s s''"
    using 1 2 by (auto simp: evolve_def t)
  moreover have "refcnt s'' p = refcnt s p" if "kpage s p" "p \<notin> taken s s''" for p
    using 1 2 that k by (simp add: evolve_def t)
  ultimately show ?thesis using 1 2 unfolding evolve_def by blast
qed

lemma grow_trans: "grow s root s' \<Longrightarrow> grow s' root s'' \<Longrightarrow> grow s root s''"
  by (auto simp: grow_def intro: evolve_trans)

text \<open>Another table is not affected.\<close>

lemma frame_other:
  assumes "frame s s' W" and "wf_pt s r" and "tpages (ram s) r \<inter> W = {}"
    and "\<forall>p \<in> tpages (ram s) r. refcnt s' p = refcnt s p"
  shows "wf_pt s' r" and "tpages (ram s') r = tpages (ram s) r"
    and "pte_at (ram s') r va = pte_at (ram s) r va"
proof -
  have al: "\<forall>p \<in> tpages (ram s) r. page_aligned p" using wf_pt_aligned [OF assms(2)] by blast
  have m: "\<forall>a. PGROUNDDOWN a \<in> tpages (ram s) r \<longrightarrow> ram s' a = ram s a"
    using assms(1,3) by (auto simp: frame_def)
  show "tpages (ram s') r = tpages (ram s) r" using al m by (rule tpages_frame)
  show "pte_at (ram s') r va = pte_at (ram s) r va" using al m by (rule pte_at_frame)
  show "wf_pt s' r" using assms m by (intro wf_pt_frame [OF assms(2)]) (auto simp: frame_def)
qed

lemma taken_free: "taken s s' \<subseteq> free_pages s"
  by (auto simp: taken_def)

lemma tpages_not_free: "wf_pt s root \<Longrightarrow> p \<in> tpages (ram s) root \<Longrightarrow> p \<notin> free_pages s"
  using wf_pt_refcnt by (fastforce simp: free_pages_def)

lemma evolve_other:
  assumes "evolve s root s'" and "wf_pt s r" and "tpages (ram s) r \<inter> tpages (ram s) root = {}"
  shows "wf_pt s' r" and "tpages (ram s') r = tpages (ram s) r"
    and "pte_at (ram s') r va = pte_at (ram s) r va"
    and "tpages (ram s') r \<inter> tpages (ram s') root = {}"
proof -
  have f: "frame s s' (tpages (ram s) root \<union> free_pages s)" using assms(1) by (simp add: evolve_def)
  have "tpages (ram s) r \<inter> free_pages s = {}"
    using tpages_not_free [OF assms(2)] by blast
  then have d: "tpages (ram s) r \<inter> taken s s' = {}"
    and "tpages (ram s) r \<inter> (tpages (ram s) root \<union> free_pages s) = {}"
    using assms(3) taken_free by blast+
  moreover have "\<forall>p \<in> tpages (ram s) r. refcnt s' p = refcnt s p"
    using assms(1) \<open>tpages (ram s) r \<inter> taken s s' = {}\<close> wf_pt_kpage [OF assms(2)] unfolding evolve_def by blast
  ultimately show "wf_pt s' r" and t: "tpages (ram s') r = tpages (ram s) r"
    and "pte_at (ram s') r va = pte_at (ram s) r va"
    using frame_other [OF f assms(2)] by auto
  show "tpages (ram s') r \<inter> tpages (ram s') root = {}"
    using assms(1,3) d unfolding t evolve_def by blast
qed

section \<open>The entry of an address\<close>

lemma slot_page:
  assumes "wf_pt s root" and "pte_slot (ram s) root va = Some a"
  shows "PGROUNDDOWN a \<in> tpages (ram s) root" and "a mod 8 = 0"
    and "pte_at (ram s) root va = ld64 (ram s) a"
proof -
  obtain l0 where l0: "node (ram s) root (path va) = Some l0" "a = l0 + 8 * PX 0 va"
    using assms(2) by (auto simp: pte_slot_def)
  have t: "l0 \<in> tpages (ram s) root" using node_tpages [OF idx_ok_path l0(1)] .
  have al: "page_aligned l0" using wf_pt_aligned [OF assms(1) t] .
  show "PGROUNDDOWN a \<in> tpages (ram s) root" "a mod 8 = 0" using t al l0(2) PX_less by auto
  show "pte_at (ram s) root va = ld64 (ram s) a" using assms(2) by (simp add: pte_at_def)
qed

lemma slot_ram_ok:
  assumes "kend_ok s" and "wf_pt s root" and "pte_slot (ram s) root va = Some a"
  shows "ram_ok a 8" and "a \<noteq> 0"
proof -
  obtain l0 where l0: "node (ram s) root (path va) = Some l0" "a = l0 + 8 * PX 0 va"
    using assms(3) by (auto simp: pte_slot_def)
  have "kpage s l0" using wf_pt_kpage [OF assms(2) node_tpages [OF idx_ok_path l0(1)]] .
  then show "ram_ok a 8" using entry_ram_ok [OF assms(1)] PX_less l0(2) by simp
  then show "a \<noteq> 0" by (auto simp: ram_ok_def)
qed

text \<open>Storing an entry through its slot.\<close>

definition set_pte :: "'a kmem_scheme \<Rightarrow> u64 \<Rightarrow> u64 \<Rightarrow> 'a kmem_scheme" where
  "set_pte s a v = s\<lparr>ram := st64 (ram s) a v\<rparr>"

lemma set_pte_sel [simp]:
  "kend (set_pte s a v) = kend s" "freelist (set_pte s a v) = freelist s"
  "refer_count (set_pte s a v) = refer_count s" "kmem.more (set_pte s a v) = kmem.more s"
  "ram (set_pte s a v) = st64 (ram s) a v"
  "free_pages (set_pte s a v) = free_pages s" "refcnt (set_pte s a v) p = refcnt s p"
  "kpage (set_pte s a v) p = kpage s p"
  by (simp_all add: set_pte_def)

lemma slot_set_pte:
  assumes "wf_pt s root" and "pte_slot (ram s) root va = Some a"
  shows "pte_slot (ram (set_pte s a v)) root va' = pte_slot (ram s) root va'"
proof -
  obtain l0 where l0: "node (ram s) root (path va) = Some l0" "a = l0 + 8 * PX 0 va"
    using assms(2) by (auto simp: pte_slot_def)
  show ?thesis using node_leaf_store [OF assms(1) l0(1) idx_ok_path] l0(2) by (simp add: pte_slot_def)
qed

lemma evolve_set_pte:
  assumes "kmem_inv s" and "wf_pt s root" and "pte_slot (ram s) root va = Some a"
  shows "evolve s root (set_pte s a v)" and "tpages (ram (set_pte s a v)) root = tpages (ram s) root"
    and "frame s (set_pte s a v) (tpages (ram s) root)"
proof -
  obtain l0 where l0: "node (ram s) root (path va) = Some l0" "a = l0 + 8 * PX 0 va"
    using assms(3) by (auto simp: pte_slot_def)
  note sp = slot_page [OF assms(2,3)]
  have same: "st64 (ram s) a v x = ram s x" if "PGROUNDDOWN x \<notin> tpages (ram s) root" for x
    using that sp(1,2) by (intro st64_frame) auto
  have "kmem_inv (set_pte s a v)"
    unfolding set_pte_def using tpages_not_free [OF assms(2)] same
    by (intro kmem_inv_ram_frame [OF assms(1)]) blast
  moreover have "wf_pt (set_pte s a v) root"
    using wf_pt_leaf_store(1) [OF assms(2) l0(1)] l0(2) by (simp add: set_pte_def)
  moreover show t: "tpages (ram (set_pte s a v)) root = tpages (ram s) root"
    using wf_pt_leaf_store(2) [OF assms(2) l0(1)] l0(2) by simp
  ultimately show "evolve s root (set_pte s a v)"
    using same by (simp add: evolve_def taken_def frame_def)
  show "frame s (set_pte s a v) (tpages (ram s) root)" using same by (simp add: frame_def)
qed

lemma pte_at_set_pte:
  assumes "wf_pt s root" and "pte_slot (ram s) root va = Some a" and "va < MAXVA" and "va' < MAXVA"
  shows "pte_at (ram (set_pte s a v)) root va' =
    (if same_page va va' then v else pte_at (ram s) root va')"
proof -
  obtain l0 where l0: "node (ram s) root (path va) = Some l0" "a = l0 + 8 * PX 0 va"
    using assms(2) by (auto simp: pte_slot_def)
  show ?thesis using pte_at_leaf_store [OF assms(1) l0(1) assms(3,4)] l0(2) by simp
qed

section \<open>walk\<close>

text \<open>Without \<open>alloc\<close>: the slot of the address if its level-0 table exists, else null.\<close>

lemma walk_level_loads:
  assumes "kend_ok s" and "wf_pt s root"
  shows "load64 s (root + 8 * PX 2 va) = Inr (ld64 (ram s) (root + 8 * PX 2 va))"
    and "ld64 (ram s) (root + 8 * PX 2 va) AND PTE_V \<noteq> 0 \<Longrightarrow>
      load64 s (PTE2PA (ld64 (ram s) (root + 8 * PX 2 va)) + 8 * PX 1 va) =
      Inr (ld64 (ram s) (PTE2PA (ld64 (ram s) (root + 8 * PX 2 va)) + 8 * PX 1 va))"
proof -
  have ld: "load64 s (pt + 8 * i) = Inr (ld64 (ram s) (pt + 8 * i))"
    if "idx_ok is" "node (ram s) root is = Some pt" "i < 512" for "is" pt i
    using entry_ram_ok [OF assms(1) _ that(3)] wf_pt_kpage [OF assms(2) node_tpages [OF that(1,2)]]
    by (simp add: load64_def)
  show "load64 s (root + 8 * PX 2 va) = Inr (ld64 (ram s) (root + 8 * PX 2 va))"
    using ld [of "[]"] PX_less by simp
  show "load64 s (PTE2PA (ld64 (ram s) (root + 8 * PX 2 va)) + 8 * PX 1 va) =
      Inr (ld64 (ram s) (PTE2PA (ld64 (ram s) (root + 8 * PX 2 va)) + 8 * PX 1 va))"
    if "ld64 (ram s) (root + 8 * PX 2 va) AND PTE_V \<noteq> 0"
    using ld [of "[PX 2 va]"] that PX_less by (simp add: idx_ok_def)
qed

lemma walk_lookup:
  assumes "kend_ok s" and "wf_pt s root" and "va < MAXVA"
  shows "walk s root va False =
    Inr (case pte_slot (ram s) root va of None \<Rightarrow> 0 | Some a \<Rightarrow> a, s)"
  using assms(3) walk_level_loads [OF assms(1,2), of va]
  by (auto simp: walk_def numeral_2_eq_2 pte_slot_def path_def)

lemma walk_present:
  assumes "kend_ok s" and "wf_pt s root" and "va < MAXVA" and "pte_slot (ram s) root va = Some a"
  shows "walk s root va alloc = Inr (a, s)"
  using assms(3,4) walk_level_loads [OF assms(1,2), of va]
  by (auto simp: walk_def numeral_2_eq_2 pte_slot_def path_def split: if_splits)

lemma memset_twice: "page_aligned p \<Longrightarrow> memset (memset m p c 4096) p d 4096 = memset m p d 4096"
  by (auto simp: memset_page fun_eq_iff)

text \<open>One missing level: the next free page becomes a table.\<close>

lemma walk_hang:
  assumes inv: "kmem_inv s" and wf: "wf_pt s root" and js: "node (ram s) root js = Some pt"
    and ok: "idx_ok (js @ [i])" and ent: "ld64 (ram s) (pt + 8 * i) AND PTE_V = 0"
    and ne: "free_pages s \<noteq> {}"
  obtains p s1 s2 s' where "kalloc s = Inr (p, s1)" "p \<noteq> 0" "kmemset s1 p 0 4096 = Inr s2"
    "store64 s2 (pt + 8 * i) (PA2PTE p OR PTE_V) = Inr s'" "grow s root s'"
    "node (ram s') root (js @ [i]) = Some p"
proof -
  have kend: "kend_ok s" using inv by (rule kmem_inv_kend_ok)
  obtain p where p: "kalloc s = Inr (p, kalloc_post s p)" "p \<in> free_pages s"
    "kmem_inv (kalloc_post s p)" "free_pages (kalloc_post s p) = free_pages s - {p}"
    using kalloc_some [OF inv ne] by blast
  have kp: "kpage s p" using p(2) by (simp add: free_pages_def)
  have pn: "p \<notin> tpages (ram s) root" using tpages_not_free [OF wf] p(2) by blast
  have al: "page_aligned p" using kp by (rule kpage_aligned)
  from ok have ijs: "idx_ok js" "i < 512" by (simp_all add: idx_ok_snoc)
  have pt: "pt \<in> tpages (ram s) root" using ijs(1) js by (rule node_tpages)
  have kpt: "kpage s pt" "page_aligned pt" using wf_pt_kpage [OF wf pt] wf_pt_aligned [OF wf pt] .
  let ?m = "hang (ram s) p (pt + 8 * i)"
  let ?s' = "(kalloc_post s p)\<lparr>ram := ?m\<rparr>"
  have m: "?m x = ram s x" if "PGROUNDDOWN x \<notin> insert p (tpages (ram s) root)" for x
    using that pt kpt al ijs by (intro hang_frame) auto
  have m': "?m x = memset (ram s) p 5 4096 x" if "PGROUNDDOWN x \<notin> insert p (tpages (ram s) root)" for x
    using that m al by (simp add: memset_page)
  note h = wf js ok ent kp pn
  have t: "tpages ?m root = insert p (tpages (ram s) root)" using tpages_hang [OF h] .
  have tk: "taken s ?s' = {p}" using p(2,4) by (auto simp: taken_def)
  have cnt: "refcnt ?s' q = (if q = p then 1 else refcnt s q)" if "kpage s q" for q
    using refcnt_kalloc_post [OF kend kp that] by simp
  have kpe: "kpage ?s' q = kpage s q" for q by (intro kpage_cong) simp
  have "kmem_inv ?s'"
    using m' p(4) tpages_not_free [OF wf] by (intro kmem_inv_ram_frame [OF p(3)]) auto
  moreover have "wf_pt ?s' root"
    unfolding wf_pt_def
  proof (intro conjI allI impI ballI)
    fix q assume q: "q \<in> tpages (ram ?s') root"
    then have "q = p \<or> q \<in> tpages (ram s) root" using t by simp
    then show "kpage ?s' q" "refcnt ?s' q = 1"
      using cnt [of q] kp wf_pt_kpage [OF wf] wf_pt_refcnt [OF wf] unfolding kpe by auto
  next
    fix "is" ks q
    assume "idx_ok is \<and> idx_ok ks \<and> node (ram ?s') root is = Some q \<and> node (ram ?s') root ks = Some q"
    then show "is = ks"
      using node_hang [OF h] wf_pt_inj [OF wf] node_tpages pn
      by (auto split: if_splits)
  qed
  moreover have "frame s ?s' (tpages (ram s) root \<union> free_pages s)"
    using m p(2) unfolding frame_def by simp metis
  ultimately have "evolve s root ?s'"
    using t tk cnt p(4) unfolding evolve_def by auto
  moreover have "pte_at (ram ?s') root va = pte_at (ram s) root va" for va
    using pte_at_hang [OF h] by simp
  ultimately have g: "grow s root ?s'" by (simp add: grow_def)
  have rp: "ram_ok p 4096" using kpage_ram_ok [OF kend kp] by simp
  have re: "ram_ok (pt + 8 * i) 8" using kend kpt(1) ijs(2) by (rule entry_ram_ok)
  show thesis
  proof (rule that [OF p(1) _ _ _ g])
    show "p \<noteq> 0" using kend kp by (rule kpage_nonzero)
    show "kmemset (kalloc_post s p) p 0 4096 = Inr ((kalloc_post s p)\<lparr>ram := memset (ram s) p 0 4096\<rparr>)"
      using rp by (simp add: kmemset_def memset_twice al)
    show "store64 ((kalloc_post s p)\<lparr>ram := memset (ram s) p 0 4096\<rparr>) (pt + 8 * i) (PA2PTE p OR PTE_V) =
        Inr ?s'"
      using re by (simp add: store64_def hang_def)
    show "node (ram ?s') root (js @ [i]) = Some p" using node_hang [OF h ok] by simp
  qed
qed

lemma walk_loop_alloc:
  assumes "kmem_inv s" and "wf_pt s root" and "l \<le> 2"
    and "node (ram s) root (take (2 - l) (path va)) = Some pt"
  shows "\<exists>a s'. walk_loop s pt va True l = Inr (a, s') \<and> grow s root s' \<and>
    (a = 0 \<and> free_pages s' = {} \<or> pte_slot (ram s') root va = Some a)"
  using assms
proof (induction l arbitrary: s pt)
  case 0
  then show ?case by (auto simp: pte_slot_def path_def intro: grow_refl)
next
  case (Suc l)
  have kend: "kend_ok s" using Suc.prems(1) by (rule kmem_inv_kend_ok)
  let ?js = "take (2 - Suc l) (path va)" and ?i = "PX (Suc l) va"
  have nxt: "take (2 - l) (path va) = ?js @ [?i]"
    using Suc.prems(3) by (cases l) (auto simp: path_def numeral_2_eq_2 le_Suc_eq)
  have ok: "idx_ok (?js @ [?i])"
    unfolding nxt [symmetric] by (auto simp: idx_ok_def path_def PX_less dest!: in_set_takeD)
  then have ijs: "idx_ok ?js" "?i < 512" by (simp_all add: idx_ok_snoc)
  have pt: "pt \<in> tpages (ram s) root" using node_tpages [OF ijs(1) Suc.prems(4)] .
  have ld: "load64 s (pt + 8 * ?i) = Inr (ld64 (ram s) (pt + 8 * ?i))"
    using entry_ram_ok [OF kend wf_pt_kpage [OF Suc.prems(2) pt] ijs(2)] by (simp add: load64_def)
  show ?case
  proof (cases "ld64 (ram s) (pt + 8 * ?i) AND PTE_V = 0")
    case False
    then have "node (ram s) root (take (2 - l) (path va)) = Some (PTE2PA (ld64 (ram s) (pt + 8 * ?i)))"
      unfolding nxt using Suc.prems(4) by (simp add: node_snoc)
    then show ?thesis using Suc.IH [OF Suc.prems(1,2)] Suc.prems(3) False ld by simp
  next
    case ent: True
    show ?thesis
    proof (cases "free_pages s = {}")
      case True
      then have "walk_loop s pt va True (Suc l) = Inr (0, s)"
        using ld ent kalloc_none [OF Suc.prems(1)] by simp
      then show ?thesis using True grow_refl [OF Suc.prems(1,2)] by auto
    next
      case False
      obtain p s1 s2 s' where w: "kalloc s = Inr (p, s1)" "p \<noteq> 0" "kmemset s1 p 0 4096 = Inr s2"
        "store64 s2 (pt + 8 * ?i) (PA2PTE p OR PTE_V) = Inr s'" "grow s root s'"
        "node (ram s') root (?js @ [?i]) = Some p"
        using walk_hang [OF Suc.prems(1,2,4) ok ent False] by metis
      then have "kmem_inv s'" "wf_pt s' root" by (simp_all add: grow_def evolve_def)
      then obtain a s'' where "walk_loop s' p va True l = Inr (a, s'')" "grow s' root s''"
        "a = 0 \<and> free_pages s'' = {} \<or> pte_slot (ram s'') root va = Some a"
        using Suc.IH [of s' p] w(6) Suc.prems(3) unfolding nxt by auto
      then show ?thesis using w ld ent grow_trans [OF w(5)] by auto
    qed
  qed
qed

text \<open>With \<open>alloc\<close>: the missing tables are made, unless the free pages run out.\<close>

lemma walk_alloc:
  assumes "kmem_inv s" and "wf_pt s root" and "va < MAXVA"
  obtains a s' where "walk s root va True = Inr (a, s')" "grow s root s'"
    "a = 0 \<and> free_pages s' = {} \<or> a \<noteq> 0 \<and> pte_slot (ram s') root va = Some a"
proof -
  obtain a s' where w: "walk_loop s root va True 2 = Inr (a, s')" "grow s root s'"
    "a = 0 \<and> free_pages s' = {} \<or> pte_slot (ram s') root va = Some a"
    using walk_loop_alloc [OF assms(1,2), of 2 va root] by auto
  moreover have "a \<noteq> 0" if "pte_slot (ram s') root va = Some a"
    using w(2) that slot_ram_ok(2) kmem_inv_kend_ok unfolding grow_def evolve_def by blast
  moreover have "walk s root va True = walk_loop s root va True 2" using assms(3) by (auto simp: walk_def)
  ultimately show thesis using that [of a s'] by auto
qed

section \<open>mappages\<close>

text \<open>The first addresses of \<open>n\<close> pages from \<open>a\<close> on.\<close>

definition nth_page :: "u64 \<Rightarrow> nat \<Rightarrow> u64" where
  "nth_page a i = a + of_nat i * PGSIZE"

lemma nth_page_0 [simp]: "nth_page a 0 = a"
  by (simp add: nth_page_def)

lemma nth_page_Suc: "nth_page a (Suc i) = nth_page (a + PGSIZE) i"
  by (simp add: nth_page_def algebra_simps)

text \<open>\<open>n\<close> whole pages from the page boundary \<open>a\<close> on lie below \<open>MAXVA\<close>.\<close>

definition page_range :: "u64 \<Rightarrow> nat \<Rightarrow> bool" where
  "page_range a n \<longleftrightarrow> page_aligned a \<and> unat a + 4096 * n \<le> unat MAXVA"

lemma page_range_Suc:
  assumes "page_range a (Suc n)"
  shows "page_range (a + PGSIZE) n" and "a < MAXVA" and "page_aligned a"
    and "unat (a + PGSIZE) = unat a + 4096"
proof -
  have u: "unat a + 4096 * Suc n \<le> 0x4000000000" and al: "page_aligned a"
    using assms by (simp_all add: page_range_def)
  show nx: "unat (a + PGSIZE) = unat a + 4096" using u by (simp add: unat_word_ariths)
  show "page_aligned a" by (rule al)
  show "a < MAXVA" using u by (simp add: word_less_nat_alt)
  show "page_range (a + PGSIZE) n" using u al nx by (simp add: page_range_def page_aligned_unat)
qed

lemma nth_page_unat:
  assumes "page_range a n" and "i < n"
  shows "unat (nth_page a i) = unat a + 4096 * i"
proof -
  have "unat a + 4096 * i < 2 ^ 64" using assms by (simp add: page_range_def)
  then show ?thesis by (simp add: nth_page_def unat_word_ariths unat_of_nat mult.commute)
qed

lemma nth_page_range:
  assumes "page_range a n" and "i < n"
  shows "nth_page a i < MAXVA" and "page_aligned (nth_page a i)"
  using assms nth_page_unat [OF assms]
  by (simp_all add: page_range_def word_less_nat_alt page_aligned_unat)

lemma same_page_aligned: "page_aligned a \<Longrightarrow> page_aligned b \<Longrightarrow> same_page a b \<longleftrightarrow> a = b"
  by (simp add: same_page_def)

text \<open>
  \<open>m'\<close> differs from \<open>m\<close> in the entries of \<open>k\<close> pages from \<open>a\<close> on, which map the physical pages from \<open>pa\<close>
  on with permissions \<open>perm\<close>.
\<close>

definition mapped :: "mem \<Rightarrow> mem \<Rightarrow> u64 \<Rightarrow> u64 \<Rightarrow> nat \<Rightarrow> u64 \<Rightarrow> u64 \<Rightarrow> bool" where
  "mapped m m' root a k pa perm \<longleftrightarrow> (\<forall>va < MAXVA. pte_at m' root va =
     (if \<exists>i < k. same_page (nth_page a i) va
      then PA2PTE (pa + (PGROUNDDOWN va - a)) OR perm OR PTE_V else pte_at m root va))"

lemma mapped_Suc:
  "\<lbrakk> mapped m m' root a 1 pa perm; mapped m' m'' root (a + PGSIZE) k (pa + PGSIZE) perm \<rbrakk> \<Longrightarrow>
   mapped m m'' root a (Suc k) pa perm"
  by (auto simp: mapped_def Ex_less_Suc2 nth_page_Suc)

lemma mappages_step:
  assumes inv: "kmem_inv s" and wf: "wf_pt s root" and a: "a < MAXVA" "page_aligned a"
    and ent: "pte_at (ram s) root a AND PTE_V = 0"
  obtains (full) s' where "mappages_loop s root a last_a pa perm = Inr (-1, s')" "grow s root s'"
      "free_pages s' = {}"
  | (ok) s' where "mappages_loop s root a last_a pa perm =
        (if a = last_a then Inr (0, s')
         else mappages_loop s' root (a + PGSIZE) last_a (pa + PGSIZE) perm)"
      "evolve s root s'" "mapped (ram s) (ram s') root a 1 pa perm"
proof -
  obtain p s1 where w: "walk s root a True = Inr (p, s1)" "grow s root s1"
    "p = 0 \<and> free_pages s1 = {} \<or> p \<noteq> 0 \<and> pte_slot (ram s1) root a = Some p"
    using walk_alloc [OF inv wf a(1)] by metis
  then have s1: "kmem_inv s1" "wf_pt s1 root" "evolve s root s1"
    "\<And>va. va < MAXVA \<Longrightarrow> pte_at (ram s1) root va = pte_at (ram s) root va"
    by (simp_all add: grow_def evolve_def)
  show thesis
  proof (cases "p = 0")
    case True
    then have "mappages_loop s root a last_a pa perm = Inr (-1, s1)"
      using w by (simp add: mappages_loop.simps [of s])
    then show thesis using True w(2,3) by (intro full) auto
  next
    case False
    with w(3) have slot: "pte_slot (ram s1) root a = Some p" by simp
    have rok: "ram_ok p 8" using slot_ram_ok [OF kmem_inv_kend_ok s1(2) slot] s1(1) by blast
    have ld: "ld64 (ram s1) p AND PTE_V = 0"
      using slot_page(3) [OF s1(2) slot] s1(4) [OF a(1)] ent by simp
    let ?s2 = "set_pte s1 p (PA2PTE pa OR perm OR PTE_V)"
    show thesis
    proof (rule ok [of ?s2])
      show "mappages_loop s root a last_a pa perm =
          (if a = last_a then Inr (0, ?s2)
           else mappages_loop ?s2 root (a + PGSIZE) last_a (pa + PGSIZE) perm)"
        using w False rok ld
        by (simp add: mappages_loop.simps [of s] load64_def store64_def set_pte_def)
      show "evolve s root ?s2" using evolve_trans [OF s1(3) evolve_set_pte(1) [OF s1(1,2) slot]] .
      show "mapped (ram s) (ram ?s2) root a 1 pa perm"
        unfolding mapped_def
        using pte_at_set_pte [OF s1(2) slot a(1)] s1(4) a(2) by (auto simp: same_page_def)
    qed
  qed
qed

lemma mappages_loop_pages:
  assumes "kmem_inv s" and "wf_pt s root" and "page_range a (Suc n)"
    and "\<And>i. i \<le> n \<Longrightarrow> pte_at (ram s) root (nth_page a i) AND PTE_V = 0"
  shows "\<exists>r s'. mappages_loop s root a (nth_page a n) pa perm = Inr (r, s') \<and> evolve s root s' \<and>
    (r = 0 \<and> mapped (ram s) (ram s') root a (Suc n) pa perm \<or>
     r = -1 \<and> free_pages s' = {} \<and> (\<exists>k \<le> n. mapped (ram s) (ram s') root a k pa perm))"
  using assms
proof (induction n arbitrary: s a pa)
  case 0
  note pr = page_range_Suc [OF "0.prems"(3)]
  have "pte_at (ram s) root a AND PTE_V = 0" using "0.prems"(4) [of 0] by simp
  from "0.prems"(1,2) pr(2,3) this show ?case
    by (cases rule: mappages_step [where last_a = a and pa = pa and perm = perm])
      (auto simp: grow_def mapped_def)
next
  case (Suc n)
  note pr = page_range_Suc [OF Suc.prems(3)]
  have ne: "a \<noteq> nth_page a (Suc n)"
    using nth_page_unat [OF Suc.prems(3), of "Suc n"] by auto
  have "pte_at (ram s) root a AND PTE_V = 0" using Suc.prems(4) [of 0] by simp
  from Suc.prems(1,2) pr(2,3) this show ?case
  proof (cases rule: mappages_step [where last_a = "nth_page a (Suc n)" and pa = pa and perm = perm])
    case (full s')
    then show ?thesis by (auto simp: grow_def mapped_def intro!: exI [of _ "0::nat"])
  next
    case (ok s1)
    have "kmem_inv s1" "wf_pt s1 root" using ok(2) by (simp_all add: evolve_def)
    moreover have "pte_at (ram s1) root (nth_page (a + PGSIZE) i) AND PTE_V = 0" if "i \<le> n" for i
    proof -
      let ?va = "nth_page (a + PGSIZE) i"
      have i: "i < Suc n" using that by simp
      note r = nth_page_range [OF pr(1) i]
      have "?va \<noteq> a" using nth_page_unat [OF pr(1) i] pr(4) by auto
      then have "pte_at (ram s1) root ?va = pte_at (ram s) root ?va"
        using ok(3) r pr(3) by (simp add: mapped_def same_page_aligned)
      then show ?thesis using Suc.prems(4) [of "Suc i"] that by (simp add: nth_page_Suc)
    qed
    ultimately obtain r s' where
      "mappages_loop s1 root (a + PGSIZE) (nth_page (a + PGSIZE) n) (pa + PGSIZE) perm = Inr (r, s')"
      "evolve s1 root s'"
      "r = 0 \<and> mapped (ram s1) (ram s') root (a + PGSIZE) (Suc n) (pa + PGSIZE) perm \<or>
       r = -1 \<and> free_pages s' = {} \<and>
         (\<exists>k \<le> n. mapped (ram s1) (ram s') root (a + PGSIZE) k (pa + PGSIZE) perm)"
      using Suc.IH [of s1 "a + PGSIZE" "pa + PGSIZE"] pr(1) by blast
    then show ?thesis
      using ok ne evolve_trans [OF ok(2)] mapped_Suc [OF ok(3)] Suc_le_mono
      unfolding nth_page_Suc by (auto 0 4)
  qed
qed

lemma PGROUNDDOWN_4095 [simp]: "page_aligned a \<Longrightarrow> PGROUNDDOWN (4095 + a) = a"
  by (subst add.commute) (intro PGROUNDDOWN_add, simp_all)

lemma mappages_pages:
  assumes "kmem_inv s" and "wf_pt s root" and "page_range va (Suc n)"
    and "\<And>i. i \<le> n \<Longrightarrow> pte_at (ram s) root (nth_page va i) AND PTE_V = 0"
    and "sz = of_nat (Suc n) * PGSIZE"
  shows "\<exists>r s'. mappages s root va sz pa perm = Inr (r, s') \<and> evolve s root s' \<and>
    (r = 0 \<and> mapped (ram s) (ram s') root va (Suc n) pa perm \<or>
     r = -1 \<and> free_pages s' = {} \<and> (\<exists>k \<le> n. mapped (ram s) (ram s') root va k pa perm))"
proof -
  have "va + sz - 1 = 4095 + nth_page va n" by (simp add: assms(5) nth_page_def algebra_simps)
  then have "PGROUNDDOWN (va + sz - 1) = nth_page va n"
    using nth_page_range [OF assms(3), of n] by (simp only:) simp
  moreover have "sz \<noteq> 0"
  proof
    assume "sz = 0"
    moreover have "unat sz = 4096 * Suc n"
      using assms(3,5) by (simp add: page_range_def unat_word_ariths unat_of_nat)
    ultimately show False by simp
  qed
  ultimately show ?thesis
    using mappages_loop_pages [OF assms(1-4)] page_range_Suc(3) [OF assms(3)] by (simp add: mappages_def)
qed

text \<open>One page, the way most callers use it.\<close>

lemma mappages_page:
  assumes inv: "kmem_inv s" and wf: "wf_pt s root" and a: "va < MAXVA" "page_aligned va"
    and ent: "pte_at (ram s) root va AND PTE_V = 0"
  obtains (full) s' where "mappages s root va PGSIZE pa perm = Inr (-1, s')" "grow s root s'"
      "free_pages s' = {}"
  | (ok) s' where "mappages s root va PGSIZE pa perm = Inr (0, s')" "evolve s root s'"
      "\<And>va'. va' < MAXVA \<Longrightarrow> pte_at (ram s') root va' =
         (if same_page va va' then PA2PTE pa OR perm OR PTE_V else pte_at (ram s) root va')"
proof -
  have m: "mappages s root va PGSIZE pa perm = mappages_loop s root va va pa perm"
    using a(2) by (simp add: mappages_def)
  show thesis
    using mappages_step [OF inv wf a ent, where last_a = va and pa = pa and perm = perm]
  proof cases
    case 1
    then show thesis using full m by simp
  next
    case (2 s')
    then show thesis using ok [of s'] m a(2) by (auto simp: mapped_def same_page_def)
  qed
qed

text \<open>If the level-0 table of the address exists already, no page is needed and the call succeeds.\<close>

lemma mappages_present:
  assumes inv: "kmem_inv s" and wf: "wf_pt s root" and a: "va < MAXVA" "page_aligned va"
    and slot: "pte_slot (ram s) root va = Some p" and ent: "pte_at (ram s) root va AND PTE_V = 0"
  shows "mappages s root va PGSIZE pa perm = Inr (0, set_pte s p (PA2PTE pa OR perm OR PTE_V))"
proof -
  have kend: "kend_ok s" using inv by (rule kmem_inv_kend_ok)
  have "mappages s root va PGSIZE pa perm = mappages_loop s root va va pa perm"
    using a(2) by (simp add: mappages_def)
  moreover have "walk s root va True = Inr (p, s)" using walk_present [OF kend wf a(1) slot] .
  moreover note slot_ram_ok [OF kend wf slot] slot_page(3) [OF wf slot] ent
  ultimately show ?thesis
    by (simp add: mappages_loop.simps [of s] load64_def store64_def set_pte_def)
qed

end
