(* ===== verification/Vmspace.thy ===== *)
theory Vmspace
  imports Vmmap
begin

text \<open>
  Removing mappings and growing or shrinking a user address space: \<open>uvmunmap\<close>, \<open>uvmdealloc\<close>,
  \<open>uvmalloc\<close> and \<open>uvmcreate\<close> of \<open>kernel/vm.c\<close>.
\<close>

section \<open>Leaf entries and the frames they map\<close>

definition leaf :: "u64 \<Rightarrow> bool" where
  "leaf e \<longleftrightarrow> e AND PTE_V \<noteq> 0 \<and> PTE_FLAGS e \<noteq> PTE_V"

text \<open>The physical pages that \<open>n\<close> pages from \<open>a\<close> on are mapped to.\<close>

definition frames :: "mem \<Rightarrow> u64 \<Rightarrow> u64 \<Rightarrow> nat \<Rightarrow> u64 list" where
  "frames m root a n = map (\<lambda>i. PTE2PA (pte_at m root (nth_page a i))) [0..<n]"

lemma frames_0 [simp]: "frames m root a 0 = []"
  by (simp add: frames_def)

lemma length_frames [simp]: "length (frames m root a n) = n"
  by (simp add: frames_def)

lemma frames_Suc: "frames m root a (Suc n) = PTE2PA (pte_at m root a) # frames m root (a + PGSIZE) n"
  unfolding frames_def upt_conv_Cons [OF zero_less_Suc] map_Suc_upt [symmetric]
  by (simp add: nth_page_Suc)

lemma frames_snoc: "frames m root a (Suc n) = frames m root a n @ [PTE2PA (pte_at m root (nth_page a n))]"
  by (simp add: frames_def)

lemma frames_cong:
  "(\<And>i. i < n \<Longrightarrow> pte_at m' root (nth_page a i) = pte_at m root (nth_page a i)) \<Longrightarrow>
   frames m' root a n = frames m root a n"
  by (simp add: frames_def)

section \<open>Releasing a page\<close>

lemma kfree_frame:
  assumes inv: "kmem_inv s" and p: "kpage s p" "0 < refcnt s p"
  obtains s' where "kfree s p = Inr s'" "kmem_inv s'" "frame s s' (if refcnt s p = 1 then {p} else {})"
    "\<And>q. kpage s q \<Longrightarrow> refcnt s' q = (if q = p then refcnt s p - 1 else refcnt s q)"
proof -
  obtain s' where s': "kfree s p = Inr s'" "kmem_inv s'"
    "s' = (if refcnt s p = 1 then kfree_push (kfree_dec s p) p else kfree_dec s p)"
    using kfree_inv [OF inv p] by blast
  have al: "page_aligned p" using p(1) by (rule kpage_aligned)
  have "frame s s' (if refcnt s p = 1 then {p} else {})"
    using s'(3) al by (auto simp: frame_def st64_frame memset_page page_mod8)
  then show thesis
    using that s' refcnt_kfree [OF kmem_inv_kend_ok [OF inv] p(1) _ p(2) s'(3)] by blast
qed

section \<open>uvmunmap\<close>

text \<open>The entry \<open>i\<close> of the upper-level table that the path \<open>is\<close> leads to.\<close>

definition inner :: "mem \<Rightarrow> u64 \<Rightarrow> u64 list \<Rightarrow> u64 \<Rightarrow> u64 option" where
  "inner m root is i = map_option (\<lambda>pt. ld64 m (pt + 8 * i)) (node m root is)"

definition same_inner :: "mem \<Rightarrow> mem \<Rightarrow> u64 \<Rightarrow> bool" where
  "same_inner m m' root \<longleftrightarrow> (\<forall>is i. idx_ok (is @ [i]) \<longrightarrow> inner m' root is i = inner m root is i)"

lemma same_inner_refl [simp]: "same_inner m m root"
  by (simp add: same_inner_def)

lemma same_inner_trans: "same_inner m m' root \<Longrightarrow> same_inner m' m'' root \<Longrightarrow> same_inner m m'' root"
  by (simp add: same_inner_def)

lemma same_inner_frame:
  assumes wf: "wf_pt s root" and m: "\<forall>x. PGROUNDDOWN x \<in> tpages (ram s) root \<longrightarrow> m' x = ram s x"
  shows "same_inner (ram s) m' root"
  unfolding same_inner_def
proof (intro allI impI)
  fix "is" i
  assume ix: "idx_ok (is @ [i])"
  have al: "\<forall>p \<in> tpages (ram s) root. page_aligned p" using wf_pt_aligned [OF wf] by blast
  have i: "idx_ok is" "i < 512" using ix by (simp_all add: idx_ok_snoc)
  have "ld64 m' (pt + 8 * i) = ld64 (ram s) (pt + 8 * i)" if "node (ram s) root is = Some pt" for pt
    using node_tpages [OF i(1) that] al i(2) m by (intro ld64_in_page) auto
  then show "inner m' root is i = inner (ram s) root is i"
    using node_frame [OF al m i(1)] by (cases "node (ram s) root is") (simp_all add: inner_def)
qed

lemma same_inner_set_pte:
  assumes wf: "wf_pt s root" and slot: "pte_slot (ram s) root va = Some a"
  shows "same_inner (ram s) (ram (set_pte s a v)) root"
  unfolding same_inner_def
proof (intro allI impI)
  fix "is" i
  assume ix: "idx_ok (is @ [i])"
  then have i: "idx_ok is" "i < 512" "length is \<le> 1" by (simp_all add: idx_ok_snoc)
  obtain l0 where l0: "node (ram s) root (path va) = Some l0" "a = l0 + 8 * PX 0 va"
    using slot by (auto simp: pte_slot_def)
  have al: "page_aligned l0" using wf_pt_aligned [OF wf node_tpages [OF idx_ok_path l0(1)]] .
  have "ld64 (st64 (ram s) a v) (pt + 8 * i) = ld64 (ram s) (pt + 8 * i)" if n: "node (ram s) root is = Some pt" for pt
  proof -
    have "pt \<noteq> l0" using wf_pt_inj [OF wf i(1) idx_ok_path n] l0(1) i(3) by (auto simp: path_def)
    moreover have ap: "page_aligned pt" using wf_pt_aligned [OF wf node_tpages [OF i(1) n]] .
    ultimately have "pt + 8 * i \<noteq> a" using entry_page [OF ap i(2)] entry_page [OF al PX_less] l0(2) by metis
    then show ?thesis using entry_mod8 [OF ap i(2)] entry_mod8 [OF al PX_less] l0(2) by (simp add: ld64_st64_other)
  qed
  then show "inner (ram (set_pte s a v)) root is i = inner (ram s) root is i"
    using node_leaf_store [OF wf l0(1) i(1)] l0(2) by (cases "node (ram s) root is") (simp_all add: inner_def)
qed

lemma uvmunmap_step:
  assumes inv: "kmem_inv s" and wf: "wf_pt s root" and a: "a < MAXVA" "page_aligned a"
    and e: "leaf (pte_at (ram s) root a)" and pa: "pa = PTE2PA (pte_at (ram s) root a)"
    and fr: "do_free \<Longrightarrow> kpage s pa \<and> pa \<notin> tpages (ram s) root \<and> 0 < refcnt s pa"
  obtains s' where
    "\<And>e. a < e \<Longrightarrow> uvmunmap_loop s root a e do_free = uvmunmap_loop s' root (a + PGSIZE) e do_free"
    "kmem_inv s'" "wf_pt s' root" "tpages (ram s') root = tpages (ram s) root"
    "frame s s' (tpages (ram s) root \<union> (if do_free \<and> refcnt s pa = 1 then {pa} else {}))"
    "\<And>va. va < MAXVA \<Longrightarrow> pte_at (ram s') root va =
       (if same_page a va then 0 else pte_at (ram s) root va)"
    "\<And>q. kpage s q \<Longrightarrow> refcnt s' q = (if do_free \<and> q = pa then refcnt s pa - 1 else refcnt s q)"
    "same_inner (ram s) (ram s') root"
proof -
  have kend: "kend_ok s" using inv by (rule kmem_inv_kend_ok)
  obtain p where slot: "pte_slot (ram s) root a = Some p"
    using e by (cases "pte_slot (ram s) root a") (auto simp: leaf_def pte_at_def)
  let ?W = "if do_free \<and> refcnt s pa = 1 then {pa} else {}"
  obtain s1 where s1: "(if do_free then kfree s pa else Inr s) = Inr s1" "kmem_inv s1" "frame s s1 ?W"
    "\<And>q. kpage s q \<Longrightarrow> refcnt s1 q = (if do_free \<and> q = pa then refcnt s pa - 1 else refcnt s q)"
  proof (cases do_free)
    case True
    obtain s1 where "kfree s pa = Inr s1" "kmem_inv s1" "frame s s1 (if refcnt s pa = 1 then {pa} else {})"
      "\<And>q. kpage s q \<Longrightarrow> refcnt s1 q = (if q = pa then refcnt s pa - 1 else refcnt s q)"
      using kfree_frame [OF inv, of pa] fr [OF True] by blast
    then show thesis using True by (intro that [of s1]) simp_all
  next
    case False
    then show thesis using that inv by auto
  qed
  have d: "tpages (ram s) root \<inter> ?W = {}" using fr by auto
  have "\<forall>q \<in> tpages (ram s) root. refcnt s1 q = refcnt s q"
    using s1(4) wf_pt_kpage [OF wf] fr by auto
  note o = frame_other [OF s1(3) wf d this]
  have "pte_slot (ram s1) root a = pte_slot (ram s) root a"
  proof -
    have "\<forall>p \<in> tpages (ram s) root. page_aligned p" using wf_pt_aligned [OF wf] by blast
    moreover have "\<forall>x. PGROUNDDOWN x \<in> tpages (ram s) root \<longrightarrow> ram s1 x = ram s x"
      using s1(3) d by (auto simp: frame_def)
    ultimately show ?thesis using node_frame [of "ram s" root "ram s1", OF _ _ idx_ok_path]
      by (simp add: pte_slot_def)
  qed
  with slot have slot1: "pte_slot (ram s1) root a = Some p" by simp
  have rok: "ram_ok p 8" "p \<noteq> 0" using slot_ram_ok [OF kend wf slot] by auto
  let ?s' = "set_pte s1 p 0"
  note ev = evolve_set_pte [OF s1(2) o(1) slot1]
  show thesis
  proof (rule that [of ?s'])
    fix e
    assume ae: "a < e"
    have w: "walk s root a False = Inr (p, s)" using walk_lookup [OF kend wf a(1)] slot by simp
    have l: "load64 s p = Inr (pte_at (ram s) root a)"
      using rok slot_page(3) [OF wf slot] by (simp add: load64_def)
    have st: "store64 s1 p 0 = Inr ?s'" using rok by (simp add: store64_def set_pte_def)
    show "uvmunmap_loop s root a e do_free = uvmunmap_loop ?s' root (a + PGSIZE) e do_free"
      using ae e pa w l st s1(1) rok
      by (subst uvmunmap_loop.simps) (cases do_free; simp add: leaf_def)
  next
    show "kmem_inv ?s'" "wf_pt ?s' root" using ev by (simp_all add: evolve_def)
    show "tpages (ram ?s') root = tpages (ram s) root" using ev(2) o(2) by simp
    show "frame s ?s' (tpages (ram s) root \<union> ?W)"
    proof -
      have "frame s1 ?s' (tpages (ram s) root)" using ev(3) o(2) by simp
      from frame_trans [OF s1(3) this] show ?thesis by (simp add: Un_commute)
    qed
    show "pte_at (ram ?s') root va = (if same_page a va then 0 else pte_at (ram s) root va)"
      if "va < MAXVA" for va
      using pte_at_set_pte [OF o(1) slot1 a(1) that] o(3) by simp
    show "refcnt ?s' q = (if do_free \<and> q = pa then refcnt s pa - 1 else refcnt s q)" if "kpage s q" for q
      using s1(4) [OF that] by simp
    have "\<forall>x. PGROUNDDOWN x \<in> tpages (ram s) root \<longrightarrow> ram s1 x = ram s x" using s1(3) d by (auto simp: frame_def)
    then show "same_inner (ram s) (ram ?s') root"
      using same_inner_trans [OF same_inner_frame [OF wf] same_inner_set_pte [OF o(1) slot1]] by blast
  qed
qed

text \<open>
  What \<open>uvmunmap\<close> leaves behind: entries cleared, one reference dropped per cleared entry when
  \<open>do_free\<close> is set; only the table and the pages whose last reference went are written.
\<close>

definition unmapped :: "'a kmem_scheme \<Rightarrow> 'a kmem_scheme \<Rightarrow> u64 \<Rightarrow> u64 \<Rightarrow> nat \<Rightarrow> bool \<Rightarrow> bool" where
  "unmapped s s' root a n do_free \<longleftrightarrow>
     kmem_inv s' \<and> wf_pt s' root \<and> tpages (ram s') root = tpages (ram s) root \<and>
     frame s s' (tpages (ram s) root \<union>
       {p \<in> set (frames (ram s) root a n). do_free \<and> refcnt s' p = 0}) \<and>
     (\<forall>va < MAXVA. pte_at (ram s') root va =
       (if \<exists>i < n. same_page (nth_page a i) va then 0 else pte_at (ram s) root va)) \<and>
     (\<forall>p. kpage s p \<longrightarrow> refcnt s' p =
       refcnt s p - (if do_free then count_list (frames (ram s) root a n) p else 0)) \<and>
     same_inner (ram s) (ram s') root"

lemma uvmunmap_loop_pages:
  assumes "kmem_inv s" and "wf_pt s root" and "page_range a n"
    and "\<And>i. i < n \<Longrightarrow> leaf (pte_at (ram s) root (nth_page a i))"
    and "\<And>p. do_free \<Longrightarrow> p \<in> set (frames (ram s) root a n) \<Longrightarrow>
      kpage s p \<and> p \<notin> tpages (ram s) root \<and> count_list (frames (ram s) root a n) p \<le> refcnt s p"
  shows "\<exists>s'. uvmunmap_loop s root a (nth_page a n) do_free = Inr s' \<and> unmapped s s' root a n do_free"
  using assms
proof (induction n arbitrary: s a)
  case 0
  then show ?case by (simp add: uvmunmap_loop.simps [of s] unmapped_def)
next
  case (Suc n)
  note pr = page_range_Suc [OF Suc.prems(3)]
  let ?pa = "PTE2PA (pte_at (ram s) root a)" and ?a = "a + PGSIZE"
  have lf: "leaf (pte_at (ram s) root a)" using Suc.prems(4) [of 0] by simp
  have fr: "kpage s ?pa \<and> ?pa \<notin> tpages (ram s) root \<and> 0 < refcnt s ?pa" if do_free
    using Suc.prems(5) [OF that, of ?pa] unfolding frames_Suc by auto
  obtain s1 where
    go: "\<And>e. a < e \<Longrightarrow> uvmunmap_loop s root a e do_free = uvmunmap_loop s1 root ?a e do_free" and
    s1: "kmem_inv s1" "wf_pt s1 root" "tpages (ram s1) root = tpages (ram s) root"
    "frame s s1 (tpages (ram s) root \<union> (if do_free \<and> refcnt s ?pa = 1 then {?pa} else {}))"
    "\<And>va. va < MAXVA \<Longrightarrow> pte_at (ram s1) root va =
       (if same_page a va then 0 else pte_at (ram s) root va)"
    "\<And>q. kpage s q \<Longrightarrow> refcnt s1 q = (if do_free \<and> q = ?pa then refcnt s ?pa - 1 else refcnt s q)"
    "same_inner (ram s) (ram s1) root"
    by (rule uvmunmap_step [where do_free = do_free, OF Suc.prems(1,2) pr(2,3) lf refl])
      (erule fr, rule that)
  have keep: "pte_at (ram s1) root (nth_page ?a i) = pte_at (ram s) root (nth_page ?a i)" if "i < n" for i
    using s1(5) [of "nth_page ?a i"] nth_page_range [OF pr(1) that] nth_page_unat [OF pr(1) that] pr(3,4)
    by (auto simp: same_page_aligned)
  have fs: "frames (ram s1) root ?a n = frames (ram s) root ?a n" using keep by (rule frames_cong)
  have k1: "kpage s1 p = kpage s p" for p using s1(4) by (rule frame_kpage)
  have "leaf (pte_at (ram s1) root (nth_page ?a i))" if "i < n" for i
    using Suc.prems(4) [of "Suc i"] keep [OF that] that by (simp add: nth_page_Suc)
  moreover have "kpage s1 p \<and> p \<notin> tpages (ram s1) root \<and>
      count_list (frames (ram s1) root ?a n) p \<le> refcnt s1 p"
    if "do_free" "p \<in> set (frames (ram s1) root ?a n)" for p
    using Suc.prems(5) [OF that(1), of p] that s1(3,6) unfolding frames_Suc fs k1
    by (auto split: if_splits)
  ultimately obtain s' where s': "uvmunmap_loop s1 root ?a (nth_page ?a n) do_free = Inr s'"
    "unmapped s1 s' root ?a n do_free"
    using Suc.IH [OF s1(1,2) pr(1)] by blast
  have "a < nth_page a (Suc n)"
  proof -
    have "unat a + 4096 * Suc n < 2 ^ 64" using Suc.prems(3) by (simp add: page_range_def)
    then have "unat (nth_page a (Suc n)) = unat a + 4096 * Suc n"
      by (simp add: nth_page_def unat_word_ariths unat_of_nat mult.commute)
    then show ?thesis by (simp add: word_less_nat_alt)
  qed
  then have run: "uvmunmap_loop s root a (nth_page a (Suc n)) do_free = Inr s'"
    using go s'(1) by (simp add: nth_page_Suc)
  have cnt: "refcnt s' p = refcnt s p - (if do_free then count_list (frames (ram s) root a (Suc n)) p else 0)"
    if "kpage s p" for p
    using s'(2) s1(6) [OF that] that unfolding unmapped_def k1 fs frames_Suc by auto
  have "frame s s' (tpages (ram s) root \<union>
      {p \<in> set (frames (ram s) root a (Suc n)). do_free \<and> refcnt s' p = 0})"
  proof (rule frame_mono)
    show "frame s s' ((tpages (ram s) root \<union> (if do_free \<and> refcnt s ?pa = 1 then {?pa} else {})) \<union>
        (tpages (ram s1) root \<union> {p \<in> set (frames (ram s1) root ?a n). do_free \<and> refcnt s' p = 0}))"
      using s'(2) unfolding unmapped_def by (intro frame_trans [OF s1(4)]) blast
    show "(tpages (ram s) root \<union> (if do_free \<and> refcnt s ?pa = 1 then {?pa} else {})) \<union>
        (tpages (ram s1) root \<union> {p \<in> set (frames (ram s1) root ?a n). do_free \<and> refcnt s' p = 0})
      \<subseteq> tpages (ram s) root \<union> {p \<in> set (frames (ram s) root a (Suc n)). do_free \<and> refcnt s' p = 0}"
      using cnt [of ?pa] fr unfolding s1(3) fs frames_Suc by auto
  qed
  moreover have "pte_at (ram s') root va =
      (if \<exists>i < Suc n. same_page (nth_page a i) va then 0 else pte_at (ram s) root va)" if "va < MAXVA" for va
    using s'(2) s1(5) [OF that] that unfolding unmapped_def Ex_less_Suc2 nth_page_Suc by auto
  ultimately have "unmapped s s' root a (Suc n) do_free"
    using s'(2) s1(3) cnt same_inner_trans [OF s1(7)] unfolding unmapped_def by auto
  then show ?case using run by blast
qed


lemma uvmunmap_pages:
  assumes "kmem_inv s" and "wf_pt s root" and "page_range va n" and "npages = of_nat n"
    and "\<And>i. i < n \<Longrightarrow> leaf (pte_at (ram s) root (nth_page va i))"
    and "\<And>p. do_free \<Longrightarrow> p \<in> set (frames (ram s) root va n) \<Longrightarrow>
      kpage s p \<and> p \<notin> tpages (ram s) root \<and> count_list (frames (ram s) root va n) p \<le> refcnt s p"
  shows "\<exists>s'. uvmunmap s root va npages do_free = Inr s' \<and> unmapped s s' root va n do_free"
proof -
  have "page_aligned va" using assms(3) by (simp add: page_range_def)
  then have "uvmunmap s root va npages do_free = uvmunmap_loop s root va (nth_page va n) do_free"
    by (simp add: uvmunmap_def page_aligned_def nth_page_def assms(4) dvd_eq_mod_eq_0)
  then show ?thesis using uvmunmap_loop_pages [OF assms(1-3,5,6)] by simp
qed

section \<open>uvmdealloc\<close>

text \<open>The number of pages of a user memory of \<open>sz\<close> bytes.\<close>

definition npages_of :: "u64 \<Rightarrow> nat" where
  "npages_of sz = (unat sz + 4095) div 4096"

lemma PGROUNDUP_npages:
  assumes "sz \<le> MAXVA"
  shows "unat (PGROUNDUP sz) = 4096 * npages_of sz" and "npages_of sz \<le> 2 ^ 26"
proof -
  have u: "unat sz \<le> 2 ^ 38" using assms by (simp add: word_le_nat_alt)
  then show "unat (PGROUNDUP sz) = 4096 * npages_of sz"
    by (simp add: unat_PGROUNDUP npages_of_def mult.commute)
  have "(unat sz + 4095) div 4096 \<le> (2 ^ 38 + 4095) div 4096" using u by (intro div_le_mono) simp
  then show "npages_of sz \<le> 2 ^ 26" by (simp add: npages_of_def)
qed

lemma of_nat_unat_eq: "unat x = n \<Longrightarrow> of_nat n = x"
  by auto

lemma scast_small:
  assumes "k \<le> 2 ^ 26"
  shows "scast (ucast (of_nat k :: u64) :: u32) = (of_nat k :: u64)"
proof -
  have c: "(ucast (of_nat k :: u64) :: u32) = of_nat k"
    using assms by (simp add: unsigned_of_nat take_bit_nat_eq_self)
  have "sint (of_nat k :: u32) = int k"
    using assms by (simp add: signed_of_nat signed_take_bit_int_eq_self)
  then show ?thesis unfolding c by (simp add: scast_eq)
qed

lemma uvmdealloc_unmap:
  assumes "newsz < oldsz" and "oldsz \<le> MAXVA"
  shows "uvmdealloc s root oldsz newsz =
    (if npages_of newsz < npages_of oldsz then
       kbind (uvmunmap s root (PGROUNDUP newsz) (of_nat (npages_of oldsz - npages_of newsz)) True)
         (\<lambda>s. Inr (newsz, s))
     else Inr (newsz, s))"
proof -
  have new: "newsz \<le> MAXVA" using assms by simp
  note u = PGROUNDUP_npages [OF assms(2)] PGROUNDUP_npages [OF new]
  have lt: "PGROUNDUP newsz < PGROUNDUP oldsz \<longleftrightarrow> npages_of newsz < npages_of oldsz"
    by (simp add: word_less_nat_alt u)
  have "scast (ucast ((PGROUNDUP oldsz - PGROUNDUP newsz) div PGSIZE) :: u32) =
      (of_nat (npages_of oldsz - npages_of newsz) :: u64)" if l: "npages_of newsz < npages_of oldsz"
  proof -
    let ?k = "npages_of oldsz - npages_of newsz"
    have "unat (PGROUNDUP oldsz - PGROUNDUP newsz) = 4096 * ?k"
      using lt l u by (simp add: unat_sub word_le_nat_alt diff_mult_distrib2)
    then have "unat ((PGROUNDUP oldsz - PGROUNDUP newsz) div PGSIZE) = ?k" by (simp add: unat_div)
    then have q: "of_nat ?k = (PGROUNDUP oldsz - PGROUNDUP newsz) div PGSIZE" by (rule of_nat_unat_eq)
    have "?k \<le> 2 ^ 26" using u by simp
    then show ?thesis unfolding q [symmetric] by (rule scast_small)
  qed
  then show ?thesis using assms(1) lt by (auto simp: uvmdealloc_def Let_def)
qed

section \<open>uvmalloc\<close>

text \<open>Taking a zeroed page.\<close>

definition claimed :: "'a kmem_scheme \<Rightarrow> u64 \<Rightarrow> 'a kmem_scheme \<Rightarrow> bool" where
  "claimed s p s' \<longleftrightarrow> kmem_inv s' \<and> p \<in> free_pages s \<and> free_pages s' = free_pages s - {p} \<and>
     frame s s' {p} \<and> (\<forall>q. kpage s q \<longrightarrow> refcnt s' q = (if q = p then 1 else refcnt s q))"

lemma kalloc_claimed:
  assumes inv: "kmem_inv s" and ne: "free_pages s \<noteq> {}"
  obtains p s' where "kalloc s = Inr (p, s')" "p \<noteq> 0" "claimed s p s'"
proof -
  obtain p where p: "kalloc s = Inr (p, kalloc_post s p)" "p \<in> free_pages s"
    "kmem_inv (kalloc_post s p)" "free_pages (kalloc_post s p) = free_pages s - {p}"
    using kalloc_some [OF assms] by blast
  have kp: "kpage s p" using p(2) by (simp add: free_pages_def)
  have "frame s (kalloc_post s p) {p}" using kpage_aligned [OF kp] by (simp add: frame_def memset_page)
  then have "claimed s p (kalloc_post s p)"
    using p refcnt_kalloc_post [OF kmem_inv_kend_ok [OF inv] kp] by (simp add: claimed_def)
  then show thesis using that p(1) kpage_nonzero [OF kmem_inv_kend_ok [OF inv] kp] by blast
qed

text \<open>Writing to a page that is in use but is no table page.\<close>

lemma claimed_write:
  assumes c: "claimed s p s1" and f: "frame s1 (s1\<lparr>ram := m\<rparr>) {p}"
  shows "claimed s p (s1\<lparr>ram := m\<rparr>)"
proof -
  have "kmem_inv (s1\<lparr>ram := m\<rparr>)"
    using c f by (intro kmem_inv_ram_frame) (auto simp: claimed_def frame_def)
  moreover have "frame s (s1\<lparr>ram := m\<rparr>) {p}"
    using frame_trans [OF _ f, of s "{p}"] c by (simp add: claimed_def)
  ultimately show ?thesis using c by (simp add: claimed_def)
qed

lemma kalloc_zeroed:
  assumes inv: "kmem_inv s" and ne: "free_pages s \<noteq> {}"
  obtains p s1 s2 where "kalloc s = Inr (p, s1)" "p \<noteq> 0" "kmemset s1 p 0 4096 = Inr s2"
    "claimed s p s2" "\<forall>x. PGROUNDDOWN x = p \<longrightarrow> ram s2 x = 0"
proof -
  obtain p s1 where p: "kalloc s = Inr (p, s1)" "p \<noteq> 0" "claimed s p s1"
    using kalloc_claimed [OF assms] by metis
  have kp: "kpage s p" using p(3) by (simp add: claimed_def free_pages_def)
  have al: "page_aligned p" using kp by (rule kpage_aligned)
  have rp: "ram_ok p 4096" using kpage_ram_ok [OF kmem_inv_kend_ok [OF inv] kp] by simp
  let ?m = "memset (ram s1) p 0 4096"
  have "claimed s p (s1\<lparr>ram := ?m\<rparr>)"
    using al by (intro claimed_write [OF p(3)]) (simp add: frame_def memset_page)
  then show thesis using that p(1,2) rp al by (simp add: kmemset_def memset_page)
qed

lemma claimed_wf_pt:
  assumes "claimed s p s'" and wf: "wf_pt s root"
  shows "wf_pt s' root" and "tpages (ram s') root = tpages (ram s) root"
    and "pte_at (ram s') root va = pte_at (ram s) root va" and "p \<notin> tpages (ram s) root"
proof -
  show p: "p \<notin> tpages (ram s) root"
    using assms tpages_not_free [OF wf] by (auto simp: claimed_def)
  have "\<forall>q \<in> tpages (ram s) root. refcnt s' q = refcnt s q"
    using assms(1) p wf_pt_kpage [OF wf] by (auto simp: claimed_def)
  moreover have "frame s s' {p}" using assms(1) by (simp add: claimed_def)
  ultimately show "wf_pt s' root" "tpages (ram s') root = tpages (ram s) root"
    "pte_at (ram s') root va = pte_at (ram s) root va"
    using frame_other [OF _ wf, of s' "{p}"] p by auto
qed

text \<open>The memory that \<open>uvmalloc\<close> has added: \<open>n\<close> pages from \<open>a\<close> on, fresh, zeroed and mapped once each.\<close>

definition allocated ::
    "'a kmem_scheme \<Rightarrow> 'a kmem_scheme \<Rightarrow> u64 \<Rightarrow> u64 \<Rightarrow> nat \<Rightarrow> u64 \<Rightarrow> bool" where
  "allocated s s' root a n xperm \<longleftrightarrow>
     kmem_inv s' \<and> wf_pt s' root \<and> frame s s' (tpages (ram s) root \<union> free_pages s) \<and>
     free_pages s' \<subseteq> free_pages s \<and> tpages (ram s) root \<subseteq> tpages (ram s') root \<and>
     taken s s' = (tpages (ram s') root - tpages (ram s) root) \<union> set (frames (ram s') root a n) \<and>
     set (frames (ram s') root a n) \<inter> tpages (ram s') root = {} \<and>
     distinct (frames (ram s') root a n) \<and>
     (\<forall>p \<in> set (frames (ram s') root a n).
        refcnt s' p = 1 \<and> (\<forall>x. PGROUNDDOWN x = p \<longrightarrow> ram s' x = 0)) \<and>
     (\<forall>p. kpage s p \<and> p \<notin> taken s s' \<longrightarrow> refcnt s' p = refcnt s p) \<and>
     (\<forall>i < n. pte_at (ram s') root (nth_page a i) =
        PA2PTE (frames (ram s') root a n ! i) OR PTE_R OR PTE_U OR xperm OR PTE_V) \<and>
     (\<forall>va < MAXVA. (\<forall>i < n. \<not> same_page (nth_page a i) va) \<longrightarrow>
        pte_at (ram s') root va = pte_at (ram s) root va)"

lemma allocated_0: "kmem_inv s \<Longrightarrow> wf_pt s root \<Longrightarrow> allocated s s root a 0 xperm"
  by (simp add: allocated_def taken_def)

lemma allocatedD:
  assumes "allocated s s' root a n xperm"
  shows "kmem_inv s'" "wf_pt s' root" "frame s s' (tpages (ram s) root \<union> free_pages s)"
    "free_pages s' \<subseteq> free_pages s" "tpages (ram s) root \<subseteq> tpages (ram s') root"
    "taken s s' = (tpages (ram s') root - tpages (ram s) root) \<union> set (frames (ram s') root a n)"
    "set (frames (ram s') root a n) \<inter> tpages (ram s') root = {}"
    "distinct (frames (ram s') root a n)"
    "\<And>p. p \<in> set (frames (ram s') root a n) \<Longrightarrow> refcnt s' p = 1"
    "\<And>p x. p \<in> set (frames (ram s') root a n) \<Longrightarrow> PGROUNDDOWN x = p \<Longrightarrow> ram s' x = 0"
    "\<And>p. kpage s p \<Longrightarrow> p \<notin> taken s s' \<Longrightarrow> refcnt s' p = refcnt s p"
    "\<And>i. i < n \<Longrightarrow> pte_at (ram s') root (nth_page a i) =
        PA2PTE (frames (ram s') root a n ! i) OR PTE_R OR PTE_U OR xperm OR PTE_V"
    "\<And>va. va < MAXVA \<Longrightarrow> \<forall>i < n. \<not> same_page (nth_page a i) va \<Longrightarrow>
        pte_at (ram s') root va = pte_at (ram s) root va"
    "\<And>p. kpage s' p = kpage s p"
    "\<And>p. p \<in> set (frames (ram s') root a n) \<Longrightarrow> p \<in> free_pages s \<and> p \<notin> free_pages s' \<and> kpage s p"
proof -
  note A = assms [unfolded allocated_def]
  show "kmem_inv s'" "wf_pt s' root" and f: "frame s s' (tpages (ram s) root \<union> free_pages s)" and
    "free_pages s' \<subseteq> free_pages s" "tpages (ram s) root \<subseteq> tpages (ram s') root" and
    tk: "taken s s' = (tpages (ram s') root - tpages (ram s) root) \<union> set (frames (ram s') root a n)" and
    "set (frames (ram s') root a n) \<inter> tpages (ram s') root = {}"
    "distinct (frames (ram s') root a n)"
    using A by - (elim conjE, assumption)+
  from A have q: "\<forall>p \<in> set (frames (ram s') root a n).
        refcnt s' p = 1 \<and> (\<forall>x. PGROUNDDOWN x = p \<longrightarrow> ram s' x = 0)"
     "\<forall>p. kpage s p \<and> p \<notin> taken s s' \<longrightarrow> refcnt s' p = refcnt s p"
     "\<forall>i < n. pte_at (ram s') root (nth_page a i) =
        PA2PTE (frames (ram s') root a n ! i) OR PTE_R OR PTE_U OR xperm OR PTE_V"
     "\<forall>va < MAXVA. (\<forall>i < n. \<not> same_page (nth_page a i) va) \<longrightarrow>
        pte_at (ram s') root va = pte_at (ram s) root va"
    by - (elim conjE, assumption)+
  show "refcnt s' p = 1" if "p \<in> set (frames (ram s') root a n)" for p using q(1) that by blast
  show "ram s' x = 0" if "p \<in> set (frames (ram s') root a n)" "PGROUNDDOWN x = p" for p x
    using q(1) that by blast
  show "refcnt s' p = refcnt s p" if "kpage s p" "p \<notin> taken s s'" for p using q(2) that by blast
  show "pte_at (ram s') root (nth_page a i) =
      PA2PTE (frames (ram s') root a n ! i) OR PTE_R OR PTE_U OR xperm OR PTE_V" if "i < n" for i
    using q(3) that by blast
  show "pte_at (ram s') root va = pte_at (ram s) root va"
    if "va < MAXVA" "\<forall>i < n. \<not> same_page (nth_page a i) va" for va
    using q(4) that by blast
  show "kpage s' p = kpage s p" for p using f by (rule frame_kpage)
  show "p \<in> free_pages s \<and> p \<notin> free_pages s' \<and> kpage s p" if "p \<in> set (frames (ram s') root a n)" for p
    using tk that by (auto simp: taken_def free_pages_def)
qed

lemma growD:
  assumes "grow s root s'"
  shows "kmem_inv s'" "wf_pt s' root" "frame s s' (tpages (ram s) root \<union> free_pages s)"
    "free_pages s' \<subseteq> free_pages s" "tpages (ram s') root = tpages (ram s) root \<union> taken s s'"
    "\<And>p. kpage s p \<Longrightarrow> p \<notin> taken s s' \<Longrightarrow> refcnt s' p = refcnt s p"
    "\<And>va. va < MAXVA \<Longrightarrow> pte_at (ram s') root va = pte_at (ram s) root va"
  using assms by (simp_all add: grow_def evolve_def)

lemma evolveD:
  assumes "evolve s root s'"
  shows "kmem_inv s'" "wf_pt s' root" "frame s s' (tpages (ram s) root \<union> free_pages s)"
    "free_pages s' \<subseteq> free_pages s" "tpages (ram s') root = tpages (ram s) root \<union> taken s s'"
    "\<And>p. kpage s p \<Longrightarrow> p \<notin> taken s s' \<Longrightarrow> refcnt s' p = refcnt s p"
  using assms by (simp_all add: evolve_def)

lemma claimedD:
  assumes "claimed s p s'"
  shows "kmem_inv s'" "p \<in> free_pages s" "free_pages s' = free_pages s - {p}" "frame s s' {p}"
    "\<And>q. kpage s q \<Longrightarrow> refcnt s' q = (if q = p then 1 else refcnt s q)" "kpage s p" "kpage s' q = kpage s q"
proof -
  show "frame s s' {p}" using assms by (simp add: claimed_def)
  then show "kpage s' q = kpage s q" by (rule frame_kpage)
qed (use assms in \<open>simp_all add: claimed_def free_pages_def\<close>)

lemma allocated_grow:
  assumes al: "allocated s s1 root a n xperm" and g: "grow s1 root s2" and pr: "page_range a n"
  shows "allocated s s2 root a n xperm"
proof -
  note A = allocatedD [OF al] and G = growD [OF g]
  have fs: "frames (ram s2) root a n = frames (ram s1) root a n"
    using G(7) nth_page_range(1) [OF pr] by (intro frames_cong) auto
  let ?F = "set (frames (ram s1) root a n)"
  have tk: "taken s s2 = taken s s1 \<union> taken s1 s2" using A(4) G(4) by (auto simp: taken_def)
  have T: "tpages (ram s1) root \<subseteq> tpages (ram s) root \<union> free_pages s" using A(6) by (auto simp: taken_def)
  have "frame s s2 ((tpages (ram s) root \<union> free_pages s) \<union> (tpages (ram s1) root \<union> free_pages s1))"
    using A(3) G(3) by (rule frame_trans)
  then have fr: "frame s s2 (tpages (ram s) root \<union> free_pages s)"
    using T A(4) by (elim frame_mono) blast
  have out: "p \<notin> tpages (ram s1) root \<union> free_pages s1" "p \<notin> taken s1 s2" if "p \<in> ?F" for p
    using A(7) A(15) [OF that] that by (auto simp: taken_def)
  have "refcnt s2 p = 1" if "p \<in> ?F" for p
    using G(6) [of p] A(9,15) [OF that] A(14) out(2) [OF that] by simp
  moreover have "ram s2 x = 0" if "p \<in> ?F" "PGROUNDDOWN x = p" for p x
    using G(3) A(10) [OF that] out(1) [OF that(1)] that(2) by (auto simp: frame_def)
  moreover have "refcnt s2 p = refcnt s p" if "kpage s p" "p \<notin> taken s s2" for p
    using G(6) [of p] A(11) [of p] A(14) that tk by auto
  moreover have "taken s s2 = (tpages (ram s2) root - tpages (ram s) root) \<union> ?F"
  proof -
    have "taken s1 s2 \<inter> tpages (ram s) root = {}"
      using A(5) tpages_not_free [OF A(2)] by (auto simp: taken_def)
    then show ?thesis unfolding tk A(6) G(5) using A(5) by blast
  qed
  moreover have "?F \<inter> tpages (ram s2) root = {}" unfolding G(5) using A(7) out by blast
  moreover have "tpages (ram s) root \<subseteq> tpages (ram s2) root" unfolding G(5) using A(5) by blast
  moreover have "free_pages s2 \<subseteq> free_pages s" using A(4) G(4) by blast
  moreover have "pte_at (ram s2) root (nth_page a i) =
      PA2PTE (frames (ram s1) root a n ! i) OR PTE_R OR PTE_U OR xperm OR PTE_V" if "i < n" for i
    using A(12) [OF that] G(7) [OF nth_page_range(1) [OF pr that]] by simp
  moreover have "pte_at (ram s2) root va = pte_at (ram s) root va"
    if "va < MAXVA" "\<forall>i < n. \<not> same_page (nth_page a i) va" for va
    using A(13) [OF that] G(7) [OF that(1)] by simp
  ultimately show ?thesis using A(8) G(1,2) fr unfolding allocated_def fs by (intro conjI) auto
qed

text \<open>A page taken, no table for it found, and the page given back: only table pages are gone.\<close>

lemma grow_claimed_kfree:
  assumes inv: "kmem_inv s" and wf: "wf_pt s root" and c: "claimed s p s1" and g: "grow s1 root s2"
  obtains s3 where "kfree s2 p = Inr s3" "grow s root s3"
proof -
  note G = growD [OF g] and C = c [unfolded claimed_def] and W = claimed_wf_pt [OF c wf]
  have kp: "kpage s p" "p \<in> free_pages s" "p \<notin> free_pages s1" using C by (auto simp: free_pages_def)
  have f01: "frame s s1 {p}" and f1: "free_pages s1 = free_pages s - {p}"
    and r1: "\<And>q. kpage s q \<Longrightarrow> refcnt s1 q = (if q = p then 1 else refcnt s q)"
    using C by auto
  have k1: "kpage s1 q = kpage s q" for q using f01 by (rule frame_kpage)
  have k2: "kpage s2 q = kpage s q" for q using frame_kpage [OF G(3)] k1 by simp
  have nt: "p \<notin> taken s1 s2" using kp(3) by (simp add: taken_def)
  have c2: "refcnt s2 p = 1" using G(6) [of p] nt kp(1) k1 r1 by simp
  have kp2: "kpage s2 p" "0 < refcnt s2 p" using kp(1) k2 c2 by simp_all
  obtain s3 where s3': "kfree s2 p = Inr s3" "kmem_inv s3" "frame s2 s3 (if refcnt s2 p = 1 then {p} else {})"
    "\<And>q. kpage s2 q \<Longrightarrow> refcnt s3 q = (if q = p then refcnt s2 p - 1 else refcnt s2 q)"
    using kfree_frame [OF G(1) kp2] by blast
  have s3: "kfree s2 p = Inr s3" "kmem_inv s3" "frame s2 s3 {p}"
    "\<And>q. kpage s2 q \<Longrightarrow> refcnt s3 q = (if q = p then 0 else refcnt s2 q)"
    using s3' c2 by simp_all
  have np: "p \<notin> tpages (ram s2) root" unfolding G(5) using W(2,4) nt by simp
  have "\<forall>q \<in> tpages (ram s2) root. refcnt s3 q = refcnt s2 q"
    using s3(4) wf_pt_kpage [OF G(2)] np by auto
  then have o: "wf_pt s3 root" "tpages (ram s3) root = tpages (ram s2) root"
    "\<And>va. pte_at (ram s3) root va = pte_at (ram s2) root va"
    using frame_other [OF s3(3) G(2)] np by auto
  have k3: "kpage s3 q = kpage s q" for q using frame_kpage [OF s3(3)] k2 by simp
  have fr3: "free_pages s3 = insert p (free_pages s2)"
    using s3(4) kp(1) by (auto simp: free_pages_def k2 k3)
  have tk: "taken s s3 = taken s1 s2" unfolding taken_def fr3 f1 by auto
  from f01 have "frame s s3 (({p} \<union> (tpages (ram s1) root \<union> free_pages s1)) \<union> {p})"
    by (rule frame_trans [OF frame_trans [OF _ G(3)] s3(3)])
  then have "frame s s3 (tpages (ram s) root \<union> free_pages s)"
    using kp(2) f1 W(2) by (elim frame_mono) auto
  moreover have "refcnt s3 q = refcnt s q" if "kpage s q" "q \<notin> taken s s3" for q
    using that s3(4) [of q] G(6) [of q] r1 [of q] k1 k2 kp(2) unfolding tk
    by (cases "q = p") (simp_all add: free_pages_def)
  moreover have "free_pages s3 \<subseteq> free_pages s" unfolding fr3 using G(4) f1 kp(2) by blast
  ultimately have "grow s root s3"
    using s3(2) o G(5,7) W unfolding grow_def evolve_def tk by simp
  then show thesis using that s3(1) by blast
qed

lemma frames_claimed:
  assumes "wf_pt s1 root" "claimed s1 p s2" and "page_range a (Suc n)" and "flags_only perm"
    and "\<forall>va < MAXVA. pte_at (ram s3) root va =
      (if same_page (nth_page a n) va then PA2PTE p OR perm OR PTE_V else pte_at (ram s2) root va)"
  shows "frames (ram s3) root a (Suc n) = frames (ram s1) root a n @ [p]"
    and "\<And>i. i < n \<Longrightarrow> pte_at (ram s3) root (nth_page a i) = pte_at (ram s1) root (nth_page a i)"
    and "pte_at (ram s3) root (nth_page a n) = PA2PTE p OR perm OR PTE_V"
proof -
  note W = claimed_wf_pt [OF assms(2,1)] and C = claimedD [OF assms(2)]
  have r: "nth_page a i < MAXVA" "page_aligned (nth_page a i)" if "i \<le> n" for i
    using nth_page_range [OF assms(3)] that by simp_all
  show k: "pte_at (ram s3) root (nth_page a i) = pte_at (ram s1) root (nth_page a i)" if "i < n" for i
  proof -
    have "nth_page a i \<noteq> nth_page a n"
      using nth_page_unat [OF assms(3), of i] nth_page_unat [OF assms(3), of n] that by auto
    then show ?thesis
      using assms(5) [rule_format, OF r(1), of i] W(3) r [of i] r [of n] that by (simp add: same_page_aligned)
  qed
  show n: "pte_at (ram s3) root (nth_page a n) = PA2PTE p OR perm OR PTE_V"
    using assms(5) [rule_format, OF r(1), of n] by (simp add: same_page_def)
  have "PTE2PA (PA2PTE p OR (perm OR PTE_V)) = p"
    using C(6) assms(4) by (intro kpage_PTE2PA flags_only_or) simp_all
  then have "PTE2PA (pte_at (ram s3) root (nth_page a n)) = p" by (simp add: n or.assoc)
  then show "frames (ram s3) root a (Suc n) = frames (ram s1) root a n @ [p]"
    using frames_cong [of n "ram s3" root a "ram s1"] k by (simp add: frames_snoc)
qed

lemma allocated_Suc:
  assumes al: "allocated s s1 root a n xperm" and pr: "page_range a (Suc n)" and x: "flags_only xperm"
    and c: "claimed s1 p s2" and z: "\<forall>x. PGROUNDDOWN x = p \<longrightarrow> ram s2 x = 0"
    and e: "evolve s2 root s3"
    and pte: "\<forall>va < MAXVA. pte_at (ram s3) root va =
      (if same_page (nth_page a n) va then PA2PTE p OR (PTE_R OR PTE_U OR xperm) OR PTE_V
       else pte_at (ram s2) root va)"
  shows "allocated s s3 root a (Suc n) xperm"
proof -
  note A = allocatedD [OF al] and W = claimed_wf_pt [OF c allocatedD(2) [OF al]]
    and C = claimedD [OF c] and E = evolveD [OF e]
  have fl: "flags_only (PTE_R OR PTE_U OR xperm)" using x by (intro flags_only_or) simp_all
  note F = frames_claimed [OF A(2) c pr fl pte]
  let ?F = "set (frames (ram s1) root a n)"
  have tk: "taken s s3 = taken s s1 \<union> insert p (taken s2 s3)"
    using A(4) C(2,3) E(4) by (auto simp: taken_def)
  have new: "p \<notin> tpages (ram s1) root" "p \<notin> ?F" using W(4) A(15) C(2) by auto
  have tkf: "taken s2 s3 \<subseteq> free_pages s1" "p \<notin> taken s2 s3" using C(3) by (auto simp: taken_def)
  have T: "tpages (ram s3) root = tpages (ram s1) root \<union> taken s2 s3" unfolding E(5) W(2) ..
  have pT: "p \<notin> tpages (ram s3) root" unfolding T using new tkf by blast
  have FT: "?F \<inter> tpages (ram s3) root = {}" unfolding T using A(7,15) tkf by blast
  have fr: "frame s s3 (tpages (ram s) root \<union> free_pages s)"
  proof -
    have "frame s s3 (((tpages (ram s) root \<union> free_pages s) \<union> {p}) \<union> (tpages (ram s2) root \<union> free_pages s2))"
      by (rule frame_trans [OF frame_trans [OF A(3) C(4)] E(3)])
    moreover have "tpages (ram s2) root \<subseteq> tpages (ram s) root \<union> free_pages s"
      unfolding W(2) using A(6) by (auto simp: taken_def)
    ultimately show ?thesis using A(4) C(2,3) by (elim frame_mono) auto
  qed
  have cnt: "refcnt s3 q = refcnt s2 q" if "kpage s1 q" "q \<notin> taken s2 s3" for q
    using E(6) [of q] that C(7) by simp
  have same: "ram s3 y = ram s2 y" if "PGROUNDDOWN y \<notin> tpages (ram s1) root \<union> free_pages s2" for y
    using E(3) that W(2) by (simp add: frame_def)
  have one: "refcnt s3 q = 1" "\<forall>y. PGROUNDDOWN y = q \<longrightarrow> ram s3 y = 0" if q: "q \<in> insert p ?F" for q
  proof -
    have k: "kpage s1 q" using q A(14,15) C(6) by auto
    have out: "q \<notin> taken s2 s3" "q \<notin> tpages (ram s1) root \<union> free_pages s2"
      using q new tkf A(7,15) C(3) by auto
    show "refcnt s3 q = 1" using cnt [OF k out(1)] C(5) [OF k] A(9) [of q] q by auto
    have "ram s3 y = 0" if "PGROUNDDOWN y = q" for y
      using same [of y] z C(4) A(10) [of q y] out(2) q that by (auto simp: frame_def)
    then show "\<forall>y. PGROUNDDOWN y = q \<longrightarrow> ram s3 y = 0" by blast
  qed
  have rest: "refcnt s3 q = refcnt s q" if "kpage s q" "q \<notin> taken s s3" for q
    using cnt [of q] C(5) [of q] A(11) [of q] A(14) that unfolding tk by auto
  have tks: "taken s s3 = (tpages (ram s3) root - tpages (ram s) root) \<union> set (frames (ram s3) root a (Suc n))"
  proof -
    have "taken s2 s3 \<inter> tpages (ram s) root = {}"
      using tkf A(5) tpages_not_free [OF A(2)] by blast
    then show ?thesis unfolding F(1) tk A(6) T using A(5) by auto
  qed
  have ptes: "pte_at (ram s3) root (nth_page a i) =
      PA2PTE (frames (ram s3) root a (Suc n) ! i) OR PTE_R OR PTE_U OR xperm OR PTE_V" if "i < Suc n" for i
  proof (cases "i = n")
    case True
    then show ?thesis unfolding F(1) using F(3) by (simp add: nth_append or.assoc)
  next
    case False
    then have "i < n" using that by simp
    then show ?thesis unfolding F(1) using F(2) [of i] A(12) [of i] by (simp add: nth_append)
  qed
  have others: "pte_at (ram s3) root va = pte_at (ram s) root va"
    if "va < MAXVA" "\<forall>i < Suc n. \<not> same_page (nth_page a i) va" for va
    using pte [rule_format, OF that(1)] W(3) A(13) [OF that(1)] that(2) by simp
  have "tpages (ram s) root \<subseteq> tpages (ram s3) root" "free_pages s3 \<subseteq> free_pages s"
    "distinct (frames (ram s3) root a (Suc n))"
    "set (frames (ram s3) root a (Suc n)) \<inter> tpages (ram s3) root = {}"
    "set (frames (ram s3) root a (Suc n)) = insert p ?F"
    using T A(4,5,8) C(3) E(4) new pT FT unfolding F(1) by auto
  then show ?thesis
    unfolding allocated_def using E(1,2) fr tks one rest ptes others by (intro conjI) auto
qed

lemma leaf_bits: "leaf e \<longleftrightarrow> bit e 0 \<and> (\<exists>i. 0 < i \<and> i < 10 \<and> bit e i)"
proof -
  have "PTE_FLAGS e = PTE_V \<longleftrightarrow> (\<forall>i. (i < 10 \<and> bit e i) = (i = 0))"
  proof
    assume "PTE_FLAGS e = PTE_V"
    then have "bit (PTE_FLAGS e) i = bit PTE_V i" for i by simp
    then show "\<forall>i. (i < 10 \<and> bit e i) = (i = 0)" by (simp add: bit_PTE_FLAGS pte_bits)
  next
    assume "\<forall>i. (i < 10 \<and> bit e i) = (i = 0)"
    then show "PTE_FLAGS e = PTE_V" by (intro bit_word_eqI) (simp add: bit_PTE_FLAGS pte_bits)
  qed
  then show ?thesis unfolding leaf_def pte_bits by auto
qed

lemma leaf_user_pte: "leaf (PA2PTE p OR PTE_R OR PTE_U OR xperm OR PTE_V)"
  unfolding leaf_bits by (auto simp: bit_or_iff pte_bits intro!: exI [of _ 1])

lemma count_distinct: "distinct xs \<Longrightarrow> count_list xs p = (if p \<in> set xs then 1 else 0)"
  by (induction xs) auto

text \<open>Undoing the allocation leaves the entries as they were; only table pages stay taken.\<close>

lemma allocated_unmapped:
  assumes al: "allocated s s1 root a n xperm" and un: "unmapped s1 s2 root a n True"
    and zero: "\<And>i. i < n \<Longrightarrow> pte_at (ram s) root (nth_page a i) = 0" and pr: "page_range a n"
  shows "grow s root s2"
proof -
  note A = allocatedD [OF al]
  let ?F = "set (frames (ram s1) root a n)"
  from un have U: "kmem_inv s2" "wf_pt s2 root" "tpages (ram s2) root = tpages (ram s1) root"
    "frame s1 s2 (tpages (ram s1) root \<union> {p \<in> ?F. refcnt s2 p = 0})"
    "\<And>va. va < MAXVA \<Longrightarrow> pte_at (ram s2) root va =
       (if \<exists>i < n. same_page (nth_page a i) va then 0 else pte_at (ram s1) root va)"
    and cnt: "\<And>p. kpage s1 p \<Longrightarrow> refcnt s2 p = refcnt s1 p - count_list (frames (ram s1) root a n) p"
    by (simp_all add: unmapped_def)
  have c: "refcnt s2 p = (if p \<in> ?F then 0 else refcnt s1 p)" if "kpage s p" for p
    using cnt [of p] that A(8,9,14) by (simp add: count_distinct)
  have k2: "kpage s2 p = kpage s p" for p using frame_kpage [OF U(4)] A(14) by simp
  have fr2: "free_pages s2 = free_pages s1 \<union> ?F"
    using c A(15) by (auto simp: free_pages_def A(14) k2 split: if_splits)
  have tk: "taken s s2 = tpages (ram s1) root - tpages (ram s) root"
    using A(4,6,7,15) unfolding taken_def fr2 by blast
  have "frame s s2 ((tpages (ram s) root \<union> free_pages s) \<union> (tpages (ram s1) root \<union> {p \<in> ?F. refcnt s2 p = 0}))"
    using A(3) U(4) by (rule frame_trans)
  moreover have "tpages (ram s1) root \<subseteq> tpages (ram s) root \<union> free_pages s" "?F \<subseteq> free_pages s"
    using A(6,15) by (auto simp: taken_def)
  ultimately have f: "frame s s2 (tpages (ram s) root \<union> free_pages s)" by (elim frame_mono) auto
  have r: "refcnt s2 p = refcnt s p" if "kpage s p" "p \<notin> taken s s2" for p
  proof (cases "p \<in> ?F")
    case True
    then show ?thesis using c that A(15) [OF True] by (simp add: free_pages_def)
  next
    case False
    then have "p \<notin> taken s s1" using that(2) tk A(6) by blast
    then show ?thesis using c A(11) that False by simp
  qed
  have p: "pte_at (ram s2) root va = pte_at (ram s) root va" if va: "va < MAXVA" for va
  proof (cases "\<exists>i < n. same_page (nth_page a i) va")
    case True
    then obtain i where i: "i < n" "same_page (nth_page a i) va" by blast
    then have "pte_at (ram s) root va = pte_at (ram s) root (nth_page a i)"
      using same_page_iff_PX [OF nth_page_range(1) [OF pr i(1)] va]
      by (simp add: pte_at_def pte_slot_def)
    then show ?thesis using U(5) [OF va] True zero [OF i(1)] by simp
  next
    case False
    then show ?thesis using U(5) [OF va] A(13) [OF va] by auto
  qed
  have "free_pages s2 \<subseteq> free_pages s" unfolding fr2 using A(4,15) by blast
  moreover have "tpages (ram s2) root = tpages (ram s) root \<union> taken s s2"
    unfolding tk U(3) using A(5) by blast
  ultimately show ?thesis using U(1,2) f r p unfolding grow_def evolve_def by simp
qed

lemma npages_of_nth:
  assumes "page_range a n" and "i \<le> n"
  shows "npages_of (nth_page a i) = npages_of a + i" "nth_page a i \<le> MAXVA" "PGROUNDUP a = a"
    "unat (nth_page a i) = unat a + 4096 * i"
proof -
  have b: "unat a + 4096 * n \<le> 0x4000000000" "4096 dvd unat a" "page_aligned a"
    using assms(1) by (simp_all add: page_range_def page_aligned_unat dvd_eq_mod_eq_0)
  then obtain k where k: "unat a = 4096 * k" by blast
  have "unat a + 4096 * i < 2 ^ 64" using b(1) assms(2) by simp
  then show u: "unat (nth_page a i) = unat a + 4096 * i"
    by (simp add: nth_page_def unat_word_ariths unat_of_nat mult.commute)
  have d: "(4096 * j + 4095) div 4096 = j" for j :: nat by simp
  have ka: "npages_of a = k" unfolding npages_of_def k by (rule d)
  have "unat a + 4096 * i = 4096 * (k + i)" by (simp add: k)
  then show "npages_of (nth_page a i) = npages_of a + i"
    unfolding npages_of_def [of "nth_page a i"] u ka by (simp only: d)
  show "nth_page a i \<le> MAXVA" using u b(1) assms(2) by (simp add: word_le_nat_alt)
  have "unat (PGROUNDUP a) = unat a"
    using PGROUNDUP_npages(1) [of a] b(1) k ka by (simp add: word_le_nat_alt)
  then show "PGROUNDUP a = a" by (simp add: word_unat_eq_iff)
qed

lemma uvmdealloc_undo:
  assumes al: "allocated s s1 root a n xperm" and pr: "page_range a n"
    and zero: "\<And>i. i < n \<Longrightarrow> pte_at (ram s) root (nth_page a i) = 0"
  shows "\<exists>r s2. uvmdealloc s1 root (nth_page a n) a = Inr (r, s2) \<and> grow s root s2"
proof (cases n)
  case 0
  have "unmapped s1 s1 root a 0 True" using allocatedD [OF al] by (simp add: unmapped_def)
  then have "grow s root s1" using allocated_unmapped [OF al _ zero pr] 0 by simp
  then show ?thesis using 0 by (simp add: uvmdealloc_def)
next
  case (Suc k)
  note A = allocatedD [OF al]
  note N = npages_of_nth [OF pr order.refl]
  have lt: "a < nth_page a n" using N(4) Suc by (simp add: word_less_nat_alt)
  have lf: "leaf (pte_at (ram s1) root (nth_page a i))" if "i < n" for i
    using A(12) [OF that] leaf_user_pte by simp
  have fr: "kpage s1 p \<and> p \<notin> tpages (ram s1) root \<and> count_list (frames (ram s1) root a n) p \<le> refcnt s1 p"
    if "p \<in> set (frames (ram s1) root a n)" for p
    using A(7,8) A(9,15) [OF that] A(14) that by (auto simp: count_distinct)
  obtain s2 where s2: "uvmunmap s1 root a (of_nat n) True = Inr s2" "unmapped s1 s2 root a n True"
    using uvmunmap_pages [OF A(1,2) pr refl lf fr] by blast
  have "uvmdealloc s1 root (nth_page a n) a = Inr (a, s2)"
    using uvmdealloc_unmap [OF lt N(2), of s1 root] N(1,3) Suc s2(1) by simp
  then show ?thesis using allocated_unmapped [OF al s2(2) zero pr] by blast
qed

lemma uvmalloc_loop_pages:
  assumes "allocated s s1 root a i xperm" and "page_range a n" and "i \<le> n" and "flags_only xperm"
    and zero: "\<And>i. i < n \<Longrightarrow> pte_at (ram s) root (nth_page a i) = 0"
    and sz: "\<And>j. j \<le> n \<Longrightarrow> nth_page a j < newsz \<longleftrightarrow> j < n"
  shows "\<exists>r s'. uvmalloc_loop s1 root (nth_page a i) a newsz xperm = Inr (r, s') \<and>
    (r = newsz \<and> allocated s s' root a n xperm \<or> r = 0 \<and> grow s root s')"
  using assms(1,3)
proof (induction "n - i" arbitrary: s1 i)
  case 0
  then have "i = n" by simp
  then show ?case using 0 sz [of n] by (subst uvmalloc_loop.simps) simp
next
  case (Suc k)
  then have i: "i < n" by simp
  note A = allocatedD [OF Suc.prems(1)]
  have pr: "page_range a i" "page_range a (Suc i)" using assms(2) i by (simp_all add: page_range_def)
  have zi: "\<And>j. j < i \<Longrightarrow> pte_at (ram s) root (nth_page a j) = 0" using zero i by simp
  let ?a = "nth_page a i"
  have lt: "?a < newsz" using sz [of i] i by simp
  note r = nth_page_range [OF assms(2) i]
  have un: "uvmalloc_loop s1 root ?a a newsz xperm =
      kbind (kalloc s1) (\<lambda>(mem, s).
        if mem = 0 then kbind (uvmdealloc s root ?a a) (\<lambda>(_, s). Inr (0, s))
        else
          kbind (kmemset s mem 0 4096) (\<lambda>s.
          kbind (mappages s root ?a PGSIZE mem (PTE_R OR PTE_U OR xperm)) (\<lambda>(r, s).
          if r \<noteq> 0 then
            kbind (kfree s mem) (\<lambda>s.
            kbind (uvmdealloc s root ?a a) (\<lambda>(_, s). Inr (0, s)))
          else uvmalloc_loop s root (?a + PGSIZE) a newsz xperm)))"
    using lt by (subst uvmalloc_loop.simps) simp
  show ?case
  proof (cases "free_pages s1 = {}")
    case True
    then show ?thesis
      unfolding un using kalloc_none [OF A(1)] uvmdealloc_undo [OF Suc.prems(1) pr(1) zi] by auto
  next
    case False
    obtain p s1' s2 where p: "kalloc s1 = Inr (p, s1')" "p \<noteq> 0" "kmemset s1' p 0 4096 = Inr s2"
      "claimed s1 p s2" "\<forall>x. PGROUNDDOWN x = p \<longrightarrow> ram s2 x = 0"
      using kalloc_zeroed [OF A(1) False] by blast
    note W = claimed_wf_pt [OF p(4) A(2)] and C = claimedD [OF p(4)]
    have "pte_at (ram s1) root ?a = pte_at (ram s) root ?a"
    proof (rule A(13) [OF r(1)], intro allI impI)
      fix j assume "j < i"
      then show "\<not> same_page (nth_page a j) ?a"
        using nth_page_unat [OF assms(2), of i] nth_page_unat [OF assms(2), of j]
          nth_page_range(2) [OF assms(2), of j] r(2) i by (auto simp: same_page_aligned)
    qed
    then have ent: "pte_at (ram s2) root ?a AND PTE_V = 0" using W(3) zero [OF i] by simp
    have step: "uvmalloc_loop s1 root ?a a newsz xperm =
          kbind (mappages s2 root ?a PGSIZE p (PTE_R OR PTE_U OR xperm)) (\<lambda>(r, s).
          if r \<noteq> 0 then
            kbind (kfree s p) (\<lambda>s.
            kbind (uvmdealloc s root ?a a) (\<lambda>(_, s). Inr (0, s)))
          else uvmalloc_loop s root (?a + PGSIZE) a newsz xperm)"
      unfolding un using p(1-3) by simp
    from C(1) W(1) r ent show ?thesis
    proof (cases rule: mappages_page [where pa = p and perm = "PTE_R OR PTE_U OR xperm"])
      case (full s3)
      obtain s4 where s4: "kfree s3 p = Inr s4" "grow s1 root s4"
        using grow_claimed_kfree [OF A(1,2) p(4) full(2)] by metis
      obtain x s5 where "uvmdealloc s4 root ?a a = Inr (x, s5)" "grow s root s5"
        using uvmdealloc_undo [OF allocated_grow [OF Suc.prems(1) s4(2) pr(1)] pr(1) zi] by blast
      then show ?thesis unfolding step using full(1) s4(1) by simp
    next
      case (ok s3)
      have "allocated s s3 root a (Suc i) xperm"
        using ok(3) by (intro allocated_Suc [OF Suc.prems(1) pr(2) assms(4) p(4,5) ok(2)]) simp
      moreover have "?a + PGSIZE = nth_page a (Suc i)" by (simp add: nth_page_def algebra_simps)
      moreover have "k = n - Suc i" using Suc.hyps(2) by simp
      ultimately show ?thesis
        unfolding step using ok(1) Suc.hyps(1) [of "Suc i" s3] i by simp
    qed
  qed
qed

text \<open>
  \<open>uvmalloc\<close> grows the memory to \<open>newsz\<close> with fresh zeroed pages, or fails with 0 and takes back all
  it has done but the table pages.
\<close>

lemma uvmalloc_pages:
  assumes "kmem_inv s" and "wf_pt s root" and "oldsz \<le> newsz" and "newsz \<le> MAXVA" and "flags_only xperm"
    and "\<And>i. i < npages_of newsz - npages_of oldsz \<Longrightarrow>
      pte_at (ram s) root (nth_page (PGROUNDUP oldsz) i) = 0"
  shows "\<exists>r s'. uvmalloc s root oldsz newsz xperm = Inr (r, s') \<and>
    (r = newsz \<and> allocated s s' root (PGROUNDUP oldsz) (npages_of newsz - npages_of oldsz) xperm \<or>
     r = 0 \<and> grow s root s')"
proof -
  let ?a = "PGROUNDUP oldsz" and ?n = "npages_of newsz - npages_of oldsz"
  have old: "oldsz \<le> MAXVA" using assms(3,4) by simp
  note u = PGROUNDUP_npages [OF old] PGROUNDUP_npages [OF assms(4)]
  have "npages_of oldsz \<le> npages_of newsz"
    using assms(3) by (auto simp: npages_of_def word_le_nat_alt intro!: div_le_mono)
  then have pr: "page_range ?a ?n" using u by (simp add: page_range_def page_aligned_PGROUNDUP)
  have m: "4096 * m < unat newsz \<longleftrightarrow> m < npages_of newsz" for m
  proof -
    have "m < (unat newsz + 4095) div 4096 \<longleftrightarrow> Suc m * 4096 \<le> unat newsz + 4095"
      by (simp only: Suc_le_eq [symmetric] less_eq_div_iff_mult_less_eq)
    then show ?thesis by (auto simp: npages_of_def)
  qed
  have sz: "nth_page ?a j < newsz \<longleftrightarrow> j < ?n" if "j \<le> ?n" for j
  proof -
    have "unat (nth_page ?a j) = 4096 * (npages_of oldsz + j)"
      using npages_of_nth(4) [OF pr that] u(1) by simp
    then have "nth_page ?a j < newsz \<longleftrightarrow> npages_of oldsz + j < npages_of newsz"
      unfolding word_less_nat_alt by (simp only: m)
    then show ?thesis by auto
  qed
  obtain r s' where "uvmalloc_loop s root (nth_page ?a 0) ?a newsz xperm = Inr (r, s')"
    "r = newsz \<and> allocated s s' root ?a ?n xperm \<or> r = 0 \<and> grow s root s'"
    using uvmalloc_loop_pages [OF allocated_0 [OF assms(1,2)] pr _ assms(5,6) sz] by blast
  then show ?thesis using assms(3) by (auto simp: uvmalloc_def)
qed

end
