(* ===== verification/Cow.thy ===== *)
theory Cow
  imports Vmspace
begin

text \<open>
  Copy-on-write fork: \<open>uvmcopy\<close> of \<open>kernel/vm.c\<close> shares the parent's pages with the child, and
  \<open>is_cowpage\<close> and \<open>cow_alloc\<close> of \<open>kernel/trap.c\<close> give a process its own copy when it writes.
\<close>

section \<open>Marking an entry\<close>

lemma bit_cow_mark [pte_bits]:
  "bit (cow_mark e) i \<longleftrightarrow> (if bit e 2 then i = 8 \<or> i \<noteq> 2 \<and> bit e i else bit e i)"
  unfolding cow_mark_def
  by (auto simp: pte_bits bit_and_iff bit_or_iff bit_not_iff dest: bit_imp_le_length)

lemma PTE2PA_cow_mark [simp]: "PTE2PA (cow_mark e) = PTE2PA e"
  by (rule bit_word_eqI) (auto simp: bit_PTE2PA bit_cow_mark)

lemma cow_mark_not_writable: "cow_mark e AND PTE_W = 0"
  by (simp add: pte_bits)

lemma leaf_cow_mark: "leaf e \<Longrightarrow> leaf (cow_mark e)"
  unfolding leaf_bits by (cases "bit e 2") (auto simp: bit_cow_mark intro: exI [of _ 8])

text \<open>The child's entry for a page that the parent maps with \<open>e\<close>.\<close>

definition child_pte :: "u64 \<Rightarrow> u64" where
  "child_pte e = PA2PTE (PTE2PA e) OR PTE_FLAGS (cow_mark e) OR PTE_V"

lemma child_pte_PA:
  assumes "kpage s (PTE2PA e)"
  shows "PTE2PA (child_pte e) = PTE2PA e"
proof -
  have "flags_only (PTE_FLAGS (cow_mark e) OR PTE_V)" by (rule flags_only_or) simp_all
  then show ?thesis unfolding child_pte_def or.assoc by (rule kpage_PTE2PA [OF assms])
qed

lemma child_pte_flags: "PTE_FLAGS (child_pte e) = PTE_FLAGS (cow_mark e) OR PTE_V"
proof -
  have "flags_only (PTE_FLAGS (cow_mark e) OR PTE_V)" by (rule flags_only_or) simp_all
  then show ?thesis unfolding child_pte_def or.assoc by (rule PTE_FLAGS_PA2PTE)
qed

lemma leaf_child_pte:
  assumes "leaf e"
  shows "leaf (child_pte e)"
proof -
  obtain i where "0 < i" "i < 10" "bit (cow_mark e) i"
    using leaf_cow_mark [OF assms] by (auto simp: leaf_bits)
  then have "bit (PTE_FLAGS (child_pte e)) i" by (simp add: child_pte_flags bit_or_iff bit_PTE_FLAGS)
  then have "bit (child_pte e) i" by (simp add: bit_PTE_FLAGS)
  moreover have "bit (PTE_FLAGS (child_pte e)) 0" by (simp add: child_pte_flags bit_or_iff)
  ultimately show ?thesis using \<open>0 < i\<close> \<open>i < 10\<close> by (auto simp: leaf_bits bit_PTE_FLAGS)
qed

section \<open>uvmcopy\<close>

text \<open>\<open>n\<close> pages of the table \<open>old\<close> that can be shared with the table \<open>new\<close>.\<close>

definition forkable :: "'a kmem_scheme \<Rightarrow> u64 \<Rightarrow> u64 \<Rightarrow> nat \<Rightarrow> bool" where
  "forkable s old new n \<longleftrightarrow>
     kmem_inv s \<and> wf_pt s old \<and> wf_pt s new \<and> tpages (ram s) old \<inter> tpages (ram s) new = {} \<and>
     page_range 0 n \<and>
     (\<forall>i < n. leaf (pte_at (ram s) old (nth_page 0 i)) \<and> pte_at (ram s) new (nth_page 0 i) = 0) \<and>
     (\<forall>p \<in> set (frames (ram s) old 0 n). kpage s p \<and> 0 < refcnt s p \<and>
        p \<notin> tpages (ram s) old \<and> p \<notin> tpages (ram s) new \<and>
        refcnt s p + count_list (frames (ram s) old 0 n) p \<le> 255)"

text \<open>The first \<open>n\<close> pages are shared.\<close>

definition shared :: "'a kmem_scheme \<Rightarrow> 'a kmem_scheme \<Rightarrow> u64 \<Rightarrow> u64 \<Rightarrow> nat \<Rightarrow> bool" where
  "shared s s' old new n \<longleftrightarrow>
     kmem_inv s' \<and> wf_pt s' old \<and> wf_pt s' new \<and> free_pages s' \<subseteq> free_pages s \<and>
     tpages (ram s') old = tpages (ram s) old \<and>
     tpages (ram s') new = tpages (ram s) new \<union> taken s s' \<and>
     frame s s' (tpages (ram s) old \<union> tpages (ram s) new \<union> free_pages s) \<and>
     (\<forall>p. kpage s p \<and> p \<notin> taken s s' \<longrightarrow>
        refcnt s' p = refcnt s p + count_list (frames (ram s) old 0 n) p) \<and>
     (\<forall>va < MAXVA. pte_at (ram s') old va =
        (if \<exists>i < n. same_page (nth_page 0 i) va then cow_mark (pte_at (ram s) old va)
         else pte_at (ram s) old va)) \<and>
     (\<forall>va < MAXVA. pte_at (ram s') new va =
        (if \<exists>i < n. same_page (nth_page 0 i) va then child_pte (pte_at (ram s) old va)
         else pte_at (ram s) new va))"

lemma sharedD:
  assumes "shared s s' old new n"
  shows "kmem_inv s'" "wf_pt s' old" "wf_pt s' new" "free_pages s' \<subseteq> free_pages s"
    "tpages (ram s') old = tpages (ram s) old"
    "tpages (ram s') new = tpages (ram s) new \<union> taken s s'"
    "frame s s' (tpages (ram s) old \<union> tpages (ram s) new \<union> free_pages s)"
    "\<And>p. kpage s p \<Longrightarrow> p \<notin> taken s s' \<Longrightarrow>
       refcnt s' p = refcnt s p + count_list (frames (ram s) old 0 n) p"
    "\<And>va. va < MAXVA \<Longrightarrow> pte_at (ram s') old va =
        (if \<exists>i < n. same_page (nth_page 0 i) va then cow_mark (pte_at (ram s) old va)
         else pte_at (ram s) old va)"
    "\<And>va. va < MAXVA \<Longrightarrow> pte_at (ram s') new va =
        (if \<exists>i < n. same_page (nth_page 0 i) va then child_pte (pte_at (ram s) old va)
         else pte_at (ram s) new va)"
    "\<And>p. kpage s' p = kpage s p"
proof -
  show f: "frame s s' (tpages (ram s) old \<union> tpages (ram s) new \<union> free_pages s)"
    using assms by (simp add: shared_def)
  show "kpage s' p = kpage s p" for p using f by (rule frame_kpage)
qed (use assms in \<open>simp_all add: shared_def\<close>)

lemma forkableD:
  assumes "forkable s old new n"
  shows "kmem_inv s" "wf_pt s old" "wf_pt s new" "tpages (ram s) old \<inter> tpages (ram s) new = {}"
    "page_range 0 n"
    "\<And>i. i < n \<Longrightarrow> leaf (pte_at (ram s) old (nth_page 0 i))"
    "\<And>i. i < n \<Longrightarrow> pte_at (ram s) new (nth_page 0 i) = 0"
    "\<And>p. p \<in> set (frames (ram s) old 0 n) \<Longrightarrow> kpage s p \<and> 0 < refcnt s p \<and>
        p \<notin> tpages (ram s) old \<and> p \<notin> tpages (ram s) new \<and>
        refcnt s p + count_list (frames (ram s) old 0 n) p \<le> 255"
  using assms by (simp_all add: forkable_def)

lemma shared_0: "forkable s old new n \<Longrightarrow> shared s s old new 0"
  by (auto simp: forkable_def shared_def taken_def)

lemma increase_refer_frame:
  assumes inv: "kmem_inv s" and p: "kpage s p" "0 < refcnt s p" "refcnt s p < 255"
  shows "\<exists>s'. increase_refer s p = Inr s' \<and> kmem_inv s' \<and> frame s s' {} \<and> ram s' = ram s \<and>
    free_pages s' = free_pages s \<and>
    (\<forall>q. kpage s q \<longrightarrow> refcnt s' q = (if q = p then refcnt s p + 1 else refcnt s q))"
proof -
  obtain s' where s': "increase_refer s p = Inr s'" "kmem_inv s'" "free_pages s' = free_pages s"
    "s' = s\<lparr>refer_count := (refer_count s)(ref_index p := refer_count s (ref_index p) + 1)\<rparr>"
    "refcnt s' p = refcnt s p + 1"
    using increase_refer_inv [OF assms] by blast
  have "refcnt s' q = refcnt s q" if "kpage s q" "q \<noteq> p" for q
    using refcnt_upd [OF kmem_inv_kend_ok [OF inv] p(1) that(1), of s'] s'(4) that(2) by simp
  then show ?thesis using s' by (auto simp: frame_def)
qed

text \<open>The parent's entry is marked.\<close>

lemma uvmcopy_mark:
  assumes inv: "kmem_inv s" and wf: "wf_pt s old" and va: "va < MAXVA"
    and lf: "leaf (pte_at (ram s) old va)"
  shows "\<exists>p s'. walk s old va False = Inr (p, s) \<and> p \<noteq> 0 \<and> load64 s p = Inr (pte_at (ram s) old va) \<and>
    (if pte_at (ram s) old va AND PTE_W \<noteq> 0 then store64 s p (cow_mark (pte_at (ram s) old va)) else Inr s)
      = Inr s' \<and>
    evolve s old s' \<and> free_pages s' = free_pages s \<and> frame s s' (tpages (ram s) old) \<and>
    tpages (ram s') old = tpages (ram s) old \<and>
    (\<forall>q. refcnt s' q = refcnt s q) \<and>
    (\<forall>x < MAXVA. pte_at (ram s') old x =
      (if same_page va x then cow_mark (pte_at (ram s) old va) else pte_at (ram s) old x))"
proof -
  let ?e = "pte_at (ram s) old va"
  have kend: "kend_ok s" using inv by (rule kmem_inv_kend_ok)
  obtain p where slot: "pte_slot (ram s) old va = Some p"
    using lf by (cases "pte_slot (ram s) old va") (auto simp: leaf_def pte_at_def)
  have w: "walk s old va False = Inr (p, s)" using walk_lookup [OF kend wf va] slot by simp
  have rok: "ram_ok p 8" "p \<noteq> 0" using slot_ram_ok [OF kend wf slot] by auto
  have l: "load64 s p = Inr ?e" using rok slot_page(3) [OF wf slot] by (simp add: load64_def)
  show ?thesis
  proof (cases "?e AND PTE_W \<noteq> 0")
    case True
    let ?s' = "set_pte s p (cow_mark ?e)"
    have "store64 s p (cow_mark ?e) = Inr ?s'" using rok by (simp add: store64_def set_pte_def)
    then show ?thesis
      using True w rok l evolve_set_pte [OF inv wf slot, of "cow_mark ?e"]
        pte_at_set_pte [OF wf slot va, of _ "cow_mark ?e"]
      by (intro exI [of _ p] exI [of _ ?s']) simp
  next
    case False
    have same: "pte_at (ram s) old x = ?e" if "x < MAXVA" "same_page va x" for x
      using same_page_iff_PX [OF va that(1)] that(2) by (simp add: pte_at_def pte_slot_def)
    have "cow_mark ?e = ?e" using False by (simp add: cow_mark_def)
    then show ?thesis
      using False w rok l evolve_refl [OF inv wf] same
      by (intro exI [of _ p] exI [of _ s]) auto
  qed
qed

text \<open>A page that is in use and is no table page stays so while tables take free pages.\<close>

lemma forkable_page:
  assumes fk: "forkable s old new N" and sh: "shared s s1 old new n" and n: "n < N"
    and pa: "pa = PTE2PA (pte_at (ram s) old (nth_page 0 n))"
  shows "kpage s1 pa" "pa \<notin> tpages (ram s1) old" "pa \<notin> tpages (ram s1) new" "pa \<notin> free_pages s"
    "refcnt s1 pa = refcnt s pa + count_list (frames (ram s) old 0 n) pa" "0 < refcnt s1 pa" "refcnt s1 pa < 255"
proof -
  note F = forkableD [OF fk] and S = sharedD [OF sh]
  have mem: "pa \<in> set (frames (ram s) old 0 N)" using n pa by (auto simp: frames_def)
  note P = F(8) [OF mem]
  show nf: "pa \<notin> free_pages s" using P by (simp add: free_pages_def)
  then have nt: "pa \<notin> taken s s1" by (simp add: taken_def)
  show "kpage s1 pa" using P S(11) by simp
  show "pa \<notin> tpages (ram s1) old" "pa \<notin> tpages (ram s1) new" using P nt S(5,6) by auto
  show c: "refcnt s1 pa = refcnt s pa + count_list (frames (ram s) old 0 n) pa" using S(8) P nt by blast
  have "count_list (frames (ram s) old 0 N) pa =
      count_list (frames (ram s) old 0 n) pa + count_list (drop n (frames (ram s) old 0 N)) pa"
  proof -
    have "take n (frames (ram s) old 0 N) = frames (ram s) old 0 n"
      using n by (simp add: frames_def take_map)
    then show ?thesis using count_list_append [of "take n (frames (ram s) old 0 N)" _ pa]
      by (metis append_take_drop_id)
  qed
  moreover have "pa \<in> set (drop n (frames (ram s) old 0 N))"
    using n pa by (force simp: frames_def drop_map)
  then have "0 < count_list (drop n (frames (ram s) old 0 N)) pa" using count_list_0_iff by fastforce
  ultimately show "refcnt s1 pa < 255" using P c by simp
  show "0 < refcnt s1 pa" using P c by simp
qed

lemma nth_page_distinct:
  assumes "page_range a n" and "i < n" and "j < n"
  shows "same_page (nth_page a i) (nth_page a j) \<longleftrightarrow> i = j"
proof
  assume "same_page (nth_page a i) (nth_page a j)"
  then have "nth_page a i = nth_page a j"
    using nth_page_range(2) [OF assms(1,2)] nth_page_range(2) [OF assms(1,3)]
    by (simp add: same_page_aligned)
  then have "unat (nth_page a i) = unat (nth_page a j)" by (rule arg_cong)
  then show "i = j"
    unfolding nth_page_unat [OF assms(1,2)] nth_page_unat [OF assms(1,3)] by simp
qed (simp add: same_page_def)

text \<open>One round of the loop that succeeds.\<close>

lemma shared_Suc:
  assumes fk: "forkable s old new N" and sh: "shared s s1 old new n" and n: "n < N"
    and e: "e = pte_at (ram s) old (nth_page 0 n)"
    and s2: "evolve s1 old s2" "free_pages s2 = free_pages s1" "frame s1 s2 (tpages (ram s1) old)"
      "tpages (ram s2) old = tpages (ram s1) old" "\<forall>q. refcnt s2 q = refcnt s1 q"
      "\<forall>x < MAXVA. pte_at (ram s2) old x =
        (if same_page (nth_page 0 n) x then cow_mark e else pte_at (ram s1) old x)"
    and s3: "evolve s2 new s3"
      "\<And>x. x < MAXVA \<Longrightarrow> pte_at (ram s3) new x =
        (if same_page (nth_page 0 n) x then child_pte e else pte_at (ram s2) new x)"
  shows "\<exists>s'. increase_refer s3 (PTE2PA e) = Inr s' \<and> shared s s' old new (Suc n)"
proof -
  let ?pa = "PTE2PA e" and ?a = "nth_page 0 n"
  note F = forkableD [OF fk] and S = sharedD [OF sh] and E2 = evolveD [OF s2(1)] and E3 = evolveD [OF s3(1)]
  have "?pa = PTE2PA (pte_at (ram s) old (nth_page 0 n))" using e by simp
  note P = forkable_page [OF fk sh n this]
  have dj1: "tpages (ram s1) new \<inter> tpages (ram s1) old = {}"
    unfolding S(5,6) using F(4) tpages_not_free [OF F(2)] by (auto simp: taken_def)
  have new2: "wf_pt s2 new" "tpages (ram s2) new = tpages (ram s1) new"
    "\<And>x. pte_at (ram s2) new x = pte_at (ram s1) new x" "tpages (ram s2) new \<inter> tpages (ram s2) old = {}"
    using evolve_other [OF s2(1) S(3) dj1] by auto
  have "tpages (ram s2) old \<inter> tpages (ram s2) new = {}" using new2(4) by blast
  note old3 = evolve_other [OF s3(1) E2(2) this]
  have k2: "kpage s2 q = kpage s q" and k3: "kpage s3 q = kpage s q" for q
    using frame_kpage [OF E2(3)] frame_kpage [OF E3(3)] S(11) by simp_all
  have tk23: "taken s2 s3 \<subseteq> free_pages s1" using s2(2) by (auto simp: taken_def)
  have paf: "?pa \<notin> free_pages s1" using P(4) S(4) by blast
  have c3: "refcnt s3 q = refcnt s1 q" if "kpage s q" "q \<notin> taken s2 s3" for q
    using E3(6) [of q] that k2 s2(5) by simp
  have pa3: "kpage s3 ?pa" "refcnt s3 ?pa = refcnt s1 ?pa"
    using P(1) S(11) k3 c3 [of ?pa] tk23 paf by auto
  obtain s4 where s4: "increase_refer s3 ?pa = Inr s4" "kmem_inv s4" "frame s3 s4 {}" "ram s4 = ram s3"
    "free_pages s4 = free_pages s3"
    "\<forall>q. kpage s3 q \<longrightarrow> refcnt s4 q = (if q = ?pa then refcnt s3 ?pa + 1 else refcnt s3 q)"
    using increase_refer_frame [OF E3(1) pa3(1)] pa3(2) P(6,7) by auto
  have tk: "taken s s4 = taken s s1 \<union> taken s2 s3"
    using S(4) E3(4) s2(2) s4(5) by (auto simp: taken_def)
  have T: "tpages (ram s3) new = tpages (ram s) new \<union> taken s s4" "tpages (ram s3) old = tpages (ram s) old"
    unfolding tk using E3(5) new2(2) S(5,6) s2(4) old3(2) by auto
  have paT: "?pa \<notin> tpages (ram s3) old" "?pa \<notin> tpages (ram s3) new"
    using P(2,3) tk23 paf old3(2) s2(4) E3(5) new2(2) by auto
  have wf4: "wf_pt s4 old" "wf_pt s4 new"
    using s4(3,6) paT old3(1) E3(2) wf_pt_kpage [of s3]
    by (auto intro!: frame_other(1) [OF s4(3)])
  have fr: "frame s s4 (tpages (ram s) old \<union> tpages (ram s) new \<union> free_pages s)"
  proof -
    have "frame s s4 ((((tpages (ram s) old \<union> tpages (ram s) new \<union> free_pages s) \<union> tpages (ram s1) old) \<union>
        (tpages (ram s2) new \<union> free_pages s2)) \<union> {})"
      by (rule frame_trans [OF frame_trans [OF frame_trans [OF S(7) s2(3)] E3(3)] s4(3)])
    then show ?thesis
      using S(4,5,6) new2(2) s2(2) by (elim frame_mono) (auto simp: taken_def)
  qed
  have cnt: "refcnt s4 q = refcnt s q + count_list (frames (ram s) old 0 (Suc n)) q"
    if "kpage s q" "q \<notin> taken s s4" for q
  proof -
    have "refcnt s4 q = refcnt s1 q + (if q = ?pa then 1 else 0)"
      using s4(6) k3 c3 [of q] that tk pa3(2) by auto
    moreover have "refcnt s1 q = refcnt s q + count_list (frames (ram s) old 0 n) q"
      using S(8) that tk by blast
    ultimately show ?thesis using e by (simp add: frames_snoc)
  qed
  have same: "pte_at (ram s) old x = e" if "x < MAXVA" "same_page ?a x" for x
    using same_page_iff_PX [OF nth_page_range(1) [OF F(5) n] that(1)] that(2) e
    by (simp add: pte_at_def pte_slot_def)
  have po: "pte_at (ram s4) old x = (if \<exists>i < Suc n. same_page (nth_page 0 i) x
      then cow_mark (pte_at (ram s) old x) else pte_at (ram s) old x)" if "x < MAXVA" for x
    using S(9) [OF that] s2(6) that old3(3) [of x] same [OF that] unfolding s4(4) less_Suc_eq by auto
  have pn: "pte_at (ram s4) new x = (if \<exists>i < Suc n. same_page (nth_page 0 i) x
      then child_pte (pte_at (ram s) old x) else pte_at (ram s) new x)" if "x < MAXVA" for x
    using S(10) [OF that] s3(2) [OF that] new2(3) [of x] same [OF that] unfolding s4(4) less_Suc_eq by auto
  have "free_pages s4 \<subseteq> free_pages s" using S(4) E3(4) s2(2) s4(5) by auto
  then show ?thesis
    using s4(1,2) wf4 T fr cnt po pn unfolding shared_def s4(4) [symmetric] by blast
qed

text \<open>
  What a failed copy leaves behind: the child has no entry that it did not have, every reference taken
  for it is given back; some table pages stay with the child's table, and the first \<open>n\<close> entries
  of the parent stay marked.
\<close>

definition unshared :: "'a kmem_scheme \<Rightarrow> 'a kmem_scheme \<Rightarrow> u64 \<Rightarrow> u64 \<Rightarrow> nat \<Rightarrow> bool" where
  "unshared s s' old new n \<longleftrightarrow>
     kmem_inv s' \<and> wf_pt s' old \<and> wf_pt s' new \<and> free_pages s' \<subseteq> free_pages s \<and>
     tpages (ram s') old = tpages (ram s) old \<and>
     tpages (ram s') new = tpages (ram s) new \<union> taken s s' \<and>
     frame s s' (tpages (ram s) old \<union> tpages (ram s) new \<union> free_pages s) \<and>
     (\<forall>p. kpage s p \<and> p \<notin> taken s s' \<longrightarrow> refcnt s' p = refcnt s p) \<and>
     (\<forall>va < MAXVA. pte_at (ram s') old va =
        (if \<exists>i < n. same_page (nth_page 0 i) va then cow_mark (pte_at (ram s) old va)
         else pte_at (ram s) old va)) \<and>
     (\<forall>va < MAXVA. pte_at (ram s') new va = pte_at (ram s) new va)"

lemma shared_frames:
  assumes fk: "forkable s old new N" and sh: "shared s s1 old new n" and n: "n \<le> N"
  shows "frames (ram s1) new 0 n = frames (ram s) old 0 n"
  unfolding frames_def
proof (rule map_cong [OF refl])
  fix i assume "i \<in> set [0..<n]"
  then have i: "i < n" "i < N" using n by auto
  note F = forkableD [OF fk] and S = sharedD [OF sh]
  have "PTE2PA (pte_at (ram s) old (nth_page 0 i)) \<in> set (frames (ram s) old 0 N)"
    using i by (auto simp: frames_def)
  then have "kpage s (PTE2PA (pte_at (ram s) old (nth_page 0 i)))" using F(8) by blast
  moreover have "pte_at (ram s1) new (nth_page 0 i) = child_pte (pte_at (ram s) old (nth_page 0 i))"
    using S(10) [OF nth_page_range(1) [OF F(5) i(2)]] i(1) by (auto simp: same_page_def)
  ultimately show "PTE2PA (pte_at (ram s1) new (nth_page 0 i)) = PTE2PA (pte_at (ram s) old (nth_page 0 i))"
    by (simp add: child_pte_PA)
qed

text \<open>The child's table has only grown since: the sharing still stands and can be undone.\<close>

lemma shared_grow:
  assumes fk: "forkable s old new N" and sh: "shared s s1 old new n" and n: "n \<le> N"
    and s2: "evolve s1 old s2" "free_pages s2 = free_pages s1" "frame s1 s2 (tpages (ram s1) old)"
      "tpages (ram s2) old = tpages (ram s1) old" "\<forall>q. refcnt s2 q = refcnt s1 q"
    and g: "grow s2 new s3"
  shows "\<exists>s'. uvmunmap s3 new 0 (of_nat n) True = Inr s' \<and>
    kmem_inv s' \<and> wf_pt s' old \<and> wf_pt s' new \<and> free_pages s' \<subseteq> free_pages s \<and>
    tpages (ram s') old = tpages (ram s) old \<and>
    tpages (ram s') new = tpages (ram s) new \<union> taken s s' \<and>
    frame s s' (tpages (ram s) old \<union> tpages (ram s) new \<union> free_pages s) \<and>
    (\<forall>p. kpage s p \<and> p \<notin> taken s s' \<longrightarrow> refcnt s' p = refcnt s p) \<and>
    (\<forall>va < MAXVA. pte_at (ram s') old va = pte_at (ram s2) old va) \<and>
    (\<forall>va < MAXVA. pte_at (ram s') new va = pte_at (ram s) new va)"
proof -
  note F = forkableD [OF fk] and S = sharedD [OF sh] and E2 = evolveD [OF s2(1)] and G = growD [OF g]
  have prn: "page_range 0 n" using F(5) n by (simp add: page_range_def)
  have dj1: "tpages (ram s1) new \<inter> tpages (ram s1) old = {}"
    unfolding S(5,6) using F(4) tpages_not_free [OF F(2)] by (auto simp: taken_def)
  note new2 = evolve_other [OF s2(1) S(3) dj1]
  have dj2: "tpages (ram s2) old \<inter> tpages (ram s2) new = {}" using new2(4) by blast
  have ev3: "evolve s2 new s3" using g by (simp add: grow_def)
  note old3 = evolve_other [OF ev3 E2(2) dj2]
  have k2: "kpage s2 q = kpage s q" and k3: "kpage s3 q = kpage s q" for q
    using frame_kpage [OF E2(3)] frame_kpage [OF G(3)] S(11) by simp_all
  have tk23: "taken s2 s3 \<subseteq> free_pages s1" using s2(2) by (auto simp: taken_def)
  have p3: "pte_at (ram s3) new x = pte_at (ram s1) new x" if "x < MAXVA" for x
    using G(7) [OF that] new2(3) by simp
  have fs: "frames (ram s3) new 0 n = frames (ram s) old 0 n"
    using frames_cong [of n "ram s3" new 0 "ram s1"] p3 nth_page_range(1) [OF prn]
      shared_frames [OF fk sh n] by simp
  have sub: "set (frames (ram s) old 0 n) \<subseteq> set (frames (ram s) old 0 N)"
    using n by (auto simp: frames_def)
  have P: "kpage s p" "p \<notin> free_pages s" "0 < refcnt s p" "p \<notin> tpages (ram s) new" "p \<notin> tpages (ram s) old"
    if "p \<in> set (frames (ram s) old 0 n)" for p
    using F(8) [of p] sub that by (auto simp: free_pages_def)
  have Q: "p \<notin> taken s s1" "p \<notin> taken s2 s3" if "p \<in> set (frames (ram s) old 0 n)" for p
    using P(2) [OF that] S(4) tk23 taken_free by blast+
  have c3: "refcnt s3 q = refcnt s q + count_list (frames (ram s) old 0 n) q"
    if "kpage s q" "q \<notin> taken s s1" "q \<notin> taken s2 s3" for q
    using G(6) [of q] k2 s2(5) S(8) that by simp
  have T3: "tpages (ram s3) new = tpages (ram s) new \<union> (taken s s1 \<union> taken s2 s3)"
    "tpages (ram s3) old = tpages (ram s) old"
    using G(5) new2(2) S(5,6) old3(2) s2(4) by auto
  have lf: "leaf (pte_at (ram s3) new (nth_page 0 i))" if "i < n" for i
    using p3 [OF nth_page_range(1) [OF prn that]] S(10) [OF nth_page_range(1) [OF prn that]] that
      leaf_child_pte [OF F(6), of i] n by (auto simp: same_page_def)
  have ok: "kpage s3 p \<and> p \<notin> tpages (ram s3) new \<and> count_list (frames (ram s3) new 0 n) p \<le> refcnt s3 p"
    if "p \<in> set (frames (ram s3) new 0 n)" for p
    using P [of p] Q [of p] c3 [of p] that k3 T3(1) unfolding fs by auto
  obtain s4 where s4: "uvmunmap s3 new 0 (of_nat n) True = Inr s4" "unmapped s3 s4 new 0 n True"
    using uvmunmap_pages [OF G(1,2) prn refl lf ok] by blast
  from s4(2) have U: "kmem_inv s4" "wf_pt s4 new" "tpages (ram s4) new = tpages (ram s3) new"
    "frame s3 s4 (tpages (ram s3) new \<union> {p \<in> set (frames (ram s) old 0 n). refcnt s4 p = 0})"
    "\<And>x. x < MAXVA \<Longrightarrow> pte_at (ram s4) new x =
       (if \<exists>i < n. same_page (nth_page 0 i) x then 0 else pte_at (ram s3) new x)"
    "\<And>p. kpage s3 p \<Longrightarrow> refcnt s4 p = refcnt s3 p - count_list (frames (ram s) old 0 n) p"
    by (simp_all add: unmapped_def fs)
  have c4: "refcnt s4 q = refcnt s q" if "kpage s q" "q \<notin> taken s s1" "q \<notin> taken s2 s3" for q
    using U(6) [of q] k3 c3 that by simp
  have "{p \<in> set (frames (ram s) old 0 n). refcnt s4 p = 0} = {}" using P Q c4 by auto
  then have f34: "frame s3 s4 (tpages (ram s3) new)" using U(4) by (simp only: Un_empty_right)
  have k4: "kpage s4 q = kpage s q" for q using frame_kpage [OF f34] k3 by simp
  have tkF: "taken s s1 \<union> taken s2 s3 \<subseteq> tpages (ram s4) new" unfolding U(3) T3(1) by blast
  have fr4: "free_pages s4 = free_pages s - (taken s s1 \<union> taken s2 s3)"
  proof -
    have "q \<notin> taken s s1 \<union> taken s2 s3" if "q \<in> free_pages s4" for q
      using tkF tpages_not_free [OF U(2)] that by blast
    moreover have "q \<in> free_pages s4 \<longleftrightarrow> q \<in> free_pages s" if "q \<notin> taken s s1 \<union> taken s2 s3" for q
      using that c4 [of q] k4 [of q] by (auto simp: free_pages_def)
    ultimately show ?thesis by blast
  qed
  have tk: "taken s s4 = taken s s1 \<union> taken s2 s3"
    unfolding taken_def [of s s4] fr4 using S(4) tk23 by (auto simp: taken_def)
  have T4: "tpages (ram s4) new = tpages (ram s) new \<union> taken s s4" unfolding tk U(3) T3(1) ..
  have dj3: "tpages (ram s3) old \<inter> tpages (ram s3) new = {}" using old3(4) .
  have "\<forall>p \<in> tpages (ram s3) old. refcnt s4 p = refcnt s3 p"
  proof
    fix p assume p: "p \<in> tpages (ram s3) old"
    have "p \<notin> set (frames (ram s) old 0 n)" using P(5) p T3(2) by auto
    then show "refcnt s4 p = refcnt s3 p" using U(6) [OF wf_pt_kpage [OF old3(1) p]] by (simp add: count_notin)
  qed
  note old4 = frame_other [OF f34 old3(1) dj3 this]
  have fr: "frame s s4 (tpages (ram s) old \<union> tpages (ram s) new \<union> free_pages s)"
  proof -
    have "frame s s4 ((((tpages (ram s) old \<union> tpages (ram s) new \<union> free_pages s) \<union> tpages (ram s1) old) \<union>
        (tpages (ram s2) new \<union> free_pages s2)) \<union> tpages (ram s3) new)"
      by (rule frame_trans [OF frame_trans [OF frame_trans [OF S(7) s2(3)] G(3)] f34])
    then show ?thesis
      using S(4,5,6) new2(2) s2(2) T3(1) tk23 by (elim frame_mono) (auto simp: taken_def)
  qed
  have pn: "pte_at (ram s4) new x = pte_at (ram s) new x" if x: "x < MAXVA" for x
  proof (cases "\<exists>i < n. same_page (nth_page 0 i) x")
    case True
    then obtain i where i: "i < n" "same_page (nth_page 0 i) x" by blast
    then have "pte_at (ram s) new x = pte_at (ram s) new (nth_page 0 i)"
      using same_page_iff_PX [OF nth_page_range(1) [OF prn i(1)] x] by (simp add: pte_at_def pte_slot_def)
    then show ?thesis using U(5) [OF x] True F(7) [of i] i(1) n by simp
  next
    case False
    then show ?thesis using U(5) [OF x] p3 [OF x] S(10) [OF x] by auto
  qed
  have po: "pte_at (ram s4) old x = pte_at (ram s2) old x" for x using old4(3) old3(3) by simp
  have "\<forall>p. kpage s p \<and> p \<notin> taken s s4 \<longrightarrow> refcnt s4 p = refcnt s p" using c4 tk by blast
  moreover have "free_pages s4 \<subseteq> free_pages s" using fr4 by blast
  moreover have "tpages (ram s4) old = tpages (ram s) old" using old4(2) T3(2) by simp
  ultimately show ?thesis using s4(1) U(1,2) old4(1) T4 fr pn po by blast
qed

lemma uvmcopy_loop_pages:
  assumes fk: "forkable s old new N" and sh: "shared s s1 old new n" and "n \<le> N"
    and sz: "\<And>j. j \<le> N \<Longrightarrow> nth_page 0 j < sz \<longleftrightarrow> j < N"
  shows "\<exists>r s'. uvmcopy_loop s1 old new (nth_page 0 n) sz = Inr (r, s') \<and>
    (r = 0 \<and> shared s s' old new N \<or> r = -1 \<and> (\<exists>k \<le> N. unshared s s' old new k))"
  using sh assms(3)
proof (induction "N - n" arbitrary: s1 n)
  case 0
  then have "n = N" by simp
  then show ?case using 0 sz [of N] by (subst uvmcopy_loop.simps) simp
next
  case (Suc k)
  then have n: "n < N" by simp
  let ?a = "nth_page 0 n"
  define e where "e = pte_at (ram s) old ?a"
  note F = forkableD [OF fk] and S = sharedD [OF Suc.prems(1)]
  note r = nth_page_range [OF F(5) n]
  have first: "\<not> (\<exists>i < n. same_page (nth_page 0 i) ?a)"
    using nth_page_distinct [OF F(5) _ n] n by auto
  have e1: "pte_at (ram s1) old ?a = e" using S(9) [OF r(1)] first by (simp add: e_def)
  have n1: "pte_at (ram s1) new ?a = 0" using S(10) [OF r(1)] first F(7) [OF n] by simp
  have lf: "leaf (pte_at (ram s1) old ?a)" using F(6) [OF n] e1 by (simp add: e_def)
  obtain p s2 where w: "walk s1 old ?a False = Inr (p, s1)" "p \<noteq> 0" "load64 s1 p = Inr e"
      "(if e AND PTE_W \<noteq> 0 then store64 s1 p (cow_mark e) else Inr s1) = Inr s2"
    and s2: "evolve s1 old s2" "free_pages s2 = free_pages s1" "frame s1 s2 (tpages (ram s1) old)"
      "tpages (ram s2) old = tpages (ram s1) old" "\<forall>q. refcnt s2 q = refcnt s1 q"
      "\<forall>x < MAXVA. pte_at (ram s2) old x = (if same_page ?a x then cow_mark e else pte_at (ram s1) old x)"
    using uvmcopy_mark [OF S(1,2) r(1) lf] unfolding e1 by blast
  have lt: "?a < sz" using sz [of n] n by simp
  have "e AND PTE_V \<noteq> 0" using lf unfolding e1 leaf_def by blast
  then have step: "uvmcopy_loop s1 old new ?a sz =
      kbind (mappages s2 new ?a PGSIZE (PTE2PA e) (PTE_FLAGS (cow_mark e))) (\<lambda>(r, s).
        if r \<noteq> 0 then kbind (uvmunmap s new 0 (?a div PGSIZE) True) (\<lambda>s. Inr (-1, s))
        else kbind (increase_refer s (PTE2PA e)) (\<lambda>s. uvmcopy_loop s old new (?a + PGSIZE) sz))"
    using lt w by (subst uvmcopy_loop.simps) simp
  have dj1: "tpages (ram s1) new \<inter> tpages (ram s1) old = {}"
    unfolding S(5,6) using F(4) tpages_not_free [OF F(2)] by (auto simp: taken_def)
  note new2 = evolve_other [OF s2(1) S(3) dj1]
  have inv2: "kmem_inv s2" using s2(1) by (simp add: evolve_def)
  have ent: "pte_at (ram s2) new ?a AND PTE_V = 0" using new2(3) n1 by simp
  have dv: "?a div PGSIZE = of_nat n"
  proof -
    have "unat (?a div PGSIZE) = n" using nth_page_unat [OF F(5) n] by (simp add: unat_div)
    then show ?thesis by (rule of_nat_unat_eq [symmetric])
  qed
  from inv2 new2(1) r ent show ?case
  proof (cases rule: mappages_page [where pa = "PTE2PA e" and perm = "PTE_FLAGS (cow_mark e)"])
    case (full s3)
    obtain s4 where s4: "uvmunmap s3 new 0 (of_nat n) True = Inr s4" and q:
      "kmem_inv s4 \<and> wf_pt s4 old \<and> wf_pt s4 new \<and> free_pages s4 \<subseteq> free_pages s \<and>
        tpages (ram s4) old = tpages (ram s) old \<and>
        tpages (ram s4) new = tpages (ram s) new \<union> taken s s4 \<and>
        frame s s4 (tpages (ram s) old \<union> tpages (ram s) new \<union> free_pages s) \<and>
        (\<forall>p. kpage s p \<and> p \<notin> taken s s4 \<longrightarrow> refcnt s4 p = refcnt s p)"
      "\<forall>va < MAXVA. pte_at (ram s4) old va = pte_at (ram s2) old va"
      "\<forall>va < MAXVA. pte_at (ram s4) new va = pte_at (ram s) new va"
      using shared_grow [OF fk Suc.prems(1) less_imp_le [OF n] s2(1-5) full(2)] by blast
    have "pte_at (ram s4) old va = (if \<exists>i < Suc n. same_page (nth_page 0 i) va
        then cow_mark (pte_at (ram s) old va) else pte_at (ram s) old va)" if va: "va < MAXVA" for va
    proof -
      have "pte_at (ram s) old va = e" if "same_page ?a va"
        using same_page_iff_PX [OF r(1) va] that by (simp add: pte_at_def pte_slot_def e_def)
      then show ?thesis using q(2) s2(6) va S(9) [OF va] unfolding less_Suc_eq by auto
    qed
    then have "unshared s s4 old new (Suc n)" using q(1,3) unfolding unshared_def by blast
    then have "\<exists>k \<le> N. unshared s s4 old new k" using n Suc_leI by blast
    then show ?thesis unfolding step using full(1) s4 dv by simp
  next
    case (ok s3)
    have "\<And>x. x < MAXVA \<Longrightarrow> pte_at (ram s3) new x =
        (if same_page ?a x then child_pte e else pte_at (ram s2) new x)"
      using ok(3) by (simp add: child_pte_def)
    then obtain s4 where s4: "increase_refer s3 (PTE2PA e) = Inr s4" "shared s s4 old new (Suc n)"
      using shared_Suc [OF fk Suc.prems(1) n e_def s2 ok(2)] by blast
    have "?a + PGSIZE = nth_page 0 (Suc n)" by (simp add: nth_page_def algebra_simps)
    moreover have "k = N - Suc n" using Suc.hyps(2) by simp
    ultimately show ?thesis
      unfolding step using ok(1) s4 Suc.hyps(1) [of "Suc n" s4] n by simp
  qed
qed

lemma npages_of_iff: "4096 * m < unat sz \<longleftrightarrow> m < npages_of sz"
proof -
  have "m < (unat sz + 4095) div 4096 \<longleftrightarrow> Suc m * 4096 \<le> unat sz + 4095"
    by (simp only: Suc_le_eq [symmetric] less_eq_div_iff_mult_less_eq)
  then show ?thesis by (auto simp: npages_of_def)
qed

lemma uvmcopy_pages:
  assumes fk: "forkable s old new (npages_of sz)" and sz: "sz \<le> MAXVA"
  shows "\<exists>r s'. uvmcopy s old new sz = Inr (r, s') \<and>
    (r = 0 \<and> shared s s' old new (npages_of sz) \<or>
     r = -1 \<and> (\<exists>k \<le> npages_of sz. unshared s s' old new k))"
proof -
  have pr: "page_range 0 (npages_of sz)" using forkableD(5) [OF fk] .
  have "nth_page 0 j < sz \<longleftrightarrow> j < npages_of sz" if "j \<le> npages_of sz" for j
    using npages_of_nth(4) [OF pr that] npages_of_iff [of j sz] by (simp add: word_less_nat_alt)
  then show ?thesis
    using uvmcopy_loop_pages [OF fk shared_0 [OF fk], of sz] by (simp add: uvmcopy_def)
qed

end
