(* ===== verification/Cowpage.thy ===== *)
theory Cowpage
  imports Cow
begin

text \<open>
  The copy-on-write fault, \<open>is_cowpage\<close> and \<open>cow_alloc\<close> of \<open>kernel/trap.c\<close>: what \<open>cow_alloc\<close> does to the
  entry, the reference counts and the page, in each of its three cases.
\<close>

section \<open>Slots under frames\<close>

lemma frame_slot:
  assumes "frame s s' W" and "wf_pt s r" and "tpages (ram s) r \<inter> W = {}"
  shows "pte_slot (ram s') r va = pte_slot (ram s) r va"
proof -
  have "\<forall>p \<in> tpages (ram s) r. page_aligned p" using wf_pt_aligned [OF assms(2)] by blast
  moreover have "\<forall>a. PGROUNDDOWN a \<in> tpages (ram s) r \<longrightarrow> ram s' a = ram s a"
    using assms(1,3) by (auto simp: frame_def)
  ultimately show ?thesis using node_frame [of "ram s" r "ram s'", OF _ _ idx_ok_path]
    by (simp add: pte_slot_def)
qed

lemma claimed_slot:
  assumes "claimed s p s'" and "wf_pt s r"
  shows "pte_slot (ram s') r va = pte_slot (ram s) r va"
  using claimed_wf_pt(4) [OF assms] claimedD(4) [OF assms(1)] by (intro frame_slot [OF _ assms(2)]) auto

text \<open>Reading, changing and writing back the entry.\<close>

lemma update64_slot:
  assumes "kend_ok s" and "wf_pt s root" and "pte_slot (ram s) root va = Some a"
  shows "update64 s a f = Inr (set_pte s a (f (pte_at (ram s) root va)))"
    and "load64 s a = Inr (pte_at (ram s) root va)"
  using slot_ram_ok(1) [OF assms] slot_page(3) [OF assms(2,3)]
  by (simp_all add: update64_def load64_def store64_def set_pte_def)

lemma set_pte_twice [simp]: "set_pte (set_pte s a v) a w = set_pte s a w"
proof -
  have "st64 (st64 (ram s) a v) a w = st64 (ram s) a w" by (auto simp: st64_def fun_eq_iff)
  then show ?thesis by (simp add: set_pte_def)
qed

lemma memmove_page:
  assumes "kend_ok s" and "kpage s p" and "kpage s q"
  shows "memmove m p q 4096 a = (if PGROUNDDOWN a = p then m (q + (a - p)) else m a)"
proof -
  have "unat p + 4096 \<le> 0x88000000" "unat q + 4096 \<le> 0x88000000"
    using kpage_ram_ok [OF assms(1,2), of 4096] kpage_ram_ok [OF assms(1,3), of 4096]
    by (simp_all add: ram_ok_def)
  then show ?thesis
    using memmove_apply [of p 4096 q m a] offset_less_PGSIZE [OF kpage_aligned [OF assms(2)]] by simp
qed

section \<open>is_cowpage and cow_alloc\<close>

text \<open>A mapped user page: what \<open>cow_alloc\<close> expects.\<close>

definition user_page :: "'a kmem_scheme \<Rightarrow> u64 \<Rightarrow> u64 \<Rightarrow> bool" where
  "user_page s root va \<longleftrightarrow>
     va < MAXVA \<and> page_aligned va \<and> pte_at (ram s) root va AND PTE_V \<noteq> 0 \<and>
     kpage s (PTE2PA (pte_at (ram s) root va)) \<and> PTE2PA (pte_at (ram s) root va) \<notin> tpages (ram s) root \<and>
     0 < refcnt s (PTE2PA (pte_at (ram s) root va))"

lemma user_page_slot:
  assumes "user_page s root va"
  obtains a where "pte_slot (ram s) root va = Some a"
  using assms by (cases "pte_slot (ram s) root va") (auto simp: user_page_def pte_at_def)

lemma is_cowpage_eq:
  assumes "kmem_inv s" and "wf_pt s root" and "user_page s root va"
  shows "is_cowpage s root va = Inr (pte_at (ram s) root va AND PTE_RSW_COW \<noteq> 0)"
proof -
  have kend: "kend_ok s" using assms(1) by (rule kmem_inv_kend_ok)
  obtain a where slot: "pte_slot (ram s) root va = Some a" using assms(3) by (rule user_page_slot)
  have "va < MAXVA" using assms(3) by (simp add: user_page_def)
  then show ?thesis
    using walk_lookup [OF kend assms(2)] slot update64_slot(2) [OF kend assms(2) slot]
    by (simp add: is_cowpage_def)
qed

text \<open>The first steps of \<open>cow_alloc\<close> and the count it reads.\<close>

lemma cow_alloc_start:
  assumes inv: "kmem_inv s" and wf: "wf_pt s root" and up: "user_page s root va"
    and e: "e = pte_at (ram s) root va"
  obtains a where "pte_slot (ram s) root va = Some a" "walk s root va False = Inr (a, s)"
    "load64 s a = Inr e" "get_refcount s (PTE2PA e) = Inr (int (refcnt s (PTE2PA e)))"
    "update64 s a (\<lambda>e. e OR PTE_W) = Inr (set_pte s a (e OR PTE_W))"
    "kmem_inv (set_pte s a (e OR PTE_W))" "wf_pt (set_pte s a (e OR PTE_W)) root"
    "pte_slot (ram (set_pte s a (e OR PTE_W))) root va = Some a"
    "pte_at (ram (set_pte s a (e OR PTE_W))) root va = e OR PTE_W"
proof -
  have kend: "kend_ok s" using inv by (rule kmem_inv_kend_ok)
  obtain a where slot: "pte_slot (ram s) root va = Some a" using up by (rule user_page_slot)
  have va: "va < MAXVA" and kp: "kpage s (PTE2PA e)" using up e by (simp_all add: user_page_def)
  have "walk s root va False = Inr (a, s)" using walk_lookup [OF kend wf va] slot by simp
  moreover have "kmem_inv (set_pte s a (e OR PTE_W))" "wf_pt (set_pte s a (e OR PTE_W)) root"
    using evolve_set_pte(1) [OF inv wf slot] by (simp_all add: evolve_def)
  moreover have "get_refcount s (PTE2PA e) = Inr (int (refcnt s (PTE2PA e)))"
    using kp unfolding get_refcount_def bad_page_iff refcnt_def by (simp only: simp_thms if_False) simp
  moreover have "pte_at (ram (set_pte s a (e OR PTE_W))) root va = e OR PTE_W"
    using pte_at_set_pte [OF wf slot va va] by (simp add: same_page_def)
  ultimately show thesis
    using that slot slot_set_pte [OF wf slot] update64_slot [OF kend wf slot] e by simp
qed

text \<open>The only user of the page: it becomes writable and loses the mark.\<close>

lemma cow_alloc_sole:
  assumes inv: "kmem_inv s" and wf: "wf_pt s root" and up: "user_page s root va"
    and e: "e = pte_at (ram s) root va" and one: "refcnt s (PTE2PA e) = 1"
  shows "\<exists>a. pte_slot (ram s) root va = Some a \<and>
    cow_alloc s root va = Inr (PTE2PA e, set_pte s a ((e OR PTE_W) AND NOT PTE_RSW_COW))"
proof -
  obtain a where a: "pte_slot (ram s) root va = Some a" "walk s root va False = Inr (a, s)"
    "load64 s a = Inr e" "get_refcount s (PTE2PA e) = Inr (int (refcnt s (PTE2PA e)))"
    "update64 s a (\<lambda>e. e OR PTE_W) = Inr (set_pte s a (e OR PTE_W))"
    and s1: "kmem_inv (set_pte s a (e OR PTE_W))" "wf_pt (set_pte s a (e OR PTE_W)) root"
    "pte_slot (ram (set_pte s a (e OR PTE_W))) root va = Some a"
    "pte_at (ram (set_pte s a (e OR PTE_W))) root va = e OR PTE_W"
    using inv wf up e by (rule cow_alloc_start)
  have "cow_alloc s root va = Inr (PTE2PA e, set_pte s a ((e OR PTE_W) AND NOT PTE_RSW_COW))"
    unfolding cow_alloc_def
    using a one update64_slot(1) [OF kmem_inv_kend_ok [OF s1(1)] s1(2,3)] s1(4) by (simp add: Let_def)
  then show ?thesis using a(1) by blast
qed

lemma PTE2PA_or_W [simp]: "PTE2PA (e OR PTE_W) = PTE2PA e"
  by (rule bit_word_eqI) (auto simp: bit_PTE2PA bit_or_iff pte_bits)

text \<open>Other users, and no free page: the call fails, with the entry already made writable.\<close>

lemma cow_alloc_full:
  assumes inv: "kmem_inv s" and wf: "wf_pt s root" and up: "user_page s root va"
    and e: "e = pte_at (ram s) root va" and many: "refcnt s (PTE2PA e) \<noteq> 1"
    and full: "free_pages s = {}"
  shows "\<exists>a. pte_slot (ram s) root va = Some a \<and>
    cow_alloc s root va = Inr (0, set_pte s a (e OR PTE_W))"
proof -
  obtain a where a: "pte_slot (ram s) root va = Some a" "walk s root va False = Inr (a, s)"
    "load64 s a = Inr e" "get_refcount s (PTE2PA e) = Inr (int (refcnt s (PTE2PA e)))"
    "update64 s a (\<lambda>e. e OR PTE_W) = Inr (set_pte s a (e OR PTE_W))"
    and s1: "kmem_inv (set_pte s a (e OR PTE_W))" "wf_pt (set_pte s a (e OR PTE_W)) root"
    "pte_slot (ram (set_pte s a (e OR PTE_W))) root va = Some a"
    "pte_at (ram (set_pte s a (e OR PTE_W))) root va = e OR PTE_W"
    using inv wf up e by (rule cow_alloc_start)
  have "kalloc (set_pte s a (e OR PTE_W)) = Inr (0, set_pte s a (e OR PTE_W))"
    using kalloc_none [OF s1(1)] full by simp
  then have "cow_alloc s root va = Inr (0, set_pte s a (e OR PTE_W))"
    unfolding cow_alloc_def
    using a many update64_slot(2) [OF kmem_inv_kend_ok [OF s1(1)] s1(2,3)] s1(4) by (simp add: Let_def)
  then show ?thesis using a(1) by blast
qed

text \<open>
  \<open>copied s s' root va p\<close>: \<open>va\<close> has moved to its own copy \<open>p\<close> of the page it shared.
\<close>

definition copied :: "'a kmem_scheme \<Rightarrow> 'a kmem_scheme \<Rightarrow> u64 \<Rightarrow> u64 \<Rightarrow> u64 \<Rightarrow> bool" where
  "copied s s' root va p \<longleftrightarrow>
     (let e = pte_at (ram s) root va; pa = PTE2PA e in
      kmem_inv s' \<and> wf_pt s' root \<and> p \<in> free_pages s \<and> free_pages s' = free_pages s - {p} \<and>
      tpages (ram s') root = tpages (ram s) root \<and> p \<notin> tpages (ram s) root \<and>
      frame s s' (insert p (tpages (ram s) root)) \<and>
      (\<forall>x. PGROUNDDOWN x = p \<longrightarrow> ram s' x = ram s (pa + (x - p))) \<and>
      (\<forall>q. kpage s q \<longrightarrow> refcnt s' q = (if q = p then 1 else if q = pa then refcnt s pa - 1 else refcnt s q)) \<and>
      (\<forall>x < MAXVA. pte_at (ram s') root x =
         (if same_page va x then PA2PTE p OR PTE_FLAGS (e OR PTE_W) OR PTE_V else pte_at (ram s) root x)))"

lemma cow_alloc_copy:
  assumes inv: "kmem_inv s" and wf: "wf_pt s root" and up: "user_page s root va"
    and e: "e = pte_at (ram s) root va" and many: "refcnt s (PTE2PA e) \<noteq> 1"
    and ne: "free_pages s \<noteq> {}"
  shows "\<exists>p s'. cow_alloc s root va = Inr (p, s') \<and> p \<noteq> 0 \<and> copied s s' root va p"
proof -
  obtain a where a: "pte_slot (ram s) root va = Some a" "walk s root va False = Inr (a, s)"
    "load64 s a = Inr e" "get_refcount s (PTE2PA e) = Inr (int (refcnt s (PTE2PA e)))"
    "update64 s a (\<lambda>e. e OR PTE_W) = Inr (set_pte s a (e OR PTE_W))"
    and s1': "kmem_inv (set_pte s a (e OR PTE_W))" "wf_pt (set_pte s a (e OR PTE_W)) root"
    "pte_slot (ram (set_pte s a (e OR PTE_W))) root va = Some a"
    "pte_at (ram (set_pte s a (e OR PTE_W))) root va = e OR PTE_W"
    using inv wf up e by (rule cow_alloc_start)
  define s1 where "s1 = set_pte s a (e OR PTE_W)"
  note s1 = s1' [folded s1_def]
  let ?pa = "PTE2PA e"
  have U: "va < MAXVA" "page_aligned va" "kpage s ?pa" "?pa \<notin> tpages (ram s) root" "0 < refcnt s ?pa"
    using up e by (simp_all add: user_page_def)
  have ev1: "tpages (ram s1) root = tpages (ram s) root" "frame s s1 (tpages (ram s) root)"
    using evolve_set_pte(2,3) [OF inv wf a(1)] by (simp_all add: s1_def)
  have f1: "free_pages s1 = free_pages s" "\<And>q. refcnt s1 q = refcnt s q" "\<And>q. kpage s1 q = kpage s q"
    by (simp_all add: s1_def)
  obtain p s2 where p: "kalloc s1 = Inr (p, s2)" "p \<noteq> 0" "claimed s1 p s2"
    using kalloc_claimed [OF s1(1)] ne f1(1) by metis
  note C2 = claimedD [OF p(3)]
  have pp: "p \<noteq> ?pa" "kpage s p" using C2(2) U(5) f1 by (auto simp: free_pages_def)
  have kend2: "kend_ok s2" using C2(1) by (rule kmem_inv_kend_ok)
  have kp2: "kpage s2 p" "kpage s2 ?pa" using C2(7) pp U(3) f1(3) by simp_all
  let ?m = "memmove (ram s2) p ?pa 4096"
  define s3 where "s3 = s2\<lparr>ram := ?m\<rparr>"
  have mv: "kmemmove s2 p ?pa 4096 = Inr s3"
    using kpage_ram_ok [OF kend2 kp2(1)] kpage_ram_ok [OF kend2 kp2(2)] by (simp add: kmemmove_def s3_def)
  have m: "?m x = (if PGROUNDDOWN x = p then ram s2 (?pa + (x - p)) else ram s2 x)" for x
    using memmove_page [OF kend2 kp2] .
  have cl3: "claimed s1 p s3"
    unfolding s3_def by (rule claimed_write [OF p(3)]) (simp add: frame_def m)
  note C3 = claimedD [OF cl3] and W3 = claimed_wf_pt [OF cl3 s1(2)]
  have slot3: "pte_slot (ram s3) root va = Some a" using claimed_slot [OF cl3 s1(2)] s1(3) by simp
  have at3: "pte_at (ram s3) root va = e OR PTE_W" using W3(3) s1(4) by simp
  define s4 where "s4 = set_pte s3 a ((e OR PTE_W) AND NOT PTE_V)"
  have s4: "kmem_inv s4" "wf_pt s4 root"
    using evolve_set_pte(1) [OF C3(1) W3(1) slot3] by (simp_all add: s4_def evolve_def)
  have slot4: "pte_slot (ram s4) root va = Some a" using slot_set_pte [OF W3(1) slot3] slot3 by (simp add: s4_def)
  have at4: "pte_at (ram s4) root va AND PTE_V = 0"
    using pte_at_set_pte [OF W3(1) slot3 U(1) U(1)] by (simp add: s4_def same_page_def pte_bits bit_and_iff)
  define v where "v = PA2PTE p OR PTE_FLAGS (e OR PTE_W) OR PTE_V"
  define s5 where "s5 = set_pte s3 a v"
  have mp: "mappages s4 root va PGSIZE p (PTE_FLAGS (e OR PTE_W)) = Inr (0, s5)"
    using mappages_present [OF s4 U(1,2) slot4 at4] by (simp add: s4_def s5_def v_def)
  note ev5 = evolve_set_pte [OF C3(1) W3(1) slot3, of v, folded s5_def]
  have s5: "kmem_inv s5" "wf_pt s5 root" using ev5(1) by (simp_all add: evolve_def)
  have f5: "free_pages s5 = free_pages s - {p}" "\<And>q. kpage s5 q = kpage s q"
    "\<And>q. kpage s q \<Longrightarrow> refcnt s5 q = (if q = p then 1 else refcnt s q)"
    using C3(3,5,7) f1 by (simp_all add: s5_def)
  have kf: "kpage s5 ?pa" "0 < refcnt s5 ?pa" using f5(2,3) U(3,5) pp(1) by simp_all
  obtain s6 where s6: "kfree s5 ?pa = Inr s6" "kmem_inv s6"
    "frame s5 s6 (if refcnt s5 ?pa = 1 then {?pa} else {})"
    "\<And>q. kpage s5 q \<Longrightarrow> refcnt s6 q = (if q = ?pa then refcnt s5 ?pa - 1 else refcnt s5 q)"
    using kfree_frame [OF s5(1) kf] by blast
  have f56: "frame s5 s6 {}" using s6(3) many f5(3) [OF U(3)] pp(1) by simp
  have run: "cow_alloc s root va = Inr (p, s6)"
  proof -
    have u4: "update64 s3 a (\<lambda>e. e AND NOT PTE_V) = Inr s4"
      using update64_slot(1) [OF kmem_inv_kend_ok [OF C3(1)] W3(1) slot3] at3 by (simp add: s4_def)
    have l1: "load64 s1 a = Inr (e OR PTE_W)"
      using update64_slot(2) [OF kmem_inv_kend_ok [OF s1(1)] s1(2,3)] s1(4) by simp
    show ?thesis
      unfolding cow_alloc_def
      using a(2-5) [folded s1_def] many l1 p(1,2) mv u4 mp s6(1) by (simp add: Let_def)
  qed
  have T5: "tpages (ram s5) root = tpages (ram s) root" using ev5(2) W3(2) ev1(1) by simp
  have "\<forall>q \<in> tpages (ram s5) root. refcnt s6 q = refcnt s5 q"
    using s6(4) wf_pt_kpage [OF s5(2)] U(4) T5 by auto
  note o6 = frame_other [OF f56 s5(2) _ this, simplified]
  have fr: "frame s s6 (insert p (tpages (ram s) root))"
  proof -
    have "frame s s6 ((((tpages (ram s) root) \<union> {p}) \<union> tpages (ram s3) root) \<union> {})"
      by (rule frame_trans [OF frame_trans [OF frame_trans [OF ev1(2) C3(4)] ev5(3)] f56])
    then show ?thesis using W3(2) ev1(1) by (elim frame_mono) auto
  qed
  have cnt: "refcnt s6 q = (if q = p then 1 else if q = ?pa then refcnt s ?pa - 1 else refcnt s q)"
    if "kpage s q" for q
    using s6(4) f5(2,3) that U(3) pp(1) by auto
  have "free_pages s6 = free_pages s - {p}"
    using cnt frame_kpage [OF fr] many U(3,5) by (auto simp: free_pages_def split: if_splits)
  moreover have "ram s6 x = ram s (?pa + (x - p))" if x: "PGROUNDDOWN x = p" for x
  proof -
    have al: "page_aligned p" "page_aligned ?pa" using pp(2) U(3) kpage_aligned by auto
    have pT: "p \<notin> tpages (ram s) root" using W3(4) ev1(1) by simp
    have "ram s6 x = ram s3 x" using f56 ev5(3) W3(2) ev1(1) pT x by (simp add: frame_def)
    also have "\<dots> = ram s2 (?pa + (x - p))" using m x by (simp add: s3_def)
    also have "PGROUNDDOWN (?pa + (x - p)) = ?pa"
      using offset_less_PGSIZE [OF al(1), of x] x al(2)
      by (intro PGROUNDDOWN_add) (simp_all add: word_less_nat_alt)
    then have "ram s2 (?pa + (x - p)) = ram s (?pa + (x - p))"
      using C2(4) ev1(2) U(4) pp(1) by (simp add: frame_def)
    finally show ?thesis .
  qed
  moreover have "pte_at (ram s6) root x = (if same_page va x then v else pte_at (ram s) root x)"
    if "x < MAXVA" for x
  proof -
    have "pte_at (ram s1) root x = (if same_page va x then e OR PTE_W else pte_at (ram s) root x)"
      using pte_at_set_pte [OF wf a(1) U(1) that] by (simp add: s1_def)
    then show ?thesis
      using o6(3) pte_at_set_pte [OF W3(1) slot3 U(1) that, of v] W3(3) by (simp add: s5_def)
  qed
  ultimately have "copied s s6 root va p"
    unfolding copied_def Let_def e [symmetric] v_def [symmetric]
    using s6(2) o6(1,2) T5 C2(2) f1(1) W3(4) ev1(1) fr cnt by auto
  then show ?thesis using run p(2) by blast
qed

end
