(* ===== verification/Uspace.thy ===== *)
theory Uspace
  imports Cowpage
begin

text \<open>
  User memory as the processes see it. \<open>ubyte s r va\<close> is the byte at \<open>va\<close> of the address space with root
  table \<open>r\<close>; \<open>spaces s R\<close> is the invariant of the address spaces \<open>R\<close> of all processes: separate tables,
  and every page counted at least once for every user entry that maps it.
\<close>

section \<open>The view of a process\<close>

definition user_pte :: "u64 \<Rightarrow> bool" where
  "user_pte e \<longleftrightarrow> e AND PTE_V \<noteq> 0 \<and> e AND PTE_U \<noteq> 0"

definition ubyte :: "'a kmem_scheme \<Rightarrow> u64 \<Rightarrow> u64 \<Rightarrow> u8 option" where
  "ubyte s r va =
     (let e = pte_at (ram s) r va in
      if va < MAXVA \<and> user_pte e then Some (ram s (PTE2PA e + (va - PGROUNDDOWN va))) else None)"

text \<open>The user entries that map the page \<open>p\<close>.\<close>

definition mappers :: "'a kmem_scheme \<Rightarrow> u64 set \<Rightarrow> u64 \<Rightarrow> (u64 \<times> u64) set" where
  "mappers s R p = {(r, va). r \<in> R \<and> va < MAXVA \<and> page_aligned va \<and>
     user_pte (pte_at (ram s) r va) \<and> PTE2PA (pte_at (ram s) r va) = p}"

definition spaces :: "'a kmem_scheme \<Rightarrow> u64 set \<Rightarrow> bool" where
  "spaces s R \<longleftrightarrow> kmem_inv s \<and> (\<forall>r \<in> R. wf_pt s r) \<and>
     (\<forall>r \<in> R. \<forall>r' \<in> R. r \<noteq> r' \<longrightarrow> tpages (ram s) r \<inter> tpages (ram s) r' = {}) \<and>
     (\<forall>p. mappers s R p \<noteq> {} \<longrightarrow> kpage s p \<and> (\<forall>r \<in> R. p \<notin> tpages (ram s) r)) \<and>
     (\<forall>p. card (mappers s R p) \<le> refcnt s p)"

lemma spacesD:
  assumes "spaces s R"
  shows "kmem_inv s" "\<And>r. r \<in> R \<Longrightarrow> wf_pt s r"
    "\<And>r r'. r \<in> R \<Longrightarrow> r' \<in> R \<Longrightarrow> r \<noteq> r' \<Longrightarrow> tpages (ram s) r \<inter> tpages (ram s) r' = {}"
    "\<And>p x. x \<in> mappers s R p \<Longrightarrow> kpage s p"
    "\<And>p x r. x \<in> mappers s R p \<Longrightarrow> r \<in> R \<Longrightarrow> p \<notin> tpages (ram s) r"
    "\<And>p. card (mappers s R p) \<le> refcnt s p"
    "\<And>p x. x \<in> mappers s R p \<Longrightarrow> 0 < refcnt s p"
proof -
  show c: "card (mappers s R p) \<le> refcnt s p" for p using assms by (simp add: spaces_def)
  show "0 < refcnt s p" if "x \<in> mappers s R p" for p x
  proof -
    have "0 < card (mappers s R p)" using that by (auto simp: card_gt_0_iff)
    then show ?thesis using c [of p] by simp
  qed
qed (use assms in \<open>auto simp: spaces_def\<close>)

lemma pte_at_page: "va < MAXVA \<Longrightarrow> pte_at m r (PGROUNDDOWN va) = pte_at m r va"
  using same_page_iff_PX [of "PGROUNDDOWN va" va] PGROUNDDOWN_less_MAXVA [of va]
  by (simp add: same_page_def pte_at_def pte_slot_def)

text \<open>Every byte a process sees is in a page that its entry maps.\<close>

lemma ubyte_mapper:
  assumes "r \<in> R" and "va < MAXVA" and "user_pte (pte_at (ram s) r va)"
  shows "(r, PGROUNDDOWN va) \<in> mappers s R (PTE2PA (pte_at (ram s) r va))"
  using assms pte_at_page [OF assms(2), of "ram s" r] PGROUNDDOWN_less_MAXVA [of va]
  by (simp add: mappers_def)

lemma mapper_user_page:
  assumes "spaces s R" and "(r, va) \<in> mappers s R p"
  shows "user_page s r va" "p = PTE2PA (pte_at (ram s) r va)" "r \<in> R"
  using spacesD(4,7) [OF assms] spacesD(5) [OF assms, of r] assms(2)
  by (auto simp: mappers_def user_page_def user_pte_def)

text \<open>A page that is counted once is mapped once.\<close>

lemma sole_mapper:
  assumes "spaces s R" and "x \<in> mappers s R p" and "y \<in> mappers s R p" and "refcnt s p = 1"
  shows "x = y"
proof -
  have "card (mappers s R p) \<le> 1" using spacesD(6) [OF assms(1), of p] assms(4) by simp
  then show ?thesis using assms(2,3) card_le_Suc0_iff_eq [of "mappers s R p"] by auto
qed

section \<open>Writing to a page that one process has to itself\<close>

lemma spaces_same_ptes:
  assumes sp: "spaces s R" and inv: "kmem_inv s'" and k: "kend s' = kend s"
    and wf: "\<And>r. r \<in> R \<Longrightarrow> wf_pt s' r" and t: "\<And>r. r \<in> R \<Longrightarrow> tpages (ram s') r = tpages (ram s) r"
    and m: "\<And>p. mappers s' R p = mappers s R p" and c: "\<And>p. mappers s R p \<noteq> {} \<Longrightarrow> refcnt s' p = refcnt s p"
  shows "spaces s' R"
proof -
  have "card (mappers s' R p) \<le> refcnt s' p" for p
    using spacesD(6) [OF sp, of p] c [of p] m [of p] by (cases "mappers s R p = {}") auto
  then show ?thesis
    using inv wf t m spacesD [OF sp] kpage_cong [OF k] unfolding spaces_def by auto
qed

lemma spaces_write:
  assumes sp: "spaces s R" and x: "(r, va) \<in> mappers s R p" and f: "frame s (s\<lparr>ram := m\<rparr>) {p}"
  shows "spaces (s\<lparr>ram := m\<rparr>) R" and "\<And>r x. r \<in> R \<Longrightarrow> pte_at m r x = pte_at (ram s) r x"
proof -
  let ?s = "s\<lparr>ram := m\<rparr>"
  have nf: "p \<notin> free_pages s" using spacesD(7) [OF sp x] by (simp add: free_pages_def)
  have o: "wf_pt ?s r" "tpages m r = tpages (ram s) r" "\<And>x. pte_at m r x = pte_at (ram s) r x"
    if "r \<in> R" for r
    using frame_other [OF f spacesD(2) [OF sp that]] spacesD(5) [OF sp x that] by auto
  show "\<And>r x. r \<in> R \<Longrightarrow> pte_at m r x = pte_at (ram s) r x" using o(3) .
  have "kmem_inv ?s"
    using f nf by (intro kmem_inv_ram_frame [OF spacesD(1) [OF sp]]) (auto simp: frame_def)
  moreover have "mappers ?s R q = mappers s R q" for q using o(3) by (auto simp: mappers_def)
  ultimately show "spaces ?s R" using o by (intro spaces_same_ptes [OF sp]) auto
qed

section \<open>Faults on copy-on-write pages\<close>

lemma ubyte_cong:
  assumes "user_pte (pte_at (ram s') r va) = user_pte (pte_at (ram s) r va)"
    and "va < MAXVA \<Longrightarrow> user_pte (pte_at (ram s) r va) \<Longrightarrow>
      ram s' (PTE2PA (pte_at (ram s') r va) + (va - PGROUNDDOWN va)) =
      ram s (PTE2PA (pte_at (ram s) r va) + (va - PGROUNDDOWN va))"
  shows "ubyte s' r va = ubyte s r va"
  using assms by (simp add: ubyte_def Let_def)

lemma page_offset: "page_aligned p \<Longrightarrow> PGROUNDDOWN (p + (va - PGROUNDDOWN va)) = p"
  using mod_PGSIZE_less [of va] PGROUNDDOWN_offset [of va] by (intro PGROUNDDOWN_add) simp_all

text \<open>Changing the permissions in an entry.\<close>

lemma spaces_set_flags:
  assumes sp: "spaces s R" and x: "(r, va) \<in> mappers s R p" and slot: "pte_slot (ram s) r va = Some a"
    and v: "user_pte v" "PTE2PA v = p"
  shows "spaces (set_pte s a v) R"
    and "\<And>r' y. r' \<in> R \<Longrightarrow> ubyte (set_pte s a v) r' y = ubyte s r' y"
    and "(r, va) \<in> mappers (set_pte s a v) R p"
    and "\<And>r' y. r' \<in> R \<Longrightarrow> y < MAXVA \<Longrightarrow> page_aligned y \<Longrightarrow> pte_at (ram (set_pte s a v)) r' y =
      (if r' = r \<and> y = va then v else pte_at (ram s) r' y)"
proof -
  let ?s = "set_pte s a v"
  have r: "r \<in> R" and va: "va < MAXVA" "page_aligned va"
    and e: "user_pte (pte_at (ram s) r va)" "PTE2PA (pte_at (ram s) r va) = p"
    using x by (simp_all add: mappers_def)
  note wf = spacesD(2) [OF sp]
  note E = evolve_set_pte [OF spacesD(1) [OF sp] wf [OF r] slot, of v]
  have o: "wf_pt ?s r'" "tpages (ram ?s) r' = tpages (ram s) r'"
    "\<And>y. pte_at (ram ?s) r' y = pte_at (ram s) r' y" if "r' \<in> R" "r' \<noteq> r" for r'
    using evolve_other [OF E(1) wf [OF that(1)] spacesD(3) [OF sp that(1) r that(2)]] by auto
  have pr: "pte_at (ram ?s) r y = (if same_page va y then v else pte_at (ram s) r y)" if "y < MAXVA" for y
    using pte_at_set_pte [OF wf [OF r] slot va(1) that] .
  show pte: "pte_at (ram ?s) r' y = (if r' = r \<and> y = va then v else pte_at (ram s) r' y)"
    if "r' \<in> R" "y < MAXVA" "page_aligned y" for r' y
    using o(3) [OF that(1)] pr [OF that(2)] that(3) va(2)
    by (cases "r' = r") (auto simp: same_page_aligned)
  have eq: "user_pte (pte_at (ram ?s) r' y) = user_pte (pte_at (ram s) r' y) \<and>
      PTE2PA (pte_at (ram ?s) r' y) = PTE2PA (pte_at (ram s) r' y)" if "r' \<in> R" "y < MAXVA" for r' y
  proof (cases "r' = r \<and> same_page va y")
    case True
    then have "pte_at (ram s) r' y = pte_at (ram s) r va"
      using same_page_iff_PX [OF va(1) that(2)] by (simp add: pte_at_def pte_slot_def)
    then show ?thesis using True pr [OF that(2)] v e by simp
  next
    case False
    then show ?thesis using o(3) [OF that(1)] pr [OF that(2)] by (cases "r' = r") auto
  qed
  have wft: "wf_pt ?s r'" "tpages (ram ?s) r' = tpages (ram s) r'" if "r' \<in> R" for r'
    using that o E by (cases "r' = r"; simp add: evolve_def)+
  have m: "mappers ?s R q = mappers s R q" for q using eq by (auto simp: mappers_def)
  then show "(r, va) \<in> mappers ?s R p" using x by simp
  show "spaces ?s R"
    using E(1) wft m by (intro spaces_same_ptes [OF sp]) (simp_all add: evolve_def)
  show "ubyte ?s r' y = ubyte s r' y" if r': "r' \<in> R" for r' y
  proof (cases "y < MAXVA \<and> user_pte (pte_at (ram s) r' y)")
    case True
    let ?q = "PTE2PA (pte_at (ram s) r' y)"
    have q: "(r', PGROUNDDOWN y) \<in> mappers s R ?q" using ubyte_mapper r' True by blast
    have "PGROUNDDOWN (?q + (y - PGROUNDDOWN y)) \<notin> tpages (ram s) r"
      using page_offset [of ?q y] spacesD(5) [OF sp q r] by simp
    then have "ram ?s (?q + (y - PGROUNDDOWN y)) = ram s (?q + (y - PGROUNDDOWN y))"
      using E(3) by (simp add: frame_def)
    then show ?thesis using eq [OF r'] True by (intro ubyte_cong) auto
  next
    case False
    then show ?thesis using eq [OF r'] by (auto simp: ubyte_def Let_def)
  qed
qed

lemma user_pte_copy:
  assumes "user_pte e" and "kpage s p"
  shows "user_pte (PA2PTE p OR PTE_FLAGS (e OR PTE_W) OR PTE_V)"
    and "PTE2PA (PA2PTE p OR PTE_FLAGS (e OR PTE_W) OR PTE_V) = p"
proof -
  show "user_pte (PA2PTE p OR PTE_FLAGS (e OR PTE_W) OR PTE_V)"
    using assms(1) by (simp add: user_pte_def pte_bits bit_or_iff bit_PTE_FLAGS)
  have "flags_only (PTE_FLAGS (e OR PTE_W) OR PTE_V)" by (rule flags_only_or) simp_all
  then show "PTE2PA (PA2PTE p OR PTE_FLAGS (e OR PTE_W) OR PTE_V) = p"
    unfolding or.assoc by (rule kpage_PTE2PA [OF assms(2)])
qed

lemma copiedD:
  assumes "copied s s' root va p" and "e = pte_at (ram s) root va"
  shows "kmem_inv s'" "wf_pt s' root" "p \<in> free_pages s" "free_pages s' = free_pages s - {p}"
    "tpages (ram s') root = tpages (ram s) root" "p \<notin> tpages (ram s) root"
    "frame s s' (insert p (tpages (ram s) root))"
    "\<And>x. PGROUNDDOWN x = p \<Longrightarrow> ram s' x = ram s (PTE2PA e + (x - p))"
    "\<And>q. kpage s q \<Longrightarrow> refcnt s' q =
       (if q = p then 1 else if q = PTE2PA e then refcnt s (PTE2PA e) - 1 else refcnt s q)"
    "\<And>x. x < MAXVA \<Longrightarrow> pte_at (ram s') root x =
       (if same_page va x then PA2PTE p OR PTE_FLAGS (e OR PTE_W) OR PTE_V else pte_at (ram s) root x)"
    "kpage s p" "refcnt s p = 0"
  using assms(1) unfolding copied_def Let_def assms(2) [symmetric] by (simp_all add: free_pages_def)

lemma spaces_copied:
  assumes sp: "spaces s R" and x: "(r, va) \<in> mappers s R pa" and c: "copied s s' r va p"
    and many: "refcnt s pa \<noteq> 1"
  shows "spaces s' R"
    and "\<And>r' y. r' \<in> R \<Longrightarrow> ubyte s' r' y = ubyte s r' y"
    and "(r, va) \<in> mappers s' R p"
    and "\<And>r' y. r' \<in> R \<Longrightarrow> y < MAXVA \<Longrightarrow> page_aligned y \<Longrightarrow> r' \<noteq> r \<or> y \<noteq> va \<Longrightarrow>
      pte_at (ram s') r' y = pte_at (ram s) r' y"
proof -
  have r: "r \<in> R" and va: "va < MAXVA" "page_aligned va"
    and e: "user_pte (pte_at (ram s) r va)" "PTE2PA (pte_at (ram s) r va) = pa"
    using x by (simp_all add: mappers_def)
  define e0 where "e0 = pte_at (ram s) r va"
  note C = copiedD [OF c e0_def]
  have pa: "PTE2PA e0 = pa" "user_pte e0" using e by (simp_all add: e0_def)
  note wf = spacesD(2) [OF sp]
  define v where "v = PA2PTE p OR PTE_FLAGS (e0 OR PTE_W) OR PTE_V"
  have v: "user_pte v" "PTE2PA v = p" using user_pte_copy [OF pa(2) C(11)] by (simp_all add: v_def)
  have pT: "p \<notin> tpages (ram s) r'" if "r' \<in> R" for r'
    using tpages_not_free [OF wf [OF that]] C(3) by blast
  have paT: "pa \<notin> tpages (ram s) r'" if "r' \<in> R" for r' using spacesD(5) [OF sp x that] .
  have cntT: "\<forall>q \<in> tpages (ram s) r'. refcnt s' q = refcnt s q" if "r' \<in> R" for r'
    using C(9) wf_pt_kpage [OF wf [OF that]] pT [OF that] paT [OF that] pa(1) by auto
  have o: "wf_pt s' r'" "tpages (ram s') r' = tpages (ram s) r'"
    "\<And>y. pte_at (ram s') r' y = pte_at (ram s) r' y" if "r' \<in> R" "r' \<noteq> r" for r'
    using frame_other [OF C(7) wf [OF that(1)] _ cntT [OF that(1)]] pT [OF that(1)]
      spacesD(3) [OF sp that(1) r that(2)] by auto
  have wft: "wf_pt s' r'" "tpages (ram s') r' = tpages (ram s) r'" if "r' \<in> R" for r'
    using that o C(2,5) by (cases "r' = r"; simp)+
  have pte: "pte_at (ram s') r' y = (if r' = r \<and> same_page va y then v else pte_at (ram s) r' y)"
    if "r' \<in> R" "y < MAXVA" for r' y
    using o(3) [OF that(1)] C(10) [OF that(2)] by (cases "r' = r") (simp_all add: v_def)
  show others: "pte_at (ram s') r' y = pte_at (ram s) r' y"
    if "r' \<in> R" "y < MAXVA" "page_aligned y" "r' \<noteq> r \<or> y \<noteq> va" for r' y
    using pte [OF that(1,2)] that(3,4) va(2) by (auto simp: same_page_aligned)
  have nop: "mappers s R p = {}" using spacesD(7) [OF sp, of _ p] C(12) by auto
  have ppa: "p \<noteq> pa" using nop x by auto
  have at: "pte_at (ram s') r va = v" using pte [OF r va(1)] by (simp add: same_page_def)
  show xm: "(r, va) \<in> mappers s' R p" using r va at v by (simp add: mappers_def)
  have iff: "(r', y) \<in> mappers s' R q \<longleftrightarrow> (if (r', y) = (r, va) then q = p else (r', y) \<in> mappers s R q)" for r' y q
    using at v r va others [of r' y] by (auto simp: mappers_def)
  have m: "mappers s' R q = (if q = p then {(r, va)} else mappers s R q - {(r, va)})" for q
    using iff nop by (auto split: if_splits)
  have k: "kpage s' q = kpage s q" for q using C(7) by (rule frame_kpage)
  show "spaces s' R"
    unfolding spaces_def
  proof (intro conjI ballI allI impI)
    show "kmem_inv s'" by (rule C(1))
    show "\<And>r'. r' \<in> R \<Longrightarrow> wf_pt s' r'" by (rule wft(1))
    show "tpages (ram s') r1 \<inter> tpages (ram s') r2 = {}" if "r1 \<in> R" "r2 \<in> R" "r1 \<noteq> r2" for r1 r2
      using spacesD(3) [OF sp that] wft(2) that by simp
    show "kpage s' q" if "mappers s' R q \<noteq> {}" for q
      using that m [of q] k C(11) spacesD(4) [OF sp] by (auto split: if_splits)
    show "q \<notin> tpages (ram s') r'" if "mappers s' R q \<noteq> {}" "r' \<in> R" for q r'
      using that m [of q] wft(2) pT spacesD(5) [OF sp] by (auto split: if_splits)
    show "card (mappers s' R q) \<le> refcnt s' q" for q
    proof (cases "q = p \<or> mappers s' R q = {}")
      case True
      then show ?thesis using m [of p] C(9) [OF C(11)] by auto
    next
      case False
      then have q: "mappers s' R q = mappers s R q - {(r, va)}" "q \<noteq> p" "kpage s q"
        using m [of q] spacesD(4) [OF sp] by auto
      show ?thesis
      proof (cases "q = pa")
        case True
        then show ?thesis using q C(9) [OF q(3)] pa(1) spacesD(6) [OF sp, of pa] x
          by (simp add: card_Diff_singleton)
      next
        case False
        then have "(r, va) \<notin> mappers s R q" using x by (auto simp: mappers_def)
        then show ?thesis using False q C(9) [OF q(3)] pa(1) spacesD(6) [OF sp, of q] by simp
      qed
    qed
  qed
  show "ubyte s' r' y = ubyte s r' y" if r': "r' \<in> R" for r' y
  proof (cases "y < MAXVA")
    case y: True
    show ?thesis
    proof (cases "r' = r \<and> same_page va y")
      case True
      let ?o = "y - PGROUNDDOWN y"
      have eq: "pte_at (ram s) r' y = e0"
        using same_page_iff_PX [OF va(1) y] True by (simp add: pte_at_def pte_slot_def e0_def)
      have "PGROUNDDOWN (p + ?o) = p" using page_offset [OF kpage_aligned [OF C(11)]] .
      then have "ram s' (p + ?o) = ram s (pa + ?o)" using C(8) [of "p + ?o"] pa(1) by simp
      then show ?thesis using eq pte [OF r' y] True pa v by (intro ubyte_cong) simp_all
    next
      case False
      then have same: "pte_at (ram s') r' y = pte_at (ram s) r' y" using pte [OF r' y] by auto
      show ?thesis
      proof (rule ubyte_cong)
        assume "user_pte (pte_at (ram s) r' y)"
        then have q: "(r', PGROUNDDOWN y) \<in> mappers s R (PTE2PA (pte_at (ram s) r' y))"
          using ubyte_mapper r' y by blast
        let ?q = "PTE2PA (pte_at (ram s) r' y)"
        have "PGROUNDDOWN (?q + (y - PGROUNDDOWN y)) \<notin> insert p (tpages (ram s) r)"
          using page_offset [of ?q y] spacesD(5) [OF sp q r] nop q by auto
        then show "ram s' (PTE2PA (pte_at (ram s') r' y) + (y - PGROUNDDOWN y)) =
            ram s (?q + (y - PGROUNDDOWN y))"
          using C(7) same by (simp add: frame_def)
      qed (simp add: same)
    qed
  next
    case False
    then show ?thesis by (simp add: ubyte_def)
  qed
qed

text \<open>
  \<open>cow_ready\<close>: the user pages at these places carry the copy-on-write mark if they are shared, which is what
  \<open>copyout\<close> goes by. \<open>exclusive\<close>: a page that some process may write has no other reference, which is what
  keeps the stores of user programs apart.
\<close>

definition cow_ready :: "'a kmem_scheme \<Rightarrow> (u64 \<times> u64) set \<Rightarrow> bool" where
  "cow_ready s X \<longleftrightarrow> (\<forall>(r, va) \<in> X. va < MAXVA \<and> page_aligned va \<and> user_pte (pte_at (ram s) r va) \<longrightarrow>
     pte_at (ram s) r va AND PTE_RSW_COW \<noteq> 0 \<or> refcnt s (PTE2PA (pte_at (ram s) r va)) = 1)"

definition exclusive :: "'a kmem_scheme \<Rightarrow> u64 set \<Rightarrow> bool" where
  "exclusive s R \<longleftrightarrow> (\<forall>r \<in> R. \<forall>va < MAXVA. page_aligned va \<and> user_pte (pte_at (ram s) r va) \<longrightarrow>
     pte_at (ram s) r va AND PTE_W \<noteq> 0 \<longrightarrow> refcnt s (PTE2PA (pte_at (ram s) r va)) = 1)"

lemma user_pte_flags:
  assumes "user_pte e"
  shows "user_pte (e OR PTE_W)" "user_pte ((e OR PTE_W) AND NOT PTE_RSW_COW)"
    "PTE2PA ((e OR PTE_W) AND NOT PTE_RSW_COW) = PTE2PA e"
proof -
  show "user_pte (e OR PTE_W)" "user_pte ((e OR PTE_W) AND NOT PTE_RSW_COW)"
    using assms by (simp_all add: user_pte_def pte_bits bit_or_iff bit_and_iff)
  show "PTE2PA ((e OR PTE_W) AND NOT PTE_RSW_COW) = PTE2PA e"
    by (rule bit_word_eqI) (auto simp: bit_PTE2PA bit_or_iff bit_and_iff pte_bits)
qed

lemma cow_ready_step:
  assumes c: "cow_ready s X" and X: "X \<subseteq> R \<times> UNIV"
    and same: "\<And>r' y. r' \<in> R \<Longrightarrow> y < MAXVA \<Longrightarrow> page_aligned y \<Longrightarrow> (r', y) \<noteq> (r, va) \<Longrightarrow>
      pte_at (ram s') r' y = pte_at (ram s) r' y"
    and keep: "\<And>z q. z \<in> mappers s R q \<Longrightarrow> z \<noteq> (r, va) \<Longrightarrow> refcnt s q = 1 \<Longrightarrow> refcnt s' q = 1"
    and own: "(r, va) \<in> X \<Longrightarrow> pte_at (ram s') r va AND PTE_RSW_COW \<noteq> 0 \<or>
      refcnt s' (PTE2PA (pte_at (ram s') r va)) = 1"
  shows "cow_ready s' X"
  unfolding cow_ready_def
proof (clarify)
  fix r' y assume y: "(r', y) \<in> X" "y < MAXVA" "page_aligned y" "user_pte (pte_at (ram s') r' y)"
    "refcnt s' (PTE2PA (pte_at (ram s') r' y)) \<noteq> 1" and z: "pte_at (ram s') r' y AND PTE_RSW_COW = 0"
  show False
  proof (cases "(r', y) = (r, va)")
    case True
    then show ?thesis using own y z by auto
  next
    case False
    have r': "r' \<in> R" using X y(1) by auto
    have e: "pte_at (ram s') r' y = pte_at (ram s) r' y" using same [OF r' y(2,3) False] .
    have "(r', y) \<in> mappers s R (PTE2PA (pte_at (ram s) r' y))" using r' y e by (simp add: mappers_def)
    from keep [OF this False] show ?thesis using c y z unfolding e cow_ready_def by auto
  qed
qed

lemma exclusive_step:
  assumes c: "exclusive s R"
    and same: "\<And>r' y. r' \<in> R \<Longrightarrow> y < MAXVA \<Longrightarrow> page_aligned y \<Longrightarrow> (r', y) \<noteq> (r, va) \<Longrightarrow>
      pte_at (ram s') r' y = pte_at (ram s) r' y"
    and keep: "\<And>z q. z \<in> mappers s R q \<Longrightarrow> z \<noteq> (r, va) \<Longrightarrow> refcnt s q = 1 \<Longrightarrow> refcnt s' q = 1"
    and own: "refcnt s' (PTE2PA (pte_at (ram s') r va)) = 1"
  shows "exclusive s' R"
  unfolding exclusive_def
proof (intro ballI allI impI)
  fix r' y assume y: "r' \<in> R" "y < MAXVA" "page_aligned y \<and> user_pte (pte_at (ram s') r' y)"
    "pte_at (ram s') r' y AND PTE_W \<noteq> 0"
  show "refcnt s' (PTE2PA (pte_at (ram s') r' y)) = 1"
  proof (cases "(r', y) = (r, va)")
    case True
    then show ?thesis using own by simp
  next
    case False
    have e: "pte_at (ram s') r' y = pte_at (ram s) r' y" using same [OF y(1,2)] y(3) False by blast
    have "(r', y) \<in> mappers s R (PTE2PA (pte_at (ram s) r' y))" using y e by (simp add: mappers_def)
    from keep [OF this False] show ?thesis using c y unfolding e exclusive_def by auto
  qed
qed

text \<open>
  Whatever \<open>cow_alloc\<close> does, no process sees a byte of its memory change; and when it returns a page, that page
  is the caller's alone.
\<close>

lemma cow_alloc_spaces:
  assumes sp: "spaces s R" and x: "(r, va) \<in> mappers s R pa"
  shows "\<exists>p s'. cow_alloc s r va = Inr (p, s') \<and> spaces s' R \<and> (\<forall>r' \<in> R. \<forall>y. ubyte s' r' y = ubyte s r' y) \<and>
    (\<forall>X \<subseteq> R \<times> UNIV. cow_ready s X \<longrightarrow> cow_ready s' X) \<and>
    (p = 0 \<and> free_pages s' = {} \<and> refcnt s pa \<noteq> 1 \<or>
     p \<noteq> 0 \<and> (exclusive s R \<longrightarrow> exclusive s' R) \<and>
       (r, va) \<in> mappers s' R p \<and> refcnt s' p = 1 \<and> pte_at (ram s') r va AND PTE_W \<noteq> 0)"
proof -
  note M = mapper_user_page [OF sp x]
  define e where "e = pte_at (ram s) r va"
  have pa: "PTE2PA e = pa" "user_pte e" and va: "va < MAXVA" "page_aligned va"
    using x by (simp_all add: e_def mappers_def)
  have inv: "kmem_inv s" and wf: "wf_pt s r" using spacesD(1) [OF sp] spacesD(2) [OF sp M(3)] .
  have kp: "kpage s pa" using spacesD(4) [OF sp x] .
  consider (sole) "refcnt s pa = 1" | (full) "refcnt s pa \<noteq> 1" "free_pages s = {}"
    | (copy) "refcnt s pa \<noteq> 1" "free_pages s \<noteq> {}" by blast
  then show ?thesis
  proof cases
    case sole
    let ?v = "(e OR PTE_W) AND NOT PTE_RSW_COW"
    obtain a where a: "pte_slot (ram s) r va = Some a" "cow_alloc s r va = Inr (pa, set_pte s a ?v)"
      using cow_alloc_sole [OF inv wf M(1) e_def] sole pa(1) by auto
    have v: "PTE2PA ?v = pa" "user_pte ?v" using user_pte_flags [OF pa(2)] pa(1) by simp_all
    note F = spaces_set_flags [OF sp x a(1) v(2,1)]
    have at: "pte_at (ram (set_pte s a ?v)) r va = ?v" using F(4) [OF M(3) va] by simp
    have same: "pte_at (ram (set_pte s a ?v)) r' y = pte_at (ram s) r' y"
      if "r' \<in> R" "y < MAXVA" "page_aligned y" "(r', y) \<noteq> (r, va)" for r' y using F(4) that by auto
    have own: "refcnt (set_pte s a ?v) (PTE2PA (pte_at (ram (set_pte s a ?v)) r va)) = 1"
      unfolding at v(1) using sole by simp
    have "cow_ready (set_pte s a ?v) X" if "X \<subseteq> R \<times> UNIV" "cow_ready s X" for X
      by (rule cow_ready_step [OF that(2,1) same _ disjI2 [OF own]]) simp_all
    moreover have "exclusive s R \<longrightarrow> exclusive (set_pte s a ?v) R"
      by (intro impI, erule exclusive_step [OF _ same _ own]) auto
    moreover have "?v AND PTE_W \<noteq> 0" by (simp add: pte_bits bit_or_iff bit_and_iff)
    ultimately show ?thesis
      using a(2) F(1,2,3) sole at kpage_nonzero [OF kmem_inv_kend_ok [OF inv] kp]
      by (intro exI [of _ pa] exI [of _ "set_pte s a ?v"]) simp
  next
    case full
    let ?v = "e OR PTE_W"
    obtain a where a: "pte_slot (ram s) r va = Some a" "cow_alloc s r va = Inr (0, set_pte s a ?v)"
      using cow_alloc_full [OF inv wf M(1) e_def] full pa(1) by auto
    have v: "user_pte ?v" "PTE2PA ?v = pa" using user_pte_flags(1) [OF pa(2)] pa(1) by simp_all
    note F = spaces_set_flags [OF sp x a(1) v]
    have "cow_ready (set_pte s a ?v) X" if X: "X \<subseteq> R \<times> UNIV" and c: "cow_ready s X" for X
    proof (rule cow_ready_step [OF c X])
      assume "(r, va) \<in> X"
      then have "e AND PTE_RSW_COW \<noteq> 0" using c va pa full(1) by (auto simp: cow_ready_def e_def)
      then have "?v AND PTE_RSW_COW \<noteq> 0" by (simp add: pte_bits bit_or_iff)
      then show "pte_at (ram (set_pte s a ?v)) r va AND PTE_RSW_COW \<noteq> 0 \<or>
          refcnt (set_pte s a ?v) (PTE2PA (pte_at (ram (set_pte s a ?v)) r va)) = 1"
        using F(4) [OF M(3) va] by simp
    qed (use F(4) in auto)
    then show ?thesis
      using a(2) F(1,2) full by (intro exI [of _ 0] exI [of _ "set_pte s a ?v"]) simp
  next
    case copy
    obtain p s' where p: "cow_alloc s r va = Inr (p, s')" "p \<noteq> 0" "copied s s' r va p"
      using cow_alloc_copy [OF inv wf M(1) e_def] copy pa(1) by auto
    note F = spaces_copied [OF sp x p(3) copy(1)] and C = copiedD [OF p(3) e_def]
    have one: "refcnt s' p = 1" using C(9) [OF C(11)] by simp
    have at: "pte_at (ram s') r va = PA2PTE p OR PTE_FLAGS (e OR PTE_W) OR PTE_V"
      using C(10) [OF va(1)] by (simp add: same_page_def)
    have own: "refcnt s' (PTE2PA (pte_at (ram s') r va)) = 1"
      using at one user_pte_copy(2) [OF pa(2) C(11)] by simp
    have same: "pte_at (ram s') r' y = pte_at (ram s) r' y"
      if "r' \<in> R" "y < MAXVA" "page_aligned y" "(r', y) \<noteq> (r, va)" for r' y using F(4) that by blast
    have keep: "refcnt s' q = 1" if q: "z \<in> mappers s R q" and "refcnt s q = 1" for z q
    proof -
      obtain r' y where z: "z = (r', y)" by fastforce
      show ?thesis
        using C(9) [OF spacesD(4) [OF sp q [unfolded z]]] spacesD(7) [OF sp q [unfolded z]] C(12) copy(1) pa(1) that(2)
        by auto
    qed
    have "cow_ready s' X" if "X \<subseteq> R \<times> UNIV" "cow_ready s X" for X
      by (rule cow_ready_step [OF that(2,1) same keep disjI2 [OF own]])
    moreover have "exclusive s R \<longrightarrow> exclusive s' R"
      by (intro impI, erule exclusive_step [OF _ same keep own])
    moreover have "pte_at (ram s') r va AND PTE_W \<noteq> 0"
      unfolding at by (simp add: pte_bits bit_or_iff bit_PTE_FLAGS)
    ultimately show ?thesis using p(1,2) F(1,2,3) one by blast
  qed
qed

end
