(* ===== verification/Uaccess.thy ===== *)
theory Uaccess
  imports Uspace
begin

text \<open>
  Copying between kernel and user memory: \<open>walkaddr\<close>, \<open>copyout\<close>, \<open>copyin\<close> and \<open>copyinstr\<close> of \<open>kernel/vm.c\<close>
  in terms of what the process sees.
\<close>

section \<open>walkaddr\<close>

lemma walkaddr_eq:
  assumes "kend_ok s" and "wf_pt s r"
  shows "walkaddr s r va =
    Inr (if va < MAXVA \<and> user_pte (pte_at (ram s) r va) then PTE2PA (pte_at (ram s) r va) else 0)"
proof (cases "va < MAXVA")
  case True
  show ?thesis
  proof (cases "pte_slot (ram s) r va")
    case None
    then have "pte_at (ram s) r va = 0" by (simp add: pte_at_def)
    then show ?thesis using True None walk_lookup [OF assms True]
      by (auto simp: walkaddr_def user_pte_def)
  next
    case (Some a)
    have "load64 s a = Inr (pte_at (ram s) r va)" "a \<noteq> 0"
      using update64_slot(2) [OF assms Some] slot_ram_ok(2) [OF assms Some] by auto
    then show ?thesis using True Some walk_lookup [OF assms True]
      by (auto simp: walkaddr_def user_pte_def)
  qed
next
  case False
  then show ?thesis by (auto simp: walkaddr_def)
qed

text \<open>Addresses within a page.\<close>

lemma page_part:
  fixes a :: u64
  assumes "n \<le> 4096 - unat (a - PGROUNDDOWN a)" and "i < n"
  shows "PGROUNDDOWN (a + of_nat i) = PGROUNDDOWN a"
    and "a + of_nat i - PGROUNDDOWN a = (a - PGROUNDDOWN a) + of_nat i"
proof -
  let ?o = "a - PGROUNDDOWN a"
  have "unat ?o + i < 4096" using assms by simp
  then have "unat (?o + of_nat i) = unat ?o + i" by (simp add: unat_word_ariths unat_of_nat)
  then have "?o + of_nat i < 4096" using \<open>unat ?o + i < 4096\<close> by (simp add: word_less_nat_alt)
  then have "PGROUNDDOWN (PGROUNDDOWN a + (?o + of_nat i)) = PGROUNDDOWN a"
    by (intro PGROUNDDOWN_add) simp_all
  then show "PGROUNDDOWN (a + of_nat i) = PGROUNDDOWN a" by (simp add: algebra_simps)
  show "a + of_nat i - PGROUNDDOWN a = ?o + of_nat i" by (simp add: algebra_simps)
qed

lemma page_rest_le: "unat (PGSIZE - (a - PGROUNDDOWN a)) = 4096 - unat (a - PGROUNDDOWN a)"
  using page_rest [of a] by (simp add: PGROUNDDOWN_offset unat_mod)

lemma page_offset_less: "unat (a - PGROUNDDOWN a) < 4096"
  using mod_PGSIZE_less [of a] by (simp add: PGROUNDDOWN_offset word_less_nat_alt)

lemma pte_at_part:
  fixes a :: u64
  assumes "n \<le> 4096 - unat (a - PGROUNDDOWN a)" and "i < n"
  shows "pte_at m r (a + of_nat i) = pte_at m r (PGROUNDDOWN a) \<or> \<not> a + of_nat i < MAXVA"
    and "a + of_nat i < MAXVA \<longleftrightarrow> PGROUNDDOWN a < MAXVA"
  using page_part(1) [OF assms] pte_at_page [of "a + of_nat i" m r] PGROUNDDOWN_less_MAXVA [of "a + of_nat i"]
  by auto

text \<open>The bytes of one page that a process sees.\<close>

lemma ubyte_part:
  fixes a :: u64
  assumes "n \<le> 4096 - unat (a - PGROUNDDOWN a)" and "i < n"
  shows "ubyte s r (a + of_nat i) =
    (if PGROUNDDOWN a < MAXVA \<and> user_pte (pte_at (ram s) r (PGROUNDDOWN a))
     then Some (ram s (PTE2PA (pte_at (ram s) r (PGROUNDDOWN a)) + (a - PGROUNDDOWN a) + of_nat i))
     else None)"
  using page_part [OF assms] pte_at_part(1) [OF assms, of "ram s" r] pte_at_part(2) [OF assms]
  by (auto simp: ubyte_def Let_def algebra_simps)

section \<open>copyin\<close>

lemma kget_bytes_page:
  assumes "kend_ok s" and "kpage s p" and "unat off + n \<le> 4096"
  shows "kget_bytes s (p + off) n = Inr (map (\<lambda>i. ram s (p + off + of_nat i)) [0..<n])"
proof -
  have "ram_ok p 4096" using kpage_ram_ok [OF assms(1,2)] by simp
  then have b: "0x80000000 \<le> unat p" "unat p + 4096 \<le> 0x88000000"
    by (simp_all add: ram_ok_def word_le_nat_alt)
  then have "unat (p + off) = unat p + unat off" using assms(3) by (simp add: unat_plus_if')
  then have "ram_ok (p + off) n" using b assms(3) by (simp add: ram_ok_def word_le_nat_alt)
  then show ?thesis by (simp add: kget_bytes_def)
qed

lemma next_page_add:
  fixes a :: u64
  shows "PGROUNDDOWN a + PGSIZE = a + of_nat (4096 - unat (a - PGROUNDDOWN a))"
proof -
  have "of_nat (4096 - unat (a - PGROUNDDOWN a)) = PGSIZE - (a - PGROUNDDOWN a)"
    using page_rest_le [of a] by (metis of_nat_unat_eq)
  then show ?thesis by simp
qed

lemma copyin_loop_bytes:
  assumes sp: "spaces s R" and r: "r \<in> R"
  shows "(\<forall>i < len. ubyte s r (srcva + of_nat i) \<noteq> None) \<Longrightarrow>
      copyin_loop s dst r srcva len =
        Inr (0, dst @ map (\<lambda>i. the (ubyte s r (srcva + of_nat i))) [0..<len])"
    and "(\<exists>i < len. ubyte s r (srcva + of_nat i) = None) \<Longrightarrow>
      \<exists>d. copyin_loop s dst r srcva len = Inr (-1, d)"
proof -
  have "(if \<forall>i < len. ubyte s r (srcva + of_nat i) \<noteq> None
     then copyin_loop s dst r srcva len =
        Inr (0, dst @ map (\<lambda>i. the (ubyte s r (srcva + of_nat i))) [0..<len])
     else \<exists>d. copyin_loop s dst r srcva len = Inr (-1, d))"
  proof (induction len arbitrary: dst srcva rule: less_induct)
    case (less len)
    have kend: "kend_ok s" and wf: "wf_pt s r"
      using kmem_inv_kend_ok [OF spacesD(1) [OF sp]] spacesD(2) [OF sp r] .
    let ?va0 = "PGROUNDDOWN srcva" and ?o = "srcva - PGROUNDDOWN srcva"
    let ?e = "pte_at (ram s) r ?va0"
    define n where "n = min (4096 - unat ?o) len"
    have n: "n \<le> 4096 - unat ?o" "n \<le> len" by (simp_all add: n_def)
    show ?case
    proof (cases "len = 0")
      case True
      then show ?thesis by (simp add: copyin_loop.simps [of s dst])
    next
      case pos: False
      then have n0: "0 < n" using page_offset_less [of srcva] by (simp add: n_def)
      note first = ubyte_part [OF n(1), of _ s r]
      show ?thesis
      proof (cases "?va0 < MAXVA \<and> user_pte ?e")
        case False
        then have "ubyte s r (srcva + of_nat 0) = None" using first [OF n0] by simp
        moreover have "copyin_loop s dst r srcva len = Inr (-1, dst)"
          using pos False walkaddr_eq [OF kend wf, of ?va0] by (auto simp: copyin_loop.simps [of s dst])
        ultimately show ?thesis using pos by auto
      next
        case True
        have x: "(r, ?va0) \<in> mappers s R (PTE2PA ?e)" using True r by (simp add: mappers_def)
        have kp: "kpage s (PTE2PA ?e)" using spacesD(4) [OF sp x] .
        define bs where "bs = map (\<lambda>i. ram s (PTE2PA ?e + ?o + of_nat i)) [0..<n]"
        have g: "kget_bytes s (PTE2PA ?e + ?o) n = Inr bs"
          unfolding bs_def using n(1) page_offset_less [of srcva] by (intro kget_bytes_page [OF kend kp]) simp
        have bs: "bs = map (\<lambda>i. the (ubyte s r (srcva + of_nat i))) [0..<n]"
          using first True by (simp add: bs_def)
        have step: "copyin_loop s dst r srcva len = copyin_loop s (dst @ bs) r (?va0 + PGSIZE) (len - n)"
          using pos True walkaddr_eq [OF kend wf, of ?va0] g kpage_nonzero [OF kend kp]
          by (simp add: copyin_loop.simps [of s dst] page_rest_le Let_def flip: n_def)
        have shift: "?va0 + PGSIZE + of_nat i = srcva + of_nat (n + i)" if "i < len - n" for i
          using that next_page_add [of srcva] by (auto simp: n_def min_def split: if_splits)
        define g where "g = (\<lambda>i. ubyte s r (srcva + of_nat i))"
        have gs: "ubyte s r (?va0 + PGSIZE + of_nat i) = g (n + i)" if "i < len - n" for i
          unfolding shift [OF that] g_def ..
        have "g i \<noteq> None" if "i < n" for i using first [OF that] True by (simp add: g_def)
        then have "(\<forall>i < len. g i \<noteq> None) \<longleftrightarrow> (\<forall>i < len - n. g (n + i) \<noteq> None)"
          by (metis add_diff_inverse_nat diff_less_mono less_diff_conv2 not_less add.commute n(2) less_diff_conv)
        then have all: "(\<forall>i < len. ubyte s r (srcva + of_nat i) \<noteq> None) \<longleftrightarrow>
            (\<forall>i < len - n. ubyte s r (?va0 + PGSIZE + of_nat i) \<noteq> None)"
          using gs by (simp add: g_def)
        have "[0..<len] = [0..<n] @ map (\<lambda>i. n + i) [0..<len - n]"
          using n(2) upt_add_eq_append [of 0 n "len - n"] by (simp add: map_add_upt add.commute)
        then have "map (\<lambda>i. the (g i)) [0..<len] = map (\<lambda>i. the (g i)) [0..<n] @ map (\<lambda>i. the (g (n + i))) [0..<len - n]"
          by simp
        then have "map (\<lambda>i. the (ubyte s r (srcva + of_nat i))) [0..<len] =
            bs @ map (\<lambda>i. the (ubyte s r (?va0 + PGSIZE + of_nat i))) [0..<len - n]"
          using gs by (simp add: bs g_def)
        then show ?thesis
          unfolding step all using less.IH [of "len - n" "?va0 + PGSIZE" "dst @ bs"] n0 pos by simp
      qed
    qed
  qed
  then show "(\<forall>i < len. ubyte s r (srcva + of_nat i) \<noteq> None) \<Longrightarrow>
      copyin_loop s dst r srcva len =
        Inr (0, dst @ map (\<lambda>i. the (ubyte s r (srcva + of_nat i))) [0..<len])"
    and "(\<exists>i < len. ubyte s r (srcva + of_nat i) = None) \<Longrightarrow>
      \<exists>d. copyin_loop s dst r srcva len = Inr (-1, d)"
    by (auto split: if_splits)
qed

section \<open>copyout\<close>

text \<open>One page of \<open>copyout\<close>: making sure that the process has the page to itself.\<close>

lemma copyout_own_page:
  assumes sp: "spaces s R" and X: "X \<subseteq> R \<times> UNIV" and cr: "cow_ready s X"
    and x: "(r, va) \<in> mappers s R pa" and xX: "(r, va) \<in> X"
  obtains cow p s1 where "is_cowpage s r va = Inr cow"
    "(if cow then cow_alloc s r va else Inr (pa, s)) = Inr (p, s1)"
    "spaces s1 R" "cow_ready s1 X" "\<forall>r' \<in> R. \<forall>y. ubyte s1 r' y = ubyte s r' y"
    "p = 0 \<and> free_pages s1 = {} \<or> p \<noteq> 0 \<and> (exclusive s R \<longrightarrow> exclusive s1 R) \<and>
      (r, va) \<in> mappers s1 R p \<and> refcnt s1 p = 1"
proof -
  note M = mapper_user_page [OF sp x]
  have inv: "kmem_inv s" and wf: "wf_pt s r" using spacesD(1) [OF sp] spacesD(2) [OF sp M(3)] .
  let ?cow = "pte_at (ram s) r va AND PTE_RSW_COW \<noteq> 0"
  have c: "is_cowpage s r va = Inr ?cow" using is_cowpage_eq [OF inv wf M(1)] .
  show thesis
  proof (cases ?cow)
    case True
    then show thesis using cow_alloc_spaces [OF sp x] cr X that [OF c] by auto
  next
    case False
    have "refcnt s pa = 1" using cr x xX False M(2,3) by (auto simp: cow_ready_def mappers_def)
    moreover have "pa \<noteq> 0" using kpage_nonzero [OF kmem_inv_kend_ok [OF inv] spacesD(4) [OF sp x]] .
    ultimately show thesis using that [OF c, of pa s] sp cr x False by auto
  qed
qed

text \<open>And writing to it: nobody else sees the write.\<close>

lemma put_bytes_page:
  assumes "kend_ok s" and "kpage s p" and "unat off + length bs \<le> 4096"
  shows "kput_bytes s (p + off) bs = Inr (s\<lparr>ram := put_bytes (ram s) (p + off) bs\<rparr>)"
    and "frame s (s\<lparr>ram := put_bytes (ram s) (p + off) bs\<rparr>) {p}"
    and "\<And>o'. o' < PGSIZE \<Longrightarrow> put_bytes (ram s) (p + off) bs (p + o') =
      (if unat (o' - off) < length bs then bs ! unat (o' - off) else ram s (p + o'))"
proof -
  have "ram_ok p 4096" using kpage_ram_ok [OF assms(1,2)] by simp
  then have b: "0x80000000 \<le> unat p" "unat p + 4096 \<le> 0x88000000"
    by (simp_all add: ram_ok_def word_le_nat_alt)
  then have "unat (p + off) = unat p + unat off" using assms(3) by (simp add: unat_plus_if')
  then have "ram_ok (p + off) (length bs)" using b assms(3) by (simp add: ram_ok_def word_le_nat_alt)
  then show "kput_bytes s (p + off) bs = Inr (s\<lparr>ram := put_bytes (ram s) (p + off) bs\<rparr>)"
    by (simp add: kput_bytes_def)
  have al: "page_aligned p" using kpage_aligned [OF assms(2)] .
  show "frame s (s\<lparr>ram := put_bytes (ram s) (p + off) bs\<rparr>) {p}"
  proof -
    have "PGROUNDDOWN a = p" if "unat (a - (p + off)) < length bs" for a
    proof -
      define d where "d = a - (p + off)"
      have d: "unat d < length bs" using that by (simp add: d_def)
      then have "unat (off + d) = unat off + unat d" using assms(3) by (simp add: unat_plus_if')
      then have "off + d < PGSIZE" using d assms(3) by (simp add: word_less_nat_alt)
      then have "PGROUNDDOWN (p + (off + d)) = p" using al by (intro PGROUNDDOWN_add)
      then show ?thesis by (simp add: d_def)
    qed
    then show ?thesis by (auto simp: frame_def put_bytes_def)
  qed
  show "put_bytes (ram s) (p + off) bs (p + o') =
      (if unat (o' - off) < length bs then bs ! unat (o' - off) else ram s (p + o'))" if "o' < PGSIZE" for o'
    by (simp add: put_bytes_def)
qed

lemma copyout_write:
  assumes sp: "spaces s R" and x: "(r, va) \<in> mappers s R p" and one: "refcnt s p = 1"
    and off: "unat off + length bs \<le> 4096"
  defines "m \<equiv> put_bytes (ram s) (p + off) bs"
  shows "kput_bytes s (p + off) bs = Inr (s\<lparr>ram := m\<rparr>)" and "spaces (s\<lparr>ram := m\<rparr>) R"
    and "\<And>X. X \<subseteq> R \<times> UNIV \<Longrightarrow> cow_ready s X \<Longrightarrow> cow_ready (s\<lparr>ram := m\<rparr>) X"
    and "exclusive s R \<Longrightarrow> exclusive (s\<lparr>ram := m\<rparr>) R"
    and "\<And>r' y. r' \<in> R \<Longrightarrow> r' \<noteq> r \<Longrightarrow> ubyte (s\<lparr>ram := m\<rparr>) r' y = ubyte s r' y"
    and "\<And>y. \<not> unat (y - (va + off)) < length bs \<Longrightarrow> ubyte (s\<lparr>ram := m\<rparr>) r y = ubyte s r y"
    and "\<And>i. i < length bs \<Longrightarrow> ubyte (s\<lparr>ram := m\<rparr>) r (va + off + of_nat i) = Some (bs ! i)"
proof -
  have kend: "kend_ok s" using kmem_inv_kend_ok [OF spacesD(1) [OF sp]] .
  have kp: "kpage s p" using spacesD(4) [OF sp x] .
  note P = put_bytes_page [OF kend kp off, folded m_def]
  note W = spaces_write [OF sp x P(2)]
  show "kput_bytes s (p + off) bs = Inr (s\<lparr>ram := m\<rparr>)" by (rule P(1))
  show "spaces (s\<lparr>ram := m\<rparr>) R" by (rule W(1))
  show "cow_ready (s\<lparr>ram := m\<rparr>) X" if "X \<subseteq> R \<times> UNIV" "cow_ready s X" for X
  proof -
    have "pte_at m r' y = pte_at (ram s) r' y" if "(r', y) \<in> X" for r' y
      using W(2) [of r' y] that \<open>X \<subseteq> R \<times> UNIV\<close> by auto
    then show ?thesis using that(2) by (simp add: cow_ready_def split_beta)
  qed
  show "exclusive (s\<lparr>ram := m\<rparr>) R" if "exclusive s R" using that W(2) by (simp add: exclusive_def)
  have va: "va < MAXVA" "page_aligned va" and r: "r \<in> R"
    and e: "user_pte (pte_at (ram s) r va)" "PTE2PA (pte_at (ram s) r va) = p"
    using x by (simp_all add: mappers_def)
  have other: "ubyte (s\<lparr>ram := m\<rparr>) r' y = ubyte s r' y" if "r' \<in> R" "r' \<noteq> r \<or> PGROUNDDOWN y \<noteq> va" for r' y
  proof (rule ubyte_cong)
    show "user_pte (pte_at (ram (s\<lparr>ram := m\<rparr>)) r' y) = user_pte (pte_at (ram s) r' y)"
      using W(2) [OF that(1)] by simp
    assume y: "y < MAXVA" "user_pte (pte_at (ram s) r' y)"
    let ?q = "PTE2PA (pte_at (ram s) r' y)"
    have q: "(r', PGROUNDDOWN y) \<in> mappers s R ?q" using ubyte_mapper that(1) y by blast
    have "?q \<noteq> p" using sole_mapper [OF sp x _ one, of "(r', PGROUNDDOWN y)"] q that(2) by auto
    then have "PGROUNDDOWN (?q + (y - PGROUNDDOWN y)) \<noteq> p" using page_offset [of ?q y] by simp
    then show "ram (s\<lparr>ram := m\<rparr>) (PTE2PA (pte_at (ram (s\<lparr>ram := m\<rparr>)) r' y) + (y - PGROUNDDOWN y)) =
        ram s (?q + (y - PGROUNDDOWN y))"
      using P(2) W(2) [OF that(1)] by (simp add: frame_def)
  qed
  show "ubyte (s\<lparr>ram := m\<rparr>) r' y = ubyte s r' y" if "r' \<in> R" "r' \<noteq> r" for r' y using other that by blast
  have mine: "ubyte (s\<lparr>ram := m\<rparr>) r y =
      Some (if unat (y - (va + off)) < length bs then bs ! unat (y - (va + off)) else ram s (p + (y - va)))"
    if "PGROUNDDOWN y = va" for y
  proof -
    have y: "y < MAXVA" using that va(1) PGROUNDDOWN_less_MAXVA [of y] by simp
    have "pte_at (ram s) r y = pte_at (ram s) r va" using pte_at_page [OF y, of "ram s" r] that by simp
    moreover have "y - va < PGSIZE" using mod_PGSIZE_less [of y] PGROUNDDOWN_offset [of y] that by simp
    ultimately show ?thesis
      using y e W(2) [OF r] P(3) [of "y - va"] that by (simp add: ubyte_def Let_def diff_diff_eq)
  qed
  show "ubyte (s\<lparr>ram := m\<rparr>) r y = ubyte s r y" if "\<not> unat (y - (va + off)) < length bs" for y
  proof (cases "PGROUNDDOWN y = va")
    case True
    have y: "y < MAXVA" using True va(1) PGROUNDDOWN_less_MAXVA [of y] by simp
    have "pte_at (ram s) r y = pte_at (ram s) r va" using pte_at_page [OF y, of "ram s" r] True by simp
    then show ?thesis using mine [OF True] that y e True by (simp add: ubyte_def Let_def)
  next
    case False
    then show ?thesis using other [OF r] by blast
  qed
  show "ubyte (s\<lparr>ram := m\<rparr>) r (va + off + of_nat i) = Some (bs ! i)" if "i < length bs" for i
  proof -
    have u: "unat (off + of_nat i) = unat off + i" "unat (of_nat i :: u64) = i"
      using that off by (simp_all add: unat_word_ariths unat_of_nat)
    then have "off + of_nat i < PGSIZE" using that off by (simp add: word_less_nat_alt)
    then have "PGROUNDDOWN (va + (off + of_nat i)) = va" using va(2) by (intro PGROUNDDOWN_add)
    then have "PGROUNDDOWN (va + off + of_nat i) = va" by (simp add: add.assoc)
    from mine [OF this] show ?thesis using that u(2) by simp
  qed
qed

lemma in_rest:
  fixes y d :: u64
  assumes "n \<le> l" and "l \<le> 2 ^ 63" and "unat (y - (d + of_nat n)) < l - n"
  shows "unat (y - d) < l"
proof -
  define z where "z = y - (d + of_nat n)"
  have z: "unat z < l - n" using assms(3) by (simp add: z_def)
  have "unat (of_nat n :: u64) = n" using assms(1,2) by (simp add: unat_of_nat)
  then have "unat (z + of_nat n) = unat z + n" using z assms(1,2) by (simp add: unat_plus_if')
  moreover have "y - d = z + of_nat n" by (simp add: z_def)
  ultimately show ?thesis using z assms(1) by simp
qed

lemma not_in_rest:
  fixes d :: u64
  assumes "i < n" and "n \<le> 4096" and "l \<le> 2 ^ 63"
  shows "\<not> unat (d + of_nat i - (d + of_nat n)) < l - n"
proof
  define z where "z = d + of_nat i - (d + of_nat n)"
  assume "unat (d + of_nat i - (d + of_nat n)) < l - n"
  then have z: "unat z < l - n" by (simp add: z_def)
  have u: "unat (of_nat n :: u64) = n" "unat (of_nat i :: u64) = i"
    using assms by (simp_all add: unat_of_nat)
  then have "unat (z + of_nat n) = unat z + n" using z assms by (simp add: unat_plus_if')
  moreover have "z + of_nat n = of_nat i" by (simp add: z_def)
  ultimately show False using u(2) assms(1) by simp
qed

text \<open>
  \<open>copyout\<close> writes \<open>src\<close> into the memory of process \<open>r\<close>, and no other process sees anything change. It
  fails only if part of the range is not mapped or the free pages have run out; a part of the range may
  have been written then.
\<close>

lemma copyout_bytes:
  assumes "X \<subseteq> R \<times> UNIV" and "spaces s R" and "cow_ready s X" and "r \<in> R" and "length src \<le> 2 ^ 63"
    and "\<And>i. i < length src \<Longrightarrow> (r, PGROUNDDOWN (dstva + of_nat i)) \<in> X"
  shows "\<exists>c s'. copyout s r dstva src = Inr (c, s') \<and> spaces s' R \<and> cow_ready s' X \<and>
    (\<forall>r' \<in> R. r' \<noteq> r \<longrightarrow> (\<forall>y. ubyte s' r' y = ubyte s r' y)) \<and>
    (\<forall>y. \<not> unat (y - dstva) < length src \<longrightarrow> ubyte s' r y = ubyte s r y) \<and>
    (c = 0 \<and> (exclusive s R \<longrightarrow> exclusive s' R) \<and>
       (\<forall>i < length src. ubyte s' r (dstva + of_nat i) = Some (src ! i)) \<or>
     c = -1 \<and> (free_pages s' = {} \<or> (\<exists>i < length src. ubyte s' r (dstva + of_nat i) = None)))"
  using assms(2-)
proof (induction "length src" arbitrary: s dstva src rule: less_induct)
  case less
  note sp = less.prems(1) and cr = less.prems(2) and r = less.prems(3)
  note X = assms(1)
  have kend: "kend_ok s" and wf: "wf_pt s r"
    using kmem_inv_kend_ok [OF spacesD(1) [OF sp]] spacesD(2) [OF sp r] .
  let ?va0 = "PGROUNDDOWN dstva" and ?o = "dstva - PGROUNDDOWN dstva"
  let ?e = "pte_at (ram s) r ?va0"
  define n where "n = min (4096 - unat ?o) (length src)"
  have n: "n \<le> 4096 - unat ?o" "n \<le> length src" by (simp_all add: n_def)
  show ?case
  proof (cases "src = []")
    case True
    then show ?thesis using sp cr by (simp add: copyout.simps [of s])
  next
    case pos: False
    then have n0: "0 < n" using page_offset_less [of dstva] by (simp add: n_def)
    show ?thesis
    proof (cases "?va0 < MAXVA \<and> user_pte ?e")
      case False
      then have "ubyte s r (dstva + of_nat 0) = None" using ubyte_part [OF n(1) n0, of s r] by auto
      moreover have "copyout s r dstva src = Inr (-1, s)"
        using pos False walkaddr_eq [OF kend wf, of ?va0] by (auto simp: copyout.simps [of s])
      ultimately show ?thesis using pos sp cr by fastforce
    next
      case True
      have x: "(r, ?va0) \<in> mappers s R (PTE2PA ?e)" using True r by (simp add: mappers_def)
      have x0: "(r, ?va0) \<in> X" using less.prems(5) [of 0] pos by simp
      have pa0: "PTE2PA ?e \<noteq> 0" using kpage_nonzero [OF kend spacesD(4) [OF sp x]] .
      obtain cow p s1 where c: "is_cowpage s r ?va0 = Inr cow"
        "(if cow then cow_alloc s r ?va0 else Inr (PTE2PA ?e, s)) = Inr (p, s1)"
        and s1: "spaces s1 R" "cow_ready s1 X" "\<forall>r' \<in> R. \<forall>y. ubyte s1 r' y = ubyte s r' y"
        "p = 0 \<and> free_pages s1 = {} \<or> p \<noteq> 0 \<and> (exclusive s R \<longrightarrow> exclusive s1 R) \<and>
          (r, ?va0) \<in> mappers s1 R p \<and> refcnt s1 p = 1"
        by (rule copyout_own_page [OF sp X cr x x0]) (rule that)
      have step: "copyout s r dstva src =
          (if p = 0 then Inr (-1, s1)
           else kbind (kput_bytes s1 (p + ?o) (take n src)) (\<lambda>s.
             copyout s r (?va0 + PGSIZE) (drop n src)))"
        using pos True walkaddr_eq [OF kend wf, of ?va0] c pa0
        by (simp add: copyout.simps [of s] page_rest_le Let_def flip: n_def)
      show ?thesis
      proof (cases "p = 0")
        case True
        then show ?thesis unfolding step using s1 r by auto
      next
        case p: False
        have x1: "(r, ?va0) \<in> mappers s1 R p" "refcnt s1 p = 1" and ex: "exclusive s R \<longrightarrow> exclusive s1 R"
          using s1(4) p by auto
        have off: "unat ?o + length (take n src) \<le> 4096" using n page_offset_less [of dstva] by simp
        define s2 where "s2 = s1\<lparr>ram := put_bytes (ram s1) (p + ?o) (take n src)\<rparr>"
        note W = copyout_write [OF s1(1) x1 off, folded s2_def]
        have len: "length (drop n src) < length src" using n0 pos by simp
        have tl: "length (take n src) = n" and dl: "length (drop n src) = length src - n"
          and n4: "n \<le> 4096" using n by simp_all
        have nx: "?va0 + PGSIZE = dstva + of_nat n" if "n < length src"
          using that next_page_add [of dstva] by (auto simp: n_def min_def split: if_splits)
        have rest: "(r, PGROUNDDOWN (?va0 + PGSIZE + of_nat i)) \<in> X" if "i < length (drop n src)" for i
          using less.prems(5) [of "n + i"] that nx by (simp add: add.assoc)
        have short: "length (drop n src) \<le> 2 ^ 63" using less.prems(4) by simp
        obtain c s' where rec: "copyout s2 r (?va0 + PGSIZE) (drop n src) = Inr (c, s')"
          and s': "spaces s' R" "cow_ready s' X"
          "\<forall>r' \<in> R. r' \<noteq> r \<longrightarrow> (\<forall>y. ubyte s' r' y = ubyte s2 r' y)"
          "\<forall>y. \<not> unat (y - (?va0 + PGSIZE)) < length (drop n src) \<longrightarrow> ubyte s' r y = ubyte s2 r y"
          "c = 0 \<and> (exclusive s2 R \<longrightarrow> exclusive s' R) \<and> (\<forall>i < length (drop n src). ubyte s' r (?va0 + PGSIZE + of_nat i) = Some (drop n src ! i)) \<or>
           c = -1 \<and> (free_pages s' = {} \<or> (\<exists>i < length (drop n src). ubyte s' r (?va0 + PGSIZE + of_nat i) = None))"
          using less.hyps [OF len W(2) W(3) [OF X s1(2)] r short rest] by blast
        have d: "?va0 + ?o = dstva" by simp
        note W' = W(5-7) [unfolded tl d]
        note R = s'(4,5) [unfolded dl]
        have run: "copyout s r dstva src = Inr (c, s')" unfolding step using p W(1) rec by simp
        have far: "ubyte s' r y = ubyte s2 r y"
          if "n < length src \<Longrightarrow> \<not> unat (y - (dstva + of_nat n)) < length src - n" for y
          using R(1) that nx by (cases "n < length src") auto
        have o1: "\<forall>r' \<in> R. r' \<noteq> r \<longrightarrow> (\<forall>y. ubyte s' r' y = ubyte s r' y)"
          using s'(3) W'(1) s1(3) by simp
        have o2: "ubyte s' r y = ubyte s r y" if "\<not> unat (y - dstva) < length src" for y
        proof -
          have "ubyte s' r y = ubyte s2 r y"
            using far in_rest [OF n(2) less.prems(4), of y dstva] that by blast
          then show ?thesis using W'(2) [of y] that n(2) s1(3) r by simp
        qed
        have near: "ubyte s' r (dstva + of_nat i) = Some (src ! i)" if "i < n" for i
          using far [of "dstva + of_nat i"] not_in_rest [OF that n4 less.prems(4)] W'(3) [OF that] that by simp
        from R(2) show ?thesis
        proof (elim disjE conjE exE)
          assume "c = 0" and e2: "exclusive s2 R \<longrightarrow> exclusive s' R" and all: "\<forall>i < length src - n. ubyte s' r (?va0 + PGSIZE + of_nat i) = Some (drop n src ! i)"
          have "ubyte s' r (dstva + of_nat i) = Some (src ! i)" if "i < length src" for i
          proof (cases "i < n")
            case False
            then show ?thesis using all [rule_format, of "i - n"] nx that n(2) by (simp add: add.assoc flip: of_nat_add)
          qed (rule near)
          then show ?thesis using run s'(1,2) o1 o2 \<open>c = 0\<close> ex W(4) e2 by blast
        next
          assume "c = -1" "free_pages s' = {}"
          then show ?thesis using run s'(1,2) o1 o2 by blast
        next
          fix i assume i: "c = -1" "i < length src - n" "ubyte s' r (?va0 + PGSIZE + of_nat i) = None"
          then have "ubyte s' r (dstva + of_nat (n + i)) = None" "n + i < length src"
            using nx by (simp_all add: add.assoc)
          then show ?thesis using run s'(1,2) o1 o2 i(1) by blast
        qed
      qed
    qed
  qed
qed

section \<open>copyinstr\<close>

text \<open>The string at \<open>va\<close>, with its NUL, if it ends within \<open>n\<close> bytes: byte by byte, without regard to pages.\<close>

fun ustring :: "'a kmem_scheme \<Rightarrow> u64 \<Rightarrow> u64 \<Rightarrow> nat \<Rightarrow> u8 list option" where
  "ustring s r va 0 = None"
| "ustring s r va (Suc n) =
     (case ubyte s r va of None \<Rightarrow> None
      | Some c \<Rightarrow> if c = 0 then Some [0] else map_option ((#) c) (ustring s r (va + 1) n))"

lemma ustring_found: "ustring s r va n = Some bs \<Longrightarrow> n \<le> m \<Longrightarrow> ustring s r va m = Some bs"
proof (induction n arbitrary: va m bs)
  case 0
  then show ?case by simp
next
  case (Suc n)
  then obtain k where m: "m = Suc k" "n \<le> k" by (cases m) auto
  obtain c where c: "ubyte s r va = Some c" using Suc.prems(1) by (cases "ubyte s r va") auto
  show ?case
  proof (cases "c = 0")
    case True
    then show ?thesis using Suc.prems(1) c m(1) by simp
  next
    case False
    then have step: "ustring s r va (Suc k) = map_option ((#) c) (ustring s r (va + 1) k)" for k
      using c by simp
    obtain cs where cs: "ustring s r (va + 1) n = Some cs" "bs = c # cs"
      using Suc.prems(1) unfolding step by (cases "ustring s r (va + 1) n") simp_all
    show ?thesis using Suc.IH [OF cs(1) m(2)] unfolding m(1) step by (simp add: cs(2))
  qed
qed

lemma ustring_skip:
  assumes "\<And>i. i < length bs \<Longrightarrow> ubyte s r (va + of_nat i) = Some (bs ! i) \<and> bs ! i \<noteq> 0"
  shows "ustring s r va (length bs + m) = map_option ((@) bs) (ustring s r (va + of_nat (length bs)) m)"
  using assms
proof (induction bs arbitrary: va)
  case Nil
  then show ?case by (simp add: option.map_id [unfolded id_def])
next
  case (Cons b bs)
  have "ubyte s r (va + 1 + of_nat i) = Some (bs ! i) \<and> bs ! i \<noteq> 0" if "i < length bs" for i
    using Cons.prems [of "Suc i"] that by (simp add: add.assoc)
  from Cons.IH [OF this] Cons.prems [of 0] show ?case
    by (simp add: option.map_comp comp_def add.assoc)
qed

lemma ustring_none:
  "ubyte s r va = None \<Longrightarrow> ustring s r va n = None"
  by (cases n) simp_all

text \<open>The inner loop of \<open>copyinstr\<close> on bytes that are there.\<close>

lemma copyinstr_page_bytes:
  assumes "\<And>i. i < n \<Longrightarrow> ram_ok (p + of_nat i) 1 \<and> ubyte s r (va + of_nat i) = Some (ram s (p + of_nat i))"
  shows "(case ustring s r va n of
      Some bs \<Rightarrow> \<exists>k. copyinstr_page s p n dst mx = Inr (True, dst @ bs, k)
    | None \<Rightarrow> copyinstr_page s p n dst mx = Inr (False, dst @ map (\<lambda>i. ram s (p + of_nat i)) [0..<n], mx - n) \<and>
        (\<forall>i < n. ram s (p + of_nat i) \<noteq> 0))"
  using assms
proof (induction n arbitrary: p va dst mx)
  case 0
  then show ?case by simp
next
  case (Suc n)
  have h: "ram_ok p 1" "ubyte s r va = Some (ram s p)" using Suc.prems [of 0] by simp_all
  show ?case
  proof (cases "ram s p = 0")
    case True
    then show ?thesis using h by (simp add: kget8_def)
  next
    case False
    have "ram_ok (p + 1 + of_nat i) 1 \<and> ubyte s r (va + 1 + of_nat i) = Some (ram s (p + 1 + of_nat i))"
      if "i < n" for i
      using Suc.prems [of "Suc i"] that by (simp add: add.assoc)
    note IH = Suc.IH [OF this, of "dst @ [ram s p]" "mx - 1"]
    have "map (\<lambda>i. ram s (p + of_nat i)) [0..<Suc n] = ram s p # map (\<lambda>i. ram s (p + 1 + of_nat i)) [0..<n]"
      unfolding upt_conv_Cons [OF zero_less_Suc] map_Suc_upt [symmetric] by (simp add: add.assoc)
    moreover have "(\<forall>i < Suc n. ram s (p + of_nat i) \<noteq> 0) \<longleftrightarrow> (\<forall>i < n. ram s (p + 1 + of_nat i) \<noteq> 0)"
      using False unfolding All_less_Suc2 by (simp add: add.assoc)
    ultimately show ?thesis
      using IH False h by (auto simp: kget8_def split: option.splits)
  qed
qed

lemma copyinstr_loop_string:
  assumes sp: "spaces s R" and r: "r \<in> R"
  shows "case ustring s r srcva mx of
      Some bs \<Rightarrow> copyinstr_loop s dst r srcva mx False = Inr (0, dst @ bs)
    | None \<Rightarrow> \<exists>d. copyinstr_loop s dst r srcva mx False = Inr (-1, d)"
proof (induction mx arbitrary: dst srcva rule: less_induct)
  case (less mx)
  have kend: "kend_ok s" and wf: "wf_pt s r"
    using kmem_inv_kend_ok [OF spacesD(1) [OF sp]] spacesD(2) [OF sp r] .
  let ?va0 = "PGROUNDDOWN srcva" and ?o = "srcva - PGROUNDDOWN srcva"
  let ?e = "pte_at (ram s) r ?va0"
  define n where "n = min (4096 - unat ?o) mx"
  have n: "n \<le> 4096 - unat ?o" "n \<le> mx" by (simp_all add: n_def)
  show ?case
  proof (cases "mx = 0")
    case True
    then show ?thesis by (simp add: copyinstr_loop.simps [of s dst])
  next
    case pos: False
    then have n0: "0 < n" using page_offset_less [of srcva] by (simp add: n_def)
    show ?thesis
    proof (cases "?va0 < MAXVA \<and> user_pte ?e")
      case False
      then have "ubyte s r srcva = None" using ubyte_part [OF n(1) n0, of s r] by auto
      moreover have "copyinstr_loop s dst r srcva mx False = Inr (-1, dst)"
        using pos False walkaddr_eq [OF kend wf, of ?va0] by (auto simp: copyinstr_loop.simps [of s dst])
      ultimately show ?thesis by (simp add: ustring_none)
    next
      case True
      have x: "(r, ?va0) \<in> mappers s R (PTE2PA ?e)" using True r by (simp add: mappers_def)
      have kp: "kpage s (PTE2PA ?e)" using spacesD(4) [OF sp x] .
      let ?p = "PTE2PA ?e + ?o"
      have bytes: "ram_ok (?p + of_nat i) 1 \<and> ubyte s r (srcva + of_nat i) = Some (ram s (?p + of_nat i))"
        if "i < n" for i
      proof -
        have u: "unat (?o + of_nat i) = unat ?o + i"
          using that n(1) page_offset_less [of srcva] by (simp add: unat_word_ariths unat_of_nat)
        then have "kget_bytes s (PTE2PA ?e + (?o + of_nat i)) 1 =
            Inr (map (\<lambda>j. ram s (PTE2PA ?e + (?o + of_nat i) + of_nat j)) [0..<1])"
          using that n(1) by (intro kget_bytes_page [OF kend kp]) simp
        then have "ram_ok (?p + of_nat i) 1" by (simp add: kget_bytes_def add.assoc split: if_splits)
        then show ?thesis using ubyte_part [OF n(1) that, of s r] True by simp
      qed
      note B = copyinstr_page_bytes [of n ?p s r srcva dst mx, OF bytes]
      have step: "copyinstr_loop s dst r srcva mx False =
          kbind (copyinstr_page s ?p n dst mx) (\<lambda>(got_null, dst, mx).
          copyinstr_loop s dst r (?va0 + PGSIZE) mx got_null)"
        using pos True walkaddr_eq [OF kend wf, of ?va0] kpage_nonzero [OF kend kp]
        by (simp add: copyinstr_loop.simps [of s dst] page_rest_le Let_def flip: n_def)
      show ?thesis
      proof (cases "ustring s r srcva n")
        case (Some bs)
        then have "ustring s r srcva mx = Some bs" using ustring_found n(2) by blast
        moreover have "copyinstr_loop s dst r srcva mx False = Inr (0, dst @ bs)"
          using B Some unfolding step by (auto simp: copyinstr_loop.simps [of s "dst @ bs"])
        ultimately show ?thesis by simp
      next
        case None
        define bs where "bs = map (\<lambda>i. ram s (?p + of_nat i)) [0..<n]"
        have len: "length bs = n" by (simp add: bs_def)
        have run: "copyinstr_loop s dst r srcva mx False =
            copyinstr_loop s (dst @ bs) r (?va0 + PGSIZE) (mx - n) False"
          and nz: "\<forall>i < n. ram s (?p + of_nat i) \<noteq> 0"
          using B None unfolding step bs_def by simp_all
        have "ustring s r srcva (length bs + (mx - n)) =
            map_option ((@) bs) (ustring s r (srcva + of_nat (length bs)) (mx - n))"
          using bytes nz by (intro ustring_skip) (simp add: bs_def)
        then have us: "ustring s r srcva mx = map_option ((@) bs) (ustring s r (srcva + of_nat n) (mx - n))"
          using n(2) len by simp
        have IH: "case ustring s r (?va0 + PGSIZE) (mx - n) of
            Some cs \<Rightarrow> copyinstr_loop s (dst @ bs) r (?va0 + PGSIZE) (mx - n) False = Inr (0, (dst @ bs) @ cs)
          | None \<Rightarrow> \<exists>d. copyinstr_loop s (dst @ bs) r (?va0 + PGSIZE) (mx - n) False = Inr (-1, d)"
          using less.IH [of "mx - n"] n0 pos by simp
        have "ustring s r (?va0 + PGSIZE) (mx - n) = ustring s r (srcva + of_nat n) (mx - n)"
          using next_page_add [of srcva] by (cases "n < mx") (auto simp: n_def min_def split: if_splits)
        then show ?thesis using IH unfolding us run by (auto split: option.splits)
      qed
    qed
  qed
qed

end
