(* ===== verification/Fork.thy ===== *)
theory Fork
  imports Uaccess
begin

text \<open>
  What \<open>fork\<close> does to the memory of the processes: \<open>uvmcopy\<close> on a family of address spaces, stores of user
  programs, and the isolation of the processes' memories under every interleaving of forks, stores,
  page faults and copies by the kernel.
\<close>

section \<open>uvmcopy on a family of address spaces\<close>

text \<open>
  Common to success and failure of \<open>uvmcopy\<close>: the parent's entries keep their page, the child has entries of
  the parent at the places \<open>N\<close>, and a page has \<open>c\<close> more references.
\<close>

definition forked :: "'a kmem_scheme \<Rightarrow> 'a kmem_scheme \<Rightarrow> u64 \<Rightarrow> u64 \<Rightarrow> u64 set \<Rightarrow> (u64 \<Rightarrow> nat) \<Rightarrow> bool" where
  "forked s s' old new N c \<longleftrightarrow>
     kmem_inv s' \<and> wf_pt s' old \<and> wf_pt s' new \<and>
     tpages (ram s') old = tpages (ram s) old \<and>
     tpages (ram s') new = tpages (ram s) new \<union> taken s s' \<and>
     frame s s' (tpages (ram s) old \<union> tpages (ram s) new \<union> free_pages s) \<and>
     (\<forall>p. kpage s p \<and> p \<notin> taken s s' \<longrightarrow> refcnt s' p = refcnt s p + c p) \<and>
     (\<forall>va < MAXVA. pte_at (ram s') old va = pte_at (ram s) old va \<or>
        pte_at (ram s') old va = cow_mark (pte_at (ram s) old va)) \<and>
     (\<forall>va < MAXVA. if PGROUNDDOWN va \<in> N
        then kpage s (PTE2PA (pte_at (ram s) old va)) \<and> pte_at (ram s) old va AND PTE_V \<noteq> 0 \<and>
             pte_at (ram s') new va = child_pte (pte_at (ram s) old va)
        else pte_at (ram s') new va = pte_at (ram s) new va) \<and>
     (\<forall>p. finite {va \<in> N. PTE2PA (pte_at (ram s) old va) = p} \<and>
        card {va \<in> N. PTE2PA (pte_at (ram s) old va) = p} \<le> c p)"

lemma user_pte_cow_mark [simp]: "user_pte (cow_mark e) = user_pte e"
  by (simp add: user_pte_def pte_bits)

lemma user_pte_child:
  assumes "e AND PTE_V \<noteq> 0"
  shows "user_pte (child_pte e) = user_pte e" and "child_pte e AND PTE_W = 0"
proof -
  have "bit (child_pte e) i \<longleftrightarrow> bit (PTE_FLAGS (child_pte e)) i" if "i < 10" for i
    using that by (simp add: bit_PTE_FLAGS)
  then have "bit (child_pte e) i \<longleftrightarrow> bit (cow_mark e) i \<or> i = 0" if "i < 10" for i
    using that by (auto simp: child_pte_flags bit_or_iff bit_PTE_FLAGS pte_bits)
  then show "user_pte (child_pte e) = user_pte e" and "child_pte e AND PTE_W = 0"
    using assms by (auto simp: user_pte_def pte_bits)
qed

lemma forkedD:
  assumes "forked s s' old new N c"
  shows "kmem_inv s'" "wf_pt s' old" "wf_pt s' new" "tpages (ram s') old = tpages (ram s) old"
    "tpages (ram s') new = tpages (ram s) new \<union> taken s s'"
    "frame s s' (tpages (ram s) old \<union> tpages (ram s) new \<union> free_pages s)"
    "\<And>p. kpage s p \<Longrightarrow> p \<notin> taken s s' \<Longrightarrow> refcnt s' p = refcnt s p + c p"
    "\<And>va. va < MAXVA \<Longrightarrow> pte_at (ram s') old va = pte_at (ram s) old va \<or>
        pte_at (ram s') old va = cow_mark (pte_at (ram s) old va)"
    "\<And>va. va < MAXVA \<Longrightarrow> PGROUNDDOWN va \<in> N \<Longrightarrow> kpage s (PTE2PA (pte_at (ram s) old va)) \<and>
        pte_at (ram s) old va AND PTE_V \<noteq> 0 \<and> pte_at (ram s') new va = child_pte (pte_at (ram s) old va)"
    "\<And>va. va < MAXVA \<Longrightarrow> PGROUNDDOWN va \<notin> N \<Longrightarrow> pte_at (ram s') new va = pte_at (ram s) new va"
    "\<And>p. finite {va \<in> N. PTE2PA (pte_at (ram s) old va) = p}"
    "\<And>p. card {va \<in> N. PTE2PA (pte_at (ram s) old va) = p} \<le> c p"
  using assms unfolding forked_def by (simp_all split: if_splits)

lemma forked_entry:
  assumes sp: "spaces s R" and R: "old \<in> R" "new \<in> R" "old \<noteq> new" and f: "forked s s' old new N c"
    and nt: "\<forall>r \<in> R. \<forall>p \<in> tpages (ram s) r. c p = 0" and r: "r \<in> R"
  shows "r \<noteq> old \<Longrightarrow> r \<noteq> new \<Longrightarrow> wf_pt s' r \<and> tpages (ram s') r = tpages (ram s) r \<and>
      (\<forall>va. pte_at (ram s') r va = pte_at (ram s) r va)"
    and "va < MAXVA \<Longrightarrow> r \<noteq> new \<or> PGROUNDDOWN va \<notin> N \<Longrightarrow>
      pte_at (ram s') r va = pte_at (ram s) r va \<or> pte_at (ram s') r va = cow_mark (pte_at (ram s) r va)"
proof -
  show *: "wf_pt s' r \<and> tpages (ram s') r = tpages (ram s) r \<and>
      (\<forall>va. pte_at (ram s') r va = pte_at (ram s) r va)" if "r \<noteq> old" "r \<noteq> new"
  proof -
    have d: "tpages (ram s) r \<inter> (tpages (ram s) old \<union> tpages (ram s) new \<union> free_pages s) = {}"
      using spacesD(3) [OF sp r R(1) that(1)] spacesD(3) [OF sp r R(2) that(2)]
        tpages_not_free [OF spacesD(2) [OF sp r]] by blast
    have "refcnt s' p = refcnt s p" if p: "p \<in> tpages (ram s) r" for p
    proof -
      have "p \<notin> taken s s'" using d p taken_free [of s s'] by auto
      then show ?thesis
        using forkedD(7) [OF f wf_pt_kpage [OF spacesD(2) [OF sp r] p]] nt r p by simp
    qed
    then show ?thesis using frame_other [OF forkedD(6) [OF f] spacesD(2) [OF sp r] d] by blast
  qed
  show "pte_at (ram s') r va = pte_at (ram s) r va \<or> pte_at (ram s') r va = cow_mark (pte_at (ram s) r va)"
    if "va < MAXVA" "r \<noteq> new \<or> PGROUNDDOWN va \<notin> N"
    using * forkedD(8,10) [OF f that(1)] that by (cases "r = old"; cases "r = new") auto
qed

text \<open>The users of a page after the fork: those before, and the child where it has an entry of the parent.\<close>

lemma forked_mappers:
  assumes sp: "spaces s R" and R: "old \<in> R" "new \<in> R" "old \<noteq> new" and f: "forked s s' old new N c"
    and nt: "\<forall>r \<in> R. \<forall>p \<in> tpages (ram s) r. c p = 0"
  shows "mappers s' R p \<subseteq> mappers s R p \<union> {new} \<times> {va \<in> N. PTE2PA (pte_at (ram s) old va) = p}"
    and "x \<in> mappers s' R p \<Longrightarrow> \<exists>y. y \<in> mappers s R p"
proof -
  have *: "(r, va) \<in> mappers s R p \<or>
      r = new \<and> va \<in> N \<and> PTE2PA (pte_at (ram s) old va) = p \<and> (old, va) \<in> mappers s R p"
    if x: "(r, va) \<in> mappers s' R p" for r va
  proof -
    have m: "r \<in> R" "va < MAXVA" "page_aligned va" "user_pte (pte_at (ram s') r va)"
      "PTE2PA (pte_at (ram s') r va) = p" using x by (simp_all add: mappers_def)
    show ?thesis
    proof (cases "r = new \<and> va \<in> N")
      case True
      then have e: "kpage s (PTE2PA (pte_at (ram s) old va))" "pte_at (ram s) old va AND PTE_V \<noteq> 0"
        "pte_at (ram s') new va = child_pte (pte_at (ram s) old va)"
        using forkedD(9) [OF f m(2)] m(3) by auto
      then show ?thesis
        using m True child_pte_PA [OF e(1)] user_pte_child(1) [OF e(2)] R(1) by (simp add: mappers_def)
    next
      case False
      then have "pte_at (ram s') r va = pte_at (ram s) r va \<or> pte_at (ram s') r va = cow_mark (pte_at (ram s) r va)"
        using forked_entry(2) [OF sp R f nt m(1,2)] m(3) by auto
      then show ?thesis using m by (auto simp: mappers_def)
    qed
  qed
  show "mappers s' R p \<subseteq> mappers s R p \<union> {new} \<times> {va \<in> N. PTE2PA (pte_at (ram s) old va) = p}"
    using * by auto
  show "\<exists>y. y \<in> mappers s R p" if "x \<in> mappers s' R p" using * that by (cases x) blast
qed

lemma spaces_forked:
  assumes sp: "spaces s R" and R: "old \<in> R" "new \<in> R" "old \<noteq> new" and f: "forked s s' old new N c"
    and nt: "\<forall>r \<in> R. \<forall>p \<in> tpages (ram s) r. c p = 0"
  shows "spaces s' R"
proof -
  have wf: "wf_pt s' r" if "r \<in> R" for r
    using forkedD(2,3) [OF f] forked_entry(1) [OF sp R f nt that] by blast
  have tp: "tpages (ram s') r \<subseteq> tpages (ram s) r \<union> taken s s'" if "r \<in> R" for r
    using forkedD(4,5) [OF f] forked_entry(1) [OF sp R f nt that] by (cases "r = old"; cases "r = new") auto
  have nf: "p \<notin> taken s s'" if "r \<in> R" "p \<in> tpages (ram s) r" for r p
    using tpages_not_free [OF spacesD(2) [OF sp that(1)] that(2)] taken_free [of s s'] by auto
  have own: "tpages (ram s') r \<subseteq> tpages (ram s) r" if "r \<in> R" "r \<noteq> new" for r
    using forkedD(4) [OF f] forked_entry(1) [OF sp R f nt that(1)] that(2) by (cases "r = old") auto
  have dis: "tpages (ram s') r \<inter> tpages (ram s') r' = {}" if "r \<in> R" "r' \<in> R" "r \<noteq> r'" for r r'
  proof -
    have "tpages (ram s') a \<inter> tpages (ram s') b = {}" if "a \<in> R" "b \<in> R" "a \<noteq> b" "a \<noteq> new" for a b
      using spacesD(3) [OF sp that(1-3)] own [OF that(1,4)] tp [OF that(2)] nf [OF that(1)] by blast
    from this [of r r'] this [of r' r] that show ?thesis by (cases "r = new") auto
  qed
  have kp: "kpage s' p = kpage s p" for p using forkedD(6) [OF f] by (simp add: frame_def kpage_def)
  have old: "kpage s p \<and> p \<notin> taken s s' \<and> (\<forall>r \<in> R. p \<notin> tpages (ram s) r)" if x: "x \<in> mappers s' R p" for x p
  proof -
    obtain y where y: "y \<in> mappers s R p" using forked_mappers(2) [OF sp R f nt x] by blast
    have "p \<notin> free_pages s" using spacesD(7) [OF sp y] by (simp add: free_pages_def)
    then show ?thesis using spacesD(4,5) [OF sp y] taken_free [of s s'] by blast
  qed
  have "card (mappers s' R p) \<le> refcnt s' p" for p
  proof (cases "mappers s' R p = {}")
    case False
    then obtain x where x: "x \<in> mappers s' R p" by blast
    let ?A = "{va \<in> N. PTE2PA (pte_at (ram s) old va) = p}"
    have "card (mappers s' R p) \<le> card (mappers s R p \<union> {new} \<times> ?A)"
      using forked_mappers(1) [OF sp R f nt] by (intro card_mono) auto
    also have "\<dots> \<le> card (mappers s R p) + card ({new} \<times> ?A)" by (rule card_Un_le)
    also have "\<dots> \<le> refcnt s p + c p"
      using spacesD(6) [OF sp, of p] forkedD(12) [OF f, of p] by (simp add: card_cartesian_product_singleton)
    also have "\<dots> = refcnt s' p" using forkedD(7) [OF f] old [OF x] by simp
    finally show ?thesis .
  qed simp
  then show ?thesis
    unfolding spaces_def using forkedD(1) [OF f] wf dis old kp tp by blast
qed

text \<open>What the processes see: nothing changes, except that the child has the parent's bytes.\<close>

lemma ubyte_forked:
  assumes sp: "spaces s R" and R: "old \<in> R" "new \<in> R" "old \<noteq> new" and f: "forked s s' old new N c"
    and nt: "\<forall>r \<in> R. \<forall>p \<in> tpages (ram s) r. c p = 0" and r: "r \<in> R"
  shows "r \<noteq> new \<or> PGROUNDDOWN y \<notin> N \<Longrightarrow> ubyte s' r y = ubyte s r y"
    and "PGROUNDDOWN y \<in> N \<Longrightarrow> ubyte s' new y = ubyte s old y"
proof -
  have same: "ram s' (p + (y - PGROUNDDOWN y)) = ram s (p + (y - PGROUNDDOWN y))" if x: "x \<in> mappers s R p" for x p
  proof -
    have "p \<notin> free_pages s" using spacesD(7) [OF sp x] by (simp add: free_pages_def)
    then have "p \<notin> tpages (ram s) old \<union> tpages (ram s) new \<union> free_pages s"
      using spacesD(5) [OF sp x R(1)] spacesD(5) [OF sp x R(2)] by blast
    moreover have "PGROUNDDOWN (p + (y - PGROUNDDOWN y)) = p"
      using page_offset [OF kpage_aligned [OF spacesD(4) [OF sp x]]] .
    ultimately show ?thesis using forkedD(6) [OF f] by (simp add: frame_def)
  qed
  show "ubyte s' r y = ubyte s r y" if n: "r \<noteq> new \<or> PGROUNDDOWN y \<notin> N"
  proof (cases "y < MAXVA")
    case True
    have "pte_at (ram s') r y = pte_at (ram s) r y \<or> pte_at (ram s') r y = cow_mark (pte_at (ram s) r y)"
      using forked_entry(2) [OF sp R f nt r True n] .
    then have e: "user_pte (pte_at (ram s') r y) = user_pte (pte_at (ram s) r y)"
      "PTE2PA (pte_at (ram s') r y) = PTE2PA (pte_at (ram s) r y)" by auto
    then show ?thesis
      using same [OF ubyte_mapper [OF r True]] by (auto simp: ubyte_def Let_def)
  qed (simp add: ubyte_def)
  show "ubyte s' new y = ubyte s old y" if n: "PGROUNDDOWN y \<in> N"
  proof (cases "y < MAXVA")
    case True
    have e: "kpage s (PTE2PA (pte_at (ram s) old y))" "pte_at (ram s) old y AND PTE_V \<noteq> 0"
      "pte_at (ram s') new y = child_pte (pte_at (ram s) old y)"
      using forkedD(9) [OF f True n] by auto
    then show ?thesis
      using same [OF ubyte_mapper [OF R(1) True]] child_pte_PA [OF e(1)] user_pte_child(1) [OF e(2)]
      by (auto simp: ubyte_def Let_def)
  qed (simp add: ubyte_def)
qed

text \<open>A page with a reference more than before is not writable for anyone.\<close>

lemma exclusive_forked:
  assumes sp: "spaces s R" and R: "old \<in> R" "new \<in> R" "old \<noteq> new" and f: "forked s s' old new N c"
    and nt: "\<forall>r \<in> R. \<forall>p \<in> tpages (ram s) r. c p = 0" and ex: "exclusive s R"
    and mark: "\<And>p x. 0 < c p \<Longrightarrow> x \<in> mappers s R p \<Longrightarrow> \<exists>va. (old, va) \<in> mappers s R p \<and>
      pte_at (ram s') old va = cow_mark (pte_at (ram s) old va)"
  shows "exclusive s' R"
  unfolding exclusive_def
proof (intro ballI allI impI)
  fix r va assume r: "r \<in> R" and va: "va < MAXVA" "page_aligned va \<and> user_pte (pte_at (ram s') r va)"
    and w: "pte_at (ram s') r va AND PTE_W \<noteq> 0"
  have "r \<noteq> new \<or> PGROUNDDOWN va \<notin> N"
    using forkedD(9) [OF f va(1)] user_pte_child(2) [of "pte_at (ram s) old va"] w by auto
  from forked_entry(2) [OF sp R f nt r va(1) this]
  have e: "pte_at (ram s') r va = pte_at (ram s) r va"
    using w cow_mark_not_writable [of "pte_at (ram s) r va"] by auto
  let ?p = "PTE2PA (pte_at (ram s) r va)"
  have x: "(r, va) \<in> mappers s R ?p" using r va e by (simp add: mappers_def)
  have one: "refcnt s ?p = 1" using ex r va w e by (simp add: exclusive_def)
  have "c ?p = 0"
  proof (rule ccontr)
    assume "c ?p \<noteq> 0"
    then obtain v where v: "(old, v) \<in> mappers s R ?p" "pte_at (ram s') old v = cow_mark (pte_at (ram s) old v)"
      using mark [OF _ x] by auto
    have "(r, va) = (old, v)" using sole_mapper [OF sp x v(1) one] .
    then show False using v(2) w cow_mark_not_writable [of "pte_at (ram s) old v"] by auto
  qed
  moreover have "?p \<notin> taken s s'" using one taken_free [of s s'] by (auto simp: free_pages_def)
  ultimately show "refcnt s' (PTE2PA (pte_at (ram s') r va)) = 1"
    unfolding e using forkedD(7) [OF f spacesD(4) [OF sp x]] one by simp
qed

text \<open>
  The pages of the parent that user code cannot touch (the guard page below its stack) are not part of any
  process' memory.
\<close>

definition guarded :: "'a kmem_scheme \<Rightarrow> u64 set \<Rightarrow> u64 \<Rightarrow> nat \<Rightarrow> bool" where
  "guarded s R old n \<longleftrightarrow> (\<forall>i < n. let e = pte_at (ram s) old (nth_page 0 i) in
     \<not> user_pte e \<longrightarrow> mappers s R (PTE2PA e) = {} \<and> (\<forall>r \<in> R. PTE2PA e \<notin> tpages (ram s) r))"

lemma frame_of_parent:
  assumes sp: "spaces s R" and old: "old \<in> R" and pr: "page_range 0 n" and g: "guarded s R old n"
    and p: "p \<in> set (frames (ram s) old 0 n)"
  shows "r \<in> R \<Longrightarrow> p \<notin> tpages (ram s) r"
    and "x \<in> mappers s R p \<Longrightarrow> \<exists>i < n. (old, nth_page 0 i) \<in> mappers s R p"
proof -
  obtain i where i: "i < n" "p = PTE2PA (pte_at (ram s) old (nth_page 0 i))"
    using p by (auto simp: frames_def)
  have "(old, nth_page 0 i) \<in> mappers s R p" if "user_pte (pte_at (ram s) old (nth_page 0 i))"
    using that old nth_page_range [OF pr i(1)] i(2) by (simp add: mappers_def)
  then show "r \<in> R \<Longrightarrow> p \<notin> tpages (ram s) r"
    and "x \<in> mappers s R p \<Longrightarrow> \<exists>i < n. (old, nth_page 0 i) \<in> mappers s R p"
    using g i spacesD(5) [OF sp] unfolding guarded_def Let_def by blast+
qed

lemma count_list_frames:
  "card {va \<in> nth_page 0 ` {..<n}. PTE2PA (pte_at m old va) = p} \<le> count_list (frames m old 0 n) p"
proof -
  let ?I = "{i. i < n \<and> frames m old 0 n ! i = p}"
  have "{va \<in> nth_page 0 ` {..<n}. PTE2PA (pte_at m old va) = p} = nth_page 0 ` ?I"
    by (auto simp: frames_def)
  then have "card {va \<in> nth_page 0 ` {..<n}. PTE2PA (pte_at m old va) = p} \<le> card ?I"
    by (simp add: card_image_le)
  also have "card ?I = count_list (frames m old 0 n) p"
    unfolding count_list_eq_length_filter length_filter_conv_card by (rule arg_cong [of _ _ card]) auto
  finally show ?thesis .
qed

lemma shared_forked:
  assumes fk: "forkable s old new n" and sh: "shared s s' old new n"
  shows "forked s s' old new (nth_page 0 ` {..<n}) (count_list (frames (ram s) old 0 n))"
proof -
  have *: "PGROUNDDOWN va \<in> nth_page 0 ` {..<n} \<longleftrightarrow> (\<exists>i < n. same_page (nth_page 0 i) va)" for va
  proof -
    have "same_page (nth_page 0 i) va \<longleftrightarrow> PGROUNDDOWN va = nth_page 0 i" if "i < n" for i
      using nth_page_range(2) [OF forkableD(5) [OF fk] that] by (auto simp: same_page_def)
    then show ?thesis by blast
  qed
  have kp: "kpage s (PTE2PA (pte_at (ram s) old va)) \<and> pte_at (ram s) old va AND PTE_V \<noteq> 0"
    if va: "va < MAXVA" "PGROUNDDOWN va \<in> nth_page 0 ` {..<n}" for va
  proof -
    obtain i where i: "i < n" "PGROUNDDOWN va = nth_page 0 i" using va(2) by auto
    then have e: "pte_at (ram s) old va = pte_at (ram s) old (nth_page 0 i)" using pte_at_page [OF va(1)] by metis
    have "PTE2PA (pte_at (ram s) old (nth_page 0 i)) \<in> set (frames (ram s) old 0 n)"
      using i(1) by (auto simp: frames_def)
    then show ?thesis using forkableD(6) [OF fk i(1)] forkableD(8) [OF fk] unfolding e by (auto simp: leaf_def)
  qed
  show ?thesis
    unfolding forked_def using sharedD [OF sh] kp count_list_frames [of n "ram s" old] by (simp add: *) blast
qed

lemma unshared_forked:
  assumes "unshared s s' old new k"
  shows "forked s s' old new {} (\<lambda>_. 0)"
  using assms unfolding unshared_def forked_def by simp

lemma uvmcopy_spaces:
  assumes sp: "spaces s R" and R: "old \<in> R" "new \<in> R" "old \<noteq> new"
    and fk: "forkable s old new (npages_of sz)" and sz: "sz \<le> MAXVA" and g: "guarded s R old (npages_of sz)"
  shows "\<exists>rc s'. uvmcopy s old new sz = Inr (rc, s') \<and> spaces s' R \<and>
    (exclusive s R \<longrightarrow> exclusive s' R) \<and>
    (\<forall>r \<in> R. r \<noteq> new \<longrightarrow> (\<forall>y. ubyte s' r y = ubyte s r y)) \<and>
    (rc = 0 \<and> (\<forall>y. ubyte s' new y = (if \<exists>i < npages_of sz. PGROUNDDOWN y = nth_page 0 i
                                       then ubyte s old y else ubyte s new y)) \<or>
     rc = -1 \<and> (\<forall>y. ubyte s' new y = ubyte s new y))"
proof -
  let ?n = "npages_of sz" and ?F = "frames (ram s) old 0 (npages_of sz)"
  note pr = forkableD(5) [OF fk]
  obtain rc s' where run: "uvmcopy s old new sz = Inr (rc, s')" and
    "rc = 0 \<and> shared s s' old new ?n \<or> rc = -1 \<and> (\<exists>k \<le> ?n. unshared s s' old new k)"
    using uvmcopy_pages [OF fk sz] by blast
  then consider (ok) "rc = 0" "shared s s' old new ?n" | (err) k where "rc = -1" "unshared s s' old new k"
    by blast
  then show ?thesis
  proof cases
    case ok
    note f = shared_forked [OF fk ok(2)]
    have nt: "\<forall>r \<in> R. \<forall>p \<in> tpages (ram s) r. count_list ?F p = 0"
      using frame_of_parent(1) [OF sp R(1) pr g] by (auto simp: count_list_0_iff)
    have mark: "\<exists>va. (old, va) \<in> mappers s R p \<and> pte_at (ram s') old va = cow_mark (pte_at (ram s) old va)"
      if p: "0 < count_list ?F p" "x \<in> mappers s R p" for p x
    proof -
      have "p \<in> set ?F" using p(1) count_list_0_iff [of ?F p] by auto
      then obtain i where i: "i < ?n" "(old, nth_page 0 i) \<in> mappers s R p"
        using frame_of_parent(2) [OF sp R(1) pr g _ p(2)] by blast
      have "\<exists>j < ?n. same_page (nth_page 0 j) (nth_page 0 i)" using i(1) by (auto simp: same_page_def)
      then show ?thesis
        using sharedD(9) [OF ok(2) nth_page_range(1) [OF pr i(1)]] i(2) by auto
    qed
    have "exclusive s R \<longrightarrow> exclusive s' R"
      using exclusive_forked [OF sp R f nt] mark by blast
    moreover have "(PGROUNDDOWN y \<in> nth_page 0 ` {..<?n}) = (\<exists>i < ?n. PGROUNDDOWN y = nth_page 0 i)" for y
      by auto
    ultimately show ?thesis
      using run ok(1) spaces_forked [OF sp R f nt] ubyte_forked [OF sp R f nt] R by auto
  next
    case err
    note f = unshared_forked [OF err(2)]
    have nt: "\<forall>r \<in> R. \<forall>p \<in> tpages (ram s) r. (\<lambda>_. 0 :: nat) p = 0" by simp
    have "exclusive s R \<longrightarrow> exclusive s' R" using exclusive_forked [OF sp R f nt] by simp
    then show ?thesis
      using run err(1) spaces_forked [OF sp R f nt] ubyte_forked [OF sp R f nt] R by auto
  qed
qed

end
