(* ===== verification/Twoprocs.thy ===== *)
theory Twoprocs
  imports Fork
begin

text \<open>
  A small machine in the middle of a run, used to exhibit the properties of the memory system: nine pages of
  RAM above the kernel and two processes, named by the addresses of their root tables. The first has a page at
  virtual address 0 and a private, writable one at 4096. The parameters are its entry for address 0, the entry of the
  other process for address 0, the reference count of the page there, and that of the ninth page, which is on the
  free list if the count is 0.
\<close>

fun install :: "((u64 \<times> u64) \<times> u64) list \<Rightarrow> mem" where
  "install [] = (\<lambda>_. 0)"
| "install (((p, i), v) # es) = st64 (install es) (p + 8 * i) v"

lemma entry_eq:
  assumes "page_aligned p" "page_aligned q" "i < 512" "j < 512"
  shows "p + 8 * i = q + 8 * j \<longleftrightarrow> p = q \<and> i = j"
proof
  assume e: "p + 8 * i = q + 8 * j"
  then have "p = q" using entry_page [OF assms(1,3)] entry_page [OF assms(2,4)] by simp
  then show "p = q \<and> i = j" using e entry_inj [OF assms(3,4)] by simp
qed simp

lemma ld64_install:
  assumes "\<forall>((q, j), v) \<in> set es. page_aligned q \<and> j < 512" and "page_aligned p" and "i < 512"
  shows "ld64 (install es) (p + 8 * i) = (case map_of es (p, i) of None \<Rightarrow> 0 | Some v \<Rightarrow> v)"
  using assms(1)
proof (induction es)
  case Nil
  then show ?case by (simp add: ld64_def)
next
  case (Cons e es)
  obtain q j v where e: "e = ((q, j), v)" by (metis prod.exhaust)
  have q: "page_aligned q" "j < 512" using Cons.prems e by auto
  show ?case
  proof (cases "q = p \<and> j = i")
    case True
    then show ?thesis by (simp add: e ld64_st64_same)
  next
    case False
    then have "q + 8 * j \<noteq> p + 8 * i" using entry_eq [OF q(1) assms(2) q(2) assms(3)] by simp
    then have "ld64 (st64 (install es) (q + 8 * j) v) (p + 8 * i) = ld64 (install es) (p + 8 * i)"
      using q assms(2,3) by (intro ld64_st64_other) simp_all
    then show ?thesis using Cons False by (auto simp: e)
  qed
qed

definition two_entries :: "u64 \<Rightarrow> u64 \<Rightarrow> ((u64 \<times> u64) \<times> u64) list" where
  "two_entries a b =
    [((0x87ff8000, 0), PA2PTE 0x87ff9000 OR PTE_V),
     ((0x87ff9000, 0), PA2PTE 0x87ffa000 OR PTE_V),
     ((0x87ffa000, 0), a),
     ((0x87ffa000, 1), PA2PTE 0x87fff000 OR PTE_V OR PTE_R OR PTE_W OR PTE_U),
     ((0x87ffb000, 0), PA2PTE 0x87ffc000 OR PTE_V),
     ((0x87ffc000, 0), PA2PTE 0x87ffd000 OR PTE_V),
     ((0x87ffd000, 0), b)]"

definition two_procs :: "u64 \<Rightarrow> u64 \<Rightarrow> u8 \<Rightarrow> u8 \<Rightarrow> kmem" where
  "two_procs a b c f = \<lparr>ram = install (two_entries a b), kend = 0x87ff7000,
     freelist = (if f = 0 then 0x87ff7000 else 0),
     refer_count = (\<lambda>_. 1)(ref_index 0x87ffe000 := c, ref_index 0x87ff7000 := f)\<rparr>"

abbreviation proc_A :: u64 where "proc_A \<equiv> 0x87ff8000"
abbreviation proc_B :: u64 where "proc_B \<equiv> 0x87ffb000"

text \<open>The entries the processes have for the page at \<open>0x87ffe000\<close>: before a fork, and after it.\<close>

abbreviation private_pte :: u64 where "private_pte \<equiv> 0x21FFF817"
abbreviation cow_pte :: u64 where "cow_pte \<equiv> 0x21FFF913"

lemma demo_ptes:
  "private_pte = PA2PTE 0x87ffe000 OR PTE_V OR PTE_R OR PTE_W OR PTE_U" "cow_mark private_pte = cow_pte"
  by (simp_all add: PA2PTE_def cow_mark_def)

lemma two_ld64:
  assumes "page_aligned p" and "i < 512"
  shows "ld64 (ram (two_procs a b c f)) (p + 8 * i) =
    (case map_of (two_entries a b) (p, i) of None \<Rightarrow> 0 | Some v \<Rightarrow> v)"
proof -
  have "\<forall>((q, j), v) \<in> set (two_entries a b). page_aligned q \<and> j < 512"
    by (simp add: two_entries_def page_aligned_def)
  from ld64_install [OF this assms] show ?thesis by (simp add: two_procs_def)
qed

lemma two_dir:
  assumes "i < 512"
  shows "ld64 (ram (two_procs a b c f)) (0x87ff8000 + 8 * i) = (if i = 0 then 0x21FFE401 else 0)"
    and "ld64 (ram (two_procs a b c f)) (0x87ff9000 + 8 * i) = (if i = 0 then 0x21FFE801 else 0)"
    and "ld64 (ram (two_procs a b c f)) (0x87ffb000 + 8 * i) = (if i = 0 then 0x21FFF001 else 0)"
    and "ld64 (ram (two_procs a b c f)) (0x87ffc000 + 8 * i) = (if i = 0 then 0x21FFF401 else 0)"
    and "ld64 (ram (two_procs a b c f)) (0x87ffa000 + 8 * i) =
      (if i = 0 then a else if i = 1 then 0x21FFFC17 else 0)"
    and "ld64 (ram (two_procs a b c f)) (0x87ffd000 + 8 * i) = (if i = 0 then b else 0)"
  using assms by (simp_all add: two_ld64 page_aligned_def) (simp_all add: two_entries_def PA2PTE_def)

lemma two_table:
  assumes "i < 512"
  shows "node (ram (two_procs a b c f)) proc_A (i # is) =
      (if i = 0 then node (ram (two_procs a b c f)) 0x87ff9000 is else None)"
    and "node (ram (two_procs a b c f)) 0x87ff9000 (i # is) =
      (if i = 0 then node (ram (two_procs a b c f)) 0x87ffa000 is else None)"
    and "node (ram (two_procs a b c f)) proc_B (i # is) =
      (if i = 0 then node (ram (two_procs a b c f)) 0x87ffc000 is else None)"
    and "node (ram (two_procs a b c f)) 0x87ffc000 (i # is) =
      (if i = 0 then node (ram (two_procs a b c f)) 0x87ffd000 is else None)"
  unfolding node.simps two_dir [OF assms] by (simp_all add: PTE2PA_def)

lemma idx_ok_cases:
  assumes "idx_ok is"
  obtains "is = []" | i where "is = [i]" "i < 512" | i j where "is = [i, j]" "i < 512" "j < 512"
  using assms by (cases "is" rule: remdups_adj.cases) (auto simp: idx_ok_def le_Suc_eq)

lemma two_node:
  assumes "idx_ok is"
  shows "node (ram (two_procs a b c f)) proc_A is =
      (if is = [] then Some proc_A else if is = [0] then Some 0x87ff9000
       else if is = [0, 0] then Some 0x87ffa000 else None)"
    and "node (ram (two_procs a b c f)) proc_B is =
      (if is = [] then Some proc_B else if is = [0] then Some 0x87ffc000
       else if is = [0, 0] then Some 0x87ffd000 else None)"
  using assms by (cases rule: idx_ok_cases; simp del: node.simps(2) add: two_table)+

lemma three_tables:
  assumes "\<And>is. idx_ok is \<Longrightarrow> node m r is =
      (if is = [] then Some r else if is = [0] then Some a else if is = [0, 0] then Some b else None)"
  shows "tpages m r = {r, a, b}"
proof
  show "tpages m r \<subseteq> {r, a, b}" using assms by (auto simp: tpages_def split: if_splits)
  have n: "node m r [0] = Some a" "node m r [0, 0] = Some b"
    using assms [of "[0]"] assms [of "[0, 0]"] by (simp_all del: node.simps add: idx_ok_def)
  have "a \<in> tpages m r" "b \<in> tpages m r"
    by (rule node_tpages [OF _ n(1)] node_tpages [OF _ n(2)], simp add: idx_ok_def)+
  then show "{r, a, b} \<subseteq> tpages m r" by simp
qed

lemma two_tpages:
  "tpages (ram (two_procs a b c f)) proc_A = {proc_A, 0x87ff9000, 0x87ffa000}"
  "tpages (ram (two_procs a b c f)) proc_B = {proc_B, 0x87ffc000, 0x87ffd000}"
  by (rule three_tables, erule two_node)+

lemma two_counts:
  "kpage (two_procs a b c f) p \<longleftrightarrow> page_aligned p \<and> 0x87ff7000 \<le> p \<and> p < PHYSTOP"
  "refcnt (two_procs a b c f) 0x87ffe000 = unat c"
  "refcnt (two_procs a b c f) 0x87ff7000 = unat f"
  "p \<in> {0x87ff8000, 0x87ff9000, 0x87ffa000, 0x87ffb000, 0x87ffc000, 0x87ffd000, 0x87fff000} \<Longrightarrow>
    refcnt (two_procs a b c f) p = 1"
  by (auto simp: kpage_def refcnt_def two_procs_def ref_index_def)

lemma two_wf: "wf_pt (two_procs a b c f) proc_A" "wf_pt (two_procs a b c f) proc_B"
proof -
  have "kpage (two_procs a b c f) p \<and> refcnt (two_procs a b c f) p = 1"
    if "p \<in> {0x87ff8000, 0x87ff9000, 0x87ffa000, 0x87ffb000, 0x87ffc000, 0x87ffd000}" for p
    using that two_counts(4) [of p] by (auto simp: two_counts(1) page_aligned_def)
  then show "wf_pt (two_procs a b c f) proc_A" "wf_pt (two_procs a b c f) proc_B"
    unfolding wf_pt_def two_tpages using two_node by (auto split: if_splits)
qed

lemma two_pte:
  assumes "va < MAXVA"
  shows "pte_at (ram (two_procs a b c f)) proc_A va =
      (if same_page 0 va then a else if same_page 4096 va then 0x21FFFC17 else 0)"
    and "pte_at (ram (two_procs a b c f)) proc_B va = (if same_page 0 va then b else 0)"
proof -
  have P: "path 0 = [0, 0]" "PX 0 0 = 0" "path 4096 = [0, 0]" "PX 0 4096 = 1"
    by (simp_all add: path_def PX_def)
  have *: "path va \<noteq> []" "path va \<noteq> [0]" by (simp_all add: path_def)
  note sp = same_page_iff_PX [of 0 va] same_page_iff_PX [of 4096 va]
  show "pte_at (ram (two_procs a b c f)) proc_A va =
      (if same_page 0 va then a else if same_page 4096 va then 0x21FFFC17 else 0)"
    using sp assms * P two_dir(5) [OF PX_less [of 0 va], of a b c f]
    by (auto simp: pte_at_def pte_slot_def two_node eq_commute [of _ "path va"] eq_commute [of _ "PX 0 va"])
  show "pte_at (ram (two_procs a b c f)) proc_B va = (if same_page 0 va then b else 0)"
    using sp assms * P two_dir(6) [OF PX_less [of 0 va], of a b c f]
    by (auto simp: pte_at_def pte_slot_def two_node eq_commute [of _ "path va"] eq_commute [of _ "PX 0 va"])
qed

lemma two_user_pages:
  "page_aligned va \<and> va < MAXVA \<Longrightarrow> same_page 0 va \<longleftrightarrow> va = 0"
  "page_aligned va \<and> va < MAXVA \<Longrightarrow> same_page 4096 va \<longleftrightarrow> va = 4096"
  by (subst same_page_aligned; auto simp: page_aligned_def)+

lemma aligned_4096: "page_aligned 4096"
  by (simp add: page_aligned_def)

lemma two_free: "free_pages (two_procs a b c f) = (if f = 0 then {0x87ff7000} else {})" if "c \<noteq> 0"
proof -
  have "p = 0x87ff7000 \<and> f = 0" if p: "kpage (two_procs a b c f) p" "refcnt (two_procs a b c f) p = 0" for p
  proof -
    have "ref_index p = ref_index 0x87ff7000" "f = 0"
      using p(2) \<open>c \<noteq> 0\<close> by (auto simp: refcnt_def two_procs_def unat_eq_0 split: if_splits)
    moreover have "(0x80000000 :: u64) \<le> p"
      using p(1) order_trans [of "0x80000000" "0x87ff7000" p] by (simp add: two_counts(1))
    ultimately show ?thesis
      using ref_index_inj [of p "0x87ff7000"] p(1) by (simp add: two_counts(1) page_aligned_def)
  qed
  moreover have "refcnt (two_procs a b c f) 0x87ff7000 = 0" if "f = 0" using that by (simp add: two_counts)
  moreover have "kpage (two_procs a b c f) 0x87ff7000" by (simp add: two_counts(1) page_aligned_def)
  ultimately show ?thesis by (auto simp: free_pages_def)
qed

lemma two_inv: "kmem_inv (two_procs a b c f)" if "c \<noteq> 0"
proof -
  have "kend_ok (two_procs a b c f)" by (simp add: kend_ok_def two_procs_def)
  moreover have "ld64 (ram (two_procs a b c f)) 0x87ff7000 = 0"
    using two_ld64 [of "0x87ff7000" 0 a b c f] by (simp add: page_aligned_def two_entries_def)
  then have "chain (ld64 (ram (two_procs a b c f))) (freelist (two_procs a b c f))
      (if f = 0 then [0x87ff7000] else [])"
    by (simp add: two_procs_def)
  ultimately show ?thesis
    unfolding kmem_inv_def two_free [OF that] by (auto intro: exI [of _ "if f = 0 then [0x87ff7000] else []"])
qed

text \<open>The machine before a fork of the first process, and after it.\<close>

lemma before_mappers:
  "mappers (two_procs private_pte 0 c f) {proc_A, proc_B} p =
     (if p = 0x87ffe000 then {(proc_A, 0)} else if p = 0x87fff000 then {(proc_A, 4096)} else {})"
  using aligned_4096
  by (auto simp: mappers_def two_pte two_user_pages user_pte_def PTE2PA_def split: if_splits)

lemma after_mappers:
  "mappers (two_procs cow_pte cow_pte c f) {proc_A, proc_B} p =
     (if p = 0x87ffe000 then {(proc_A, 0), (proc_B, 0)} else if p = 0x87fff000 then {(proc_A, 4096)} else {})"
  using aligned_4096
  by (auto simp: mappers_def two_pte two_user_pages user_pte_def PTE2PA_def split: if_splits)

lemma before_spaces: "spaces (two_procs private_pte 0 1 f) {proc_A, proc_B}"
  unfolding spaces_def before_mappers by (auto simp: two_inv two_wf two_tpages two_counts page_aligned_def)

lemma after_spaces: "spaces (two_procs cow_pte cow_pte 2 f) {proc_A, proc_B}"
  unfolding spaces_def after_mappers by (auto simp: two_inv two_wf two_tpages two_counts page_aligned_def)

lemma before_exclusive: "exclusive (two_procs private_pte 0 1 f) {proc_A, proc_B}"
  unfolding exclusive_def by (auto simp: two_pte PTE2PA_def two_counts split: if_splits)

lemma after_exclusive: "exclusive (two_procs cow_pte cow_pte 2 f) {proc_A, proc_B}"
  unfolding exclusive_def by (auto simp: two_pte PTE2PA_def two_counts split: if_splits)

end
