(* ===== verification/Isolation.thy ===== *)
theory Isolation
  imports Twoprocs
begin

text \<open>
  Isolation of the processes' memories. The things that change user memory are stores by user code, page
  faults on copy-on-write pages, \<open>copyout\<close> by system calls, and \<open>fork\<close>; \<open>mem_step\<close> has one rule for each,
  and no sequence of them changes the memory of a process that is not acting.
\<close>

section \<open>User stores\<close>

text \<open>
  What the hardware does for a store instruction in user mode: the entry must be valid, for user mode and
  writable; otherwise the instruction traps.
\<close>

definition user_store :: "'a kmem_scheme \<Rightarrow> u64 \<Rightarrow> u64 \<Rightarrow> u8 \<Rightarrow> 'a kmem_scheme option" where
  "user_store s r va b =
     (let e = pte_at (ram s) r va in
      if va < MAXVA \<and> user_pte e \<and> e AND PTE_W \<noteq> 0
      then Some (s\<lparr>ram := put_bytes (ram s) (PTE2PA e + (va - PGROUNDDOWN va)) [b]\<rparr>) else None)"

lemma user_store_isolated:
  assumes sp: "spaces s R" and ex: "exclusive s R" and r: "r \<in> R" and st: "user_store s r va b = Some s'"
  shows "spaces s' R" "exclusive s' R" "\<And>r' y. r' \<in> R \<Longrightarrow> r' \<noteq> r \<Longrightarrow> ubyte s' r' y = ubyte s r' y"
    "ubyte s' r va = Some b"
proof -
  let ?e = "pte_at (ram s) r va" and ?a = "PGROUNDDOWN va" and ?o = "va - PGROUNDDOWN va"
  have va: "va < MAXVA" "user_pte ?e" "?e AND PTE_W \<noteq> 0"
    and s': "s' = s\<lparr>ram := put_bytes (ram s) (PTE2PA ?e + ?o) [b]\<rparr>"
    using st by (auto simp: user_store_def Let_def split: if_splits)
  have x: "(r, ?a) \<in> mappers s R (PTE2PA ?e)" using ubyte_mapper [OF r va(1,2)] .
  have "?a < MAXVA" using va(1) PGROUNDDOWN_less_MAXVA by blast
  from ex [unfolded exclusive_def, rule_format, OF r this]
  have "refcnt s (PTE2PA ?e) = 1" using va pte_at_page [OF va(1), of "ram s" r] by simp
  moreover have "unat ?o + length [b] \<le> 4096" using page_offset_less [of va] by simp
  ultimately have W: "spaces s' R" "exclusive s R \<Longrightarrow> exclusive s' R"
    "\<And>r' y. r' \<in> R \<Longrightarrow> r' \<noteq> r \<Longrightarrow> ubyte s' r' y = ubyte s r' y"
    "\<And>i. i < length [b] \<Longrightarrow> ubyte s' r (?a + ?o + of_nat i) = Some ([b] ! i)"
    unfolding s' using copyout_write(2,4,5,7) [OF sp x] by blast+
  show "spaces s' R" "exclusive s' R" "\<And>r' y. r' \<in> R \<Longrightarrow> r' \<noteq> r \<Longrightarrow> ubyte s' r' y = ubyte s r' y"
    "ubyte s' r va = Some b"
    using W(1-3) ex W(4) [of 0] by simp_all
qed

section \<open>Interleavings\<close>

text \<open>Memory that user code may write, now or after a copy-on-write fault.\<close>

definition user_writable :: "'a kmem_scheme \<Rightarrow> u64 \<Rightarrow> u64 \<Rightarrow> nat \<Rightarrow> bool" where
  "user_writable s r va n \<longleftrightarrow> (\<forall>i < n. let e = pte_at (ram s) r (PGROUNDDOWN (va + of_nat i)) in
     user_pte e \<longrightarrow> e AND PTE_W \<noteq> 0 \<or> e AND PTE_RSW_COW \<noteq> 0)"

inductive mem_step :: "u64 set \<Rightarrow> 'a kmem_scheme \<Rightarrow> u64 set \<Rightarrow> 'a kmem_scheme \<Rightarrow> bool" for R where
  store: "r \<in> R \<Longrightarrow> user_store s r va b = Some s' \<Longrightarrow> mem_step R s {r} s'"
| fault: "(r, va) \<in> mappers s R pa \<Longrightarrow> cow_alloc s r va = Inr (p, s') \<Longrightarrow> p \<noteq> 0 \<Longrightarrow> mem_step R s {r} s'"
| copyout: "r \<in> R \<Longrightarrow> length src \<le> 2 ^ 63 \<Longrightarrow> user_writable s r va (length src) \<Longrightarrow>
    copyout s r va src = Inr (0, s') \<Longrightarrow> mem_step R s {r} s'"
| fork: "old \<in> R \<Longrightarrow> new \<in> R \<Longrightarrow> old \<noteq> new \<Longrightarrow> forkable s old new (npages_of sz) \<Longrightarrow> sz \<le> MAXVA \<Longrightarrow>
    guarded s R old (npages_of sz) \<Longrightarrow> uvmcopy s old new sz = Inr (rc, s') \<Longrightarrow> mem_step R s {new} s'"

inductive mem_run :: "u64 set \<Rightarrow> 'a kmem_scheme \<Rightarrow> u64 set \<Rightarrow> 'a kmem_scheme \<Rightarrow> bool" for R where
  none: "mem_run R s {} s"
| step: "mem_run R s P s1 \<Longrightarrow> mem_step R s1 Q s2 \<Longrightarrow> mem_run R s (P \<union> Q) s2"

lemma exclusive_ready:
  assumes "exclusive s R" and "r \<in> R" and "user_writable s r va n"
  shows "cow_ready s {(r, PGROUNDDOWN (va + of_nat i)) | i. i < n}"
  unfolding cow_ready_def
proof (clarify)
  fix i assume i: "i < n" "PGROUNDDOWN (va + of_nat i) < MAXVA"
    "user_pte (pte_at (ram s) r (PGROUNDDOWN (va + of_nat i)))"
    and "refcnt s (PTE2PA (pte_at (ram s) r (PGROUNDDOWN (va + of_nat i)))) \<noteq> 1"
    and "pte_at (ram s) r (PGROUNDDOWN (va + of_nat i)) AND PTE_RSW_COW = 0"
  then show False using assms unfolding user_writable_def exclusive_def Let_def by auto
qed

lemma mem_step_isolated:
  assumes "mem_step R s P s'" and "spaces s R" and "exclusive s R"
  shows "spaces s' R" "exclusive s' R" "\<And>q y. q \<in> R \<Longrightarrow> q \<notin> P \<Longrightarrow> ubyte s' q y = ubyte s q y"
proof -
  have "spaces s' R \<and> exclusive s' R \<and> (\<forall>q \<in> R. q \<notin> P \<longrightarrow> (\<forall>y. ubyte s' q y = ubyte s q y))"
    using assms
  proof (cases rule: mem_step.cases)
    case (store r va b)
    then show ?thesis using user_store_isolated [OF assms(2,3) store(2,3)] by simp
  next
    case (fault r va pa p)
    then show ?thesis using cow_alloc_spaces [OF assms(2) fault(2)] assms(3) by auto
  next
    case (copyout r src va)
    let ?X = "{(r, PGROUNDDOWN (va + of_nat i)) | i. i < length src}"
    have "?X \<subseteq> R \<times> UNIV" using copyout(2) by auto
    from copyout_bytes [OF this assms(2) exclusive_ready [OF assms(3) copyout(2,4)] copyout(2,3), of va]
    show ?thesis using copyout(1,5) assms(3) by auto
  next
    case (fork old new sz rc)
    then show ?thesis using uvmcopy_spaces [OF assms(2) fork(2-7)] assms(3) by auto
  qed
  then show "spaces s' R" "exclusive s' R" "\<And>q y. q \<in> R \<Longrightarrow> q \<notin> P \<Longrightarrow> ubyte s' q y = ubyte s q y" by auto
qed

lemma mem_run_inv:
  assumes "mem_run R s P s'" and "spaces s R" and "exclusive s R"
  shows "spaces s' R \<and> exclusive s' R \<and> (\<forall>q \<in> R - P. \<forall>y. ubyte s' q y = ubyte s q y)"
  using assms
proof (induction rule: mem_run.induct)
  case (none s)
  then show ?case by simp
next
  case (step s P s1 Q s2)
  then have "spaces s1 R" "exclusive s1 R" by auto
  note S = mem_step_isolated [OF step.hyps(2) this]
  show ?case using S step by simp
qed

section \<open>Properties\<close>

lemma demo_bytes:
  "ubyte (two_procs cow_pte cow_pte 2 0) proc_B 4094 = Some 0"
  "ubyte (two_procs cow_pte cow_pte 2 0) proc_B 4095 = Some 0"
  "ubyte (two_procs cow_pte cow_pte 2 0) proc_B 4096 = None"
  unfolding ubyte_def Let_def using two_pte(2) [of 4094] two_pte(2) [of 4095] two_pte(2) [of 4096]
  by (simp_all add: same_page_def PGROUNDDOWN_def user_pte_def PTE2PA_def two_procs_def two_entries_def st64_def)



text \<open>
  C3. \<open>uvmcopy\<close> gives the child the parent's memory: on success the child sees the parent's bytes at every address
  below \<open>sz\<close>, on failure its memory is as before, and either way no other process, the parent included, sees a
  change and pages that a process may write still have no other user.
\<close>

theorem uvmcopy_clones_memory:
  assumes "spaces s R" and "exclusive s R" and "old \<in> R" and "new \<in> R" and "old \<noteq> new"
    and "forkable s old new (npages_of sz)" and "sz \<le> MAXVA" and "guarded s R old (npages_of sz)"
  shows "\<exists>rc s'. uvmcopy s old new sz = Inr (rc, s') \<and> spaces s' R \<and> exclusive s' R \<and>
    (\<forall>r \<in> R. r \<noteq> new \<longrightarrow> (\<forall>y. ubyte s' r y = ubyte s r y)) \<and>
    (rc = 0 \<and> (\<forall>y < sz. ubyte s' new y = ubyte s old y) \<or>
     rc = -1 \<and> (\<forall>y. ubyte s' new y = ubyte s new y))"
proof -
  have "\<exists>i < npages_of sz. PGROUNDDOWN y = nth_page 0 i" if "y < sz" for y
  proof -
    have u: "unat y < unat sz" using that by (simp add: word_less_nat_alt)
    then have "unat y div 4096 < npages_of sz"
      using npages_of_iff [of "unat y div 4096" sz] div_mult_mod_eq [of "unat y" 4096] by linarith
    moreover have "PGROUNDDOWN y = nth_page 0 (unat y div 4096)"
      using of_nat_unat_eq [OF unat_PGROUNDDOWN [of y]] by (simp add: nth_page_def)
    ultimately show ?thesis by blast
  qed
  then show ?thesis using uvmcopy_spaces [OF assms(1,3-8)] assms(2) by fastforce
qed

theorem uvmcopy_clones_memory_witness:
  "\<exists>rc s'. uvmcopy (two_procs private_pte 0 1 1) proc_A proc_B 8192 = Inr (rc, s') \<and>
     exclusive s' {proc_A, proc_B} \<and>
     (rc = 0 \<and> (\<forall>y < 8192. ubyte s' proc_B y = ubyte (two_procs private_pte 0 1 1) proc_A y) \<or>
      rc = -1 \<and> (\<forall>y. ubyte s' proc_B y = ubyte (two_procs private_pte 0 1 1) proc_B y))"
proof -
  let ?s = "two_procs private_pte 0 1 1"
  have n: "npages_of 8192 = 2" by (simp add: npages_of_def)
  have p: "nth_page 0 i = (if i = 0 then 0 else 4096)" if "i < 2" for i
    using that by (cases i) (auto simp: nth_page_def)
  have e: "pte_at (ram ?s) proc_A (nth_page 0 i) = (if i = 0 then private_pte else 0x21FFFC17)"
    "pte_at (ram ?s) proc_B (nth_page 0 i) = 0" if "i < 2" for i
    using that two_pte [of 0] two_pte [of 4096] by (auto simp: p same_page_def PGROUNDDOWN_def)
  have "[0..<2] = [0, 1 :: nat]" by (simp add: upt_rec)
  then have fr: "frames (ram ?s) proc_A 0 2 = [0x87ffe000, 0x87fff000]"
    unfolding frames_def using e(1) [of 0] e(1) [of 1] by (simp add: PTE2PA_def)
  have "forkable ?s proc_A proc_B 2"
    unfolding forkable_def fr
    by (auto simp: two_inv two_wf two_tpages two_counts page_range_def e leaf_def PTE_FLAGS_def page_aligned_def)
  moreover have "guarded ?s {proc_A, proc_B} proc_A 2"
    by (auto simp: guarded_def Let_def e user_pte_def)
  ultimately show ?thesis
    using uvmcopy_clones_memory [OF before_spaces [of 1] before_exclusive, of proc_A proc_B 8192]
    unfolding n by fastforce
qed

lemma cow_fault_own_page:
  assumes "spaces s R" and "exclusive s R" and "(r, va) \<in> mappers s R pa" and "free_pages s \<noteq> {}"
  shows "\<exists>p s'. cow_alloc s r va = Inr (p, s') \<and> p \<noteq> 0 \<and> spaces s' R \<and> exclusive s' R \<and>
    mappers s' R p = {(r, va)} \<and> pte_at (ram s') r va AND PTE_W \<noteq> 0 \<and>
    (\<forall>r' \<in> R. \<forall>y. ubyte s' r' y = ubyte s r' y)"
proof -
  note M = mapper_user_page [OF assms(1,3)]
  have inv: "kmem_inv s" and wf: "wf_pt s r" using spacesD(1) [OF assms(1)] spacesD(2) [OF assms(1) M(3)] .
  obtain p s' where run: "cow_alloc s r va = Inr (p, s')" and sp: "spaces s' R"
    and u: "\<forall>r' \<in> R. \<forall>y. ubyte s' r' y = ubyte s r' y"
    and d: "p = 0 \<and> free_pages s' = {} \<and> refcnt s pa \<noteq> 1 \<or> p \<noteq> 0 \<and> (exclusive s R \<longrightarrow> exclusive s' R) \<and>
      (r, va) \<in> mappers s' R p \<and> refcnt s' p = 1 \<and> pte_at (ram s') r va AND PTE_W \<noteq> 0"
    using cow_alloc_spaces [OF assms(1,3)] by blast
  have "p \<noteq> 0" if "refcnt s pa \<noteq> 1"
    using cow_alloc_copy [OF inv wf M(1) refl] that M(2) assms(4) run by auto
  then have p: "p \<noteq> 0" "exclusive s' R" "(r, va) \<in> mappers s' R p" "refcnt s' p = 1"
    "pte_at (ram s') r va AND PTE_W \<noteq> 0" using d assms(2) by auto
  have "mappers s' R p = {(r, va)}" using sole_mapper [OF sp p(3) _ p(4)] p(3) by blast
  then show ?thesis using run sp u p by blast
qed

text \<open>
  C4. A copy-on-write fault that finds memory leaves the faulting process with a writable page of its own at the
  faulting address, and no process, the faulting one included, sees a byte change.
\<close>

theorem cow_fault_gives_own_page:
  assumes "spaces s R" and "exclusive s R" and "(r, va) \<in> mappers s R pa" and "free_pages s \<noteq> {}"
  shows "\<exists>p s'. cow_alloc s r va = Inr (p, s') \<and> p \<noteq> 0 \<and> spaces s' R \<and> exclusive s' R \<and>
    mappers s' R p = {(r, va)} \<and> pte_at (ram s') r va AND PTE_W \<noteq> 0 \<and>
    (\<forall>r' \<in> R. \<forall>y. ubyte s' r' y = ubyte s r' y)"
  using assms by (rule cow_fault_own_page)

theorem cow_fault_gives_own_page_witness:
  "\<exists>p s'. cow_alloc (two_procs cow_pte cow_pte 2 0) proc_A 0 = Inr (p, s') \<and> p \<noteq> 0 \<and>
     mappers s' {proc_A, proc_B} p = {(proc_A, 0)}"
  using cow_fault_gives_own_page [OF after_spaces [of 0] after_exclusive [of 0], of proc_A 0 "0x87ffe000"]
  by (auto simp: after_mappers two_free)

text \<open>
  C6. \<open>copyout\<close> into writable memory writes exactly the bytes it is given, at the addresses it is given, and no
  other process sees a change. It fails only if a part of the range is not mapped or memory has run out.
\<close>

theorem copyout_writes:
  assumes "spaces s R" and "exclusive s R" and "r \<in> R" and "length src \<le> 2 ^ 63"
    and "user_writable s r dstva (length src)"
  shows "\<exists>c s'. copyout s r dstva src = Inr (c, s') \<and> spaces s' R \<and>
    (\<forall>r' \<in> R. r' \<noteq> r \<longrightarrow> (\<forall>y. ubyte s' r' y = ubyte s r' y)) \<and>
    (\<forall>y. \<not> unat (y - dstva) < length src \<longrightarrow> ubyte s' r y = ubyte s r y) \<and>
    (c = 0 \<and> exclusive s' R \<and> (\<forall>i < length src. ubyte s' r (dstva + of_nat i) = Some (src ! i)) \<or>
     c = -1 \<and> (free_pages s' = {} \<or> (\<exists>i < length src. ubyte s' r (dstva + of_nat i) = None)))"
proof -
  let ?X = "{(r, PGROUNDDOWN (dstva + of_nat i)) | i. i < length src}"
  have "?X \<subseteq> R \<times> UNIV" using assms(3) by auto
  from copyout_bytes [OF this assms(1) exclusive_ready [OF assms(2,3,5)] assms(3,4), of dstva] assms(2)
  show ?thesis by blast
qed

theorem copyout_writes_witness:
  "\<exists>c s'. copyout (two_procs cow_pte cow_pte 2 0) proc_A 4095 [1, 2] = Inr (c, s') \<and>
     ubyte s' proc_B 4095 = ubyte (two_procs cow_pte cow_pte 2 0) proc_B 4095 \<and>
     (c = 0 \<longrightarrow> ubyte s' proc_A 4096 = Some 2)"
proof -
  let ?s = "two_procs cow_pte cow_pte 2 0"
  have "user_writable ?s proc_A 4095 (length [1, 2 :: u8])"
    unfolding user_writable_def using two_pte(1) [of 0 cow_pte cow_pte 2 0] two_pte(1) [of 4096 cow_pte cow_pte 2 0]
    by (auto simp: less_Suc_eq same_page_def PGROUNDDOWN_def)
  from copyout_writes [OF after_spaces after_exclusive _ _ this]
  obtain c s' where "copyout ?s proc_A 4095 [1, 2] = Inr (c, s')"
    "\<forall>y. ubyte s' proc_B y = ubyte ?s proc_B y"
    "c = 0 \<longrightarrow> (\<forall>i < 2. ubyte s' proc_A (4095 + of_nat i) = Some ([1, 2] ! i))" by auto
  then show ?thesis by (intro exI [of _ c] exI [of _ s']) (auto dest: spec [of _ 1])
qed

text \<open>
  C8. \<open>copyin\<close> returns exactly the bytes the process has at the addresses, or -1 if one of them is not mapped.
\<close>

theorem copyin_reads:
  assumes "spaces s R" and "r \<in> R"
  shows "if \<forall>i < len. ubyte s r (srcva + of_nat i) \<noteq> None
    then copyin s r srcva len = Inr (0, map (\<lambda>i. the (ubyte s r (srcva + of_nat i))) [0..<len])
    else \<exists>d. copyin s r srcva len = Inr (-1, d)"
  using copyin_loop_bytes [OF assms, of len srcva "[]"] by (auto simp: copyin_def)

theorem copyin_reads_witness:
  "copyin (two_procs cow_pte cow_pte 2 0) proc_B 4094 2 = Inr (0, [0, 0]) \<and>
   (\<exists>d. copyin (two_procs cow_pte cow_pte 2 0) proc_B 4094 3 = Inr (-1, d))"
proof -
  let ?s = "two_procs cow_pte cow_pte 2 0"
  have "copyin ?s proc_B 4094 2 = Inr (0, map (\<lambda>i. the (ubyte ?s proc_B (4094 + of_nat i))) [0..<2])"
    using copyin_reads [OF after_spaces [of 0], of proc_B 2 4094] demo_bytes by (auto simp: less_2_cases_iff)
  moreover have "[0..<2] = [0, 1 :: nat]" by (simp add: upt_rec)
  moreover have "\<exists>d. copyin ?s proc_B 4094 3 = Inr (-1, d)"
    using copyin_reads [OF after_spaces [of 0], of proc_B 3 4094] demo_bytes(3)
    by (auto split: if_splits dest: spec [of _ 2])
  ultimately show ?thesis using demo_bytes by simp
qed

text \<open>
  C9. \<open>copyinstr\<close>, which works page by page, fetches the same string as reading the process' memory byte by
  byte up to the NUL, and fails exactly when that meets an unmapped byte or finds no NUL within \<open>max\<close> bytes.
\<close>

theorem copyinstr_bytewise:
  assumes "spaces s R" and "r \<in> R"
  shows "case ustring s r srcva mx of
      Some bs \<Rightarrow> copyinstr s r srcva mx = Inr (0, bs)
    | None \<Rightarrow> \<exists>d. copyinstr s r srcva mx = Inr (-1, d)"
  using copyinstr_loop_string [OF assms, where dst = "[]" and srcva = srcva and mx = mx]
  unfolding copyinstr_def append_Nil .

theorem copyinstr_bytewise_witness:
  "copyinstr (two_procs cow_pte cow_pte 2 0) proc_B 4094 10 = Inr (0, [0]) \<and>
   (\<exists>d. copyinstr (two_procs cow_pte cow_pte 2 0) proc_B 4096 10 = Inr (-1, d))"
proof -
  let ?s = "two_procs cow_pte cow_pte 2 0"
  have "ustring ?s proc_B 4094 10 = Some [0]" "ustring ?s proc_B 4096 10 = None"
    using demo_bytes by (simp_all add: numeral_eq_Suc)
  then show ?thesis
    using copyinstr_bytewise [OF after_spaces [of 0], of proc_B 4094 10] copyinstr_bytewise [OF after_spaces [of 0], of proc_B 4096 10]
    by simp
qed

text \<open>
  C7. When \<open>copyout\<close> meets a copy-on-write page and memory has run out it fails, but leaves the page, still
  shared, writable for the process: the next store of that process changes the memory of the others.
\<close>

theorem copyout_failure_breaks_isolation:
  assumes "spaces s R" and "(r, va) \<in> mappers s R p" and "(q, v) \<in> mappers s R p" and "q \<noteq> r"
    and "pte_at (ram s) r va AND PTE_RSW_COW \<noteq> 0" and "free_pages s = {}"
  shows "\<exists>s' s''. copyout s r va [b] = Inr (-1, s') \<and> \<not> exclusive s' R \<and>
    user_store s' r va b = Some s'' \<and> ubyte s'' q v = Some b"
proof -
  note sp = assms(1)
  let ?e = "pte_at (ram s) r va"
  note M = mapper_user_page [OF sp assms(2)]
  have x: "r \<in> R" "va < MAXVA" "page_aligned va" "user_pte ?e" "PTE2PA ?e = p"
    and y: "q \<in> R" "v < MAXVA" "page_aligned v" "user_pte (pte_at (ram s) q v)" "PTE2PA (pte_at (ram s) q v) = p"
    using assms(2,3) by (simp_all add: mappers_def)
  have inv: "kmem_inv s" and wf: "wf_pt s r" using spacesD(1) [OF sp] spacesD(2) [OF sp x(1)] .
  have kend: "kend_ok s" using kmem_inv_kend_ok [OF inv] .
  have many: "refcnt s p \<noteq> 1" using sole_mapper [OF sp assms(2,3)] assms(4) by auto
  obtain a where a: "pte_slot (ram s) r va = Some a" and
    full: "cow_alloc s r va = Inr (0, set_pte s a (?e OR PTE_W))"
    using cow_alloc_full [OF inv wf M(1) refl] many x(5) assms(6) by auto
  let ?s' = "set_pte s a (?e OR PTE_W)"
  have v: "user_pte (?e OR PTE_W)" "PTE2PA (?e OR PTE_W) = p" using user_pte_flags(1) [OF x(4)] x(5) by simp_all
  note F = spaces_set_flags [OF sp assms(2) a v]
  have p0: "p \<noteq> 0" using kpage_nonzero [OF kend spacesD(4) [OF sp assms(2)]] .
  have run: "copyout s r va [b] = Inr (-1, ?s')"
    using x p0 walkaddr_eq [OF kend wf, of va] is_cowpage_eq [OF inv wf M(1)] assms(5) full
    by (simp add: copyout.simps [of s])
  have at: "pte_at (ram ?s') r va = ?e OR PTE_W" using F(4) [OF x(1-3)] by simp
  have w: "(?e OR PTE_W) AND PTE_W \<noteq> 0" by (simp add: pte_bits bit_or_iff)
  have ne: "\<not> exclusive ?s' R"
  proof
    assume "exclusive ?s' R"
    then have "refcnt ?s' (PTE2PA (pte_at (ram ?s') r va)) = 1"
      using x(1-3) v(1) w unfolding exclusive_def by (metis at)
    then show False using many unfolding at v(2) by simp
  qed
  obtain s'' where st: "user_store ?s' r va b = Some s''"
    and s'': "s'' = ?s'\<lparr>ram := put_bytes (ram ?s') p [b]\<rparr>"
    using x(2,3) v w unfolding user_store_def at Let_def by simp
  have fr: "frame ?s' (?s'\<lparr>ram := put_bytes (ram ?s') p [b]\<rparr>) {p}"
    using put_bytes_page(2) [of ?s' p 0 "[b]"] kmem_inv_kend_ok [OF spacesD(1) [OF F(1)]] spacesD(4) [OF F(1,3)]
    by simp
  have "pte_at (put_bytes (ram ?s') p [b]) q v = pte_at (ram s) q v"
    using spaces_write(2) [OF F(1,3) fr y(1)] F(4) [OF y(1-3)] assms(4) by simp
  then have "ubyte s'' q v = Some b" using y unfolding s'' by (simp add: ubyte_def put_bytes_def)
  then show ?thesis using run st ne by blast
qed

theorem copyout_failure_witness:
  "\<exists>s' s''. copyout (two_procs cow_pte cow_pte 2 1) proc_A 0 [7] = Inr (-1, s') \<and>
     user_store s' proc_A 0 7 = Some s'' \<and> ubyte s'' proc_B 0 = Some 7"
proof -
  let ?s = "two_procs cow_pte cow_pte 2 1"
  have m: "(proc_A, 0) \<in> mappers ?s {proc_A, proc_B} 0x87ffe000" "(proc_B, 0) \<in> mappers ?s {proc_A, proc_B} 0x87ffe000"
    by (simp_all add: after_mappers)
  have "pte_at (ram ?s) proc_A 0 AND PTE_RSW_COW \<noteq> 0" by (simp add: two_pte same_page_def)
  from copyout_failure_breaks_isolation [OF after_spaces m _ this, of 7] two_free [of 2 _ _ 1]
  show ?thesis by auto
qed

text \<open>
  C12. \<open>uvmalloc\<close> grows a process' memory or leaves it alone: if it returns the new size, the new pages are zeroed,
  mapped with the asked permissions, distinct, and referenced once; if it returns 0, every entry of the page table
  and every reference count is as before (page-table pages may have been added).
\<close>

theorem uvmalloc_all_or_nothing:
  assumes "kmem_inv s" and "wf_pt s root" and "oldsz \<le> newsz" and "newsz \<le> MAXVA" and "flags_only xperm"
    and "\<forall>i < npages_of newsz - npages_of oldsz. pte_at (ram s) root (nth_page (PGROUNDUP oldsz) i) = 0"
  shows "\<exists>r s'. uvmalloc s root oldsz newsz xperm = Inr (r, s') \<and>
    (r = newsz \<and> allocated s s' root (PGROUNDUP oldsz) (npages_of newsz - npages_of oldsz) xperm \<or>
     r = 0 \<and> grow s root s')"
  using uvmalloc_pages [OF assms(1-5)] assms(6) by blast

theorem uvmalloc_witness:
  "\<exists>r s'. uvmalloc (two_procs cow_pte cow_pte 2 0) proc_A 8192 10000 PTE_W = Inr (r, s') \<and>
     (r = 10000 \<and> allocated (two_procs cow_pte cow_pte 2 0) s' proc_A 8192 1 PTE_W \<or>
      r = 0 \<and> grow (two_procs cow_pte cow_pte 2 0) proc_A s')"
proof -
  have n: "npages_of 10000 - npages_of 8192 = 1" "PGROUNDUP 8192 = 8192"
    by (simp_all add: npages_of_def PGROUNDUP_def)
  have "pte_at (ram (two_procs cow_pte cow_pte 2 0)) proc_A 8192 = 0"
    by (simp add: two_pte same_page_def PGROUNDDOWN_def)
  then show ?thesis
    using uvmalloc_all_or_nothing [OF two_inv [of 2 cow_pte cow_pte 0] two_wf(1), of 8192 10000 PTE_W]
    unfolding n by (auto simp: nth_page_def)
qed

end
