(* ===== verification/Spinlock.thy ===== *)
theory Spinlock
  imports Prelude
begin

text \<open>
  Spin locks and interrupt nesting (\<open>spinlock.c\<close>). Each hart has its \<open>struct cpu\<close> and the interrupt-enable
  bit of its \<open>sstatus\<close>; a lock is its word and the hart recorded in it. The operations are first given whole,
  as a hart runs them when nobody interferes; then as the atomic memory accesses they consist of, which the
  harts interleave arbitrarily.
\<close>

section \<open>Interrupt nesting\<close>

record cpu =
  noff :: int
  intena :: bool
  sie :: bool

definition intr_on :: "cpu \<Rightarrow> cpu" where
  "intr_on c = c\<lparr>sie := True\<rparr>"

definition intr_off :: "cpu \<Rightarrow> cpu" where
  "intr_off c = c\<lparr>sie := False\<rparr>"

definition intr_get :: "cpu \<Rightarrow> bool" where
  "intr_get c = sie c"

definition push_off :: "cpu \<Rightarrow> cpu" where
  "push_off c =
     (let old = intr_get c;
          c = intr_off c;
          c = (if noff c = 0 then c\<lparr>intena := old\<rparr> else c)
      in c\<lparr>noff := noff c + 1\<rparr>)"

definition pop_off :: "cpu \<Rightarrow> cpu kres" where
  "pop_off c =
     (if intr_get c then Inl (Panic ''pop_off - interruptible'')
      else if noff c < 1 then Inl (Panic ''pop_off'')
      else
        let c = c\<lparr>noff := noff c - 1\<rparr>
        in Inr (if noff c = 0 \<and> intena c then intr_on c else c))"

lemmas intr_defs = intr_on_def intr_off_def intr_get_def

text \<open>The nesting is consistent: never negative, and interrupts are off inside.\<close>

definition cpu_ok :: "cpu \<Rightarrow> bool" where
  "cpu_ok c \<longleftrightarrow> 0 \<le> noff c \<and> (0 < noff c \<longrightarrow> \<not> sie c)"

lemma push_off_ok: "cpu_ok c \<Longrightarrow> cpu_ok (push_off c) \<and> noff (push_off c) = noff c + 1 \<and> \<not> sie (push_off c)"
  by (auto simp: cpu_ok_def push_off_def intr_defs Let_def)

lemma pop_off_ok:
  assumes "cpu_ok c" and "0 < noff c"
  shows "\<exists>c'. pop_off c = Inr c' \<and> cpu_ok c' \<and> noff c' = noff c - 1"
  using assms by (auto simp: cpu_ok_def pop_off_def intr_defs Let_def)

fun push_many :: "nat \<Rightarrow> cpu \<Rightarrow> cpu" where
  "push_many 0 c = c"
| "push_many (Suc n) c = push_many n (push_off c)"

fun pop_many :: "nat \<Rightarrow> cpu \<Rightarrow> cpu kres" where
  "pop_many 0 c = Inr c"
| "pop_many (Suc n) c = kbind (pop_off c) (pop_many n)"

lemma pop_push:
  assumes "cpu_ok c"
  shows "pop_off (push_off c) = Inr (c\<lparr>intena := if noff c = 0 then sie c else intena c\<rparr>)"
  using assms by (auto simp: cpu_ok_def push_off_def pop_off_def intr_defs Let_def)

lemma pop_many_Suc: "pop_many (Suc n) c = kbind (pop_many n c) pop_off"
proof (induction n arbitrary: c)
  case 0
  then show ?case by (cases "pop_off c") simp_all
next
  case (Suc n)
  have "pop_many (Suc (Suc n)) c = kbind (pop_off c) (\<lambda>c. kbind (pop_many n c) pop_off)"
    unfolding pop_many.simps(2) [of "Suc n"] using Suc by (intro arg_cong2 [of _ _ _ _ kbind] ext) auto
  then show ?case by (simp add: kbind_assoc)
qed

lemma pop_push_inner:
  assumes "cpu_ok c" and "0 < noff c"
  shows "pop_many n (push_many n c) = Inr c"
  using assms
proof (induction n arbitrary: c)
  case (Suc n)
  then have "pop_many n (push_many n (push_off c)) = Inr (push_off c)"
    using push_off_ok [of c] by simp
  then show ?case using Suc.prems pop_push [of c] unfolding pop_many_Suc push_many.simps by simp
qed simp

lemma pop_push_many:
  assumes "cpu_ok c" and "0 < n"
  shows "pop_many n (push_many n c) = Inr (c\<lparr>intena := if noff c = 0 then sie c else intena c\<rparr>)"
proof (cases n)
  case (Suc m)
  have "pop_many m (push_many m (push_off c)) = Inr (push_off c)"
    using push_off_ok [OF assms(1)] assms(1) by (intro pop_push_inner) (auto simp: cpu_ok_def)
  then show ?thesis using pop_push [OF assms(1)] unfolding Suc pop_many_Suc push_many.simps by simp
qed (use assms in simp)

section \<open>Locks\<close>

record spinlock =
  locked :: bool
  lkcpu :: "nat option"

definition initlock :: spinlock where
  "initlock = \<lparr>locked = False, lkcpu = None\<rparr>"

definition holding :: "nat \<Rightarrow> spinlock \<Rightarrow> bool" where
  "holding h lk \<longleftrightarrow> locked lk \<and> lkcpu lk = Some h"

text \<open>\<open>Sleeps\<close> stands for spinning: the loop ends only if another hart releases the lock.\<close>

definition acquire :: "nat \<Rightarrow> cpu \<Rightarrow> spinlock \<Rightarrow> (cpu \<times> spinlock) kres" where
  "acquire h c lk =
     (let c = push_off c in
      if holding h lk then Inl (Panic ''acquire'')
      else if locked lk then Inl (Sleeps ''acquire'')
      else Inr (c, lk\<lparr>locked := True, lkcpu := Some h\<rparr>))"

definition release :: "nat \<Rightarrow> cpu \<Rightarrow> spinlock \<Rightarrow> (cpu \<times> spinlock) kres" where
  "release h c lk =
     (if \<not> holding h lk then Inl (Panic ''release'')
      else
        let lk = lk\<lparr>lkcpu := None\<rparr>;
            lk = lk\<lparr>locked := False\<rparr>
        in kbind (pop_off c) (\<lambda>c. Inr (c, lk)))"

section \<open>Harts in parallel\<close>

text \<open>
  Where a hart is with respect to the lock operations: outside them, in the loop of \<open>acquire\<close>, between the swap
  that took the lock and the store to \<open>lk->cpu\<close>, or in \<open>release\<close> between the store to \<open>lk->cpu\<close> and the swap
  that frees the lock. \<open>held\<close> are the locks whose \<open>acquire\<close> has returned, \<open>depth\<close> the calls of \<open>push_off\<close> by
  other code than the lock operations (\<open>myproc\<close>, \<open>uartputc_sync\<close>) that are still open.
\<close>

datatype pc = Outside | Spinning nat | Took nat | Freeing nat

record hart =
  hcpu :: cpu
  hpc :: pc
  held :: "nat set"
  depth :: nat

record machine =
  harts :: "nat \<Rightarrow> hart"
  locks :: "nat \<Rightarrow> spinlock"

definition set_hart :: "nat \<Rightarrow> hart \<Rightarrow> machine \<Rightarrow> machine" where
  "set_hart h x m = m\<lparr>harts := (harts m)(h := x)\<rparr>"

definition set_lock :: "nat \<Rightarrow> spinlock \<Rightarrow> machine \<Rightarrow> machine" where
  "set_lock l lk m = m\<lparr>locks := (locks m)(l := lk)\<rparr>"

inductive lock_step :: "machine \<Rightarrow> machine \<Rightarrow> bool" where
  push: "hpc (harts m h) = Outside \<Longrightarrow> x = harts m h \<Longrightarrow>
    lock_step m (set_hart h (x\<lparr>hcpu := push_off (hcpu x), depth := depth x + 1\<rparr>) m)"
| pop: "hpc (harts m h) = Outside \<Longrightarrow> x = harts m h \<Longrightarrow> 0 < depth x \<Longrightarrow> pop_off (hcpu x) = Inr c \<Longrightarrow>
    lock_step m (set_hart h (x\<lparr>hcpu := c, depth := depth x - 1\<rparr>) m)"
| acquire_enter: "hpc (harts m h) = Outside \<Longrightarrow> x = harts m h \<Longrightarrow> \<not> holding h (locks m l) \<Longrightarrow>
    lock_step m (set_hart h (x\<lparr>hcpu := push_off (hcpu x), hpc := Spinning l\<rparr>) m)"
| acquire_spin: "hpc (harts m h) = Spinning l \<Longrightarrow> locked (locks m l) \<Longrightarrow> lock_step m m"
| acquire_swap: "hpc (harts m h) = Spinning l \<Longrightarrow> x = harts m h \<Longrightarrow> \<not> locked (locks m l) \<Longrightarrow>
    lock_step m (set_hart h (x\<lparr>hpc := Took l\<rparr>) (set_lock l ((locks m l)\<lparr>locked := True\<rparr>) m))"
| acquire_done: "hpc (harts m h) = Took l \<Longrightarrow> x = harts m h \<Longrightarrow>
    lock_step m (set_hart h (x\<lparr>hpc := Outside, held := insert l (held x)\<rparr>)
      (set_lock l ((locks m l)\<lparr>lkcpu := Some h\<rparr>) m))"
| release_enter: "hpc (harts m h) = Outside \<Longrightarrow> x = harts m h \<Longrightarrow> holding h (locks m l) \<Longrightarrow>
    lock_step m (set_hart h (x\<lparr>hpc := Freeing l, held := held x - {l}\<rparr>)
      (set_lock l ((locks m l)\<lparr>lkcpu := None\<rparr>) m))"
| release_done: "hpc (harts m h) = Freeing l \<Longrightarrow> x = harts m h \<Longrightarrow> pop_off (hcpu x) = Inr c \<Longrightarrow>
    lock_step m (set_hart h (x\<lparr>hcpu := c, hpc := Outside\<rparr>) (set_lock l ((locks m l)\<lparr>locked := False\<rparr>) m))"

inductive lock_reachable :: "machine \<Rightarrow> bool" where
  boot: "(\<forall>h. harts m h = \<lparr>hcpu = \<lparr>noff = 0, intena = False, sie = i h\<rparr>, hpc = Outside, held = {}, depth = 0\<rparr>) \<Longrightarrow>
    (\<forall>l. locks m l = initlock) \<Longrightarrow> lock_reachable m"
| step: "lock_reachable m \<Longrightarrow> lock_step m m' \<Longrightarrow> lock_reachable m'"

text \<open>A hart owns a lock from the swap that takes it to the swap that frees it.\<close>

definition owns :: "hart \<Rightarrow> nat \<Rightarrow> bool" where
  "owns x l \<longleftrightarrow> l \<in> held x \<or> hpc x = Took l \<or> hpc x = Freeing l"

text \<open>The nesting depth is the number of locks, the lock operation under way and the other \<open>push_off\<close>s.\<close>

definition nesting :: "hart \<Rightarrow> int" where
  "nesting x = int (card (held x)) + (if hpc x = Outside then 0 else 1) + int (depth x)"

definition lock_inv :: "machine \<Rightarrow> bool" where
  "lock_inv m \<longleftrightarrow>
     (\<forall>h. cpu_ok (hcpu (harts m h)) \<and> finite (held (harts m h)) \<and>
        noff (hcpu (harts m h)) = nesting (harts m h)) \<and>
     (\<forall>h l. hpc (harts m h) = Took l \<or> hpc (harts m h) = Freeing l \<longrightarrow> l \<notin> held (harts m h)) \<and>
     (\<forall>l h. owns (harts m h) l \<longrightarrow> locked (locks m l)) \<and>
     (\<forall>l h h'. owns (harts m h) l \<and> owns (harts m h') l \<longrightarrow> h = h') \<and>
     (\<forall>l h. lkcpu (locks m l) = Some h \<longleftrightarrow> l \<in> held (harts m h))"

lemma set_hart_sel [simp]:
  "harts (set_hart h x m) h' = (if h' = h then x else harts m h')" "locks (set_hart h x m) = locks m"
  "harts (set_lock l lk m) = harts m" "locks (set_lock l lk m) l' = (if l' = l then lk else locks m l')"
  by (simp_all add: set_hart_def set_lock_def)

lemma lock_invD:
  assumes "lock_inv m"
  shows "cpu_ok (hcpu (harts m h))" "finite (held (harts m h))" "noff (hcpu (harts m h)) = nesting (harts m h)"
    "hpc (harts m h) = Took l \<or> hpc (harts m h) = Freeing l \<Longrightarrow> l \<notin> held (harts m h)"
    "owns (harts m h) l \<Longrightarrow> locked (locks m l)"
    "owns (harts m h) l \<Longrightarrow> owns (harts m h') l \<Longrightarrow> h = h'"
    "lkcpu (locks m l) = Some h \<longleftrightarrow> l \<in> held (harts m h)"
  using assms unfolding lock_inv_def by blast+

lemma holding_iff: "lock_inv m \<Longrightarrow> holding h (locks m l) \<longleftrightarrow> l \<in> held (harts m h)"
  using lock_invD(5,7) [of m] by (auto simp: holding_def owns_def)

text \<open>A step of hart \<open>h\<close> keeps the invariant if it does so for \<open>h\<close> and the lock it touches.\<close>

lemma lock_inv_local:
  assumes inv: "lock_inv m" and m': "m' = set_hart h x (set_lock l lk m)"
    and cpu: "cpu_ok (hcpu x)" "finite (held x)" "noff (hcpu x) = nesting x"
    and pc: "\<And>k. hpc x = Took k \<or> hpc x = Freeing k \<Longrightarrow> k \<notin> held x"
    and own: "\<And>k. k \<noteq> l \<Longrightarrow> owns x k = owns (harts m h) k" "\<And>k. k \<noteq> l \<Longrightarrow> k \<in> held x \<longleftrightarrow> k \<in> held (harts m h)"
    and lk: "owns x l \<Longrightarrow> locked lk" "lkcpu lk = Some h \<longleftrightarrow> l \<in> held x"
    and others: "\<And>h'. h' \<noteq> h \<Longrightarrow> owns (harts m h') l \<Longrightarrow> locked lk \<and> \<not> owns x l"
      "\<And>h'. h' \<noteq> h \<Longrightarrow> lkcpu lk = Some h' \<longleftrightarrow> l \<in> held (harts m h')"
  shows "lock_inv m'"
  unfolding lock_inv_def
proof (intro conjI allI impI)
  fix k i assume "owns (harts m' i) k"
  then show "locked (locks m' k)"
    using lock_invD(5) [OF inv] own(1) lk(1) others(1) unfolding m' by (cases "i = h"; cases "k = l") auto
next
  fix k i j assume "owns (harts m' i) k \<and> owns (harts m' j) k"
  then show "i = j"
    using lock_invD(6) [OF inv] own(1) others(1) unfolding m'
    by (cases "i = h"; cases "j = h"; cases "k = l") (auto split: if_splits)
next
  fix k i
  show "(lkcpu (locks m' k) = Some i) = (k \<in> held (harts m' i))"
    using lock_invD(7) [OF inv] own(2) lk(2) others(2) unfolding m' by (cases "i = h"; cases "k = l") auto
qed (use lock_invD(1-4) [OF inv] cpu pc in \<open>auto simp: m'\<close>)

lemma lock_inv_hart:
  assumes inv: "lock_inv m" and m': "m' = set_hart h x m"
    and cpu: "cpu_ok (hcpu x)" "noff (hcpu x) = nesting x"
    and own: "\<And>k. owns x k = owns (harts m h) k" "held x = held (harts m h)"
    and pc: "\<And>k. hpc x = Took k \<or> hpc x = Freeing k \<Longrightarrow> k \<notin> held x"
  shows "lock_inv m'"
  using lock_invD [OF inv] cpu own pc unfolding lock_inv_def m' by auto

lemma lock_step_inv:
  assumes "lock_step m m'" and inv: "lock_inv m"
  shows "lock_inv m'"
  using assms(1)
proof cases
  case (push h x)
  then show ?thesis
    using lock_invD(1,3) [OF inv, of h] push_off_ok [of "hcpu x"]
    by (intro lock_inv_hart [OF inv push(1)]) (auto simp: owns_def nesting_def)
next
  case (pop h x c)
  then show ?thesis
    using lock_invD(1,3) [OF inv, of h] pop_off_ok [of "hcpu x"]
    by (intro lock_inv_hart [OF inv pop(1)]) (auto simp: owns_def nesting_def)
next
  case (acquire_enter h x l)
  then show ?thesis
    using lock_invD(1,3) [OF inv, of h] push_off_ok [of "hcpu x"]
    by (intro lock_inv_hart [OF inv acquire_enter(1)]) (auto simp: owns_def nesting_def)
next
  case acquire_spin
  then show ?thesis using inv by simp
next
  case (acquire_swap h l x)
  then have "\<not> owns (harts m h') l" for h' using lock_invD(5) [OF inv] by blast
  then show ?thesis
    using acquire_swap lock_invD [OF inv, where h = h] lock_invD(7) [OF inv]
    by (intro lock_inv_local [OF inv acquire_swap(1)]) (auto simp: owns_def nesting_def)
next
  case (acquire_done h l x)
  have o: "owns (harts m h') l \<longleftrightarrow> h' = h" for h'
    using lock_invD(6) [OF inv, of h l h'] acquire_done by (auto simp: owns_def)
  then show ?thesis
    using acquire_done lock_invD [OF inv, where h = h] lock_invD(7) [OF inv]
    by (intro lock_inv_local [OF inv acquire_done(1)]) (auto simp: owns_def nesting_def)
next
  case (release_enter h x l)
  then have l: "l \<in> held x" using holding_iff [OF inv] by simp
  then have o: "owns (harts m h') l \<longleftrightarrow> h' = h" for h'
    using lock_invD(6) [OF inv, of h l h'] release_enter by (auto simp: owns_def)
  have "0 < card (held x)"
    using l lock_invD(2) [OF inv, of h] release_enter(3) by (auto simp: card_gt_0_iff)
  then show ?thesis
    using release_enter o l lock_invD [OF inv, where h = h] lock_invD(7) [OF inv]
    by (intro lock_inv_local [OF inv release_enter(1)]) (auto simp: owns_def nesting_def)
next
  case (release_done h l x c)
  have o: "owns (harts m h') l \<longleftrightarrow> h' = h" for h'
    using lock_invD(6) [OF inv, of h l h'] release_done by (auto simp: owns_def)
  then show ?thesis
    using release_done lock_invD [OF inv, where h = h] lock_invD(7) [OF inv] pop_off_ok [of "hcpu x"]
    by (intro lock_inv_local [OF inv release_done(1)]) (auto simp: owns_def nesting_def)
qed

lemma lock_reachable_inv: "lock_reachable m \<Longrightarrow> lock_inv m"
proof (induction rule: lock_reachable.induct)
  case (boot m i)
  then show ?case by (auto simp: lock_inv_def owns_def nesting_def cpu_ok_def initlock_def)
next
  case (step m m')
  then show ?case using lock_step_inv by blast
qed

section \<open>The whole operations as sequences of accesses\<close>

lemma acquire_steps:
  assumes "hpc (harts m h) = Outside" and "x = harts m h" and "acquire h (hcpu x) (locks m l) = Inr (c, lk)"
  shows "lock_step\<^sup>*\<^sup>* m (set_hart h (x\<lparr>hcpu := c, held := insert l (held x)\<rparr>) (set_lock l lk m))"
proof -
  have free: "\<not> holding h (locks m l)" "\<not> locked (locks m l)" and
    r: "c = push_off (hcpu x)" "lk = (locks m l)\<lparr>locked := True, lkcpu := Some h\<rparr>"
    using assms(3) by (auto simp: acquire_def Let_def split: if_splits)
  obtain hc H d where x: "x = \<lparr>hcpu = hc, hpc = Outside, held = H, depth = d\<rparr>"
    using that [of "hcpu x" "held x" "depth x"] assms(1,2) by simp
  define m1 where "m1 = set_hart h \<lparr>hcpu = c, hpc = Spinning l, held = H, depth = d\<rparr> m"
  define m2 where "m2 = set_hart h \<lparr>hcpu = c, hpc = Took l, held = H, depth = d\<rparr>
    (set_lock l ((locks m l)\<lparr>locked := True\<rparr>) m)"
  have 1: "lock_step m m1"
    using lock_step.acquire_enter [OF assms(1,2) free(1)] by (simp add: m1_def x r(1))
  have "hpc (harts m1 h) = Spinning l" "\<not> locked (locks m1 l)" using free(2) by (simp_all add: m1_def)
  from lock_step.acquire_swap [OF this(1) refl this(2)] have 2: "lock_step m1 m2"
    by (simp add: m1_def m2_def set_hart_def set_lock_def)
  have "hpc (harts m2 h) = Took l" by (simp add: m2_def)
  from lock_step.acquire_done [OF this refl]
  have 3: "lock_step m2 (set_hart h (x\<lparr>hcpu := c, held := insert l (held x)\<rparr>) (set_lock l lk m))"
    by (simp add: m2_def x r(2) set_hart_def set_lock_def)
  show ?thesis using 1 2 3 by (blast intro: rtranclp.intros)
qed

section \<open>Properties\<close>

text \<open>
  C25. Mutual exclusion: however the harts interleave the accesses of \<open>acquire\<close> and \<open>release\<close>, no two of them are
  inside the critical section of one lock.
\<close>

theorem spinlock_mutual_exclusion:
  assumes "lock_reachable m" and "l \<in> held (harts m h)" and "l \<in> held (harts m h')"
  shows "h = h'"
  using lock_invD(6) [OF lock_reachable_inv [OF assms(1)], of h l h'] assms(2,3) by (simp add: owns_def)

text \<open>The machine after boot, and after hart 1 has acquired lock 7.\<close>

definition booted_harts :: machine where
  "booted_harts = \<lparr>harts = (\<lambda>_. \<lparr>hcpu = \<lparr>noff = 0, intena = False, sie = True\<rparr>, hpc = Outside, held = {}, depth = 0\<rparr>),
     locks = (\<lambda>_. initlock)\<rparr>"

definition locked_harts :: machine where
  "locked_harts = set_hart 1 \<lparr>hcpu = \<lparr>noff = 1, intena = True, sie = False\<rparr>, hpc = Outside, held = {7}, depth = 0\<rparr>
     (set_lock 7 \<lparr>locked = True, lkcpu = Some 1\<rparr> booted_harts)"

lemma lock_reachable_steps: "lock_step\<^sup>*\<^sup>* m m' \<Longrightarrow> lock_reachable m \<Longrightarrow> lock_reachable m'"
  by (induction rule: rtranclp_induct) (auto intro: lock_reachable.step)

lemma locked_harts_reachable: "lock_reachable locked_harts"
proof -
  have "lock_step\<^sup>*\<^sup>* booted_harts locked_harts"
    using acquire_steps [of booted_harts 1 "harts booted_harts 1" 7
        "\<lparr>noff = 1, intena = True, sie = False\<rparr>" "\<lparr>locked = True, lkcpu = Some 1\<rparr>"]
    by (simp add: booted_harts_def locked_harts_def acquire_def push_off_def intr_defs holding_def initlock_def)
  moreover have "lock_reachable booted_harts"
    by (rule lock_reachable.boot [of _ "\<lambda>_. True"]) (simp_all add: booted_harts_def)
  ultimately show ?thesis by (rule lock_reachable_steps)
qed

theorem spinlock_mutual_exclusion_witness: "{h. 7 \<in> held (harts locked_harts h)} = {1}"
proof (intro equalityI subsetI)
  have one: "7 \<in> held (harts locked_harts 1)" by (simp add: locked_harts_def)
  then show "h \<in> {h. 7 \<in> held (harts locked_harts h)}" if "h \<in> {1}" for h using that by simp
  show "h \<in> {1}" if "h \<in> {h. 7 \<in> held (harts locked_harts h)}" for h
    using spinlock_mutual_exclusion [OF locked_harts_reachable _ one, of h] that by simp
qed



text \<open>
  \<open>push_off\<close> and \<open>pop_off\<close> are matched: after any number of \<open>push_off\<close>s, as many \<open>pop_off\<close>s return the hart
  to the nesting depth and the interrupt state it had, and never panic.
\<close>

lemma push_off_pop_off:
  assumes "cpu_ok c"
  shows "\<exists>c'. pop_many n (push_many n c) = Inr c' \<and> noff c' = noff c \<and> sie c' = sie c"
  using pop_push_many [OF assms, of n] by (cases n) auto

end
