(* ===== verification/Kproc.thy ===== *)
theory Kproc
  imports Uaccess
begin

text \<open>
  The process table (\<open>proc.h\<close>, \<open>proc.c\<close>) as far as the rest of the kernel needs it: \<open>struct proc\<close>, the current
  process of a hart, sleeping and waking, killing, the scheduler's state changes, and the copies between the kernel
  and the current process. Creating and ending processes, which needs files and inodes, is in another theory.

  A pointer to a \<open>struct proc\<close> is its index in the table; \<open>p->lock\<close> and \<open>wait_lock\<close> are elided, an operation
  that runs under them being one step.
\<close>

section \<open>State\<close>

abbreviation NPROC :: nat where "NPROC \<equiv> 64"
abbreviation NOFILE :: nat where "NOFILE \<equiv> 16"

datatype procstate = UNUSED | USED | SLEEPING | RUNNABLE | RUNNING | ZOMBIE

text \<open>The kernel objects whose addresses serve as sleep channels.\<close>

datatype chan = ChanProc nat | ChanPipeRead u64 | ChanPipeWrite u64 | ChanLog | ChanBuf nat | ChanInode nat
  | ChanCons | ChanUart | ChanTicks | ChanDisk | ChanIo nat

record kcontext =
  ctx_ra :: u64
  ctx_sp :: u64
  ctx_s :: "u64 list"

record proc =
  pstate :: procstate
  pchan :: "chan option"
  pkilled :: int
  xstate :: int
  pid :: int
  parent :: "nat option"
  kstack :: u64
  psz :: u64
  pagetable :: u64
  trapframe :: u64
  pcontext :: kcontext
  ofile :: "nat option list"
  cwd :: "nat option"
  pname :: "u8 list"

record kproc = kmem +
  procs :: "proc list"
  nextpid :: int
  initproc :: "nat option"
  cpus :: "nat \<Rightarrow> nat option"
  hartid :: nat

definition upd_proc :: "nat \<Rightarrow> (proc \<Rightarrow> proc) \<Rightarrow> 'a kproc_scheme \<Rightarrow> 'a kproc_scheme" where
  "upd_proc p f s = s\<lparr>procs := (procs s)[p := f (procs s ! p)]\<rparr>"

text \<open>The current process of the hart, or none; code that follows a null \<open>myproc()\<close> faults.\<close>

definition cpuid :: "'a kproc_scheme \<Rightarrow> nat" where
  "cpuid s = hartid s"

definition myproc :: "'a kproc_scheme \<Rightarrow> nat option" where
  "myproc s = cpus s (cpuid s)"

definition curproc :: "'a kproc_scheme \<Rightarrow> nat kres" where
  "curproc s = (case myproc s of None \<Rightarrow> Inl (PageFault 0) | Some p \<Rightarrow> Inr p)"

definition mypid :: "'a kproc_scheme \<Rightarrow> int kres" where
  "mypid s = kbind (curproc s) (\<lambda>p. Inr (pid (procs s ! p)))"

definition KSTACK :: "nat \<Rightarrow> u64" where
  "KSTACK p = (MAXVA - PGSIZE) - of_nat (p + 1) * 2 * PGSIZE"

definition procinit :: "'a kproc_scheme \<Rightarrow> 'a kproc_scheme" where
  "procinit s = s\<lparr>procs := map (\<lambda>p. (procs s ! p)\<lparr>pstate := UNUSED, kstack := KSTACK p\<rparr>) [0..<NPROC]\<rparr>"

text \<open>\<open>nextpid\<close> is an \<open>int\<close>.\<close>

definition wrap32 :: "int \<Rightarrow> int" where
  "wrap32 i = (i + 2147483648) mod 4294967296 - 2147483648"

definition allocpid :: "'a kproc_scheme \<Rightarrow> int \<times> 'a kproc_scheme" where
  "allocpid s = (nextpid s, s\<lparr>nextpid := wrap32 (nextpid s + 1)\<rparr>)"

section \<open>Sleep and wakeup, kill\<close>

definition wakeup :: "chan \<Rightarrow> 'a kproc_scheme \<Rightarrow> 'a kproc_scheme" where
  "wakeup c s = s\<lparr>procs := map (\<lambda>i. let p = procs s ! i in
     if myproc s \<noteq> Some i \<and> pstate p = SLEEPING \<and> pchan p = Some c then p\<lparr>pstate := RUNNABLE\<rparr> else p)
     [0..<length (procs s)]\<rparr>"

fun kill_from :: "nat \<Rightarrow> int \<Rightarrow> proc list \<Rightarrow> nat option" where
  "kill_from i n [] = None"
| "kill_from i n (p # ps) = (if pid p = n then Some i else kill_from (Suc i) n ps)"

definition kill :: "int \<Rightarrow> 'a kproc_scheme \<Rightarrow> int \<times> 'a kproc_scheme" where
  "kill n s =
     (case kill_from 0 n (procs s) of
        None \<Rightarrow> (-1, s)
      | Some i \<Rightarrow> (0, upd_proc i (\<lambda>p. (if pstate p = SLEEPING then p\<lparr>pstate := RUNNABLE\<rparr> else p)\<lparr>pkilled := 1\<rparr>) s))"

definition setkilled :: "nat \<Rightarrow> 'a kproc_scheme \<Rightarrow> 'a kproc_scheme" where
  "setkilled p s = upd_proc p (\<lambda>p. p\<lparr>pkilled := 1\<rparr>) s"

definition killed :: "nat \<Rightarrow> 'a kproc_scheme \<Rightarrow> int" where
  "killed p s = pkilled (procs s ! p)"

text \<open>
  \<open>swtch\<close> to the scheduler gives up the hart: the scheduler clears \<open>c->proc\<close>. The tests of \<open>sched\<close> on the lock, the
  nesting depth and the interrupt bit concern the locks.
\<close>

definition sched :: "'a kproc_scheme \<Rightarrow> 'a kproc_scheme kres" where
  "sched s =
     kbind (curproc s) (\<lambda>p.
     if pstate (procs s ! p) = RUNNING then Inl (Panic ''sched running'')
     else Inr (s\<lparr>cpus := (cpus s)(cpuid s := None)\<rparr>))"

definition yield :: "'a kproc_scheme \<Rightarrow> 'a kproc_scheme kres" where
  "yield s = kbind (curproc s) (\<lambda>p. sched (upd_proc p (\<lambda>p. p\<lparr>pstate := RUNNABLE\<rparr>) s))"

definition sleep :: "chan \<Rightarrow> 'a kproc_scheme \<Rightarrow> 'a kproc_scheme kres" where
  "sleep c s = kbind (curproc s) (\<lambda>p. sched (upd_proc p (\<lambda>p. p\<lparr>pchan := Some c, pstate := SLEEPING\<rparr>) s))"

text \<open>The end of \<open>sleep\<close>, which runs once the process has been scheduled again.\<close>

definition sleep_return :: "'a kproc_scheme \<Rightarrow> 'a kproc_scheme kres" where
  "sleep_return s = kbind (curproc s) (\<lambda>p. Inr (upd_proc p (\<lambda>p. p\<lparr>pchan := None\<rparr>) s))"

text \<open>One iteration of the loop of \<open>scheduler\<close>, at process \<open>p\<close>; the hart has no process.\<close>

definition scheduler :: "nat \<Rightarrow> 'a kproc_scheme \<Rightarrow> 'a kproc_scheme" where
  "scheduler p s =
     (if pstate (procs s ! p) = RUNNABLE
      then (upd_proc p (\<lambda>p. p\<lparr>pstate := RUNNING\<rparr>) s)\<lparr>cpus := (cpus s)(cpuid s := Some p)\<rparr> else s)"

section \<open>Copies to and from a user or kernel buffer\<close>

text \<open>
  The pair of a flag and an address that \<open>either_copyout\<close> and \<open>either_copyin\<close> take: a user address, or a buffer
  of the kernel. As a destination the buffer is the bytes stored so far, as a source those still to be read.
\<close>

datatype uaddr = User u64 | Kern "u8 list"

fun advance :: "uaddr \<Rightarrow> nat \<Rightarrow> uaddr" where
  "advance (User a) n = User (a + of_nat n)"
| "advance (Kern bs) n = Kern bs"

fun either_copyout :: "'a kproc_scheme \<Rightarrow> uaddr \<Rightarrow> u8 list \<Rightarrow> (int \<times> uaddr \<times> 'a kproc_scheme) kres" where
  "either_copyout s (User dst) src =
     kbind (curproc s) (\<lambda>p.
     kbind (copyout s (pagetable (procs s ! p)) dst src) (\<lambda>(r, s). Inr (r, User dst, s)))"
| "either_copyout s (Kern dst) src = kbind (curproc s) (\<lambda>p. Inr (0, Kern (dst @ src), s))"

text \<open>The bytes copied come back also when \<open>copyin\<close> fails: it has stored those before the bad address.\<close>

fun either_copyin :: "'a kproc_scheme \<Rightarrow> uaddr \<Rightarrow> nat \<Rightarrow> (int \<times> u8 list \<times> uaddr) kres" where
  "either_copyin s (User src) len =
     kbind (curproc s) (\<lambda>p.
     kbind (copyin s (pagetable (procs s ! p)) src len) (\<lambda>(r, bs). Inr (r, bs, User src)))"
| "either_copyin s (Kern src) len = kbind (curproc s) (\<lambda>p. Inr (0, take len src, Kern (drop len src)))"

section \<open>Lemmas\<close>

lemma upd_proc_sel [simp]:
  "length (procs (upd_proc p f s)) = length (procs s)" "cpus (upd_proc p f s) = cpus s"
  "hartid (upd_proc p f s) = hartid s" "myproc (upd_proc p f s) = myproc s" "curproc (upd_proc p f s) = curproc s"
  by (simp_all add: upd_proc_def myproc_def curproc_def cpuid_def)

lemma upd_proc_nth: "p < length (procs s) \<Longrightarrow> procs (upd_proc p f s) ! q = (if q = p then f (procs s ! p) else procs s ! q)"
  by (auto simp: upd_proc_def)

lemma wakeup_sel [simp]:
  "length (procs (wakeup c s)) = length (procs s)" "cpus (wakeup c s) = cpus s"
  "hartid (wakeup c s) = hartid s" "myproc (wakeup c s) = myproc s" "curproc (wakeup c s) = curproc s"
  by (simp_all add: wakeup_def myproc_def curproc_def cpuid_def)

lemma wakeup_nth:
  "i < length (procs s) \<Longrightarrow> procs (wakeup c s) ! i =
     (if myproc s \<noteq> Some i \<and> pstate (procs s ! i) = SLEEPING \<and> pchan (procs s ! i) = Some c
      then (procs s ! i)\<lparr>pstate := RUNNABLE\<rparr> else procs s ! i)"
  by (simp add: wakeup_def Let_def)

lemma curproc_eq: "curproc s = Inr p \<longleftrightarrow> cpus s (hartid s) = Some p"
  by (simp add: curproc_def myproc_def cpuid_def split: option.splits)

lemma kill_from_found: "kill_from i n ps = Some j \<Longrightarrow> i \<le> j \<and> j < i + length ps \<and> pid (ps ! (j - i)) = n"
  by (induction i n ps rule: kill_from.induct) (auto split: if_splits simp: nth_Cons')

section \<open>The scheduler\<close>

text \<open>Exactly the running processes are on a hart, each on one.\<close>

definition sched_inv :: "'a kproc_scheme \<Rightarrow> bool" where
  "sched_inv s \<longleftrightarrow>
     (\<forall>h p. cpus s h = Some p \<longrightarrow> p < length (procs s) \<and> pstate (procs s ! p) = RUNNING) \<and>
     (\<forall>p < length (procs s). pstate (procs s ! p) = RUNNING \<longrightarrow> (\<exists>h. cpus s h = Some p)) \<and>
     (\<forall>h h' p. cpus s h = Some p \<and> cpus s h' = Some p \<longrightarrow> h = h')"

inductive sched_step :: "'a kproc_scheme \<Rightarrow> 'a kproc_scheme \<Rightarrow> bool" where
  other_hart: "sched_step s (s\<lparr>hartid := h\<rparr>)"
| pick: "myproc s = None \<Longrightarrow> p < length (procs s) \<Longrightarrow> sched_step s (scheduler p s)"
| yields: "yield s = Inr s' \<Longrightarrow> sched_step s s'"
| sleeps: "sleep c s = Inr s' \<Longrightarrow> sched_step s s'"
| slept: "sleep_return s = Inr s' \<Longrightarrow> sched_step s s'"
| wakes: "sched_step s (wakeup c s)"
| kills: "kill n s = (r, s') \<Longrightarrow> sched_step s s'"
| marks: "p < length (procs s) \<Longrightarrow> sched_step s (setkilled p s)"

text \<open>A change of one process that keeps whether it runs.\<close>

lemma sched_inv_upd:
  assumes "sched_inv s" and "p < length (procs s)"
    and "pstate (f (procs s ! p)) = RUNNING \<longleftrightarrow> pstate (procs s ! p) = RUNNING"
  shows "sched_inv (upd_proc p f s)"
  using assms unfolding sched_inv_def by (simp add: upd_proc_nth)

text \<open>A process that gives up its hart.\<close>

lemma sched_inv_leave:
  assumes inv: "sched_inv s" and p: "curproc s = Inr p"
    and r: "sched (upd_proc p f s) = Inr s'"
  shows "sched_inv s'"
proof -
  have c: "cpus s (hartid s) = Some p" using p by (simp add: curproc_eq)
  have l: "p < length (procs s)" using inv c by (simp add: sched_inv_def)
  have n: "pstate (f (procs s ! p)) \<noteq> RUNNING" and
    s': "s' = (upd_proc p f s)\<lparr>cpus := (cpus s)(hartid s := None)\<rparr>"
    using r p l by (auto simp: sched_def cpuid_def upd_proc_nth split: if_splits)
  have q: "procs s' ! q = (if q = p then f (procs s ! p) else procs s ! q)" for q
    using l by (simp add: s' upd_proc_nth)
  have cp: "cpus s' h = (if h = hartid s then None else cpus s h)" and len: "length (procs s') = length (procs s)" for h
    by (simp_all add: s')
  show ?thesis
    unfolding sched_inv_def len
  proof (intro conjI allI impI)
    fix h x assume x: "cpus s' h = Some x"
    then have "cpus s h = Some x" "h \<noteq> hartid s" by (auto simp: cp split: if_splits)
    moreover from this c inv have "x \<noteq> p" by (auto simp: sched_inv_def)
    ultimately show "x < length (procs s)" "pstate (procs s' ! x) = RUNNING"
      using inv by (auto simp: sched_inv_def q)
  next
    fix x assume x: "x < length (procs s)" "pstate (procs s' ! x) = RUNNING"
    then have "x \<noteq> p" "pstate (procs s ! x) = RUNNING" using n by (auto simp: q split: if_splits)
    then obtain h where "cpus s h = Some x" using inv x(1) by (auto simp: sched_inv_def)
    then show "\<exists>h. cpus s' h = Some x" using c \<open>x \<noteq> p\<close> by (auto simp: cp intro: exI [of _ h])
  next
    fix h h' x assume "cpus s' h = Some x \<and> cpus s' h' = Some x"
    then show "h = h'" using inv by (auto simp: sched_inv_def cp split: if_splits)
  qed
qed

lemma sched_inv_pick:
  assumes inv: "sched_inv s" and me: "myproc s = None" and p: "p < length (procs s)"
  shows "sched_inv (scheduler p s)"
proof (cases "pstate (procs s ! p) = RUNNABLE")
  case True
  let ?s' = "(upd_proc p (\<lambda>p. p\<lparr>pstate := RUNNING\<rparr>) s)\<lparr>cpus := (cpus s)(cpuid s := Some p)\<rparr>"
  have c: "cpus s (hartid s) = None" using me by (simp add: myproc_def cpuid_def)
  have np: "cpus s h \<noteq> Some p" for h using inv True by (auto simp: sched_inv_def)
  have "sched_inv ?s'"
    unfolding sched_inv_def
  proof (intro conjI allI impI)
    fix x assume x: "x < length (procs ?s')" "pstate (procs ?s' ! x) = RUNNING"
    show "\<exists>h. cpus ?s' h = Some x"
    proof (cases "x = p")
      case True
      then show ?thesis by (intro exI [of _ "cpuid s"]) simp
    next
      case False
      then obtain h where h: "cpus s h = Some x" using inv x p by (auto simp: sched_inv_def upd_proc_nth)
      then have "h \<noteq> cpuid s" using c by (auto simp: cpuid_def)
      then show ?thesis using h by (intro exI [of _ h]) simp
    qed
  qed (use inv p np in \<open>auto simp: sched_inv_def upd_proc_nth cpuid_def split: if_splits\<close>)
  then show ?thesis using True by (simp add: scheduler_def)
qed (use inv in \<open>simp add: scheduler_def\<close>)

lemma sched_step_inv:
  assumes "sched_step s s'" and "sched_inv s"
  shows "sched_inv s'"
  using assms
proof cases
  case (other_hart h)
  then show ?thesis using assms(2) by (simp add: sched_inv_def)
next
  case (pick p)
  then show ?thesis using sched_inv_pick assms(2) by blast
next
  case yields
  then show ?thesis using sched_inv_leave [OF assms(2)] by (auto simp: yield_def)
next
  case (sleeps c)
  then show ?thesis using sched_inv_leave [OF assms(2)] by (auto simp: sleep_def)
next
  case slept
  then show ?thesis
    using assms(2) by (auto simp: sleep_return_def curproc_eq intro!: sched_inv_upd) (auto simp: sched_inv_def)
next
  case (wakes c)
  then show ?thesis using assms(2) unfolding sched_inv_def by (auto simp: wakeup_nth)
next
  case (kills n r)
  show ?thesis
  proof (cases "kill_from 0 n (procs s)")
    case None
    then show ?thesis using kills assms(2) by (simp add: kill_def)
  next
    case (Some i)
    then have "i < length (procs s)" using kill_from_found by fastforce
    then show ?thesis using kills Some assms(2) by (auto simp: kill_def intro!: sched_inv_upd split: if_splits)
  qed
next
  case (marks p)
  then show ?thesis using assms(2) by (auto simp: setkilled_def intro!: sched_inv_upd)
qed


text \<open>A machine with one runnable and one sleeping process, and nothing running.\<close>

definition idle_proc :: "procstate \<Rightarrow> chan option \<Rightarrow> int \<Rightarrow> proc" where
  "idle_proc st c n = \<lparr>pstate = st, pchan = c, pkilled = 0, xstate = 0, pid = n, parent = None, kstack = 0, psz = 0,
     pagetable = 0, trapframe = 0, pcontext = \<lparr>ctx_ra = 0, ctx_sp = 0, ctx_s = []\<rparr>, ofile = replicate NOFILE None,
     cwd = None, pname = []\<rparr>"

definition two_idle :: kproc where
  "two_idle = \<lparr>ram = (\<lambda>_. 0), kend = 0x80022000, freelist = 0, refer_count = (\<lambda>_. 0),
     procs = [idle_proc RUNNABLE None 1, idle_proc SLEEPING (Some ChanLog) 2], nextpid = 3, initproc = Some 0,
     cpus = (\<lambda>_. None), hartid = 0\<rparr>"


end
