(* ===== verification/Blocks.thy ===== *)
theory Blocks
  imports Prelude
begin

text \<open>
  The contents of a disk block, and the little-endian integers that the on-disk structures of \<open>fs.h\<close> and \<open>log.c\<close>
  keep in it. A block is a function from the offsets below \<open>BSIZE\<close>; what it is elsewhere does not matter. The
  unsigned integer types are natural numbers with the truncation of a store written out.
\<close>

type_synonym blk = "nat \<Rightarrow> u8"

abbreviation BSIZE :: nat where "BSIZE \<equiv> 1024"

definition ld16 :: "blk \<Rightarrow> nat \<Rightarrow> nat" where
  "ld16 d x = unat (d x) + 256 * unat (d (x + 1))"

definition st16 :: "blk \<Rightarrow> nat \<Rightarrow> nat \<Rightarrow> blk" where
  "st16 d x v = d(x := of_nat v, x + 1 := of_nat (v div 256))"

definition ld32 :: "blk \<Rightarrow> nat \<Rightarrow> nat" where
  "ld32 d x = ld16 d x + 65536 * ld16 d (x + 2)"

definition st32 :: "blk \<Rightarrow> nat \<Rightarrow> nat \<Rightarrow> blk" where
  "st32 d x v = st16 (st16 d x v) (x + 2) (v div 65536)"

text \<open>A \<open>short\<close> read from its 16 bits, and written to them.\<close>

definition short_of :: "nat \<Rightarrow> int" where
  "short_of v = (if v < 32768 then int v else int v - 65536)"

definition of_short :: "int \<Rightarrow> nat" where
  "of_short i = nat (i mod 65536)"

section \<open>Integers in a block\<close>

text \<open>The contract of a field of \<open>w\<close> bytes: what a load gives after a store, at the same place or clear of it.\<close>

locale block_field =
  fixes ld :: "blk \<Rightarrow> nat \<Rightarrow> nat" and st :: "blk \<Rightarrow> nat \<Rightarrow> nat \<Rightarrow> blk" and w :: nat
  assumes ld_st: "ld (st d x v) x = v mod 256 ^ w"
    and ld_local: "(\<And>i. i < w \<Longrightarrow> d (x + i) = d' (x + i)) \<Longrightarrow> ld d x = ld d' x"
    and st_local: "y < x \<or> x + w \<le> y \<Longrightarrow> st d x v y = d y"
begin

lemma ld_st_small: "v < 256 ^ w \<Longrightarrow> ld (st d x v) x = v"
  by (simp add: ld_st)

lemma ld_st_other: "y + w \<le> x \<or> x + w \<le> y \<Longrightarrow> ld (st d x v) y = ld d y"
  by (rule ld_local) (auto intro: st_local)

text \<open>An array of such fields.\<close>

lemma ld_st_array: "ld (st d (x + w * i) v) (x + w * j) = (if i = j then v mod 256 ^ w else ld d (x + w * j))"
proof (cases "i = j")
  case False
  then have "w * j + w \<le> w * i \<or> w * i + w \<le> w * j"
    by (metis add.commute linorder_neqE_nat mult_Suc_right mult_le_mono2 Suc_leI)
  then show ?thesis using False by (simp add: ld_st_other)
qed (simp add: ld_st)

lemma ld_st_array_small: "v < 256 ^ w \<Longrightarrow> ld (st d (x + w * i) v) (x + w * j) = (if i = j then v else ld d (x + w * j))"
  by (simp add: ld_st_array)

end

lemma unat_of_nat8: "unat (of_nat v :: u8) = v mod 256"
  by (simp add: unat_of_nat)

lemma ld16_st16: "ld16 (st16 d x v) x = v mod 65536"
proof -
  have "v mod 256 + 256 * (v div 256 mod 256) = v mod 65536"
    using mod_mult2_eq [of v 256 256] by simp
  then show ?thesis by (simp add: ld16_def st16_def unat_of_nat8)
qed

lemma ld16_st16_other: "y + 2 \<le> x \<or> x + 2 \<le> y \<Longrightarrow> ld16 (st16 d x v) y = ld16 d y"
  by (auto simp: ld16_def st16_def)

interpretation b16: block_field ld16 st16 2
proof
  show "ld16 (st16 d x v) x = v mod 256 ^ 2" for d x v by (simp add: ld16_st16)
  show "ld16 d x = ld16 d' x" if "\<And>i. i < 2 \<Longrightarrow> d (x + i) = d' (x + i)" for d x d'
    using that [of 0] that [of 1] by (simp add: ld16_def)
  show "st16 d x v y = d y" if "y < x \<or> x + 2 \<le> y" for d x v y using that by (auto simp: st16_def)
qed

lemma ld32_st32: "ld32 (st32 d x v) x = v mod 4294967296"
proof -
  have "v mod 65536 + 65536 * (v div 65536 mod 65536) = v mod 4294967296"
    using mod_mult2_eq [of v 65536 65536] by simp
  then show ?thesis by (simp add: ld32_def st32_def ld16_st16 ld16_st16_other)
qed

interpretation b32: block_field ld32 st32 4
proof
  show "ld32 (st32 d x v) x = v mod 256 ^ 4" for d x v by (simp add: ld32_st32)
  show "ld32 d x = ld32 d' x" if "\<And>i. i < 4 \<Longrightarrow> d (x + i) = d' (x + i)" for d x d'
  proof -
    have "d x = d' x" "d (x + 1) = d' (x + 1)" "d (x + 2) = d' (x + 2)" "d (x + 2 + 1) = d' (x + 2 + 1)"
      using that [of 0] that [of 1] that [of 2] that [of "Suc (Suc (Suc 0))"] by simp_all
    then show ?thesis unfolding ld32_def ld16_def by (simp only:)
  qed
  show "st32 d x v y = d y" if "y < x \<or> x + 4 \<le> y" for d x v y using that by (auto simp: st32_def st16_def)
qed

lemma ld16_less: "ld16 d x < 65536"
proof -
  have "unat (d x) < 256" "unat (d (x + 1)) < 256" using unsigned_less [of "d x"] unsigned_less [of "d (x + 1)"] by simp_all
  then show ?thesis by (simp add: ld16_def)
qed

lemma ld32_less: "ld32 d x < 4294967296"
  using ld16_less [of d x] ld16_less [of d "x + 2"] by (simp add: ld32_def)

lemma short_of_of_short:
  assumes "- 32768 \<le> i" and "i < 32768"
  shows "short_of (of_short i) = i"
proof (cases "0 \<le> i")
  case True
  then have "i mod 65536 = i" using assms by (intro mod_pos_pos_trivial) simp_all
  then show ?thesis using assms True by (simp add: short_of_def of_short_def)
next
  case False
  have "(i + 65536) mod 65536 = i + 65536" using assms False by (intro mod_pos_pos_trivial) simp_all
  then have "i mod 65536 = i + 65536" by simp
  then show ?thesis using assms False by (simp add: short_of_def of_short_def)
qed

end
