(* ===== verification/Blockcache.thy ===== *)
theory Blockcache
  imports Blocks
begin

text \<open>
  The contract between the buffer cache and its clients, the log and the file system, and the clients' common idioms
  proved from it. The abstract state is the contents of the disk as seen through the cache, the disk itself, the
  references to each block's buffer, the number of buffers that can still be claimed, which buffer the caller has
  locked for which block, the blocks that are locked, and the writes that have reached the disk.
\<close>

record 'e vcache =
  vview :: "nat \<Rightarrow> blk"
  vdisk :: "nat \<Rightarrow> blk"
  vrefs :: "nat \<Rightarrow> nat"
  vroom :: nat
  vat :: "nat \<Rightarrow> nat option"
  vheld :: "nat set"
  vwrites :: "(nat \<times> blk) list"
  venv :: 'e

text \<open>No block that can lose its buffer has changes that are not on the disk.\<close>

definition vclean :: "'e vcache \<Rightarrow> bool" where
  "vclean v \<longleftrightarrow> (\<forall>n. vrefs v n = 0 \<longrightarrow> vview v n = vdisk v n)"

text \<open>What the operations do to the abstract state; \<open>i\<close> is the buffer and \<open>n\<close> its block.\<close>

definition v_bread :: "nat \<Rightarrow> nat \<Rightarrow> 'e vcache \<Rightarrow> 'e vcache" where
  "v_bread i n v = v\<lparr>vrefs := (vrefs v)(n := vrefs v n + 1),
     vroom := (if vrefs v n = 0 then vroom v - 1 else vroom v),
     vat := (vat v)(i \<mapsto> n), vheld := insert n (vheld v)\<rparr>"

definition v_brelse :: "nat \<Rightarrow> nat \<Rightarrow> 'e vcache \<Rightarrow> 'e vcache" where
  "v_brelse i n v = v\<lparr>vrefs := (vrefs v)(n := vrefs v n - 1),
     vroom := (if vrefs v n = 1 then vroom v + 1 else vroom v),
     vat := (vat v)(i := None), vheld := vheld v - {n}\<rparr>"

definition v_set :: "nat \<Rightarrow> blk \<Rightarrow> 'e vcache \<Rightarrow> 'e vcache" where
  "v_set n x v = v\<lparr>vview := (vview v)(n := x)\<rparr>"

definition v_write :: "nat \<Rightarrow> 'e vcache \<Rightarrow> 'e vcache" where
  "v_write n v = v\<lparr>vdisk := (vdisk v)(n := vview v n), vwrites := vwrites v @ [(n, vview v n)]\<rparr>"

definition v_pin :: "nat \<Rightarrow> 'e vcache \<Rightarrow> 'e vcache" where
  "v_pin n v = v\<lparr>vrefs := (vrefs v)(n := vrefs v n + 1)\<rparr>"

definition v_unpin :: "nat \<Rightarrow> 'e vcache \<Rightarrow> 'e vcache" where
  "v_unpin n v = v\<lparr>vrefs := (vrefs v)(n := vrefs v n - 1)\<rparr>"

lemmas v_defs = v_bread_def v_brelse_def v_set_def v_write_def v_pin_def v_unpin_def

locale block_cache =
  fixes bread :: "nat \<Rightarrow> 's \<Rightarrow> (nat \<times> 's) kres"
    and brelse :: "nat \<Rightarrow> 's \<Rightarrow> 's kres"
    and bwrite :: "nat \<Rightarrow> 's \<Rightarrow> 's kres"
    and bpin :: "nat \<Rightarrow> 's \<Rightarrow> 's"
    and bunpin :: "nat \<Rightarrow> 's \<Rightarrow> 's"
    and data :: "'s \<Rightarrow> nat \<Rightarrow> blk"
    and set_data :: "nat \<Rightarrow> blk \<Rightarrow> 's \<Rightarrow> 's"
    and ok :: "'s \<Rightarrow> bool"
    and abs :: "'s \<Rightarrow> 'e vcache"
  assumes at_held: "ok s \<Longrightarrow> vat (abs s) i = Some n \<Longrightarrow> n \<in> vheld (abs s) \<and> 0 < vrefs (abs s) n"
    and at_inj: "ok s \<Longrightarrow> vat (abs s) i = Some n \<Longrightarrow> vat (abs s) j = Some n \<Longrightarrow> i = j"
    and data_at: "ok s \<Longrightarrow> vat (abs s) i = Some n \<Longrightarrow> data s i = vview (abs s) n"
    and bread_ok: "ok s \<Longrightarrow> vclean (abs s) \<Longrightarrow> n \<notin> vheld (abs s) \<Longrightarrow> 0 < vrefs (abs s) n \<or> 0 < vroom (abs s) \<Longrightarrow>
      \<exists>i s'. bread n s = Inr (i, s') \<and> ok s' \<and> vat (abs s) i = None \<and> abs s' = v_bread i n (abs s)"
    and brelse_ok: "ok s \<Longrightarrow> vat (abs s) i = Some n \<Longrightarrow> \<exists>s'. brelse i s = Inr s' \<and> ok s' \<and> abs s' = v_brelse i n (abs s)"
    and set_data_ok: "ok s \<Longrightarrow> vat (abs s) i = Some n \<Longrightarrow> ok (set_data i x s) \<and> abs (set_data i x s) = v_set n x (abs s)"
    and bwrite_ok: "ok s \<Longrightarrow> vat (abs s) i = Some n \<Longrightarrow> \<exists>s'. bwrite i s = Inr s' \<and> ok s' \<and> abs s' = v_write n (abs s)"
    and bpin_ok: "ok s \<Longrightarrow> vat (abs s) i = Some n \<Longrightarrow> ok (bpin i s) \<and> abs (bpin i s) = v_pin n (abs s)"
    and bunpin_ok: "ok s \<Longrightarrow> vat (abs s) i = Some n \<Longrightarrow> 1 < vrefs (abs s) n \<Longrightarrow>
      ok (bunpin i s) \<and> abs (bunpin i s) = v_unpin n (abs s)"
begin

text \<open>Reading a block and letting it go changes nothing; the caller has its contents in between.\<close>

lemma read_release:
  assumes "ok s" and "vclean (abs s)" and "n \<notin> vheld (abs s)" and "0 < vrefs (abs s) n \<or> 0 < vroom (abs s)"
  obtains i s1 s2 where "bread n s = Inr (i, s1)" "data s1 i = vview (abs s) n" "abs s1 = v_bread i n (abs s)" "ok s1"
    "brelse i s1 = Inr s2" "ok s2" "abs s2 = abs s"
proof -
  obtain i s1 where r: "bread n s = Inr (i, s1)" "ok s1" "vat (abs s) i = None" "abs s1 = v_bread i n (abs s)"
    using bread_ok [OF assms] by blast
  have a: "vat (abs s1) i = Some n" by (simp add: r(4) v_bread_def)
  obtain s2 where b: "brelse i s1 = Inr s2" "ok s2" "abs s2 = v_brelse i n (abs s1)" using brelse_ok [OF r(2) a] by blast
  have "abs s2 = abs s"
    using r(3) assms(3,4) by (auto simp: b(3) r(4) v_defs fun_upd_idem)
  then show thesis using that r b data_at [OF r(2) a] by (simp add: r(4) v_bread_def)
qed

text \<open>Two blocks locked, the first one first; the caller then works on them.\<close>

lemma read_two:
  assumes ok: "ok s" and c: "vclean (abs s)" and ab: "a \<notin> vheld (abs s)" "b \<notin> vheld (abs s)" "a \<noteq> b"
    and room: "(if vrefs (abs s) a = 0 then 1 else 0) + (if vrefs (abs s) b = 0 then 1 else 0) \<le> vroom (abs s)"
  obtains i j s1 s2 where "bread a s = Inr (i, s1)" "bread b s1 = Inr (j, s2)" "ok s2" "i \<noteq> j"
    "vat (abs s) i = None" "vat (abs s) j = None" "abs s2 = v_bread j b (v_bread i a (abs s))"
    "data s2 i = vview (abs s) a" "data s2 j = vview (abs s) b"
proof -
  have "0 < vrefs (abs s) a \<or> 0 < vroom (abs s)" using room by (auto split: if_splits)
  then obtain i s1 where r: "bread a s = Inr (i, s1)" "ok s1" "vat (abs s) i = None" "abs s1 = v_bread i a (abs s)"
    using bread_ok [OF ok c ab(1)] by blast
  have "vclean (abs s1)" using c by (auto simp: r(4) vclean_def v_bread_def)
  moreover have "b \<notin> vheld (abs s1)" using ab by (simp add: r(4) v_bread_def)
  moreover have "0 < vrefs (abs s1) b \<or> 0 < vroom (abs s1)"
    using room ab(3) by (auto simp: r(4) v_bread_def split: if_splits)
  ultimately obtain j s2 where q: "bread b s1 = Inr (j, s2)" "ok s2" "vat (abs s1) j = None" "abs s2 = v_bread j b (abs s1)"
    using bread_ok [OF r(2)] by blast
  have ij: "i \<noteq> j" and j: "vat (abs s) j = None" using q(3) by (auto simp: r(4) v_bread_def split: if_splits)
  have "vat (abs s2) i = Some a" "vat (abs s2) j = Some b" using ij by (simp_all add: q(4) r(4) v_bread_def)
  then have "data s2 i = vview (abs s) a" "data s2 j = vview (abs s) b"
    using data_at [OF q(2)] by (simp_all add: q(4) r(4) v_bread_def)
  then show thesis using that r q ij j by simp
qed

text \<open>Copying block \<open>b\<close> over block \<open>a\<close> and writing that to the disk: how the log is written.\<close>

lemma copy_to_first:
  assumes ok: "ok s" and c: "vclean (abs s)" and ab: "a \<notin> vheld (abs s)" "b \<notin> vheld (abs s)" "a \<noteq> b"
    and room: "(if vrefs (abs s) a = 0 then 1 else 0) + (if vrefs (abs s) b = 0 then 1 else 0) \<le> vroom (abs s)"
  shows "\<exists>s'. kbind (bread a s) (\<lambda>(i, s). kbind (bread b s) (\<lambda>(j, s).
      kbind (bwrite i (set_data i (data s j) s)) (\<lambda>s. kbind (brelse j s) (\<lambda>s. brelse i s)))) = Inr s' \<and>
    ok s' \<and> abs s' = v_write a (v_set a (vview (abs s) b) (abs s))"
proof -
  obtain i j s1 s2 where r: "bread a s = Inr (i, s1)" "bread b s1 = Inr (j, s2)" "ok s2" "i \<noteq> j"
    "vat (abs s) i = None" "vat (abs s) j = None" "abs s2 = v_bread j b (v_bread i a (abs s))"
    "data s2 i = vview (abs s) a" "data s2 j = vview (abs s) b"
    using read_two [OF assms] .
  let ?x = "vview (abs s) b"
  have at2: "vat (abs s2) i = Some a" using r(4) by (simp add: r(7) v_defs)
  have s3: "ok (set_data i ?x s2)" "abs (set_data i ?x s2) = v_set a ?x (abs s2)"
    using set_data_ok [OF r(3) at2] by blast+
  have "vat (abs (set_data i ?x s2)) i = Some a" using r(4) by (simp add: s3 r(7) v_defs)
  then obtain s4 where s4: "bwrite i (set_data i ?x s2) = Inr s4" "ok s4" "abs s4 = v_write a (abs (set_data i ?x s2))"
    using bwrite_ok [OF s3(1)] by blast
  have "vat (abs s4) j = Some b" by (simp add: s4(3) s3(2) r(7) v_defs)
  then obtain s5 where s5: "brelse j s4 = Inr s5" "ok s5" "abs s5 = v_brelse j b (abs s4)" using brelse_ok [OF s4(2)] by blast
  have "vat (abs s5) i = Some a" using r(4) by (simp add: s5(3) s4(3) s3(2) r(7) v_defs)
  then obtain s6 where s6: "brelse i s5 = Inr s6" "ok s6" "abs s6 = v_brelse i a (abs s5)" using brelse_ok [OF s5(2)] by blast
  have "(vat (abs s))(j := None) = vat (abs s)" "(vat (abs s))(i := None) = vat (abs s)" using r(5,6) by (simp_all add: fun_upd_idem)
  then have "abs s6 = v_write a (v_set a ?x (abs s))"
    using r(4) ab room
    by (auto simp: s6(3) s5(3) s4(3) s3(2) r(7) v_defs fun_upd_twist [of i j] fun_upd_idem split: if_splits)
  then show ?thesis using r(1,2,9) s4(1) s5(1) s6(1,2) by simp
qed

text \<open>
  Copying block \<open>a\<close> over block \<open>b\<close>, and unpinning \<open>b\<close> if it was pinned: how the log is installed. The last
  reference gone, the buffer can be claimed again.
\<close>

lemma copy_to_second:
  assumes ok: "ok s" and c: "vclean (abs s)" and ab: "a \<notin> vheld (abs s)" "b \<notin> vheld (abs s)" "a \<noteq> b"
    and room: "(if vrefs (abs s) a = 0 then 1 else 0) + (if vrefs (abs s) b = 0 then 1 else 0) \<le> vroom (abs s)"
    and pin: "unpin \<Longrightarrow> 0 < vrefs (abs s) b"
  shows "\<exists>s'. kbind (bread a s) (\<lambda>(i, s). kbind (bread b s) (\<lambda>(j, s).
      kbind (bwrite j (set_data j (data s i) s)) (\<lambda>s.
      kbind (brelse i (if unpin then bunpin j s else s)) (\<lambda>s. brelse j s)))) = Inr s' \<and> ok s' \<and>
    abs s' = (let v = v_write b (v_set b (vview (abs s) a) (abs s)) in
      if unpin then (v_unpin b v)\<lparr>vroom := (if vrefs v b = 1 then vroom v + 1 else vroom v)\<rparr> else v)"
proof -
  obtain i j s1 s2 where r: "bread a s = Inr (i, s1)" "bread b s1 = Inr (j, s2)" "ok s2" "i \<noteq> j"
    "vat (abs s) i = None" "vat (abs s) j = None" "abs s2 = v_bread j b (v_bread i a (abs s))"
    "data s2 i = vview (abs s) a" "data s2 j = vview (abs s) b"
    using read_two [OF ok c ab room] .
  let ?x = "vview (abs s) a"
  have at2: "vat (abs s2) j = Some b" by (simp add: r(7) v_defs)
  have s3: "ok (set_data j ?x s2)" "abs (set_data j ?x s2) = v_set b ?x (abs s2)"
    using set_data_ok [OF r(3) at2] by blast+
  have "vat (abs (set_data j ?x s2)) j = Some b" by (simp add: s3 r(7) v_defs)
  then obtain s4 where s4: "bwrite j (set_data j ?x s2) = Inr s4" "ok s4" "abs s4 = v_write b (abs (set_data j ?x s2))"
    using bwrite_ok [OF s3(1)] by blast
  define s5 where "s5 = (if unpin then bunpin j s4 else s4)"
  have at4: "vat (abs s4) j = Some b" by (simp add: s4(3) s3(2) r(7) v_defs)
  have s5: "ok s5" "abs s5 = (if unpin then v_unpin b (abs s4) else abs s4)"
    using bunpin_ok [OF s4(2) at4] s4(2) pin ab(3) by (auto simp: s5_def s4(3) s3(2) r(7) v_defs)
  have "vat (abs s5) i = Some a" using r(4) by (simp add: s5(2) s4(3) s3(2) r(7) v_defs)
  then obtain s6 where s6: "brelse i s5 = Inr s6" "ok s6" "abs s6 = v_brelse i a (abs s5)" using brelse_ok [OF s5(1)] by blast
  have "vat (abs s6) j = Some b" using r(4) by (simp add: s6(3) s5(2) s4(3) s3(2) r(7) v_defs)
  then obtain s7 where s7: "brelse j s6 = Inr s7" "ok s7" "abs s7 = v_brelse j b (abs s6)" using brelse_ok [OF s6(2)] by blast
  have "(vat (abs s))(j := None) = vat (abs s)" "(vat (abs s))(i := None) = vat (abs s)" using r(5,6) by (simp_all add: fun_upd_idem)
  then have "abs s7 = (let v = v_write b (v_set b ?x (abs s)) in
      if unpin then (v_unpin b v)\<lparr>vroom := (if vrefs v b = 1 then vroom v + 1 else vroom v)\<rparr> else v)"
    using r(4) ab room pin
    by (cases unpin; intro vcache.equality; simp add: Let_def s7(3) s6(3) s5(2) s4(3) s3(2) r(7) v_defs
        fun_upd_twist [of i j] fun_upd_idem) (auto split: if_splits)
  then show ?thesis using r(1,2,8) s4(1) s6(1) s7(1,2) by (simp add: s5_def)
qed

text \<open>Changing a block and writing it to the disk, as for the header of the log.\<close>

lemma write_block:
  assumes "ok s" and "vclean (abs s)" and "n \<notin> vheld (abs s)" and "0 < vrefs (abs s) n \<or> 0 < vroom (abs s)"
  shows "\<exists>s'. kbind (bread n s) (\<lambda>(i, s). kbind (bwrite i (set_data i (f (data s i)) s)) (\<lambda>s. brelse i s)) = Inr s' \<and>
    ok s' \<and> abs s' = v_write n (v_set n (f (vview (abs s) n)) (abs s))"
proof -
  obtain i s1 where r: "bread n s = Inr (i, s1)" "ok s1" "vat (abs s) i = None" "abs s1 = v_bread i n (abs s)"
    using bread_ok [OF assms] by blast
  let ?x = "f (vview (abs s) n)"
  have at1: "vat (abs s1) i = Some n" by (simp add: r(4) v_defs)
  have d: "data s1 i = vview (abs s) n" using data_at [OF r(2) at1] by (simp add: r(4) v_defs)
  have s2: "ok (set_data i ?x s1)" "abs (set_data i ?x s1) = v_set n ?x (abs s1)" using set_data_ok [OF r(2) at1] by blast+
  have "vat (abs (set_data i ?x s1)) i = Some n" by (simp add: s2(2) r(4) v_defs)
  then obtain s3 where s3: "bwrite i (set_data i ?x s1) = Inr s3" "ok s3" "abs s3 = v_write n (abs (set_data i ?x s1))"
    using bwrite_ok [OF s2(1)] by blast
  have "vat (abs s3) i = Some n" by (simp add: s3(3) s2(2) r(4) v_defs)
  then obtain s4 where s4: "brelse i s3 = Inr s4" "ok s4" "abs s4 = v_brelse i n (abs s3)" using brelse_ok [OF s3(2)] by blast
  have "abs s4 = v_write n (v_set n ?x (abs s))"
    using r(3) assms(3,4) by (auto simp: s4(3) s3(3) s2(2) r(4) v_defs fun_upd_idem)
  then show ?thesis using r(1) d s3(1) s4(1,2) by auto
qed

end

end
