(* ===== verification/Bio.thy ===== *)
theory Bio
  imports Kproc Blockcache
begin

text \<open>
  Sleep locks (\<open>sleeplock.c\<close>) and the buffer cache (\<open>bio.c\<close>): the buffers, the doubly linked list that keeps them
  in order of use, and the operations. The disk is an array of blocks; \<open>dwrites\<close> records the block writes in the
  order in which they reach it. A call that has to wait for a sleep lock is \<open>Sleeps\<close>.
\<close>

section \<open>Sleep locks\<close>

record sleeplock =
  slocked :: bool
  spid :: int

definition initsleeplock :: sleeplock where
  "initsleeplock = \<lparr>slocked = False, spid = 0\<rparr>"

definition acquiresleep :: "'a kproc_scheme \<Rightarrow> sleeplock \<Rightarrow> sleeplock kres" where
  "acquiresleep s lk =
     (if slocked lk then Inl (Sleeps ''acquiresleep'')
      else kbind (mypid s) (\<lambda>n. Inr (lk\<lparr>slocked := True, spid := n\<rparr>)))"

definition releasesleep :: "chan \<Rightarrow> 'a kproc_scheme \<Rightarrow> sleeplock \<Rightarrow> sleeplock \<times> 'a kproc_scheme" where
  "releasesleep c s lk = (lk\<lparr>slocked := False, spid := 0\<rparr>, wakeup c s)"

definition holdingsleep :: "'a kproc_scheme \<Rightarrow> sleeplock \<Rightarrow> bool kres" where
  "holdingsleep s lk = (if slocked lk then kbind (mypid s) (\<lambda>n. Inr (spid lk = n)) else Inr False)"

text \<open>The hart has a process, with process id \<open>q\<close>.\<close>

definition running :: "int \<Rightarrow> 'a kproc_scheme \<Rightarrow> bool" where
  "running q s \<longleftrightarrow> (\<exists>p < length (procs s). myproc s = Some p \<and> pid (procs s ! p) = q)"

lemma running_mypid: "running q s \<Longrightarrow> mypid s = Inr q"
  by (auto simp: running_def mypid_def curproc_def)

lemma running_wakeup [simp]: "running q (wakeup c s) = running q s"
  by (auto simp: running_def wakeup_nth)


lemma sleeplock_upd [simp]: "(lk :: sleeplock)\<lparr>slocked := a, spid := b\<rparr> = \<lparr>slocked = a, spid = b\<rparr>"
  by (cases lk) simp

section \<open>State of the cache\<close>

abbreviation NBUF :: nat where "NBUF \<equiv> 30"

definition ROOTDEV :: nat where
  "ROOTDEV = 1"

lemma ROOTDEV_nonzero [simp]: "ROOTDEV \<noteq> 0" "0 < ROOTDEV"
  by (simp_all add: ROOTDEV_def)

record buf =
  bvalid :: bool
  bdev :: nat
  bno :: nat
  block_lk :: sleeplock
  brefcnt :: nat
  bdata :: blk

text \<open>A pointer to a buffer is its index; \<open>NBUF\<close> is the list head.\<close>

record bcache = kproc +
  disk :: "nat \<Rightarrow> blk"
  dwrites :: "(nat \<times> blk) list"
  bufs :: "nat \<Rightarrow> buf"
  bnext :: "nat \<Rightarrow> nat"
  bprev :: "nat \<Rightarrow> nat"

definition upd_buf :: "nat \<Rightarrow> (buf \<Rightarrow> buf) \<Rightarrow> 'a bcache_scheme \<Rightarrow> 'a bcache_scheme" where
  "upd_buf b f s = s\<lparr>bufs := (bufs s)(b := f (bufs s b))\<rparr>"

text \<open>What the driver and the device do for one request: move a block in or out.\<close>

definition virtio_disk_rw :: "nat \<Rightarrow> bool \<Rightarrow> 'a bcache_scheme \<Rightarrow> 'a bcache_scheme" where
  "virtio_disk_rw b write s =
     (let n = bno (bufs s b) in
      if write then s\<lparr>disk := (disk s)(n := bdata (bufs s b)), dwrites := dwrites s @ [(n, bdata (bufs s b))]\<rparr>
      else upd_buf b (\<lambda>x. x\<lparr>bdata := disk s n\<rparr>) s)"

section \<open>The list\<close>

definition link_front :: "nat \<Rightarrow> 'a bcache_scheme \<Rightarrow> 'a bcache_scheme" where
  "link_front b s =
     (let s = s\<lparr>bnext := (bnext s)(b := bnext s NBUF)\<rparr>;
          s = s\<lparr>bprev := (bprev s)(b := NBUF)\<rparr>;
          s = s\<lparr>bprev := (bprev s)(bnext s NBUF := b)\<rparr>
      in s\<lparr>bnext := (bnext s)(NBUF := b)\<rparr>)"

definition unlink :: "nat \<Rightarrow> 'a bcache_scheme \<Rightarrow> 'a bcache_scheme" where
  "unlink b s =
     (let s = s\<lparr>bprev := (bprev s)(bnext s b := bprev s b)\<rparr>
      in s\<lparr>bnext := (bnext s)(bprev s b := bnext s b)\<rparr>)"

fun binit_from :: "nat \<Rightarrow> nat \<Rightarrow> 'a bcache_scheme \<Rightarrow> 'a bcache_scheme" where
  "binit_from b 0 s = s"
| "binit_from b (Suc n) s =
     binit_from (Suc b) n (link_front b (upd_buf b (\<lambda>x. x\<lparr>block_lk := initsleeplock\<rparr>) s))"

definition binit :: "'a bcache_scheme \<Rightarrow> 'a bcache_scheme" where
  "binit s = binit_from 0 NBUF (s\<lparr>bprev := (bprev s)(NBUF := NBUF), bnext := (bnext s)(NBUF := NBUF)\<rparr>)"

text \<open>
  The loops of \<open>bget\<close> over the list, forwards along \<open>next\<close> or backwards along \<open>prev\<close>, with a bound on the number of
  steps: the list has \<open>NBUF\<close> elements.
\<close>

fun bscan :: "(nat \<Rightarrow> nat) \<Rightarrow> (nat \<Rightarrow> bool) \<Rightarrow> nat \<Rightarrow> nat \<Rightarrow> nat option" where
  "bscan nxt P b 0 = None"
| "bscan nxt P b (Suc n) = (if b = NBUF then None else if P b then Some b else bscan nxt P (nxt b) n)"

definition bget :: "nat \<Rightarrow> nat \<Rightarrow> 'a bcache_scheme \<Rightarrow> (nat \<times> 'a bcache_scheme) kres" where
  "bget dev blockno s =
     (case bscan (bnext s) (\<lambda>b. bdev (bufs s b) = dev \<and> bno (bufs s b) = blockno) (bnext s NBUF) (Suc NBUF) of
        Some b \<Rightarrow>
          let s = upd_buf b (\<lambda>x. x\<lparr>brefcnt := brefcnt x + 1\<rparr>) s in
          kbind (acquiresleep s (block_lk (bufs s b))) (\<lambda>lk.
          Inr (b, upd_buf b (\<lambda>x. x\<lparr>block_lk := lk\<rparr>) s))
      | None \<Rightarrow>
          (case bscan (bprev s) (\<lambda>b. brefcnt (bufs s b) = 0) (bprev s NBUF) (Suc NBUF) of
             Some b \<Rightarrow>
               let s = upd_buf b (\<lambda>x. x\<lparr>bdev := dev, bno := blockno, bvalid := False, brefcnt := 1\<rparr>) s in
               kbind (acquiresleep s (block_lk (bufs s b))) (\<lambda>lk.
               Inr (b, upd_buf b (\<lambda>x. x\<lparr>block_lk := lk\<rparr>) s))
           | None \<Rightarrow> Inl (Panic ''bget: no buffers'')))"

definition bread :: "nat \<Rightarrow> nat \<Rightarrow> 'a bcache_scheme \<Rightarrow> (nat \<times> 'a bcache_scheme) kres" where
  "bread dev blockno s =
     kbind (bget dev blockno s) (\<lambda>(b, s).
     if \<not> bvalid (bufs s b)
     then Inr (b, upd_buf b (\<lambda>x. x\<lparr>bvalid := True\<rparr>) (virtio_disk_rw b False s))
     else Inr (b, s))"

definition bwrite :: "nat \<Rightarrow> 'a bcache_scheme \<Rightarrow> 'a bcache_scheme kres" where
  "bwrite b s =
     kbind (holdingsleep s (block_lk (bufs s b))) (\<lambda>h.
     if \<not> h then Inl (Panic ''bwrite'') else Inr (virtio_disk_rw b True s))"

text \<open>
  \<open>refcnt\<close> is a \<open>uint\<close>: a decrement of 0 wraps around. The increments do not reach the other end, since each
  stands for a call that has not returned or a block in the log.
\<close>

definition dec32 :: "nat \<Rightarrow> nat" where
  "dec32 n = (if n = 0 then 4294967295 else n - 1)"

definition brelse :: "nat \<Rightarrow> 'a bcache_scheme \<Rightarrow> 'a bcache_scheme kres" where
  "brelse b s =
     kbind (holdingsleep s (block_lk (bufs s b))) (\<lambda>h.
     if \<not> h then Inl (Panic ''brelse'')
     else
       let (lk, s) = releasesleep (ChanBuf b) s (block_lk (bufs s b));
           s = upd_buf b (\<lambda>x. x\<lparr>block_lk := lk\<rparr>) s;
           s = upd_buf b (\<lambda>x. x\<lparr>brefcnt := dec32 (brefcnt x)\<rparr>) s
       in if brefcnt (bufs s b) = 0 then Inr (link_front b (unlink b s)) else Inr s)"

definition bpin :: "nat \<Rightarrow> 'a bcache_scheme \<Rightarrow> 'a bcache_scheme" where
  "bpin b s = upd_buf b (\<lambda>x. x\<lparr>brefcnt := brefcnt x + 1\<rparr>) s"

definition bunpin :: "nat \<Rightarrow> 'a bcache_scheme \<Rightarrow> 'a bcache_scheme" where
  "bunpin b s = upd_buf b (\<lambda>x. x\<lparr>brefcnt := dec32 (brefcnt x)\<rparr>) s"

text \<open>Code that changes \<open>b->data\<close>.\<close>

definition set_data :: "nat \<Rightarrow> blk \<Rightarrow> 'a bcache_scheme \<Rightarrow> 'a bcache_scheme" where
  "set_data b d s = upd_buf b (\<lambda>x. x\<lparr>bdata := d\<rparr>) s"

section \<open>The list as a list\<close>

text \<open>\<open>links nxt prv a xs b\<close>: from \<open>a\<close>, \<open>next\<close> leads through \<open>xs\<close> to \<open>b\<close>, and \<open>prev\<close> the same way back.\<close>

fun links :: "(nat \<Rightarrow> nat) \<Rightarrow> (nat \<Rightarrow> nat) \<Rightarrow> nat \<Rightarrow> nat list \<Rightarrow> nat \<Rightarrow> bool" where
  "links nxt prv a [] b \<longleftrightarrow> nxt a = b \<and> prv b = a"
| "links nxt prv a (x # xs) b \<longleftrightarrow> nxt a = x \<and> prv x = a \<and> links nxt prv x xs b"

lemma links_append: "links nxt prv a (xs @ y # ys) b \<longleftrightarrow> links nxt prv a xs y \<and> links nxt prv y ys b"
  by (induction xs arbitrary: a) auto

lemma links_cong:
  assumes "\<And>x. x \<in> insert a (set xs) \<Longrightarrow> nxt' x = nxt x" and "\<And>x. x \<in> insert b (set xs) \<Longrightarrow> prv' x = prv x"
  shows "links nxt' prv' a xs b = links nxt prv a xs b"
  using assms by (induction xs arbitrary: a) auto

lemma links_rev: "links nxt prv a xs b \<Longrightarrow> links prv nxt b (rev xs) a"
proof (induction xs arbitrary: a)
  case (Cons x xs)
  then show ?case using links_append [of prv nxt b "rev xs" x "[]" a] by simp
qed simp

text \<open>The first element, and the last, wherever the list ends.\<close>

lemma links_next: "links nxt prv a xs b \<Longrightarrow> nxt a = hd (xs @ [b])"
  by (cases xs) auto

lemma links_unlink:
  assumes "links nxt prv a (xs @ y # ys) b" and "distinct (xs @ y # ys)" and "a \<notin> set (xs @ y # ys)"
    and "b \<notin> set (xs @ y # ys)"
  shows "links (nxt(prv y := nxt y)) (prv(nxt y := prv y)) a (xs @ ys) b"
proof -
  have l: "links nxt prv a xs y" "links nxt prv y ys b" using assms(1) by (simp_all add: links_append)
  have py: "prv y = last (a # xs)" using l(1) assms(2-) by (induction xs arbitrary: a) auto
  then have pin: "prv y \<in> insert a (set xs)" by (cases xs rule: rev_cases) auto
  have ny: "nxt y = hd (ys @ [b])" using links_next [OF l(2)] .
  then have nin: "nxt y \<in> insert b (set ys)" by (cases ys) auto
  let ?n = "nxt(prv y := nxt y)" and ?p = "prv(nxt y := prv y)"
  have tail: "links nxt prv y ys b \<Longrightarrow> links ?n ?p (prv y) ys b"
  proof (cases ys)
    case Nil
    then show ?thesis using ny by simp
  next
    case (Cons z zs)
    have "links ?n ?p z zs b = links nxt prv z zs b"
      using assms(2-) Cons ny pin by (intro links_cong) (auto split: if_splits)
    then show ?thesis if "links nxt prv y ys b" using that Cons ny by simp
  qed
  show ?thesis
  proof (cases xs rule: rev_cases)
    case Nil
    then show ?thesis using tail [OF l(2)] py by simp
  next
    case (snoc ws w)
    have w: "prv y = w" using py snoc by simp
    have "links nxt prv a ws w" using l(1) snoc by (simp add: links_append)
    moreover have "links ?n ?p a ws w = links nxt prv a ws w"
      using assms(2-) snoc nin w by (intro links_cong) auto
    ultimately show ?thesis using tail [OF l(2)] snoc w by (simp add: links_append)
  qed
qed

lemma links_front:
  assumes "links nxt prv h xs h" and "h \<notin> set xs" and "distinct xs" and "b \<noteq> h" and "b \<notin> set xs"
    and "nxt' = nxt(b := nxt h, h := b)" and "prv' = prv(b := h, nxt h := b)"
  shows "links nxt' prv' h (b # xs) h"
proof (cases xs)
  case Nil
  then show ?thesis using assms by simp
next
  case (Cons x ys)
  have "links nxt' prv' x ys h = links nxt prv x ys h"
    using assms Cons by (intro links_cong) auto
  then show ?thesis using assms Cons by simp
qed

lemma bscan_find:
  assumes "links nxt prv a xs NBUF" and "NBUF \<notin> set xs"
  shows "bscan nxt P (nxt a) (Suc (length xs + n)) = find P xs"
  using assms
proof (induction xs arbitrary: a)
  case (Cons x xs)
  then have a: "nxt a = x" "x \<noteq> NBUF" and l: "links nxt prv x xs NBUF" "NBUF \<notin> set xs" by auto
  have "bscan nxt P (nxt a) (Suc (length (x # xs) + n)) =
      (if P x then Some x else bscan nxt P (nxt x) (Suc (length xs + n)))"
    unfolding a(1) using a(2) by simp
  then show ?case unfolding Cons.IH [OF l] by simp
next
  case Nil
  then have "nxt a = NBUF" by simp
  then show ?case by simp
qed

lemma find_SomeD: "find P xs = Some x \<Longrightarrow> x \<in> set xs \<and> P x"
  by (induction xs) (auto split: if_splits)

lemma find_unique:
  assumes "P x" and "x \<in> set xs" and "\<And>y. y \<in> set xs \<Longrightarrow> P y \<Longrightarrow> y = x"
  shows "find P xs = Some x"
  using assms(2,3)
proof (induction xs)
  case (Cons z zs)
  show ?case
  proof (cases "P z")
    case True
    then show ?thesis using Cons.prems(2) [of z] by simp
  next
    case False
    then have "x \<in> set zs" using Cons.prems(1) assms(1) by auto
    then show ?thesis using False Cons.IH Cons.prems(2) by simp
  qed
qed simp

section \<open>The invariant, and the view of the disk through the cache\<close>

definition lru :: "'a bcache_scheme \<Rightarrow> nat list \<Rightarrow> bool" where
  "lru s xs \<longleftrightarrow> links (bnext s) (bprev s) NBUF xs NBUF \<and> distinct xs \<and> set xs = {..<NBUF}"

text \<open>
  The list holds all buffers; no two hold the same block (device 0 is that of buffers never used); a locked
  buffer is referenced and has been read.
\<close>

definition cache_inv :: "'a bcache_scheme \<Rightarrow> bool" where
  "cache_inv s \<longleftrightarrow> (\<exists>xs. lru s xs) \<and>
     (\<forall>i < NBUF. \<forall>j < NBUF. bdev (bufs s i) \<noteq> 0 \<and> bdev (bufs s i) = bdev (bufs s j) \<and>
        bno (bufs s i) = bno (bufs s j) \<longrightarrow> i = j) \<and>
     (\<forall>i < NBUF. slocked (block_lk (bufs s i)) \<longrightarrow> 0 < brefcnt (bufs s i) \<and> bvalid (bufs s i))"

definition holds :: "'a bcache_scheme \<Rightarrow> nat \<Rightarrow> nat \<Rightarrow> nat \<Rightarrow> bool" where
  "holds s d n i \<longleftrightarrow> i < NBUF \<and> bdev (bufs s i) = d \<and> bno (bufs s i) = n"

definition slot :: "'a bcache_scheme \<Rightarrow> nat \<Rightarrow> nat \<Rightarrow> nat option" where
  "slot s d n = find (holds s d n) [0..<NBUF]"

text \<open>Block \<open>n\<close> as code sees it that reads it through the cache, and the references to its buffer.\<close>

definition view :: "'a bcache_scheme \<Rightarrow> nat \<Rightarrow> nat \<Rightarrow> blk" where
  "view s d n =
     (case slot s d n of None \<Rightarrow> disk s n
      | Some i \<Rightarrow> if bvalid (bufs s i) then bdata (bufs s i) else disk s n)"

definition refs :: "'a bcache_scheme \<Rightarrow> nat \<Rightarrow> nat \<Rightarrow> nat" where
  "refs s d n = (case slot s d n of None \<Rightarrow> 0 | Some i \<Rightarrow> brefcnt (bufs s i))"

definition locked_by :: "'a bcache_scheme \<Rightarrow> nat \<Rightarrow> nat \<Rightarrow> int option" where
  "locked_by s d n = (case slot s d n of None \<Rightarrow> None
     | Some i \<Rightarrow> if slocked (block_lk (bufs s i)) then Some (spid (block_lk (bufs s i))) else None)"

text \<open>The buffers that may be recycled.\<close>

definition spare :: "'a bcache_scheme \<Rightarrow> nat set" where
  "spare s = {i. i < NBUF \<and> brefcnt (bufs s i) = 0}"

lemma cache_invD:
  assumes "cache_inv s"
  shows "\<exists>xs. lru s xs"
    "i < NBUF \<Longrightarrow> j < NBUF \<Longrightarrow> bdev (bufs s i) \<noteq> 0 \<Longrightarrow> bdev (bufs s i) = bdev (bufs s j) \<Longrightarrow>
      bno (bufs s i) = bno (bufs s j) \<Longrightarrow> i = j"
    "i < NBUF \<Longrightarrow> slocked (block_lk (bufs s i)) \<Longrightarrow> 0 < brefcnt (bufs s i) \<and> bvalid (bufs s i)"
  using assms unfolding cache_inv_def by blast+

lemma slot_Some:
  assumes "cache_inv s" and "d \<noteq> 0"
  shows "slot s d n = Some i \<longleftrightarrow> holds s d n i"
proof
  assume "slot s d n = Some i"
  then show "holds s d n i" by (auto simp: slot_def find_Some_iff)
next
  assume h: "holds s d n i"
  then show "slot s d n = Some i"
    unfolding slot_def using assms(2) cache_invD(2) [OF assms(1)]
    by (intro find_unique) (auto simp: holds_def)
qed

lemma slot_None: "slot s d n = None \<longleftrightarrow> (\<forall>i. \<not> holds s d n i)"
  by (auto simp: slot_def find_None_iff holds_def)

text \<open>Both scans of \<open>bget\<close>, whatever the order of the list.\<close>

lemma lru_scan:
  assumes "lru s xs"
  shows "bscan (bnext s) P (bnext s NBUF) (Suc NBUF) = find P xs"
    and "bscan (bprev s) P (bprev s NBUF) (Suc NBUF) = find P (rev xs)"
proof -
  have l: "links (bnext s) (bprev s) NBUF xs NBUF" "distinct xs" "set xs = {..<NBUF}"
    using assms by (simp_all add: lru_def)
  then have "length xs = NBUF" using distinct_card [OF l(2)] by simp
  then show "bscan (bnext s) P (bnext s NBUF) (Suc NBUF) = find P xs"
    "bscan (bprev s) P (bprev s NBUF) (Suc NBUF) = find P (rev xs)"
    using bscan_find [OF l(1), of P 0] bscan_find [OF links_rev [OF l(1)], of P 0] l(3) by simp_all
qed

lemma scan_slot:
  assumes "cache_inv s" and "d \<noteq> 0"
  shows "bscan (bnext s) (\<lambda>b. bdev (bufs s b) = d \<and> bno (bufs s b) = n) (bnext s NBUF) (Suc NBUF) = slot s d n"
proof -
  obtain xs where l: "lru s xs" using cache_invD(1) [OF assms(1)] by blast
  then have xs: "set xs = {..<NBUF}" by (simp add: lru_def)
  show ?thesis
  proof (cases "slot s d n")
    case None
    then have "find (\<lambda>b. bdev (bufs s b) = d \<and> bno (bufs s b) = n) xs = None"
      using xs by (auto simp: slot_None find_None_iff holds_def)
    then show ?thesis using lru_scan(1) [OF l] None by simp
  next
    case (Some i)
    then have h: "holds s d n i" using slot_Some [OF assms] by simp
    have "find (\<lambda>b. bdev (bufs s b) = d \<and> bno (bufs s b) = n) xs = Some i"
      using h xs assms(2) cache_invD(2) [OF assms(1), of i] by (intro find_unique) (auto simp: holds_def)
    then show ?thesis using lru_scan(1) [OF l] Some by simp
  qed
qed

section \<open>Changing one buffer\<close>

text \<open>
  Every operation replaces the contents of one buffer: that of block \<open>n\<close> or, if \<open>n\<close> has none, a spare one.
\<close>

definition replaces :: "'a bcache_scheme \<Rightarrow> nat \<Rightarrow> nat \<Rightarrow> buf \<Rightarrow> bool" where
  "replaces s n i B \<longleftrightarrow> cache_inv s \<and> bdev B = ROOTDEV \<and> bno B = n \<and> bvalid B \<and>
     (slocked (block_lk B) \<longrightarrow> 0 < brefcnt B) \<and> i < NBUF \<and>
     (holds s ROOTDEV n i \<or> slot s ROOTDEV n = None \<and> i \<in> spare s)"

abbreviation put_buf :: "nat \<Rightarrow> buf \<Rightarrow> 'a bcache_scheme \<Rightarrow> 'a bcache_scheme" where
  "put_buf i B s \<equiv> s\<lparr>bufs := (bufs s)(i := B)\<rparr>"

lemma replacesD:
  assumes "replaces s n i B"
  shows "cache_inv s" "bdev B = ROOTDEV" "bno B = n" "bvalid B" "slocked (block_lk B) \<Longrightarrow> 0 < brefcnt B" "i < NBUF"
    "holds s ROOTDEV n i \<or> slot s ROOTDEV n = None \<and> i \<in> spare s" "holds s ROOTDEV n j \<Longrightarrow> j = i"
proof -
  show r: "cache_inv s" "bdev B = ROOTDEV" "bno B = n" "bvalid B" "slocked (block_lk B) \<Longrightarrow> 0 < brefcnt B" "i < NBUF"
    "holds s ROOTDEV n i \<or> slot s ROOTDEV n = None \<and> i \<in> spare s"
    using assms by (auto simp: replaces_def)
  show "j = i" if "holds s ROOTDEV n j"
    using that r(7) slot_Some [OF r(1), of ROOTDEV n j] slot_Some [OF r(1), of ROOTDEV n i] by auto
qed

lemma holds_put:
  assumes "replaces s n i B"
  shows "holds (put_buf i B s) ROOTDEV m j \<longleftrightarrow> (if j = i then m = n else holds s ROOTDEV m j)"
  using replacesD(2,3,6) [OF assms] by (auto simp: holds_def)

lemma cache_inv_put:
  assumes "replaces s n i B"
  shows "cache_inv (put_buf i B s)"
proof -
  note R = replacesD [OF assms]
  have new: "x = i" if "x < NBUF" "bdev (bufs s x) = ROOTDEV" "bno (bufs s x) = n" for x
    using R(8) [of x] that by (simp add: holds_def)
  have "j = k" if u: "j < NBUF" "k < NBUF" "bdev (bufs (put_buf i B s) j) \<noteq> 0"
    "bdev (bufs (put_buf i B s) j) = bdev (bufs (put_buf i B s) k)"
    "bno (bufs (put_buf i B s) j) = bno (bufs (put_buf i B s) k)" for j k
  proof -
    consider "j = i" "k = i" | "j = i" "k \<noteq> i" | "j \<noteq> i" "k = i" | "j \<noteq> i" "k \<noteq> i" by blast
    then show ?thesis
    proof cases
      case 2
      then show ?thesis using u R(2,3) new [of k] by simp
    next
      case 3
      then show ?thesis using u R(2,3) new [of j] by simp
    next
      case 4
      then show ?thesis using u cache_invD(2) [OF R(1), of j k] by simp
    qed simp
  qed
  moreover have "\<exists>xs. lru (put_buf i B s) xs" using cache_invD(1) [OF R(1)] by (simp add: lru_def)
  moreover have "0 < brefcnt (bufs (put_buf i B s) j) \<and> bvalid (bufs (put_buf i B s) j)"
    if "j < NBUF" "slocked (block_lk (bufs (put_buf i B s) j))" for j
    using that R(4,5) cache_invD(3) [OF R(1), of j] by (cases "j = i") auto
  ultimately show ?thesis unfolding cache_inv_def by blast
qed

lemma slot_put:
  assumes "replaces s n i B"
  shows "slot (put_buf i B s) ROOTDEV m = (if m = n then Some i else if slot s ROOTDEV m = Some i then None else slot s ROOTDEV m)"
proof -
  note R = replacesD [OF assms] and inv = cache_inv_put [OF assms] and H = holds_put [OF assms]
  show ?thesis
  proof (cases "m = n")
    case True
    then show ?thesis using slot_Some [OF inv, of ROOTDEV n i] H by simp
  next
    case False
    show ?thesis
    proof (cases "slot (put_buf i B s) ROOTDEV m")
      case None
      then have no: "a = i" if "holds s ROOTDEV m a" for a
        using that slot_None [of "put_buf i B s" ROOTDEV m] H [of m a] by (auto split: if_splits)
      show ?thesis
      proof (cases "slot s ROOTDEV m")
        case (Some a)
        then have "a = i" using no slot_Some [OF R(1), of ROOTDEV m a] by simp
        then show ?thesis using None Some False by simp
      qed (use None False in simp)
    next
      case (Some j)
      then have "holds (put_buf i B s) ROOTDEV m j" using slot_Some [OF inv, of ROOTDEV] by simp
      then have "j \<noteq> i" "holds s ROOTDEV m j" using H False by (auto split: if_splits)
      then show ?thesis using Some False slot_Some [OF R(1), of ROOTDEV m j] by simp
    qed
  qed
qed

text \<open>A block that loses its buffer was not in use.\<close>

lemma evicted:
  assumes "replaces s n i B" and "m \<noteq> n" and "slot s ROOTDEV m = Some i"
  shows "refs s ROOTDEV m = 0" "locked_by s ROOTDEV m = None" "\<not> holds s ROOTDEV n i"
proof -
  note R = replacesD [OF assms(1)]
  show n: "\<not> holds s ROOTDEV n i" using assms(2,3) slot_Some [OF R(1), of ROOTDEV m i] by (auto simp: holds_def)
  then have "i \<in> spare s" using R(7) by blast
  then show "refs s ROOTDEV m = 0" "locked_by s ROOTDEV m = None"
    using assms(3) cache_invD(3) [OF R(1) R(6)] by (auto simp: refs_def spare_def locked_by_def)
qed

lemma view_put:
  assumes "replaces s n i B" and "(\<forall>m. refs s ROOTDEV m = 0 \<longrightarrow> view s ROOTDEV m = disk s m) \<or> holds s ROOTDEV n i"
  shows "view (put_buf i B s) ROOTDEV = (view s ROOTDEV)(n := bdata B)"
proof (rule ext)
  fix m
  show "view (put_buf i B s) ROOTDEV m = ((view s ROOTDEV)(n := bdata B)) m"
  proof (cases "m \<noteq> n \<and> slot s ROOTDEV m = Some i")
    case True
    then have "view s ROOTDEV m = disk s m" using evicted [OF assms(1), of m] assms(2) by auto
    then show ?thesis using True slot_put [OF assms(1), of m] by (simp add: view_def [of "put_buf i B s"])
  next
    case False
    then show ?thesis
      using replacesD(4) [OF assms(1)] slot_put [OF assms(1), of m] by (auto simp: view_def split: option.splits)
  qed
qed

lemma refs_put:
  assumes "replaces s n i B"
  shows "refs (put_buf i B s) ROOTDEV = (refs s ROOTDEV)(n := brefcnt B)"
proof (rule ext)
  fix m
  show "refs (put_buf i B s) ROOTDEV m = ((refs s ROOTDEV)(n := brefcnt B)) m"
    using slot_put [OF assms, of m] evicted(1) [OF assms, of m] by (auto simp: refs_def split: option.splits)
qed

lemma locked_put:
  assumes "replaces s n i B"
  shows "locked_by (put_buf i B s) ROOTDEV =
    (locked_by s ROOTDEV)(n := if slocked (block_lk B) then Some (spid (block_lk B)) else None)"
proof (rule ext)
  fix m
  show "locked_by (put_buf i B s) ROOTDEV m =
      ((locked_by s ROOTDEV)(n := if slocked (block_lk B) then Some (spid (block_lk B)) else None)) m"
    using slot_put [OF assms, of m] evicted(2) [OF assms, of m] by (auto simp: locked_by_def split: option.splits)
qed

lemma spare_put: "i < NBUF \<Longrightarrow> spare (put_buf i B s) = (if brefcnt B = 0 then insert i (spare s) else spare s - {i})"
  by (auto simp: spare_def)

section \<open>The contract\<close>

text \<open>
  What the cache leaves alone: memory, the fields of the client, and the process table up to who has been woken.
\<close>

definition bio_env :: "'a bcache_scheme \<Rightarrow> _" where
  "bio_env s = (kmem.truncate s, map (\<lambda>p. p\<lparr>pstate := UNUSED\<rparr>) (procs s), nextpid s, initproc s, cpus s, hartid s,
     bcache.more s)"

definition at_buf :: "int \<Rightarrow> 'a bcache_scheme \<Rightarrow> nat \<Rightarrow> nat option" where
  "at_buf q s i = (if i < NBUF \<and> bdev (bufs s i) = ROOTDEV \<and> slocked (block_lk (bufs s i)) \<and>
     spid (block_lk (bufs s i)) = q then Some (bno (bufs s i)) else None)"

definition vabs :: "int \<Rightarrow> 'a bcache_scheme \<Rightarrow> _ vcache" where
  "vabs q s = \<lparr>vview = view s ROOTDEV, vdisk = disk s, vrefs = refs s ROOTDEV, vroom = card (spare s),
     vat = at_buf q s, vheld = {n. locked_by s ROOTDEV n \<noteq> None}, vwrites = dwrites s, venv = bio_env s\<rparr>"

definition bio_ok :: "int \<Rightarrow> 'a bcache_scheme \<Rightarrow> bool" where
  "bio_ok q s \<longleftrightarrow> cache_inv s \<and> running q s"

lemma vabs_sel [simp]:
  "vview (vabs q s) = view s ROOTDEV" "vdisk (vabs q s) = disk s" "vrefs (vabs q s) = refs s ROOTDEV"
  "vroom (vabs q s) = card (spare s)" "vat (vabs q s) = at_buf q s" "vheld (vabs q s) = {n. locked_by s ROOTDEV n \<noteq> None}"
  "vwrites (vabs q s) = dwrites s" "venv (vabs q s) = bio_env s"
  by (simp_all add: vabs_def)

lemma finite_spare [simp]: "finite (spare s)"
  by (simp add: spare_def)

lemma at_bufD:
  assumes "cache_inv s" and "at_buf q s i = Some n"
  shows "i < NBUF" "holds s ROOTDEV n i" "slocked (block_lk (bufs s i))" "spid (block_lk (bufs s i)) = q"
    "slot s ROOTDEV n = Some i" "bvalid (bufs s i)" "0 < brefcnt (bufs s i)" "refs s ROOTDEV n = brefcnt (bufs s i)"
    "view s ROOTDEV n = bdata (bufs s i)" "locked_by s ROOTDEV n = Some q" "bdev (bufs s i) = ROOTDEV" "bno (bufs s i) = n"
proof -
  show h: "i < NBUF" "holds s ROOTDEV n i" "slocked (block_lk (bufs s i))" "spid (block_lk (bufs s i)) = q"
    "bdev (bufs s i) = ROOTDEV" "bno (bufs s i) = n"
    using assms(2) by (auto simp: at_buf_def holds_def split: if_splits)
  show sl: "slot s ROOTDEV n = Some i" using h slot_Some [OF assms(1)] by simp
  show v: "bvalid (bufs s i)" "0 < brefcnt (bufs s i)" using cache_invD(3) [OF assms(1) h(1,3)] by auto
  show "refs s ROOTDEV n = brefcnt (bufs s i)" "view s ROOTDEV n = bdata (bufs s i)" "locked_by s ROOTDEV n = Some q"
    using sl v h by (simp_all add: refs_def view_def locked_by_def)
qed

lemma at_buf_put:
  assumes "replaces s n i B" and "cache_inv s"
  shows "at_buf q (put_buf i B s) = (at_buf q s)(i := if slocked (block_lk B) \<and> spid (block_lk B) = q then Some n else None)"
  using replacesD(2,3,6) [OF assms(1)] by (auto simp: at_buf_def fun_eq_iff)

text \<open>The effect of replacing a buffer, in one equation.\<close>

lemma vabs_put:
  assumes r: "replaces s n i B" and c: "vclean (vabs q s) \<or> holds s ROOTDEV n i"
  shows "vabs q (put_buf i B s) = (vabs q s)\<lparr>vview := (view s ROOTDEV)(n := bdata B), vrefs := (refs s ROOTDEV)(n := brefcnt B),
    vroom := card (spare (put_buf i B s)),
    vat := (at_buf q s)(i := if slocked (block_lk B) \<and> spid (block_lk B) = q then Some n else None),
    vheld := {m. (if m = n then slocked (block_lk B) else locked_by s ROOTDEV m \<noteq> None)}\<rparr>"
proof -
  have "view (put_buf i B s) ROOTDEV = (view s ROOTDEV)(n := bdata B)"
    using c by (intro view_put [OF r]) (auto simp: vclean_def)
  then show ?thesis
    using refs_put [OF r] locked_put [OF r] at_buf_put [OF r replacesD(1) [OF r]]
    by (intro vcache.equality) (auto simp: vabs_def bio_env_def kmem.defs)
qed

lemma mypid_put [simp]: "mypid (s\<lparr>bufs := f\<rparr>) = mypid s" "running q (s\<lparr>bufs := f\<rparr>) = running q s"
  by (simp_all add: mypid_def curproc_def myproc_def cpuid_def running_def)

lemma bget_hit:
  assumes inv: "cache_inv s" and me: "mypid s = Inr q" and sl: "slot s ROOTDEV n = Some i"
    and free: "\<not> slocked (block_lk (bufs s i))"
  shows "bget ROOTDEV n s = Inr (i, put_buf i ((bufs s i)\<lparr>brefcnt := brefcnt (bufs s i) + 1,
    block_lk := \<lparr>slocked = True, spid = q\<rparr>\<rparr>) s)"
  unfolding bget_def scan_slot [OF inv ROOTDEV_nonzero(1)] sl option.case Let_def
  using me free by (simp add: upd_buf_def acquiresleep_def)

lemma bget_miss:
  assumes inv: "cache_inv s" and me: "mypid s = Inr q" and sl: "slot s ROOTDEV n = None" and sp: "spare s \<noteq> {}"
  obtains i where "i \<in> spare s"
    "bget ROOTDEV n s = Inr (i, put_buf i ((bufs s i)\<lparr>bdev := ROOTDEV, bno := n, bvalid := False, brefcnt := 1,
      block_lk := \<lparr>slocked = True, spid = q\<rparr>\<rparr>) s)"
proof -
  obtain xs where l: "lru s xs" using cache_invD(1) [OF inv] by blast
  have xs: "set xs = {..<NBUF}" using l by (simp add: lru_def)
  let ?P = "\<lambda>b. brefcnt (bufs s b) = 0"
  obtain i where i: "find ?P (rev xs) = Some i"
    using sp xs by (cases "find ?P (rev xs)") (auto simp: find_None_iff spare_def)
  then have i2: "i < NBUF" "brefcnt (bufs s i) = 0" using find_SomeD [OF i] xs by auto
  moreover have "\<not> slocked (block_lk (bufs s i))" using cache_invD(3) [OF inv i2(1)] i2(2) by auto
  ultimately have "bget ROOTDEV n s = Inr (i, put_buf i ((bufs s i)\<lparr>bdev := ROOTDEV, bno := n, bvalid := False,
      brefcnt := 1, block_lk := \<lparr>slocked = True, spid = q\<rparr>\<rparr>) s)"
    unfolding bget_def scan_slot [OF inv ROOTDEV_nonzero(1)] sl lru_scan(2) [OF l] i option.case Let_def
    using me by (simp add: upd_buf_def acquiresleep_def)
  then show thesis using that [of i] i2 by (simp add: spare_def)
qed

lemma bread_eq:
  assumes inv: "cache_inv s" and me: "mypid s = Inr q" and free: "locked_by s ROOTDEV n = None"
    and room: "0 < refs s ROOTDEV n \<or> spare s \<noteq> {}"
  obtains i where "bread ROOTDEV n s = Inr (i, put_buf i \<lparr>bvalid = True, bdev = ROOTDEV, bno = n,
      block_lk = \<lparr>slocked = True, spid = q\<rparr>, brefcnt = refs s ROOTDEV n + 1, bdata = view s ROOTDEV n\<rparr> s)"
    "i < NBUF" "holds s ROOTDEV n i \<and> \<not> slocked (block_lk (bufs s i)) \<or> slot s ROOTDEV n = None \<and> i \<in> spare s"
proof (cases "slot s ROOTDEV n")
  case None
  then have "spare s \<noteq> {}" using room by (simp add: refs_def)
  then obtain i where i: "i \<in> spare s"
    "bget ROOTDEV n s = Inr (i, put_buf i ((bufs s i)\<lparr>bdev := ROOTDEV, bno := n, bvalid := False, brefcnt := 1,
      block_lk := \<lparr>slocked = True, spid = q\<rparr>\<rparr>) s)"
    using bget_miss [OF inv me None] by blast
  show thesis
    using i None
    by (intro that [of i]; cases "bufs s i") (auto simp: bread_def virtio_disk_rw_def upd_buf_def refs_def view_def spare_def)
next
  case (Some i)
  then have h: "holds s ROOTDEV n i" using slot_Some [OF inv] by simp
  have f: "\<not> slocked (block_lk (bufs s i))" using free Some by (auto simp: locked_by_def split: if_splits)
  show thesis
    using h f Some bget_hit [OF inv me Some f]
    by (intro that [of i]; cases "bufs s i") (auto simp: bread_def virtio_disk_rw_def upd_buf_def refs_def view_def holds_def)
qed

lemma bio_bread:
  assumes ok: "bio_ok q s" and c: "vclean (vabs q s)" and h: "n \<notin> vheld (vabs q s)"
    and room: "0 < vrefs (vabs q s) n \<or> 0 < vroom (vabs q s)"
  shows "\<exists>i s'. bread ROOTDEV n s = Inr (i, s') \<and> bio_ok q s' \<and> vat (vabs q s) i = None \<and>
    vabs q s' = v_bread i n (vabs q s)"
proof -
  have inv: "cache_inv s" and run: "running q s" and me: "mypid s = Inr q"
    using ok running_mypid by (auto simp: bio_ok_def)
  have free: "locked_by s ROOTDEV n = None" using h by simp
  have "0 < refs s ROOTDEV n \<or> spare s \<noteq> {}" using room by (auto simp: card_gt_0_iff)
  then obtain i where r: "bread ROOTDEV n s = Inr (i, put_buf i \<lparr>bvalid = True, bdev = ROOTDEV, bno = n,
      block_lk = \<lparr>slocked = True, spid = q\<rparr>, brefcnt = refs s ROOTDEV n + 1, bdata = view s ROOTDEV n\<rparr> s)"
    and i: "i < NBUF" "holds s ROOTDEV n i \<and> \<not> slocked (block_lk (bufs s i)) \<or> slot s ROOTDEV n = None \<and> i \<in> spare s"
    using bread_eq [OF inv me free] by blast
  let ?B = "\<lparr>bvalid = True, bdev = ROOTDEV, bno = n, block_lk = \<lparr>slocked = True, spid = q\<rparr>,
    brefcnt = refs s ROOTDEV n + 1, bdata = view s ROOTDEV n\<rparr>"
  have rep: "replaces s n i ?B" using inv i by (auto simp: replaces_def)
  have "\<not> slocked (block_lk (bufs s i))" using i cache_invD(3) [OF inv i(1)] by (auto simp: spare_def)
  then have at: "at_buf q s i = None" by (simp add: at_buf_def)
  have "i \<in> spare s \<longleftrightarrow> refs s ROOTDEV n = 0"
    using i slot_Some [OF inv, of ROOTDEV n i] by (auto simp: refs_def spare_def)
  then have "card (spare s - {i}) = (if refs s ROOTDEV n = 0 then card (spare s) - 1 else card (spare s))"
    by simp
  then have "vabs q (put_buf i ?B s) = v_bread i n (vabs q s)"
    unfolding vabs_put [OF rep disjI1 [OF c]] spare_put [OF i(1)]
    by (intro vcache.equality) (auto simp: v_bread_def)
  then show ?thesis using r at cache_inv_put [OF rep] run by (simp add: bio_ok_def)
qed

lemma wakeup_bio [simp]:
  "bufs (wakeup c s) = bufs s" "disk (wakeup c s) = disk s" "bnext (wakeup c s) = bnext s" "bprev (wakeup c s) = bprev s"
  "dwrites (wakeup c s) = dwrites s"
  by (simp_all add: wakeup_def)

lemma link_bio [simp]:
  "bufs (link_front b s) = bufs s" "disk (link_front b s) = disk s" "dwrites (link_front b s) = dwrites s"
  "bufs (unlink b s) = bufs s" "disk (unlink b s) = disk s" "dwrites (unlink b s) = dwrites s"
  by (simp_all add: link_front_def unlink_def Let_def)

lemma bio_env_cong:
  assumes "kmem.truncate s' = kmem.truncate s" "procs s' = procs s" "nextpid s' = nextpid s" "initproc s' = initproc s"
    "cpus s' = cpus s" "hartid s' = hartid s" "bcache.more s' = bcache.more s"
  shows "bio_env s' = bio_env s"
  using assms by (simp add: bio_env_def)

lemma vabs_cong:
  assumes "bufs s' = bufs s" "disk s' = disk s" "dwrites s' = dwrites s" "bio_env s' = bio_env s"
  shows "vabs q s' = vabs q s"
proof -
  have "slot s' ROOTDEV = slot s ROOTDEV" "spare s' = spare s" "at_buf q s' = at_buf q s"
    using assms(1) by (simp_all add: slot_def holds_def [abs_def] spare_def at_buf_def [abs_def] fun_eq_iff)
  then show ?thesis
    unfolding vabs_def view_def [abs_def] refs_def [abs_def] locked_by_def assms by (simp only:)
qed

lemma bio_env_wakeup [simp]: "bio_env (wakeup c s) = bio_env s"
proof -
  have "map (\<lambda>p. p\<lparr>pstate := UNUSED\<rparr>) (procs (wakeup c s)) = map (\<lambda>p. p\<lparr>pstate := UNUSED\<rparr>) (procs s)"
    by (rule nth_equalityI) (auto simp: wakeup_nth)
  then show ?thesis by (simp add: bio_env_def) (simp add: wakeup_def kmem.defs)
qed

lemma bio_env_link [simp]: "bio_env (link_front b s) = bio_env s" "bio_env (unlink b s) = bio_env s"
  by (rule bio_env_cong; simp add: link_front_def unlink_def Let_def kmem.defs)+

text \<open>Moving a buffer to the front of the list.\<close>

lemma lru_front:
  assumes "lru s (xs @ b # ys)"
  shows "lru (link_front b (unlink b s)) (b # xs @ ys)"
proof -
  have l: "links (bnext s) (bprev s) NBUF (xs @ b # ys) NBUF" and d: "distinct (xs @ b # ys)"
    and st: "set (xs @ b # ys) = {..<NBUF}" using assms by (simp_all add: lru_def)
  have nb: "NBUF \<notin> set (xs @ b # ys)" unfolding st by simp
  have "bnext s b \<noteq> b"
    using links_next [of "bnext s" "bprev s" b ys NBUF] l d nb by (cases ys) (auto simp: links_append)
  then have u: "bnext (unlink b s) = (bnext s)(bprev s b := bnext s b)" "bprev (unlink b s) = (bprev s)(bnext s b := bprev s b)"
    by (simp_all add: unlink_def Let_def)
  have l2: "links (bnext (unlink b s)) (bprev (unlink b s)) NBUF (xs @ ys) NBUF"
    unfolding u using links_unlink [OF l d nb nb] .
  let ?t = "unlink b s"
  have "bnext (link_front b ?t) = (bnext ?t)(b := bnext ?t NBUF, NBUF := b)"
    "bprev (link_front b ?t) = (bprev ?t)(b := NBUF, bnext ?t NBUF := b)"
    using nb by (auto simp: link_front_def Let_def)
  then have "links (bnext (link_front b ?t)) (bprev (link_front b ?t)) NBUF (b # xs @ ys) NBUF"
    using nb d by (intro links_front [OF l2]) auto
  then show ?thesis using d st by (auto simp: lru_def)
qed

lemma cache_inv_front:
  assumes "cache_inv s" and "b < NBUF"
  shows "cache_inv (link_front b (unlink b s))"
proof -
  obtain zs where z: "lru s zs" using cache_invD(1) [OF assms(1)] by blast
  then have "b \<in> set zs" using assms(2) by (simp add: lru_def)
  then obtain xs ys where "zs = xs @ b # ys" by (meson split_list)
  then have "\<exists>xs. lru (link_front b (unlink b s)) xs" using lru_front z by blast
  then show ?thesis using assms(1) by (simp add: cache_inv_def)
qed

lemma cache_inv_wakeup [simp]: "cache_inv (wakeup c s) = cache_inv s"
  by (simp add: cache_inv_def lru_def)

lemma at_buf_wakeup [simp]: "at_buf q (wakeup c s) = at_buf q s"
  by (simp add: at_buf_def fun_eq_iff)

lemma running_link [simp]: "running q (link_front b s) = running q s" "running q (unlink b s) = running q s"
  by (simp_all add: running_def link_front_def unlink_def Let_def myproc_def cpuid_def)

text \<open>Replacing the buffer a process has locked.\<close>

lemma vabs_held:
  assumes inv: "cache_inv s" and at: "at_buf q s i = Some n" and B: "bdev B = ROOTDEV" "bno B = n" "bvalid B"
    "slocked (block_lk B) \<Longrightarrow> 0 < brefcnt B"
  shows "cache_inv (put_buf i B s)" and "vabs q (put_buf i B s) = (vabs q s)\<lparr>vview := (view s ROOTDEV)(n := bdata B),
    vrefs := (refs s ROOTDEV)(n := brefcnt B),
    vroom := (if brefcnt B = 0 then card (spare s) + 1 else card (spare s)),
    vat := (at_buf q s)(i := if slocked (block_lk B) \<and> spid (block_lk B) = q then Some n else None),
    vheld := {m. (if m = n then slocked (block_lk B) else locked_by s ROOTDEV m \<noteq> None)}\<rparr>"
proof -
  note A = at_bufD [OF inv at]
  have rep: "replaces s n i B" using inv A(1,2) B by (auto simp: replaces_def)
  then show "cache_inv (put_buf i B s)" by (rule cache_inv_put)
  have "i \<notin> spare s" using A(7) by (simp add: spare_def)
  then have "card (spare (put_buf i B s)) = (if brefcnt B = 0 then card (spare s) + 1 else card (spare s))"
    using spare_put [OF A(1), of s B] by simp
  then show "vabs q (put_buf i B s) = (vabs q s)\<lparr>vview := (view s ROOTDEV)(n := bdata B),
    vrefs := (refs s ROOTDEV)(n := brefcnt B),
    vroom := (if brefcnt B = 0 then card (spare s) + 1 else card (spare s)),
    vat := (at_buf q s)(i := if slocked (block_lk B) \<and> spid (block_lk B) = q then Some n else None),
    vheld := {m. (if m = n then slocked (block_lk B) else locked_by s ROOTDEV m \<noteq> None)}\<rparr>"
    using vabs_put [OF rep disjI2 [OF A(2)], of q] by simp
qed

lemma holdingsleep_at:
  assumes "bio_ok q s" and "at_buf q s i = Some n"
  shows "holdingsleep s (block_lk (bufs s i)) = Inr True"
proof -
  have "cache_inv s" "mypid s = Inr q" using assms(1) running_mypid by (auto simp: bio_ok_def)
  then show ?thesis using at_bufD(3,4) [OF _ assms(2)] by (simp add: holdingsleep_def)
qed

lemma bio_brelse:
  assumes ok: "bio_ok q s" and at: "at_buf q s i = Some n"
  shows "\<exists>s'. brelse i s = Inr s' \<and> bio_ok q s' \<and> vabs q s' = v_brelse i n (vabs q s)"
proof -
  have inv: "cache_inv s" and run: "running q s" using ok by (simp_all add: bio_ok_def)
  note A = at_bufD [OF inv at]
  let ?w = "wakeup (ChanBuf i) s"
  let ?B = "(bufs s i)\<lparr>block_lk := \<lparr>slocked = False, spid = 0\<rparr>, brefcnt := brefcnt (bufs s i) - 1\<rparr>"
  let ?t = "put_buf i ?B ?w"
  have vw: "vabs q ?w = vabs q s" by (rule vabs_cong) simp_all
  have atw: "at_buf q ?w i = Some n" using at by simp
  have t: "cache_inv ?t" "vabs q ?t = v_brelse i n (vabs q s)"
  proof -
    show "cache_inv ?t" using A by (intro vabs_held(1) [OF _ atw]) (simp_all add: inv)
    have "view ?w ROOTDEV = view s ROOTDEV" "refs ?w ROOTDEV = refs s ROOTDEV" "spare ?w = spare s"
      "at_buf q ?w = at_buf q s" "{m. locked_by ?w ROOTDEV m \<noteq> None} = {m. locked_by s ROOTDEV m \<noteq> None}"
      using arg_cong [OF vw, of vview] arg_cong [OF vw, of vrefs] arg_cong [OF vw, of vat] arg_cong [OF vw, of vheld]
      by (simp_all add: spare_def)
    then show "vabs q ?t = v_brelse i n (vabs q s)"
      using A vabs_held(2) [OF _ atw, of ?B] inv
      by (intro vcache.equality) (auto simp: v_brelse_def vw)
  qed
  show ?thesis
  proof (cases "brefcnt ?B = 0")
    case True
    then have "brelse i s = Inr (link_front i (unlink i ?t))"
      using holdingsleep_at [OF ok at] A(7)
      by (simp add: brelse_def releasesleep_def Let_def upd_buf_def dec32_def)
    moreover have "vabs q (link_front i (unlink i ?t)) = vabs q ?t" by (rule vabs_cong) simp_all
    moreover have "running q (link_front i (unlink i ?t))"
      using run by simp
    ultimately show ?thesis using t cache_inv_front [OF t(1) A(1)] by (simp add: bio_ok_def)
  next
    case False
    then have "brelse i s = Inr ?t"
      using holdingsleep_at [OF ok at] A(7)
      by (simp add: brelse_def releasesleep_def Let_def upd_buf_def dec32_def)
    then show ?thesis using t run by (simp add: bio_ok_def)
  qed
qed

lemma bio_set_data:
  assumes ok: "bio_ok q s" and at: "at_buf q s i = Some n"
  shows "bio_ok q (set_data i x s) \<and> vabs q (set_data i x s) = v_set n x (vabs q s)"
proof -
  have inv: "cache_inv s" and run: "running q s" using ok by (simp_all add: bio_ok_def)
  note A = at_bufD [OF inv at]
  let ?B = "(bufs s i)\<lparr>bdata := x\<rparr>"
  have b: "bdev ?B = ROOTDEV" "bno ?B = n" "bvalid ?B" "0 < brefcnt ?B" using A(6,7,11,12) by simp_all
  have "cache_inv (put_buf i ?B s)" using vabs_held(1) [OF inv at b] .
  moreover have "vabs q (put_buf i ?B s) = v_set n x (vabs q s)"
    unfolding vabs_held(2) [OF inv at b]
    by (intro vcache.equality) (use A(3,4,7,8,10) at in \<open>auto simp: v_set_def fun_upd_idem\<close>)
  ultimately show ?thesis using run by (simp add: set_data_def upd_buf_def bio_ok_def)
qed

lemma bio_pin:
  assumes ok: "bio_ok q s" and at: "at_buf q s i = Some n"
  shows "bio_ok q (bpin i s) \<and> vabs q (bpin i s) = v_pin n (vabs q s)"
    and "1 < refs s ROOTDEV n \<Longrightarrow> bio_ok q (bunpin i s) \<and> vabs q (bunpin i s) = v_unpin n (vabs q s)"
proof -
  have inv: "cache_inv s" and run: "running q s" using ok by (simp_all add: bio_ok_def)
  note A = at_bufD [OF inv at]
  have *: "bio_ok q (put_buf i ((bufs s i)\<lparr>brefcnt := k\<rparr>) s) \<and>
      vabs q (put_buf i ((bufs s i)\<lparr>brefcnt := k\<rparr>) s) = (vabs q s)\<lparr>vrefs := (refs s ROOTDEV)(n := k)\<rparr>" if "0 < k" for k
  proof -
    let ?B = "(bufs s i)\<lparr>brefcnt := k\<rparr>"
    have b: "bdev ?B = ROOTDEV" "bno ?B = n" "bvalid ?B" "0 < brefcnt ?B" using A(6,11,12) that by simp_all
    have "cache_inv (put_buf i ?B s)" using vabs_held(1) [OF inv at b] .
    moreover have "vabs q (put_buf i ?B s) = (vabs q s)\<lparr>vrefs := (refs s ROOTDEV)(n := k)\<rparr>"
      unfolding vabs_held(2) [OF inv at b]
      by (intro vcache.equality) (use A(3,4,9,10) at that in \<open>auto simp: fun_upd_idem\<close>)
    ultimately show ?thesis using run by (simp add: bio_ok_def)
  qed
  show "bio_ok q (bpin i s) \<and> vabs q (bpin i s) = v_pin n (vabs q s)"
    using * [of "brefcnt (bufs s i) + 1"] A(8) by (simp add: bpin_def upd_buf_def v_pin_def)
  show "bio_ok q (bunpin i s) \<and> vabs q (bunpin i s) = v_unpin n (vabs q s)" if "1 < refs s ROOTDEV n"
    using * [of "brefcnt (bufs s i) - 1"] A(8) that by (simp add: bunpin_def upd_buf_def v_unpin_def dec32_def)
qed

lemma bio_bwrite:
  assumes ok: "bio_ok q s" and at: "at_buf q s i = Some n"
  shows "\<exists>s'. bwrite i s = Inr s' \<and> bio_ok q s' \<and> vabs q s' = v_write n (vabs q s)"
proof -
  have inv: "cache_inv s" and run: "running q s" using ok by (simp_all add: bio_ok_def)
  note A = at_bufD [OF inv at]
  let ?x = "bdata (bufs s i)"
  let ?t = "s\<lparr>disk := (disk s)(n := ?x), dwrites := dwrites s @ [(n, ?x)]\<rparr>"
  have w: "bwrite i s = Inr ?t"
    using holdingsleep_at [OF ok at] A(12) by (simp add: bwrite_def virtio_disk_rw_def Let_def)
  have sl: "slot ?t ROOTDEV m = slot s ROOTDEV m" for m by (simp add: slot_def holds_def [abs_def])
  have "view ?t ROOTDEV m = view s ROOTDEV m" for m
    using sl A(5,6) by (cases "m = n") (auto simp: view_def split: option.splits)
  moreover have "refs ?t ROOTDEV m = refs s ROOTDEV m" "locked_by ?t ROOTDEV m = locked_by s ROOTDEV m" for m
    using sl by (auto simp: refs_def locked_by_def split: option.split)
  ultimately have "view ?t ROOTDEV = view s ROOTDEV" "refs ?t ROOTDEV = refs s ROOTDEV" "locked_by ?t ROOTDEV = locked_by s ROOTDEV"
    by blast+
  moreover have "spare ?t = spare s" "at_buf q ?t = at_buf q s" "bio_env ?t = bio_env s"
    by (simp_all add: spare_def at_buf_def fun_eq_iff bio_env_def kmem.defs)
  ultimately have "vabs q ?t = v_write n (vabs q s)"
    using A(9) by (intro vcache.equality) (simp_all add: v_write_def vabs_def)
  moreover have "cache_inv ?t" using inv by (simp add: cache_inv_def lru_def)
  moreover have "running q ?t" using run by (simp add: running_def myproc_def cpuid_def)
  ultimately show ?thesis using w by (simp add: bio_ok_def)
qed

interpretation bc: block_cache "bread ROOTDEV" brelse bwrite bpin bunpin "\<lambda>s i. bdata (bufs s i)" set_data "bio_ok q"
  "vabs q" for q
proof unfold_locales
  fix s :: "'a bcache_scheme" and i j n x
  assume ok: "bio_ok q s"
  then have inv: "cache_inv s" by (simp add: bio_ok_def)
  {
    assume "vat (vabs q s) i = Some n"
    then have at: "at_buf q s i = Some n" by simp
    show "n \<in> vheld (vabs q s) \<and> 0 < vrefs (vabs q s) n" using at_bufD [OF inv at] by simp
    show "i = j" if "vat (vabs q s) j = Some n"
      using at_bufD(5) [OF inv at] at_bufD(5) [OF inv, of q j n] that by simp
    show "bdata (bufs s i) = vview (vabs q s) n" using at_bufD(9) [OF inv at] by simp
    show "\<exists>s'. brelse i s = Inr s' \<and> bio_ok q s' \<and> vabs q s' = v_brelse i n (vabs q s)" using bio_brelse [OF ok at] .
    show "bio_ok q (set_data i x s) \<and> vabs q (set_data i x s) = v_set n x (vabs q s)" using bio_set_data [OF ok at] .
    show "\<exists>s'. bwrite i s = Inr s' \<and> bio_ok q s' \<and> vabs q s' = v_write n (vabs q s)" using bio_bwrite [OF ok at] .
    show "bio_ok q (bpin i s) \<and> vabs q (bpin i s) = v_pin n (vabs q s)" using bio_pin(1) [OF ok at] .
    show "bio_ok q (bunpin i s) \<and> vabs q (bunpin i s) = v_unpin n (vabs q s)" if "1 < vrefs (vabs q s) n"
      using bio_pin(2) [OF ok at] that by simp
  }
  show "\<exists>i s'. bread ROOTDEV n s = Inr (i, s') \<and> bio_ok q s' \<and> vat (vabs q s) i = None \<and> vabs q s' = v_bread i n (vabs q s)"
    if "vclean (vabs q s)" "n \<notin> vheld (vabs q s)" "0 < vrefs (vabs q s) n \<or> 0 < vroom (vabs q s)"
    using bio_bread [OF ok that] .
qed

section \<open>The cache at boot\<close>

lemma binit_from_links:
  assumes "links (bnext s) (bprev s) NBUF xs NBUF" and "distinct xs" and "set xs = {..<b}" and "b + n \<le> NBUF"
  shows "\<exists>ys. links (bnext (binit_from b n s)) (bprev (binit_from b n s)) NBUF ys NBUF \<and> distinct ys \<and> set ys = {..<b + n}"
  using assms
proof (induction b n s arbitrary: xs rule: binit_from.induct)
  case (1 b s)
  then show ?case by auto
next
  case (2 b n s)
  let ?t = "link_front b (upd_buf b (\<lambda>x. x\<lparr>block_lk := initsleeplock\<rparr>) s)"
  have nx: "bnext ?t = (bnext s)(b := bnext s NBUF, NBUF := b)" "bprev ?t = (bprev s)(b := NBUF, bnext s NBUF := b)"
    using "2.prems"(4) by (auto simp: link_front_def upd_buf_def Let_def)
  have "links (bnext ?t) (bprev ?t) NBUF (b # xs) NBUF"
    by (rule links_front [OF "2.prems"(1) _ "2.prems"(2) _ _ nx]) (use "2.prems"(3,4) in simp_all)
  then have "\<exists>ys. links (bnext (binit_from (Suc b) n ?t)) (bprev (binit_from (Suc b) n ?t)) NBUF ys NBUF \<and> distinct ys \<and>
      set ys = {..<Suc b + n}"
    using "2.IH" [of "b # xs"] "2.prems"(2-4) by (simp add: lessThan_Suc)
  then show ?case by simp
qed

lemma binit_from_bufs:
  "bufs (binit_from b n s) i = (if b \<le> i \<and> i < b + n then (bufs s i)\<lparr>block_lk := initsleeplock\<rparr> else bufs s i)"
  "procs (binit_from b n s) = procs s" "cpus (binit_from b n s) = cpus s" "hartid (binit_from b n s) = hartid s"
  "disk (binit_from b n s) = disk s"
  by (induction b n s rule: binit_from.induct) (auto simp: upd_buf_def link_front_def Let_def)

text \<open>\<open>binit\<close>, on memory that is zero at boot, makes an empty cache.\<close>

lemma binit_inv:
  assumes "\<And>i. bdev (bufs s i) = 0 \<and> brefcnt (bufs s i) = 0 \<and> \<not> bvalid (bufs s i)"
  shows "cache_inv (binit s)" "spare (binit s) = {..<NBUF}" "slot (binit s) ROOTDEV n = None"
proof -
  let ?s = "s\<lparr>bprev := (bprev s)(NBUF := NBUF), bnext := (bnext s)(NBUF := NBUF)\<rparr>"
  have "\<exists>ys. links (bnext (binit s)) (bprev (binit s)) NBUF ys NBUF \<and> distinct ys \<and> set ys = {..<0 + NBUF}"
    unfolding binit_def by (rule binit_from_links [of _ "[]"]) simp_all
  then have l: "\<exists>xs. lru (binit s) xs" by (simp add: lru_def)
  have b: "bufs (binit s) i = (if i < NBUF then (bufs s i)\<lparr>block_lk := initsleeplock\<rparr> else bufs s i)" for i
    by (simp add: binit_def binit_from_bufs)
  show "cache_inv (binit s)" using l assms by (auto simp: cache_inv_def b initsleeplock_def)
  show "spare (binit s) = {..<NBUF}" using assms by (auto simp: spare_def b)
  show "slot (binit s) ROOTDEV n = None" using assms by (auto simp: slot_None holds_def b)
qed

lemma empty_cache:
  assumes "cache_inv s" and "\<And>n. slot s ROOTDEV n = None"
  shows "view s ROOTDEV = disk s" "refs s ROOTDEV = (\<lambda>_. 0)" "{n. locked_by s ROOTDEV n \<noteq> None} = {}"
  using assms(2) by (simp_all add: view_def refs_def locked_by_def fun_eq_iff)

section \<open>Properties\<close>

text \<open>
  C23. \<open>bread\<close> implements its specification: if no other process has the block locked and a buffer can be had, it
  returns a buffer locked by the caller that holds the block as last written through the cache or, if it is not
  cached, as it is on the disk, and no block appears changed.
\<close>

theorem bread_refines:
  assumes "bio_ok q s" and "vclean (vabs q s)" and "locked_by s ROOTDEV n = None"
    and "0 < refs s ROOTDEV n \<or> spare s \<noteq> {}"
  shows "\<exists>i s'. bread ROOTDEV n s = Inr (i, s') \<and> bio_ok q s' \<and> bdata (bufs s' i) = view s ROOTDEV n \<and>
    vabs q s' = v_bread i n (vabs q s)"
proof -
  have "n \<notin> vheld (vabs q s)" "0 < vrefs (vabs q s) n \<or> 0 < vroom (vabs q s)"
    using assms(3,4) by (auto simp: card_gt_0_iff)
  from bc.bread_ok [OF assms(1,2) this] obtain i s' where
    r: "bread ROOTDEV n s = Inr (i, s')" "bio_ok q s'" "vabs q s' = v_bread i n (vabs q s)" by blast
  have "at_buf q s' i = Some n" using arg_cong [OF r(3), of vat] by (simp add: v_bread_def)
  then have "bdata (bufs s' i) = view s' ROOTDEV n" using r(2) by (intro at_bufD(9) [symmetric]) (simp_all add: bio_ok_def)
  also have "\<dots> = view s ROOTDEV n" using arg_cong [OF r(3), of vview] by (simp add: v_bread_def)
  finally show ?thesis using r by blast
qed

text \<open>A machine after \<open>binit\<close>, with a process running.\<close>

definition booted_cache :: "(nat \<Rightarrow> blk) \<Rightarrow> 'a \<Rightarrow> 'a bcache_scheme" where
  "booted_cache d x = binit \<lparr>ram = (\<lambda>_. 0), kend = 0x80022000, freelist = 0, refer_count = (\<lambda>_. 0),
     procs = [idle_proc RUNNING None 1], nextpid = 2, initproc = Some 0, cpus = (\<lambda>_. Some 0), hartid = 0,
     disk = d, dwrites = [], bufs = (\<lambda>_. \<lparr>bvalid = False, bdev = 0, bno = 0, block_lk = initsleeplock, brefcnt = 0,
       bdata = (\<lambda>_. 0)\<rparr>), bnext = (\<lambda>_. 0), bprev = (\<lambda>_. 0), \<dots> = x\<rparr>"

lemma binit_from_more: "bcache.more (binit_from b n s) = bcache.more s"
  by (induction b n s rule: binit_from.induct) (simp_all add: link_front_def upd_buf_def Let_def)

lemma binit_more: "bcache.more (binit s) = bcache.more s"
  by (simp add: binit_def binit_from_more)

lemma booted_cache_ok:
  "bio_ok 1 (booted_cache d x)" "locked_by (booted_cache d x) ROOTDEV n = None"
  "spare (booted_cache d x) = {..<NBUF}" "view (booted_cache d x) ROOTDEV = d" "refs (booted_cache d x) ROOTDEV = (\<lambda>_. 0)"
  "disk (booted_cache d x) = d" "bcache.more (booted_cache d x) = x" "vclean (vabs 1 (booted_cache d x))"
proof -
  have c: "cache_inv (booted_cache d x)" "spare (booted_cache d x) = {..<NBUF}" "slot (booted_cache d x) ROOTDEV n = None" for n
    unfolding booted_cache_def by (rule binit_inv; simp)+
  show d: "disk (booted_cache d x) = d" by (simp add: booted_cache_def binit_def binit_from_bufs)
  show "bcache.more (booted_cache d x) = x" by (simp add: booted_cache_def binit_more)
  note e = empty_cache [OF c(1,3)]
  show "spare (booted_cache d x) = {..<NBUF}" by (rule c(2))
  show "view (booted_cache d x) ROOTDEV = d" "refs (booted_cache d x) ROOTDEV = (\<lambda>_. 0)" using e d by simp_all
  show "vclean (vabs 1 (booted_cache d x))" using e(1) by (simp add: vclean_def)
  show "locked_by (booted_cache d x) ROOTDEV n = None" using e(3) by blast
  have "running 1 (booted_cache d x)"
    by (auto simp: running_def booted_cache_def binit_def binit_from_bufs myproc_def cpuid_def idle_proc_def)
  then show "bio_ok 1 (booted_cache d x)" using c(1) by (simp add: bio_ok_def)
qed

theorem bread_refines_witness:
  "\<exists>i s'. bread ROOTDEV 7 (booted_cache (\<lambda>n _. of_nat n) ()) = Inr (i, s') \<and> bdata (bufs s' i) = (\<lambda>_. 7)"
proof -
  let ?s = "booted_cache (\<lambda>n _. of_nat n) ()"
  have "spare ?s \<noteq> {}" by (simp add: booted_cache_ok(3) lessThan_empty_iff)
  from bread_refines [OF booted_cache_ok(1,8,2) disjI2 [OF this], of 7] show ?thesis
    unfolding booted_cache_ok(4) by auto
qed

text \<open>
  C24. When a block is not cached, \<open>bget\<close> recycles the least recently used of the buffers that nobody references; it
  panics exactly if there is none.
\<close>

theorem bget_recycles_lru:
  assumes "lru s xs" and "cache_inv s" and "mypid s = Inr q" and "slot s ROOTDEV n = None"
  shows "(case filter (\<lambda>b. brefcnt (bufs s b) = 0) xs of
      [] \<Rightarrow> bget ROOTDEV n s = Inl (Panic ''bget: no buffers'')
    | ys \<Rightarrow> \<exists>s'. bget ROOTDEV n s = Inr (last ys, s') \<and> bno (bufs s' (last ys)) = n)"
proof -
  let ?P = "\<lambda>b. brefcnt (bufs s b) = 0"
  have f: "find ?P (rev xs) = (if filter ?P xs = [] then None else Some (last (filter ?P xs)))" for xs
    by (induction xs rule: rev_induct) auto
  have free: "\<not> slocked (block_lk (bufs s b))" if "b \<in> set xs" "?P b" for b
    using that cache_invD(3) [OF assms(2), of b] assms(1) by (auto simp: lru_def)
  show ?thesis
  proof (cases "filter ?P xs")
    case Nil
    then show ?thesis
      unfolding bget_def scan_slot [OF assms(2) ROOTDEV_nonzero(1)] assms(4) lru_scan(2) [OF assms(1)] f by simp
  next
    case (Cons y ys)
    then have "last (y # ys) \<in> set (filter ?P xs)" by (metis last_in_set list.distinct(1))
    then have "\<not> slocked (block_lk (bufs s (last (y # ys))))" using free by auto
    then show ?thesis
      unfolding bget_def scan_slot [OF assms(2) ROOTDEV_nonzero(1)] assms(4) lru_scan(2) [OF assms(1)] f Cons
      using assms(3) by (auto simp: upd_buf_def acquiresleep_def Let_def)
  qed
qed

theorem bget_recycles_lru_witness:
  "\<exists>b s'. bget ROOTDEV 7 (booted_cache (\<lambda>n _. of_nat n) ()) = Inr (b, s') \<and> bno (bufs s' b) = 7"
proof -
  let ?s = "booted_cache (\<lambda>n _. of_nat n) ()"
  have inv: "cache_inv ?s" and me: "mypid ?s = Inr 1"
    using booted_cache_ok(1) [of "\<lambda>n _. of_nat n" "()"] running_mypid by (auto simp: bio_ok_def)
  obtain xs where l: "lru ?s xs" using cache_invD(1) [OF inv] by blast
  have sl: "slot ?s ROOTDEV 7 = None" unfolding booted_cache_def by (rule binit_inv) simp
  have "0 \<in> set xs" "0 \<in> spare ?s" using l booted_cache_ok(3) [of "\<lambda>n _. of_nat n" "()"] by (auto simp: lru_def)
  then have "filter (\<lambda>b. brefcnt (bufs ?s b) = 0) xs \<noteq> []"
    by (auto simp: filter_empty_conv spare_def)
  then show ?thesis
    using bget_recycles_lru [OF l inv me sl] by (auto split: list.splits)
qed

end
