(* ===== verification/Journal.thy ===== *)
theory Journal
  imports Blocks
begin

text \<open>
  The contract between the log and the file system: what a file-system call that runs inside a transaction can rely on.
  The abstract state is the contents of the blocks as the transaction sees them, the buffers the caller has locked, the
  blocks anybody has locked, the blocks in the log, the free slots of the log, and the number of buffers the caller can
  hold at once. A block is dirty when it has been changed and not been handed to the log.
\<close>

record 'e vjournal =
  jview :: "nat \<Rightarrow> blk"
  jat :: "nat \<Rightarrow> nat option"
  jheld :: "nat set"
  jlog :: "nat set"
  jhome :: "nat set"
  jspace :: nat
  jroom :: nat
  jenv :: 'e

definition j_log :: "nat \<Rightarrow> nat \<Rightarrow> 'e vjournal \<Rightarrow> 'e vjournal" where
  "j_log n r v = v\<lparr>jlog := insert n (jlog v), jspace := (if n \<in> jlog v then jspace v else jspace v - 1), jroom := r\<rparr>"

lemma j_log_sel [simp]:
  "jview (j_log n r v) = jview v" "jat (j_log n r v) = jat v" "jheld (j_log n r v) = jheld v" "jhome (j_log n r v) = jhome v"
  "jenv (j_log n r v) = jenv v" "jlog (j_log n r v) = insert n (jlog v)" "jroom (j_log n r v) = r"
  "jspace (j_log n r v) = (if n \<in> jlog v then jspace v else jspace v - 1)"
  by (simp_all add: j_log_def)

text \<open>Room for logging \<open>k\<close> more blocks while \<open>h\<close> more buffers are held.\<close>

definition budget :: "nat \<Rightarrow> nat \<Rightarrow> 'e vjournal \<Rightarrow> bool" where
  "budget k h v \<longleftrightarrow> k \<le> jspace v \<and> k + h + card (dom (jat v)) \<le> jroom v"

lemma budget_mono: "budget k h v \<Longrightarrow> k' \<le> k \<Longrightarrow> h' \<le> h \<Longrightarrow> budget k' h' v"
  by (auto simp: budget_def)

locale journal =
  fixes bread :: "nat \<Rightarrow> 's \<Rightarrow> (nat \<times> 's) kres"
    and brelse :: "nat \<Rightarrow> 's \<Rightarrow> 's kres"
    and data :: "'s \<Rightarrow> nat \<Rightarrow> blk"
    and set_data :: "nat \<Rightarrow> blk \<Rightarrow> 's \<Rightarrow> 's"
    and log_write :: "nat \<Rightarrow> 's \<Rightarrow> 's kres"
    and ok :: "'s \<Rightarrow> bool"
    and dirty :: "'s \<Rightarrow> nat set"
    and J :: "'s \<Rightarrow> 'e vjournal"
  assumes at_held: "ok s \<Longrightarrow> jat (J s) i = Some n \<Longrightarrow> n \<in> jheld (J s)"
    and at_inj: "ok s \<Longrightarrow> jat (J s) i = Some n \<Longrightarrow> jat (J s) j = Some n \<Longrightarrow> i = j"
    and at_finite: "ok s \<Longrightarrow> finite (dom (jat (J s)))"
    and data_at: "ok s \<Longrightarrow> jat (J s) i = Some n \<Longrightarrow> data s i = jview (J s) n"
    and bread_ok: "ok s \<Longrightarrow> n \<notin> jheld (J s) \<Longrightarrow> card (dom (jat (J s))) < jroom (J s) \<Longrightarrow>
      \<exists>i s'. bread n s = Inr (i, s') \<and> ok s' \<and> jat (J s) i = None \<and> dirty s' = dirty s \<and>
        J s' = (J s)\<lparr>jat := (jat (J s))(i \<mapsto> n), jheld := insert n (jheld (J s))\<rparr>"
    and brelse_ok: "ok s \<Longrightarrow> jat (J s) i = Some n \<Longrightarrow> n \<notin> dirty s \<Longrightarrow>
      \<exists>s'. brelse i s = Inr s' \<and> ok s' \<and> dirty s' = dirty s \<and>
        J s' = (J s)\<lparr>jat := (jat (J s))(i := None), jheld := jheld (J s) - {n}\<rparr>"
    and set_data_ok: "ok s \<Longrightarrow> jat (J s) i = Some n \<Longrightarrow>
      ok (set_data i x s) \<and> dirty (set_data i x s) \<subseteq> insert n (dirty s) \<and>
        J (set_data i x s) = (J s)\<lparr>jview := (jview (J s))(n := x)\<rparr>"
    and log_write_ok: "ok s \<Longrightarrow> jat (J s) i = Some n \<Longrightarrow> n \<in> jhome (J s) \<Longrightarrow> 0 < jspace (J s) \<Longrightarrow>
      \<exists>s' r. log_write i s = Inr s' \<and> ok s' \<and> dirty s' = dirty s - {n} \<and> J s' = j_log n r (J s) \<and>
        jroom (J s) \<le> (if n \<in> jlog (J s) then r else r + 1)"
begin

text \<open>Reading a block.\<close>

lemma read_block:
  assumes "ok s" and "n \<notin> jheld (J s)" and "budget 0 1 (J s)"
  obtains i s1 s2 where "bread n s = Inr (i, s1)" "data s1 i = jview (J s) n" "ok s1" "jat (J s) i = None" "dirty s1 = dirty s"
    "J s1 = (J s)\<lparr>jat := (jat (J s))(i \<mapsto> n), jheld := insert n (jheld (J s))\<rparr>"
    "n \<notin> dirty s \<longrightarrow> brelse i s1 = Inr s2 \<and> ok s2 \<and> J s2 = J s \<and> dirty s2 = dirty s"
proof -
  have "card (dom (jat (J s))) < jroom (J s)" using assms(3) by (simp add: budget_def)
  then obtain i s1 where r: "bread n s = Inr (i, s1)" "ok s1" "jat (J s) i = None" "dirty s1 = dirty s"
    "J s1 = (J s)\<lparr>jat := (jat (J s))(i \<mapsto> n), jheld := insert n (jheld (J s))\<rparr>"
    using bread_ok [OF assms(1,2)] by blast
  have a: "jat (J s1) i = Some n" by (simp add: r(5))
  have d: "data s1 i = jview (J s) n" using data_at [OF r(2) a] by (simp add: r(5))
  show thesis
  proof (cases "n \<in> dirty s")
    case True
    then show thesis using that [OF r(1) d r(2-5)] by simp
  next
    case False
    then obtain s2 where s2: "brelse i s1 = Inr s2" "ok s2" "dirty s2 = dirty s1"
      "J s2 = (J s1)\<lparr>jat := (jat (J s1))(i := None), jheld := jheld (J s1) - {n}\<rparr>"
      using brelse_ok [OF r(2) a] r(4) by blast
    have "J s2 = J s" using r(3) assms(2) by (simp add: s2(4) r(5) fun_upd_idem)
    then show thesis using that [OF r(1) d r(2-5), of s2] s2(1-3) r(4) by simp
  qed
qed

text \<open>Changing a block the caller has locked, and handing it to the log.\<close>

lemma change_block:
  assumes "ok s" and "jat (J s) i = Some n" and "n \<in> jhome (J s)" and "budget (Suc k) h (J s)"
  shows "\<exists>s' r. log_write i (set_data i x s) = Inr s' \<and> ok s' \<and> dirty s' \<subseteq> dirty s \<and>
    J s' = j_log n r ((J s)\<lparr>jview := (jview (J s))(n := x)\<rparr>) \<and> budget k h (J s')"
proof -
  have s1: "ok (set_data i x s)" "dirty (set_data i x s) \<subseteq> insert n (dirty s)"
    "J (set_data i x s) = (J s)\<lparr>jview := (jview (J s))(n := x)\<rparr>"
    using set_data_ok [OF assms(1,2)] by blast+
  have "jat (J (set_data i x s)) i = Some n" "n \<in> jhome (J (set_data i x s))" "0 < jspace (J (set_data i x s))"
    using assms(2-4) by (simp_all add: s1(3) budget_def)
  then obtain s2 r where s2: "log_write i (set_data i x s) = Inr s2" "ok s2" "dirty s2 = dirty (set_data i x s) - {n}"
    "J s2 = j_log n r (J (set_data i x s))" "jroom (J (set_data i x s)) \<le> (if n \<in> jlog (J (set_data i x s)) then r else r + 1)"
    using log_write_ok [OF s1(1)] by blast
  have "budget k h (J s2)" using assms(4) s2(5) by (auto simp: s2(4) s1(3) budget_def split: if_splits)
  then show ?thesis using s2 s1 by auto
qed

text \<open>The usual sequence: read, change, log, release.\<close>

lemma update_block:
  assumes "ok s" and n: "n \<notin> jheld (J s)" "n \<in> jhome (J s)" "n \<notin> dirty s" and b: "budget (Suc k) (Suc h) (J s)"
  shows "\<exists>i s1 s2 s' r. bread n s = Inr (i, s1) \<and> data s1 i = jview (J s) n \<and> log_write i (set_data i x s1) = Inr s2 \<and>
    brelse i s2 = Inr s' \<and> ok s' \<and> dirty s' \<subseteq> dirty s \<and>
    J s' = j_log n r ((J s)\<lparr>jview := (jview (J s))(n := x)\<rparr>) \<and> budget k (Suc h) (J s')"
proof -
  obtain i s1 where r: "bread n s = Inr (i, s1)" "data s1 i = jview (J s) n" "ok s1" "jat (J s) i = None" "dirty s1 = dirty s"
    "J s1 = (J s)\<lparr>jat := (jat (J s))(i \<mapsto> n), jheld := insert n (jheld (J s))\<rparr>"
    using read_block [OF assms(1) n(1) budget_mono [OF b]] by (metis One_nat_def le_add1 plus_1_eq_Suc zero_le)
  have dm: "dom (jat (J s1)) = insert i (dom (jat (J s)))" by (simp add: r(6))
  have c: "card (dom (jat (J s1))) = Suc (card (dom (jat (J s))))"
    unfolding dm using at_finite [OF assms(1)] r(4) by (simp add: card_insert_if domIff)
  then have "budget (Suc k) h (J s1)" using b by (simp add: budget_def r(6))
  moreover have a: "jat (J s1) i = Some n" "n \<in> jhome (J s1)" using n(2) by (simp_all add: r(6))
  ultimately obtain s2 rm where s2: "log_write i (set_data i x s1) = Inr s2" "ok s2" "dirty s2 \<subseteq> dirty s1"
    "J s2 = j_log n rm ((J s1)\<lparr>jview := (jview (J s1))(n := x)\<rparr>)" "budget k h (J s2)"
    using change_block [OF r(3) a, where x = x] by blast
  have a2: "jat (J s2) i = Some n" by (simp add: s2(4) a)
  then obtain s3 where s3: "brelse i s2 = Inr s3" "ok s3" "dirty s3 = dirty s2"
    "J s3 = (J s2)\<lparr>jat := (jat (J s2))(i := None), jheld := jheld (J s2) - {n}\<rparr>"
    using brelse_ok [OF s2(2) a2] s2(3) r(5) n(3) by blast
  have e: "J s3 = j_log n rm ((J s)\<lparr>jview := (jview (J s))(n := x)\<rparr>)"
    using r(4) n(1) by (simp add: s3(4) s2(4) r(6) j_log_def fun_upd_idem)
  have "budget k (Suc h) (J s3)" using s2(5) c by (auto simp: e s2(4) budget_def r(6) split: if_splits)
  then show ?thesis using r(1,2,5) s2(1,3) s3(1-3) e by blast
qed

end

end
