(* ===== verification/Log.thy ===== *)
theory Log
  imports Bio Journal "HOL-Library.Sublist"
begin

text \<open>
  The write-ahead log (\<open>log.c\<close>): the transaction protocol of \<open>begin_op\<close>, \<open>log_write\<close> and \<open>end_op\<close>, the commit, and
  recovery at boot. The properties are that a commit is atomic with respect to a crash after any of its disk writes,
  and that no transaction can exhaust the cache.

  Counters are \<open>int\<close>s, block numbers natural numbers (they are compared and used as \<open>uint\<close>).
\<close>

section \<open>State\<close>

abbreviation MAXOPBLOCKS :: nat where "MAXOPBLOCKS \<equiv> 10"
abbreviation LOGSIZE :: nat where "LOGSIZE \<equiv> 30"

record superblock =
  magic :: nat
  sbsize :: nat
  nblocks :: nat
  ninodes :: nat
  nlog :: nat
  logstart :: nat
  inodestart :: nat
  bmapstart :: nat

text \<open>The array \<open>block\<close> has \<open>LOGSIZE\<close> elements.\<close>

record logheader =
  hn :: int
  hblock :: "nat \<Rightarrow> nat"

record log_st =
  lstart :: nat
  lsize :: int
  outstanding :: int
  committing :: bool
  ldev :: nat
  lh :: logheader

record klog = bcache +
  log :: log_st

definition upd_log :: "(log_st \<Rightarrow> log_st) \<Rightarrow> 'a klog_scheme \<Rightarrow> 'a klog_scheme" where
  "upd_log f s = s\<lparr>log := f (log s)\<rparr>"

text \<open>An \<open>int\<close> from its 32 bits, and its 32 bits.\<close>

definition int_of :: "nat \<Rightarrow> int" where
  "int_of v = (if v < 2147483648 then int v else int v - 4294967296)"

definition of_int32 :: "int \<Rightarrow> nat" where
  "of_int32 i = nat (i mod 4294967296)"

section \<open>Operations\<close>

fun install_trans_from :: "bool \<Rightarrow> nat \<Rightarrow> nat \<Rightarrow> 'a klog_scheme \<Rightarrow> 'a klog_scheme kres" where
  "install_trans_from recovering tail 0 s = Inr s"
| "install_trans_from recovering tail (Suc k) s =
     kbind (kbind (bread (ldev (log s)) (lstart (log s) + tail + 1) s) (\<lambda>(lbuf, s).
            kbind (bread (ldev (log s)) (hblock (lh (log s)) tail) s) (\<lambda>(dbuf, s).
            kbind (bwrite dbuf (set_data dbuf (bdata (bufs s lbuf)) s)) (\<lambda>s.
            kbind (brelse lbuf (if \<not> recovering then bunpin dbuf s else s)) (\<lambda>s. brelse dbuf s)))))
       (install_trans_from recovering (Suc tail) k)"

definition install_trans :: "bool \<Rightarrow> 'a klog_scheme \<Rightarrow> 'a klog_scheme kres" where
  "install_trans recovering s = install_trans_from recovering 0 (nat (hn (lh (log s)))) s"

text \<open>The loops over \<open>block\<close> would leave the array for \<open>n > LOGSIZE\<close>.\<close>

definition get_head :: "blk \<Rightarrow> (nat \<Rightarrow> nat) \<Rightarrow> logheader" where
  "get_head d bl =
     (let n = int_of (ld32 d 0) in \<lparr>hn = n, hblock = fold (\<lambda>i bl. bl(i := ld32 d (4 + 4 * i))) [0..<nat n] bl\<rparr>)"

definition put_head :: "logheader \<Rightarrow> blk \<Rightarrow> blk" where
  "put_head h d = fold (\<lambda>i d. st32 d (4 + 4 * i) (hblock h i)) [0..<nat (hn h)] (st32 d 0 (of_int32 (hn h)))"

definition read_head :: "'a klog_scheme \<Rightarrow> 'a klog_scheme kres" where
  "read_head s =
     kbind (bread (ldev (log s)) (lstart (log s)) s) (\<lambda>(b, s).
     let h = get_head (bdata (bufs s b)) (hblock (lh (log s))) in
     if hn h > int LOGSIZE then Inl (Undefined ''log.lh.block'')
     else brelse b (upd_log (\<lambda>l. l\<lparr>lh := h\<rparr>) s))"

definition write_head :: "'a klog_scheme \<Rightarrow> 'a klog_scheme kres" where
  "write_head s =
     kbind (bread (ldev (log s)) (lstart (log s)) s) (\<lambda>(b, s).
     let h = lh (log s) in
     if hn h > int LOGSIZE then Inl (Undefined ''log.lh.block'')
     else kbind (bwrite b (set_data b (put_head h (bdata (bufs s b))) s)) (\<lambda>s. brelse b s))"

definition recover_from_log :: "'a klog_scheme \<Rightarrow> 'a klog_scheme kres" where
  "recover_from_log s =
     kbind (read_head s) (\<lambda>s.
     kbind (install_trans True s) (\<lambda>s.
     write_head (upd_log (\<lambda>l. l\<lparr>lh := (lh l)\<lparr>hn := 0\<rparr>\<rparr>) s)))"

definition initlog :: "nat \<Rightarrow> superblock \<Rightarrow> 'a klog_scheme \<Rightarrow> 'a klog_scheme kres" where
  "initlog dv sb s =
     (if 4 + 4 * LOGSIZE \<ge> BSIZE then Inl (Panic ''initlog: too big logheader'')
      else recover_from_log (upd_log (\<lambda>l. l\<lparr>lstart := logstart sb, lsize := int (nlog sb), ldev := dv\<rparr>) s))"

definition begin_op :: "'a klog_scheme \<Rightarrow> 'a klog_scheme kres" where
  "begin_op s =
     (if committing (log s) then Inl (Sleeps ''log'')
      else if hn (lh (log s)) + (outstanding (log s) + 1) * int MAXOPBLOCKS > int LOGSIZE then Inl (Sleeps ''log'')
      else Inr (upd_log (\<lambda>l. l\<lparr>outstanding := outstanding l + 1\<rparr>) s))"

fun write_log_from :: "nat \<Rightarrow> nat \<Rightarrow> 'a klog_scheme \<Rightarrow> 'a klog_scheme kres" where
  "write_log_from tail 0 s = Inr s"
| "write_log_from tail (Suc k) s =
     kbind (kbind (bread (ldev (log s)) (lstart (log s) + tail + 1) s) (\<lambda>(to, s).
            kbind (bread (ldev (log s)) (hblock (lh (log s)) tail) s) (\<lambda>(from, s).
            kbind (bwrite to (set_data to (bdata (bufs s from)) s)) (\<lambda>s.
            kbind (brelse from s) (\<lambda>s. brelse to s)))))
       (write_log_from (Suc tail) k)"

definition write_log :: "'a klog_scheme \<Rightarrow> 'a klog_scheme kres" where
  "write_log s = write_log_from 0 (nat (hn (lh (log s)))) s"

definition commit :: "'a klog_scheme \<Rightarrow> 'a klog_scheme kres" where
  "commit s =
     (if hn (lh (log s)) > 0 then
        kbind (write_log s) (\<lambda>s.
        kbind (write_head s) (\<lambda>s.
        kbind (install_trans False s) (\<lambda>s.
        write_head (upd_log (\<lambda>l. l\<lparr>lh := (lh l)\<lparr>hn := 0\<rparr>\<rparr>) s))))
      else Inr s)"

definition end_op :: "'a klog_scheme \<Rightarrow> 'a klog_scheme kres" where
  "end_op s =
     (let s = upd_log (\<lambda>l. l\<lparr>outstanding := outstanding l - 1\<rparr>) s in
      if committing (log s) then Inl (Panic ''log.committing'')
      else if outstanding (log s) = 0
      then kbind (commit (upd_log (\<lambda>l. l\<lparr>committing := True\<rparr>) s)) (\<lambda>s.
           Inr (wakeup ChanLog (upd_log (\<lambda>l. l\<lparr>committing := False\<rparr>) s)))
      else Inr (wakeup ChanLog s))"

definition log_write :: "nat \<Rightarrow> 'a klog_scheme \<Rightarrow> 'a klog_scheme kres" where
  "log_write b s =
     (let n = hn (lh (log s)) in
      if n \<ge> int LOGSIZE \<or> n \<ge> lsize (log s) - 1 then Inl (Panic ''too big a transaction'')
      else if outstanding (log s) < 1 then Inl (Panic ''log_write outside of trans'')
      else
        let i = (case find (\<lambda>i. hblock (lh (log s)) i = bno (bufs s b)) [0..<nat n] of None \<Rightarrow> nat n | Some i \<Rightarrow> i);
            s = upd_log (\<lambda>l. l\<lparr>lh := (lh l)\<lparr>hblock := (hblock (lh l))(i := bno (bufs s b))\<rparr>\<rparr>) s
        in if int i = n then Inr (upd_log (\<lambda>l. l\<lparr>lh := (lh l)\<lparr>hn := n + 1\<rparr>\<rparr>) (bpin b s)) else Inr s)"

section \<open>What the cache does not touch\<close>

lemma more_upd_buf [simp]: "bcache.more (upd_buf b f s) = bcache.more s"
  by (simp add: upd_buf_def)

lemma more_links [simp]: "bcache.more (link_front b s) = bcache.more s" "bcache.more (unlink b s) = bcache.more s"
  by (simp_all add: link_front_def unlink_def Let_def)

lemma more_wakeup [simp]: "bcache.more (wakeup c s) = bcache.more s"
  by (simp add: wakeup_def)

lemma more_bread: "bread d n s = Inr (i, s') \<Longrightarrow> bcache.more s' = bcache.more s"
  by (auto simp: bread_def bget_def virtio_disk_rw_def Let_def split: option.splits if_splits)

lemma more_bwrite: "bwrite b s = Inr s' \<Longrightarrow> bcache.more s' = bcache.more s"
  by (auto simp: bwrite_def virtio_disk_rw_def Let_def split: if_splits)

lemma more_brelse: "brelse b s = Inr s' \<Longrightarrow> bcache.more s' = bcache.more s"
  by (auto simp: brelse_def releasesleep_def Let_def split: if_splits)

lemma more_log: "bcache.more s' = bcache.more s \<Longrightarrow> log s' = log s \<and> klog.more s' = klog.more s" for s s' :: "'a klog_scheme"
  by (cases s; cases s') simp

lemma log_upd_buf [simp]: "log (upd_buf b f s) = log s" "log (set_data b x s) = log s" "log (bpin b s) = log s"
  "log (bunpin b s) = log s" "log (wakeup c s) = log s"
  by (simp_all add: upd_buf_def set_data_def bpin_def bunpin_def wakeup_def)

lemma log_bread: "bread d n s = Inr (i, s') \<Longrightarrow> log s' = log s"
  using more_log [OF more_bread] by blast

lemma log_bwrite: "bwrite b s = Inr s' \<Longrightarrow> log s' = log s"
  using more_log [OF more_bwrite] by blast

lemma log_brelse: "brelse b s = Inr s' \<Longrightarrow> log s' = log s"
  using more_log [OF more_brelse] by blast

lemma bio_env_log: "bio_env s' = bio_env s \<Longrightarrow> log s' = log s \<and> klog.more s' = klog.more s" for s s' :: "'a klog_scheme"
  by (rule more_log) (simp add: bio_env_def)

lemma upd_log_sel [simp]:
  "log (upd_log f s) = f (log s)" "bufs (upd_log f s) = bufs s" "disk (upd_log f s) = disk s"
  "dwrites (upd_log f s) = dwrites s" "bio_ok q (upd_log f s) = bio_ok q s"
  by (simp_all add: upd_log_def bio_ok_def cache_inv_def lru_def running_def myproc_def cpuid_def)

lemma cache_upd_log [simp]:
  "slot (upd_log f s) = slot s" "spare (upd_log f s) = spare s" "at_buf q (upd_log f s) = at_buf q s"
  "view (upd_log f s) = view s" "refs (upd_log f s) = refs s" "locked_by (upd_log f s) = locked_by s"
proof -
  show sl: "slot (upd_log f s) = slot s" "spare (upd_log f s) = spare s" "at_buf q (upd_log f s) = at_buf q s"
    by (simp_all add: slot_def [abs_def] holds_def [abs_def] spare_def at_buf_def [abs_def] cong: if_cong)
  show "view (upd_log f s) = view s" "refs (upd_log f s) = refs s" "locked_by (upd_log f s) = locked_by s"
    by (simp_all add: view_def [abs_def] refs_def [abs_def] locked_by_def [abs_def] sl cong: option.case_cong if_cong)
qed

lemma vabs_upd_log: "vabs q (upd_log f s) = (vabs q s)\<lparr>venv := bio_env (upd_log f s)\<rparr>"
  by (simp add: vabs_def)

section \<open>The loops in terms of the contract of the cache\<close>

definition v_copy :: "nat \<Rightarrow> nat \<Rightarrow> 'e vcache \<Rightarrow> 'e vcache" where
  "v_copy a b v = v_write a (v_set a (vview v b) v)"

definition v_install :: "bool \<Rightarrow> nat \<Rightarrow> nat \<Rightarrow> 'e vcache \<Rightarrow> 'e vcache" where
  "v_install unpin b a v = (let v = v_copy b a v in
     if unpin then (v_unpin b v)\<lparr>vroom := (if vrefs v b = 1 then vroom v + 1 else vroom v)\<rparr> else v)"

lemma v_copy_sel [simp]:
  "vrefs (v_copy a b v) = vrefs v" "vroom (v_copy a b v) = vroom v" "vat (v_copy a b v) = vat v"
  "vheld (v_copy a b v) = vheld v" "venv (v_copy a b v) = venv v"
  "vview (v_copy a b v) = (vview v)(a := vview v b)" "vdisk (v_copy a b v) = (vdisk v)(a := vview v b)"
  "vwrites (v_copy a b v) = vwrites v @ [(a, vview v b)]"
  by (simp_all add: v_copy_def v_write_def v_set_def)

lemma v_install_sel [simp]:
  "vrefs (v_install u a b v) = (if u then (vrefs v)(a := vrefs v a - 1) else vrefs v)"
  "vroom (v_install u a b v) = (if u \<and> vrefs v a = 1 then vroom v + 1 else vroom v)"
  "vat (v_install u a b v) = vat v" "vheld (v_install u a b v) = vheld v" "venv (v_install u a b v) = venv v"
  "vview (v_install u a b v) = (vview v)(a := vview v b)" "vdisk (v_install u a b v) = (vdisk v)(a := vview v b)"
  "vwrites (v_install u a b v) = vwrites v @ [(a, vview v b)]"
  by (simp_all add: v_install_def v_unpin_def Let_def)

lemma vclean_copy: "vclean v \<Longrightarrow> vclean (v_copy a b v)" "vclean v \<Longrightarrow> vclean (v_install u a b v)"
  by (auto simp: vclean_def)

lemma bread_then_bread:
  "kbind (bread d n s) (\<lambda>(i, s'). kbind (bread (ldev (log s')) (hblock (lh (log s')) t) s') (\<lambda>(j, s''). f i j s'')) =
   kbind (bread d n s) (\<lambda>(i, s'). kbind (bread (ldev (log s)) (hblock (lh (log s)) t) s') (\<lambda>(j, s''). f i j s''))"
  by (rule kbind_cong) (auto dest: log_bread)

text \<open>One iteration of each loop.\<close>

lemma write_log_step:
  assumes "bio_ok q s" and "vclean (vabs q s)" and "ldev (log s) = ROOTDEV" and "a = lstart (log s) + tail + 1"
    and "b = hblock (lh (log s)) tail" and "a \<notin> vheld (vabs q s)" "b \<notin> vheld (vabs q s)" "a \<noteq> b"
    and "0 < refs s ROOTDEV b" "0 < vroom (vabs q s)"
  obtains s' where "write_log_from tail (Suc k) s = write_log_from (Suc tail) k s'" "bio_ok q s'" "vabs q s' = v_copy a b (vabs q s)"
    "log s' = log s"
proof -
  have "(if vrefs (vabs q s) a = 0 then 1 else 0) + (if vrefs (vabs q s) b = 0 then 1 else 0) \<le> vroom (vabs q s)"
    using assms(9,10) by simp
  from bc.copy_to_first [OF assms(1,2,6-8) this, folded v_copy_def] obtain s' where s': "kbind (bread ROOTDEV a s) (\<lambda>(i, s). kbind (bread ROOTDEV b s) (\<lambda>(j, s).
      kbind (bwrite i (set_data i (bdata (bufs s j)) s)) (\<lambda>s. kbind (brelse j s) (\<lambda>s. brelse i s)))) = Inr s'"
    "bio_ok q s'" "vabs q s' = v_copy a b (vabs q s)"
    by (elim exE conjE) (rule that)
  have "log s' = log s" using arg_cong [OF s'(3), of venv] bio_env_log [of s' s] by simp
  moreover have "write_log_from tail (Suc k) s = write_log_from (Suc tail) k s'"
    using s'(1) by (simp add: bread_then_bread assms(3-5))
  ultimately show thesis using that s' by blast
qed

lemma install_step:
  assumes "bio_ok q s" and "vclean (vabs q s)" and "ldev (log s) = ROOTDEV" and "a = lstart (log s) + tail + 1"
    and "b = hblock (lh (log s)) tail" and "a \<notin> vheld (vabs q s)" "b \<notin> vheld (vabs q s)" "a \<noteq> b"
    and "(if rec then 1 else 0) < vroom (vabs q s)" and "\<not> rec \<longrightarrow> 0 < refs s ROOTDEV b"
  obtains s' where "install_trans_from rec tail (Suc k) s = install_trans_from rec (Suc tail) k s'" "bio_ok q s'"
    "vabs q s' = v_install (\<not> rec) b a (vabs q s)" "log s' = log s"
proof -
  have room: "(if vrefs (vabs q s) a = 0 then 1 else 0) + (if vrefs (vabs q s) b = 0 then 1 else 0) \<le> vroom (vabs q s)"
    using assms(9,10) by (auto split: if_splits)
  have "\<not> rec \<Longrightarrow> 0 < vrefs (vabs q s) b" using assms(10) by simp
  note bc.copy_to_second [OF assms(1,2,6-8) room this, folded v_copy_def, folded v_install_def, of "\<not> rec"]
  then obtain s' where s': "kbind (bread ROOTDEV a s) (\<lambda>(i, s). kbind (bread ROOTDEV b s) (\<lambda>(j, s).
      kbind (bwrite j (set_data j (bdata (bufs s i)) s)) (\<lambda>s.
      kbind (brelse i (if \<not> rec then bunpin j s else s)) (\<lambda>s. brelse j s)))) = Inr s'"
    "bio_ok q s'" "vabs q s' = v_install (\<not> rec) b a (vabs q s)"
    by simp (elim exE conjE, rule that)
  have "log s' = log s" using arg_cong [OF s'(3), of venv] bio_env_log [of s' s] by simp
  moreover have "install_trans_from rec tail (Suc k) s = install_trans_from rec (Suc tail) k s'"
    using s'(1) by (simp add: bread_then_bread assms(3-5))
  ultimately show thesis using that s' by blast
qed

text \<open>The writes a loop makes, and a disk after a list of writes.\<close>

definition apply_writes :: "(nat \<times> blk) list \<Rightarrow> (nat \<Rightarrow> blk) \<Rightarrow> nat \<Rightarrow> blk" where
  "apply_writes ws d = fold (\<lambda>(n, x) d. d(n := x)) ws d"

lemma apply_writes_simps [simp]:
  "apply_writes [] d = d" "apply_writes ((n, x) # ws) d = apply_writes ws (d(n := x))"
  "apply_writes (ws @ us) d = apply_writes us (apply_writes ws d)"
  by (simp_all add: apply_writes_def)

lemma apply_writes_other: "n \<notin> fst ` set ws \<Longrightarrow> apply_writes ws d n = d n"
  by (induction ws arbitrary: d) (auto simp: image_iff)

lemma apply_writes_in:
  assumes "distinct (map fst ws)" and "(n, x) \<in> set ws"
  shows "apply_writes ws d n = x"
  using assms
proof (induction ws arbitrary: d)
  case (Cons w ws)
  then show ?case by (cases w) (auto simp: apply_writes_other dest: image_eqI [of _ fst])
qed simp

definition moves :: "(nat \<Rightarrow> nat) \<Rightarrow> (nat \<Rightarrow> nat) \<Rightarrow> (nat \<Rightarrow> blk) \<Rightarrow> nat \<Rightarrow> nat \<Rightarrow> (nat \<times> blk) list" where
  "moves dst src V t k = map (\<lambda>i. (dst i, V (src i))) [t..<t + k]"

lemma moves_simps [simp]:
  "moves dst src V t 0 = []" "moves dst src V t (Suc k) = (dst t, V (src t)) # moves dst src V (Suc t) k"
  by (simp_all add: moves_def upt_conv_Cons del: upt_Suc)

lemma fst_moves: "fst ` set (moves dst src V t k) = dst ` {t..<t + k}"
  by (simp add: moves_def image_image)

lemma moves_cong: "(\<And>i. t \<le> i \<Longrightarrow> i < t + k \<Longrightarrow> V (src i) = W (src' i)) \<Longrightarrow> moves dst src V t k = moves dst src' W t k"
  by (simp add: moves_def)

text \<open>The loop of \<open>write_log\<close>: every logged block is copied into the log.\<close>

lemma write_log_from_ok:
  assumes "bio_ok q s" and "vclean (vabs q s)" and "ldev (log s) = ROOTDEV" and "0 < vroom (vabs q s)"
    and L: "log s = l" "\<And>i. lb i = lstart l + i + 1" "\<And>i. hb i = hblock (lh l) i"
    and "\<And>i. t \<le> i \<Longrightarrow> i < t + k \<Longrightarrow> lb i \<notin> vheld (vabs q s) \<and> hb i \<notin> vheld (vabs q s) \<and> 0 < refs s ROOTDEV (hb i)"
    and "\<And>i j. t \<le> i \<Longrightarrow> i < t + k \<Longrightarrow> t \<le> j \<Longrightarrow> j < t + k \<Longrightarrow> lb i \<noteq> hb j"
  shows "\<exists>s'. write_log_from t k s = Inr s' \<and> bio_ok q s' \<and> log s' = log s \<and> vclean (vabs q s') \<and>
    (let ws = moves lb hb (view s ROOTDEV) t k in vabs q s' = (vabs q s)\<lparr>vview := apply_writes ws (view s ROOTDEV),
      vdisk := apply_writes ws (disk s), vwrites := dwrites s @ ws\<rparr>)"
  using assms
proof (induction k arbitrary: t s)
  case 0
  then show ?case by (auto simp: Let_def vabs_def)
next
  case (Suc k)
  have st: "lb t = lstart (log s) + t + 1" "hb t = hblock (lh (log s)) t" using Suc.prems(5-7) by simp_all
  have a: "lb t \<notin> vheld (vabs q s)" "hb t \<notin> vheld (vabs q s)" "lb t \<noteq> hb t" "0 < refs s ROOTDEV (hb t)"
    using Suc.prems(8) [of t] Suc.prems(9) [of t t] by simp_all
  obtain s1 where s1: "write_log_from t (Suc k) s = write_log_from (Suc t) k s1" "bio_ok q s1"
    "vabs q s1 = v_copy (lb t) (hb t) (vabs q s)" "log s1 = log s"
    using write_log_step [OF Suc.prems(1-3) st a Suc.prems(4)] .
  note f = arg_cong [OF s1(3)]
  have e: "view s1 ROOTDEV = (view s ROOTDEV)(lb t := view s ROOTDEV (hb t))" "disk s1 = (disk s)(lb t := view s ROOTDEV (hb t))"
    "dwrites s1 = dwrites s @ [(lb t, view s ROOTDEV (hb t))]" "refs s1 ROOTDEV = refs s ROOTDEV" "vheld (vabs q s1) = vheld (vabs q s)"
    "vroom (vabs q s1) = vroom (vabs q s)"
    using f [of vview] f [of vdisk] f [of vwrites] f [of vrefs] f [of vheld] f [of vroom] by simp_all
  have m: "moves lb hb (view s1 ROOTDEV) (Suc t) k = moves lb hb (view s ROOTDEV) (Suc t) k"
  proof (rule moves_cong)
    fix i assume "Suc t \<le> i" "i < Suc t + k"
    then have "lb t \<noteq> hb i" by (intro Suc.prems(9)) simp_all
    then show "view s1 ROOTDEV (hb i) = view s ROOTDEV (hb i)" by (simp add: e(1))
  qed
  have "\<exists>s'. write_log_from (Suc t) k s1 = Inr s' \<and> bio_ok q s' \<and> log s' = log s1 \<and> vclean (vabs q s') \<and>
    (let ws = moves lb hb (view s1 ROOTDEV) (Suc t) k in vabs q s' = (vabs q s1)\<lparr>vview := apply_writes ws (view s1 ROOTDEV),
      vdisk := apply_writes ws (disk s1), vwrites := dwrites s1 @ ws\<rparr>)"
  proof (rule Suc.IH)
    show "vclean (vabs q s1)" using vclean_copy(1) [OF Suc.prems(2)] s1(3) by simp
    show "0 < vroom (vabs q s1)" using Suc.prems(4) e(6) by simp
    show "lb i \<notin> vheld (vabs q s1) \<and> hb i \<notin> vheld (vabs q s1) \<and> 0 < refs s1 ROOTDEV (hb i)" if "Suc t \<le> i" "i < Suc t + k" for i
      unfolding e using Suc.prems(8) [of i] that by simp
    show "lb i \<noteq> hb j" if "Suc t \<le> i" "i < Suc t + k" "Suc t \<le> j" "j < Suc t + k" for i j
      using Suc.prems(9) [of i j] that by simp
  qed (use s1 Suc.prems(3,5,6,7) in simp_all)
  then show ?case
    unfolding s1(1) m s1(4) by (auto simp: Let_def e(2,3) s1(3)) (simp_all add: e(1) vabs_def)
qed

text \<open>The loop of \<open>install_trans\<close>: every log block is copied to its home, which loses its pin unless recovering.\<close>

lemma install_from_ok:
  assumes "bio_ok q s" and "vclean (vabs q s)" and "ldev (log s) = ROOTDEV" and "(if rec then 1 else 0) < vroom (vabs q s)"
    and L: "log s = l" "\<And>i. lb i = lstart l + i + 1" "\<And>i. hb i = hblock (lh l) i"
    and "\<And>i. t \<le> i \<Longrightarrow> i < t + k \<Longrightarrow> lb i \<notin> vheld (vabs q s) \<and> hb i \<notin> vheld (vabs q s) \<and> (\<not> rec \<longrightarrow> 0 < refs s ROOTDEV (hb i))"
    and "\<And>i j. t \<le> i \<Longrightarrow> i < t + k \<Longrightarrow> t \<le> j \<Longrightarrow> j < t + k \<Longrightarrow> lb i \<noteq> hb j \<and> (hb i = hb j \<longrightarrow> i = j)"
  shows "\<exists>s'. install_trans_from rec t k s = Inr s' \<and> bio_ok q s' \<and> log s' = log s \<and> vclean (vabs q s') \<and>
    (let ws = moves hb lb (view s ROOTDEV) t k in vabs q s' = (vabs q s)\<lparr>vview := apply_writes ws (view s ROOTDEV),
      vdisk := apply_writes ws (disk s), vwrites := dwrites s @ ws,
      vrefs := (\<lambda>n. if \<not> rec \<and> n \<in> hb ` {t..<t + k} then refs s ROOTDEV n - 1 else refs s ROOTDEV n),
      vroom := vroom (vabs q s) + (if rec then 0 else length (filter (\<lambda>i. refs s ROOTDEV (hb i) = 1) [t..<t + k]))\<rparr>)"
  using assms
proof (induction k arbitrary: t s)
  case 0
  then show ?case by (auto simp: Let_def vabs_def)
next
  case (Suc k)
  have st: "lb t = lstart (log s) + t + 1" "hb t = hblock (lh (log s)) t" using Suc.prems(5-7) by simp_all
  have a: "lb t \<notin> vheld (vabs q s)" "hb t \<notin> vheld (vabs q s)" "lb t \<noteq> hb t"
    and r: "\<not> rec \<longrightarrow> 0 < refs s ROOTDEV (hb t)"
    using Suc.prems(8) [of t] Suc.prems(9) [of t t] by simp_all
  obtain s1 where s1: "install_trans_from rec t (Suc k) s = install_trans_from rec (Suc t) k s1" "bio_ok q s1"
    "vabs q s1 = v_install (\<not> rec) (hb t) (lb t) (vabs q s)" "log s1 = log s"
    using install_step [OF Suc.prems(1-3) st a Suc.prems(4) r] .
  note f = arg_cong [OF s1(3)]
  have e: "view s1 ROOTDEV = (view s ROOTDEV)(hb t := view s ROOTDEV (lb t))" "disk s1 = (disk s)(hb t := view s ROOTDEV (lb t))"
    "dwrites s1 = dwrites s @ [(hb t, view s ROOTDEV (lb t))]" "vheld (vabs q s1) = vheld (vabs q s)"
    "refs s1 ROOTDEV = (if \<not> rec then (refs s ROOTDEV)(hb t := refs s ROOTDEV (hb t) - 1) else refs s ROOTDEV)"
    "vroom (vabs q s1) = (if \<not> rec \<and> refs s ROOTDEV (hb t) = 1 then vroom (vabs q s) + 1 else vroom (vabs q s))"
    using f [of vview] f [of vdisk] f [of vwrites] f [of vheld] f [of vrefs] f [of vroom] by simp_all
  have d: "hb i \<noteq> hb t" "lb i \<noteq> hb t" if "Suc t \<le> i" "i < Suc t + k" for i
    using Suc.prems(9) [of i t] that by auto
  have m: "moves hb lb (view s1 ROOTDEV) (Suc t) k = moves hb lb (view s ROOTDEV) (Suc t) k"
    by (rule moves_cong) (simp add: e(1) d)
  have "\<exists>s'. install_trans_from rec (Suc t) k s1 = Inr s' \<and> bio_ok q s' \<and> log s' = log s1 \<and> vclean (vabs q s') \<and>
    (let ws = moves hb lb (view s1 ROOTDEV) (Suc t) k in vabs q s' = (vabs q s1)\<lparr>vview := apply_writes ws (view s1 ROOTDEV),
      vdisk := apply_writes ws (disk s1), vwrites := dwrites s1 @ ws,
      vrefs := (\<lambda>n. if \<not> rec \<and> n \<in> hb ` {Suc t..<Suc t + k} then refs s1 ROOTDEV n - 1 else refs s1 ROOTDEV n),
      vroom := vroom (vabs q s1) + (if rec then 0 else length (filter (\<lambda>i. refs s1 ROOTDEV (hb i) = 1) [Suc t..<Suc t + k]))\<rparr>)"
  proof (rule Suc.IH)
    show "vclean (vabs q s1)" using vclean_copy(2) [OF Suc.prems(2)] s1(3) by simp
    show "(if rec then 1 else 0) < vroom (vabs q s1)" using Suc.prems(4) e(6) by auto
    show "lb i \<notin> vheld (vabs q s1) \<and> hb i \<notin> vheld (vabs q s1) \<and> (\<not> rec \<longrightarrow> 0 < refs s1 ROOTDEV (hb i))"
      if "Suc t \<le> i" "i < Suc t + k" for i
      unfolding e using Suc.prems(8) [of i] that d [OF that] by simp
    show "lb i \<noteq> hb j \<and> (hb i = hb j \<longrightarrow> i = j)" if "Suc t \<le> i" "i < Suc t + k" "Suc t \<le> j" "j < Suc t + k" for i j
      using Suc.prems(9) [of i j] that by simp
  qed (use s1 Suc.prems(3,5,6,7) in simp_all)
  then obtain s' where s': "install_trans_from rec (Suc t) k s1 = Inr s'" "bio_ok q s'" "log s' = log s1" "vclean (vabs q s')"
    "vabs q s' = (vabs q s1)\<lparr>vview := apply_writes (moves hb lb (view s ROOTDEV) (Suc t) k) (view s1 ROOTDEV),
      vdisk := apply_writes (moves hb lb (view s ROOTDEV) (Suc t) k) (disk s1), vwrites := dwrites s1 @ moves hb lb (view s ROOTDEV) (Suc t) k,
      vrefs := (\<lambda>n. if \<not> rec \<and> n \<in> hb ` {Suc t..<Suc t + k} then refs s1 ROOTDEV n - 1 else refs s1 ROOTDEV n),
      vroom := vroom (vabs q s1) + (if rec then 0 else length (filter (\<lambda>i. refs s1 ROOTDEV (hb i) = 1) [Suc t..<Suc t + k]))\<rparr>"
    unfolding m Let_def by blast
  have fl: "filter (\<lambda>i. refs s1 ROOTDEV (hb i) = 1) [Suc t..<Suc t + k] = filter (\<lambda>i. refs s ROOTDEV (hb i) = 1) [Suc t..<Suc t + k]"
    by (rule filter_cong) (auto simp: e(5) d)
  have u: "[t..<t + Suc k] = t # [Suc t..<Suc t + k]" by (simp add: upt_conv_Cons del: upt_Suc)
  have i: "hb ` {t..<t + Suc k} = insert (hb t) (hb ` {Suc t..<Suc t + k})"
    using arg_cong [OF u, of "\<lambda>xs. hb ` set xs"] by (simp del: upt_Suc)
  have nt: "hb t \<notin> hb ` {Suc t..<Suc t + k}" using d(1) by force
  have "vabs q s' = (vabs q s)\<lparr>vview := apply_writes (moves hb lb (view s ROOTDEV) t (Suc k)) (view s ROOTDEV),
      vdisk := apply_writes (moves hb lb (view s ROOTDEV) t (Suc k)) (disk s), vwrites := dwrites s @ moves hb lb (view s ROOTDEV) t (Suc k),
      vrefs := (\<lambda>n. if \<not> rec \<and> n \<in> hb ` {t..<t + Suc k} then refs s ROOTDEV n - 1 else refs s ROOTDEV n),
      vroom := vroom (vabs q s) + (if rec then 0 else length (filter (\<lambda>i. refs s ROOTDEV (hb i) = 1) [t..<t + Suc k]))\<rparr>"
    unfolding s'(5) s1(3) fl u i
    by (intro vcache.equality) (use nt in \<open>auto simp: e fun_eq_iff\<close>)
  then show ?case using s1 s' by (simp add: Let_def)
qed

section \<open>The header block\<close>

lemma ld32_put_blocks:
  "ld32 (fold (\<lambda>i d. st32 d (4 + 4 * i) (f i)) [0..<n] d) (4 + 4 * j) = (if j < n then f j mod 4294967296 else ld32 d (4 + 4 * j))"
  "ld32 (fold (\<lambda>i d. st32 d (4 + 4 * i) (f i)) [0..<n] d) 0 = ld32 d 0"
  by (induction n) (auto simp: b32.ld_st_array b32.ld_st_other)

lemma int_of_of_int32: "0 \<le> i \<Longrightarrow> i < 2147483648 \<Longrightarrow> int_of (of_int32 i) = i"
  by (simp add: int_of_def of_int32_def)

lemma put_head_sel:
  assumes "0 \<le> hn h" and "hn h < 2147483648"
  shows "int_of (ld32 (put_head h d) 0) = hn h"
    "i < nat (hn h) \<Longrightarrow> ld32 (put_head h d) (4 + 4 * i) = hblock h i mod 4294967296"
proof -
  have "of_int32 (hn h) < 4294967296" by (simp add: of_int32_def nat_less_iff)
  then show "int_of (ld32 (put_head h d) 0) = hn h"
    using assms by (simp add: put_head_def ld32_put_blocks b32.ld_st_small int_of_of_int32)
  show "ld32 (put_head h d) (4 + 4 * i) = hblock h i mod 4294967296" if "i < nat (hn h)"
    using that by (simp add: put_head_def ld32_put_blocks)
qed

lemma get_head_sel:
  "hn (get_head d bl) = int_of (ld32 d 0)"
  "i < nat (int_of (ld32 d 0)) \<Longrightarrow> hblock (get_head d bl) i = ld32 d (4 + 4 * i)"
proof -
  have "fold (\<lambda>i bl. bl(i := ld32 d (4 + 4 * i))) [0..<n] bl = (\<lambda>i. if i < n then ld32 d (4 + 4 * i) else bl i)" for n
    by (induction n) (auto simp: fun_eq_iff)
  then show "hn (get_head d bl) = int_of (ld32 d 0)"
    "i < nat (int_of (ld32 d 0)) \<Longrightarrow> hblock (get_head d bl) i = ld32 d (4 + 4 * i)"
    by (simp_all add: get_head_def Let_def)
qed

lemma write_head_ok:
  assumes "bio_ok q s" and "vclean (vabs q s)" and "ldev (log s) = ROOTDEV" and "lstart (log s) \<notin> vheld (vabs q s)"
    and "0 < vroom (vabs q s)" and "hn (lh (log s)) \<le> int LOGSIZE"
  shows "\<exists>s'. write_head s = Inr s' \<and> bio_ok q s' \<and> log s' = log s \<and>
    vabs q s' = (let n = lstart (log s) in v_write n (v_set n (put_head (lh (log s)) (view s ROOTDEV n)) (vabs q s)))"
proof -
  let ?n = "lstart (log s)" and ?f = "put_head (lh (log s))"
  have "write_head s = kbind (bread ROOTDEV ?n s) (\<lambda>(i, s). kbind (bwrite i (set_data i (?f (bdata (bufs s i))) s)) (\<lambda>s. brelse i s))"
    unfolding write_head_def assms(3) using assms(6) by (intro kbind_cong refl) (auto simp: Let_def dest!: log_bread)
  moreover obtain s' where s': "kbind (bread ROOTDEV ?n s) (\<lambda>(i, s). kbind (bwrite i (set_data i (?f (bdata (bufs s i))) s)) (\<lambda>s. brelse i s)) = Inr s'"
    "bio_ok q s'" "vabs q s' = v_write ?n (v_set ?n (?f (vview (vabs q s) ?n)) (vabs q s))"
    using bc.write_block [OF assms(1,2,4) disjI2 [OF assms(5)], of ?f] by (elim exE conjE) (rule that)
  moreover have "log s' = log s" using arg_cong [OF s'(3), of venv] bio_env_log [of s' s] by (simp add: v_defs)
  ultimately show ?thesis by (simp add: Let_def)
qed

lemma read_head_ok:
  assumes "bio_ok q s" and "vclean (vabs q s)" and "ldev (log s) = ROOTDEV" and n: "lstart (log s) \<notin> vheld (vabs q s)"
    and "0 < vroom (vabs q s)" and "int_of (ld32 (view s ROOTDEV (lstart (log s))) 0) \<le> int LOGSIZE"
  shows "\<exists>s'. read_head s = Inr s' \<and> bio_ok q s' \<and> vabs q s' = (vabs q s)\<lparr>venv := bio_env s'\<rparr> \<and>
    log s' = (log s)\<lparr>lh := get_head (view s ROOTDEV (lstart (log s))) (hblock (lh (log s)))\<rparr>"
proof -
  let ?n = "lstart (log s)"
  obtain i s1 where r: "bread ROOTDEV ?n s = Inr (i, s1)" "bio_ok q s1" "vat (vabs q s) i = None" "vabs q s1 = v_bread i ?n (vabs q s)"
    using bc.bread_ok [OF assms(1,2,4) disjI2 [OF assms(5)]] by blast
  have l: "log s1 = log s" using log_bread [OF r(1)] .
  have a: "vat (vabs q s1) i = Some ?n" by (simp add: r(4) v_bread_def del: vabs_sel)
  have d: "bdata (bufs s1 i) = view s ROOTDEV ?n"
    using bc.data_at [OF r(2) a] arg_cong [OF r(4), of vview] by (simp add: v_bread_def)
  let ?h = "get_head (view s ROOTDEV ?n) (hblock (lh (log s)))"
  let ?s2 = "upd_log (\<lambda>l. l\<lparr>lh := ?h\<rparr>) s1"
  have s2: "bio_ok q ?s2" "vat (vabs q ?s2) i = Some ?n" using r(2) a by (simp_all add: vabs_upd_log del: vabs_sel)
  obtain s3 where s3: "brelse i ?s2 = Inr s3" "bio_ok q s3" "vabs q s3 = v_brelse i ?n (vabs q ?s2)"
    using bc.brelse_ok [OF s2] by blast
  have "venv (vabs q s3) = bio_env ?s2" by (simp add: s3(3) v_brelse_def vabs_upd_log del: vabs_sel)
  then have e: "bio_env s3 = bio_env ?s2" by simp
  have "vabs q s3 = (vabs q s)\<lparr>venv := bio_env s3\<rparr>"
    unfolding e unfolding s3(3) vabs_upd_log r(4)
    using r(3) n assms(5) by (auto simp: v_defs fun_upd_idem)
  moreover have "log s3 = (log s)\<lparr>lh := ?h\<rparr>" using bio_env_log [OF e] l by simp
  moreover have "read_head s = Inr s3" using assms(6) r(1) s3(1) by (simp add: read_head_def assms(3) d l Let_def get_head_sel)
  ultimately show ?thesis using s3(2) by blast
qed

section \<open>Commit\<close>

text \<open>The blocks of the transaction, and those the log occupies.\<close>

definition logged :: "'a klog_scheme \<Rightarrow> nat list" where
  "logged s = map (hblock (lh (log s))) [0..<nat (hn (lh (log s)))]"

definition log_area :: "'a klog_scheme \<Rightarrow> nat set" where
  "log_area s = {lstart (log s)..<lstart (log s) + nat (lsize (log s))}"

text \<open>
  When no file-system call is active: the logged blocks are pinned, what differs from the disk is logged, and the header
  on the disk is empty.
\<close>

definition log_inv :: "'a klog_scheme \<Rightarrow> bool" where
  "log_inv s \<longleftrightarrow> ldev (log s) = ROOTDEV \<and> 0 \<le> hn (lh (log s)) \<and> hn (lh (log s)) \<le> int LOGSIZE \<and> hn (lh (log s)) < lsize (log s) \<and>
     distinct (logged s) \<and> (\<forall>b \<in> set (logged s). b \<notin> log_area s \<and> b < 4294967296 \<and> 0 < refs s ROOTDEV b) \<and>
     (\<forall>n. n \<notin> set (logged s) \<longrightarrow> view s ROOTDEV n = disk s n) \<and>
     int_of (ld32 (disk s (lstart (log s))) 0) = 0"

definition commit_ready :: "int \<Rightarrow> 'a klog_scheme \<Rightarrow> bool" where
  "commit_ready q s \<longleftrightarrow> bio_ok q s \<and> log_inv s \<and> spare s \<noteq> {} \<and>
     (\<forall>n. n \<in> set (logged s) \<or> n \<in> log_area s \<longrightarrow> locked_by s ROOTDEV n = None)"

definition commit_writes :: "'a klog_scheme \<Rightarrow> (nat \<times> blk) list" where
  "commit_writes s =
     (let st = lstart (log s); h = lh (log s); V = view s ROOTDEV; k = nat (hn h); hd = put_head h (V st) in
      if k = 0 then []
      else moves (\<lambda>i. st + i + 1) (hblock h) V 0 k @ [(st, hd)] @ moves (hblock h) (hblock h) V 0 k @
        [(st, put_head (h\<lparr>hn := 0\<rparr>) hd)])"

lemma log_inv_hblock:
  assumes "log_inv s" and "i < nat (hn (lh (log s)))"
  shows "hblock (lh (log s)) i \<in> set (logged s)" "hblock (lh (log s)) i \<notin> log_area s" "0 < refs s ROOTDEV (hblock (lh (log s)) i)"
    "hblock (lh (log s)) i < 4294967296"
    "lstart (log s) + i + 1 \<in> log_area s" "lstart (log s) + i + 1 \<noteq> hblock (lh (log s)) j \<or> nat (hn (lh (log s))) \<le> j"
    "j < nat (hn (lh (log s))) \<Longrightarrow> hblock (lh (log s)) i = hblock (lh (log s)) j \<longleftrightarrow> i = j"
proof -
  show m: "hblock (lh (log s)) i \<in> set (logged s)" using assms(2) by (auto simp: logged_def)
  show "hblock (lh (log s)) i \<notin> log_area s" "0 < refs s ROOTDEV (hblock (lh (log s)) i)" "hblock (lh (log s)) i < 4294967296"
    using m assms(1) by (auto simp: log_inv_def)
  have "int i + 1 < lsize (log s)" using assms by (auto simp: log_inv_def)
  then show a: "lstart (log s) + i + 1 \<in> log_area s" by (simp add: log_area_def)
  show "lstart (log s) + i + 1 \<noteq> hblock (lh (log s)) j \<or> nat (hn (lh (log s))) \<le> j"
  proof (cases "nat (hn (lh (log s))) \<le> j")
    case False
    then have "hblock (lh (log s)) j \<in> set (logged s)" by (auto simp: logged_def)
    then have "hblock (lh (log s)) j \<notin> log_area s" using assms(1) by (simp add: log_inv_def)
    then show ?thesis using a by metis
  qed simp
  show "hblock (lh (log s)) i = hblock (lh (log s)) j \<longleftrightarrow> i = j" if "j < nat (hn (lh (log s)))"
    using assms that by (auto simp: log_inv_def logged_def distinct_map inj_on_def)
qed

lemma log_inv_clean: "log_inv s \<Longrightarrow> vclean (vabs q s)"
  by (auto simp: log_inv_def vclean_def) (metis less_numeral_extra(3))

lemma commit_runs:
  assumes "commit_ready q s"
  shows "\<exists>s'. commit s = Inr s' \<and> bio_ok q s' \<and> log s' = (log s)\<lparr>lh := (lh (log s))\<lparr>hn := 0\<rparr>\<rparr> \<and>
    dwrites s' = dwrites s @ commit_writes s \<and> disk s' = apply_writes (commit_writes s) (disk s) \<and>
    view s' ROOTDEV = apply_writes (commit_writes s) (view s ROOTDEV) \<and>
    refs s' ROOTDEV = (\<lambda>n. if n \<in> set (logged s) then refs s ROOTDEV n - 1 else refs s ROOTDEV n)"
proof (cases "hn (lh (log s)) > 0")
  case False
  then have "nat (hn (lh (log s))) = 0" "hn (lh (log s)) = 0" using assms by (auto simp: commit_ready_def log_inv_def)
  then show ?thesis using assms by (simp add: commit_def commit_writes_def logged_def commit_ready_def)
next
  case True
  let ?l = "log s" and ?V = "view s ROOTDEV"
  define st k hb lb where "st = lstart ?l" and "k = nat (hn (lh ?l))" and "hb = hblock (lh ?l)" and "lb = (\<lambda>i. st + i + 1)"
  have ok: "bio_ok q s" and inv: "log_inv s" and room: "0 < vroom (vabs q s)"
    using assms by (auto simp: commit_ready_def card_gt_0_iff)
  have lk: "n \<notin> vheld (vabs q s)" if "n \<in> set (logged s) \<or> n \<in> log_area s" for n
    using assms that by (auto simp: commit_ready_def)
  have dev: "ldev ?l = ROOTDEV" and size: "hn (lh ?l) \<le> int LOGSIZE" using inv by (auto simp: log_inv_def)
  note H = log_inv_hblock [OF inv]
  have hb: "hb i \<notin> vheld (vabs q s)" "0 < refs s ROOTDEV (hb i)" "lb i \<notin> vheld (vabs q s)" "hb i \<noteq> st" if "i < k" for i
    using H(1-3,5) [of i] lk that by (auto simp: hb_def lb_def st_def k_def log_area_def)
  have st: "st \<notin> vheld (vabs q s)" using inv by (intro lk disjI2) (auto simp: log_area_def st_def log_inv_def)
  have ne: "lb i \<noteq> hb j" "hb i = hb j \<longleftrightarrow> i = j" if "i < k" "j < k" for i j
    using H(6,7) [of i j] that by (auto simp: hb_def lb_def st_def k_def)
  let ?w1 = "moves lb hb ?V 0 k" and ?w2 = "moves hb hb ?V 0 k" and ?hd = "put_head (lh ?l) (?V st)"
  obtain s1 where s1: "write_log_from 0 k s = Inr s1" "bio_ok q s1" "log s1 = ?l" "vclean (vabs q s1)"
    "vabs q s1 = (vabs q s)\<lparr>vview := apply_writes ?w1 ?V, vdisk := apply_writes ?w1 (disk s), vwrites := dwrites s @ ?w1\<rparr>"
    using write_log_from_ok [OF ok log_inv_clean [OF inv] dev room refl, of lb hb 0 k] hb ne
    by (auto simp: lb_def hb_def st_def Let_def)
  have V1: "view s1 ROOTDEV = apply_writes ?w1 ?V" using arg_cong [OF s1(5), of vview] by simp
  have "st \<notin> fst ` set ?w1" by (auto simp: fst_moves lb_def)
  then have V1st: "view s1 ROOTDEV st = ?V st" by (simp add: V1 apply_writes_other)
  have r1: "0 < vroom (vabs q s1)" "st \<notin> vheld (vabs q s1)" unfolding s1(5) using room st by simp_all
  obtain s2 where s2: "write_head s1 = Inr s2" "bio_ok q s2" "log s2 = ?l"
    "vabs q s2 = v_write st (v_set st ?hd (vabs q s1))"
    using write_head_ok [OF s1(2,4), unfolded s1(3), OF dev _ r1(1) size] r1(2) V1st by (auto simp: Let_def st_def)
  have V2: "view s2 ROOTDEV = (apply_writes ?w1 ?V)(st := ?hd)" "disk s2 = (apply_writes ?w1 (disk s))(st := ?hd)"
    "dwrites s2 = dwrites s @ ?w1 @ [(st, ?hd)]"
    using arg_cong [OF s2(4), of vview] arg_cong [OF s2(4), of vdisk] arg_cong [OF s2(4), of vwrites] unfolding s1(5)
    by (simp_all add: v_defs)
  have c2: "vclean (vabs q s2)" using s1(4) unfolding s2(4) by (auto simp: vclean_def v_defs)
  have r2: "vheld (vabs q s2) = vheld (vabs q s)" "vroom (vabs q s2) = vroom (vabs q s)" "vrefs (vabs q s2) = refs s ROOTDEV"
    unfolding s2(4) s1(5) by (simp_all add: v_defs)
  have R: "refs s2 ROOTDEV = refs s ROOTDEV" using r2(3) by simp
  have V2lb: "view s2 ROOTDEV (lb i) = ?V (hb i)" if "i < k" for i
  proof -
    have "distinct (map fst ?w1)" by (simp add: moves_def comp_def distinct_map inj_on_def lb_def)
    moreover have "(lb i, ?V (hb i)) \<in> set ?w1" using that by (auto simp: moves_def)
    ultimately have "apply_writes ?w1 ?V (lb i) = ?V (hb i)" by (rule apply_writes_in)
    then show ?thesis by (simp add: V2 lb_def)
  qed
  have m: "moves hb lb (view s2 ROOTDEV) 0 k = ?w2" by (rule moves_cong) (simp add: V2lb)
  have "\<exists>s'. install_trans_from False 0 k s2 = Inr s' \<and> bio_ok q s' \<and> log s' = log s2 \<and> vclean (vabs q s') \<and>
    (let ws = moves hb lb (view s2 ROOTDEV) 0 k in vabs q s' = (vabs q s2)\<lparr>vview := apply_writes ws (view s2 ROOTDEV),
      vdisk := apply_writes ws (disk s2), vwrites := dwrites s2 @ ws,
      vrefs := (\<lambda>n. if \<not> False \<and> n \<in> hb ` {0..<0 + k} then refs s2 ROOTDEV n - 1 else refs s2 ROOTDEV n),
      vroom := vroom (vabs q s2) + (if False then 0 else length (filter (\<lambda>i. refs s2 ROOTDEV (hb i) = 1) [0..<0 + k]))\<rparr>)"
    by (rule install_from_ok [OF s2(2) c2]) (use s2(3) dev r2 room hb ne in \<open>auto simp: lb_def hb_def st_def\<close>)
  then obtain s3 x where s3: "install_trans_from False 0 k s2 = Inr s3" "bio_ok q s3" "log s3 = ?l" "vclean (vabs q s3)"
    "vabs q s3 = (vabs q s2)\<lparr>vview := apply_writes ?w2 (view s2 ROOTDEV), vdisk := apply_writes ?w2 (disk s2), vwrites := dwrites s2 @ ?w2,
      vrefs := (\<lambda>n. if n \<in> hb ` {0..<k} then refs s ROOTDEV n - 1 else refs s ROOTDEV n), vroom := vroom (vabs q s) + x\<rparr>"
    unfolding m Let_def s2(3) R r2(2) by (elim exE conjE) (rule that, assumption+, simp only: simp_thms if_False add_0)
  have "st \<notin> fst ` set ?w2" unfolding fst_moves using hb(4) by force
  then have V3st: "view s3 ROOTDEV st = ?hd" using arg_cong [OF s3(5), of vview] by (simp add: V2 apply_writes_other)
  define s4 where "s4 = upd_log (\<lambda>l. l\<lparr>lh := (lh l)\<lparr>hn := 0\<rparr>\<rparr>) s3"
  have v4: "vabs q s4 = (vabs q s3)\<lparr>venv := bio_env s4\<rparr>" by (simp add: s4_def vabs_upd_log)
  have s4: "bio_ok q s4" "log s4 = ?l\<lparr>lh := (lh ?l)\<lparr>hn := 0\<rparr>\<rparr>" using s3 by (simp_all add: s4_def)
  have r4: "vclean (vabs q s4)" "st \<notin> vheld (vabs q s4)" "0 < vroom (vabs q s4)"
    unfolding v4 using s3(4) by (auto simp: vclean_def simp del: vabs_sel) (use r2 st room in \<open>auto simp: s3(5) simp del: vabs_sel\<close>)
  let ?hd' = "put_head ((lh ?l)\<lparr>hn := 0\<rparr>) ?hd"
  obtain s5 where s5: "write_head s4 = Inr s5" "bio_ok q s5" "log s5 = log s4" "vabs q s5 = v_write st (v_set st ?hd' (vabs q s4))"
    using write_head_ok [OF s4(1) r4(1) _ _ r4(3)] r4(2) dev V3st arg_cong [OF v4, of vview]
    by (auto simp: s4(2) st_def Let_def)
  have fin: "view s5 ROOTDEV = (apply_writes ?w2 ((apply_writes ?w1 ?V)(st := ?hd)))(st := ?hd')"
    "disk s5 = (apply_writes ?w2 ((apply_writes ?w1 (disk s))(st := ?hd)))(st := ?hd')"
    "dwrites s5 = dwrites s @ ?w1 @ [(st, ?hd)] @ ?w2 @ [(st, ?hd')]"
    "refs s5 ROOTDEV = (\<lambda>n. if n \<in> hb ` {0..<k} then refs s ROOTDEV n - 1 else refs s ROOTDEV n)"
    using arg_cong [OF s5(4), of vview] arg_cong [OF s5(4), of vdisk] arg_cong [OF s5(4), of vwrites] arg_cong [OF s5(4), of vrefs]
    unfolding v4 s3(5) by (simp_all add: v_defs V2)
  have "commit s = Inr s5"
    using True s1(1) s2(1) s3(1) s5(1) s2(3) by (simp add: commit_def write_log_def install_trans_def k_def s4_def)
  moreover have "commit_writes s = ?w1 @ [(st, ?hd)] @ ?w2 @ [(st, ?hd')]"
    using True by (simp add: commit_writes_def Let_def st_def k_def hb_def lb_def)
  moreover have "set (logged s) = hb ` {0..<k}" by (simp add: logged_def hb_def k_def)
  ultimately show ?thesis using s5(2,3) s4(2) fin by simp
qed

section \<open>Recovery\<close>

text \<open>The header on a disk, and what the recovery makes of a disk whose log starts at \<open>st\<close>.\<close>

definition head_n :: "nat \<Rightarrow> (nat \<Rightarrow> blk) \<Rightarrow> int" where
  "head_n st d = int_of (ld32 (d st) 0)"

definition head_block :: "nat \<Rightarrow> (nat \<Rightarrow> blk) \<Rightarrow> nat \<Rightarrow> nat" where
  "head_block st d i = ld32 (d st) (4 + 4 * i)"

definition replay :: "nat \<Rightarrow> (nat \<Rightarrow> blk) \<Rightarrow> nat \<Rightarrow> blk" where
  "replay st d = apply_writes (moves (head_block st d) (\<lambda>i. st + i + 1) d 0 (nat (head_n st d))) d"

definition recovery_writes :: "nat \<Rightarrow> (nat \<Rightarrow> blk) \<Rightarrow> (nat \<times> blk) list" where
  "recovery_writes st d = moves (head_block st d) (\<lambda>i. st + i + 1) d 0 (nat (head_n st d)) @ [(st, st32 (d st) 0 0)]"

definition head_wf :: "nat \<Rightarrow> nat \<Rightarrow> (nat \<Rightarrow> blk) \<Rightarrow> bool" where
  "head_wf st sz d \<longleftrightarrow> head_n st d \<le> int LOGSIZE \<and> head_n st d < int sz \<and> 0 < sz \<and>
     (\<forall>i < nat (head_n st d). head_block st d i \<notin> {st..<st + sz} \<and>
       (\<forall>j < nat (head_n st d). head_block st d i = head_block st d j \<longrightarrow> i = j))"

lemma put_empty_head: "hn h = 0 \<Longrightarrow> put_head h d = st32 d 0 0"
  by (simp add: put_head_def of_int32_def)

text \<open>A machine that has just booted, as far as the cache goes.\<close>

definition fresh :: "int \<Rightarrow> 'a bcache_scheme \<Rightarrow> bool" where
  "fresh q t \<longleftrightarrow> bio_ok q t \<and> view t ROOTDEV = disk t \<and> (\<forall>n. locked_by t ROOTDEV n = None) \<and> 2 \<le> card (spare t)"

lemma initlog_runs:
  assumes "fresh q t" and wf: "head_wf (logstart sb) (nlog sb) (disk t)"
  shows "\<exists>t'. initlog ROOTDEV sb t = Inr t' \<and> bio_ok q t' \<and> dwrites t' = dwrites t @ recovery_writes (logstart sb) (disk t) \<and>
    disk t' = apply_writes (recovery_writes (logstart sb) (disk t)) (disk t) \<and> view t' ROOTDEV = disk t'"
proof -
  define st where "st = logstart sb"
  define s where "s = upd_log (\<lambda>l. l\<lparr>lstart := logstart sb, lsize := int (nlog sb), ldev := ROOTDEV\<rparr>) t"
  have f: "bio_ok q t" "view t ROOTDEV = disk t" "vheld (vabs q t) = {}" "1 < vroom (vabs q t)" using assms(1) by (auto simp: fresh_def)
  have l: "ldev (log s) = ROOTDEV" "lstart (log s) = st" by (simp_all add: s_def st_def)
  have v: "vabs q s = (vabs q t)\<lparr>venv := bio_env s\<rparr>" by (simp add: s_def vabs_upd_log)
  have s: "bio_ok q s" "vheld (vabs q s) = {}" "1 < vroom (vabs q s)" "vclean (vabs q s)" "view s ROOTDEV = disk t" "disk s = disk t"
    "dwrites s = dwrites t"
    using f by (simp_all add: vclean_def s_def)
  define k hb lb where "k = nat (head_n st (disk t))" and "hb = head_block st (disk t)" and "lb = (\<lambda>i. st + i + 1)"
  have le: "head_n st (disk t) \<le> int LOGSIZE" using wf by (simp add: head_wf_def st_def)
  have hb: "hb i \<noteq> st" "lb j \<noteq> hb i" "hb i = hb j \<longleftrightarrow> i = j" if "i < k" "j < k" for i j
    using wf that by (auto simp: head_wf_def hb_def k_def st_def lb_def)
  let ?h = "get_head (disk t st) (hblock (lh (log s)))"
  have h: "hn ?h = head_n st (disk t)" "i < k \<Longrightarrow> hblock ?h i = hb i" for i
    by (simp_all add: get_head_sel head_n_def hb_def head_block_def k_def)
  obtain s1 where s1: "read_head s = Inr s1" "bio_ok q s1" "vabs q s1 = (vabs q s)\<lparr>venv := bio_env s1\<rparr>" "log s1 = (log s)\<lparr>lh := ?h\<rparr>"
    using read_head_ok [OF s(1,4) l(1)] s(2,3) le unfolding l(2) s(5) head_n_def by auto
  have "\<exists>s'. install_trans_from True 0 k s1 = Inr s' \<and> bio_ok q s' \<and> log s' = log s1 \<and> vclean (vabs q s') \<and>
    (let ws = moves (hblock ?h) lb (view s1 ROOTDEV) 0 k in vabs q s' = (vabs q s1)\<lparr>vview := apply_writes ws (view s1 ROOTDEV),
      vdisk := apply_writes ws (disk s1), vwrites := dwrites s1 @ ws,
      vrefs := (\<lambda>n. if \<not> True \<and> n \<in> hblock ?h ` {0..<0 + k} then refs s1 ROOTDEV n - 1 else refs s1 ROOTDEV n),
      vroom := vroom (vabs q s1) + (if True then 0 else length (filter (\<lambda>i. refs s1 ROOTDEV (hblock ?h i) = 1) [0..<0 + k]))\<rparr>)"
  proof (rule install_from_ok [OF s1(2), where l = "log s1"])
    show "vclean (vabs q s1)" using s(4) by (simp add: s1(3) vclean_def del: vabs_sel)
    show "(if True then 1 else 0) < vroom (vabs q s1)" using s(3) by (simp add: s1(3) del: vabs_sel)
  qed (use hb s(2) in \<open>simp_all add: s1(3,4) l lb_def h(2) del: vabs_sel\<close>)
  moreover have "moves (hblock ?h) lb (disk t) 0 k = moves hb lb (disk t) 0 k" by (simp add: moves_def h(2))
  moreover have "view s1 ROOTDEV = disk t" "disk s1 = disk t" "dwrites s1 = dwrites t"
    using arg_cong [OF s1(3), of vview] arg_cong [OF s1(3), of vdisk] arg_cong [OF s1(3), of vwrites] s(5-7) by simp_all
  ultimately obtain s2 where s2: "install_trans_from True 0 k s1 = Inr s2" "bio_ok q s2" "log s2 = log s1" "vclean (vabs q s2)"
    and v2: "vabs q s2 = (vabs q s1)\<lparr>vview := apply_writes (moves hb lb (disk t) 0 k) (disk t),
      vdisk := apply_writes (moves hb lb (disk t) 0 k) (disk t), vwrites := dwrites t @ moves hb lb (disk t) 0 k\<rparr>"
    unfolding Let_def by (elim exE conjE) (rule that, assumption+, simp add: vabs_def)
  define s3 where "s3 = upd_log (\<lambda>l. l\<lparr>lh := (lh l)\<lparr>hn := 0\<rparr>\<rparr>) s2"
  have v3: "vabs q s3 = (vabs q s2)\<lparr>venv := bio_env s3\<rparr>" by (simp add: s3_def vabs_upd_log)
  have l3: "ldev (log s3) = ROOTDEV" "lstart (log s3) = st" "hn (lh (log s3)) = 0" using l by (simp_all add: s3_def s2(3) s1(4))
  have r3: "bio_ok q s3" "vclean (vabs q s3)" "st \<notin> vheld (vabs q s3)" "0 < vroom (vabs q s3)"
    unfolding v3 using s2(2,4) by (auto simp: s3_def vclean_def simp del: vabs_sel) (use s(2,3) in \<open>auto simp: v2 s1(3) simp del: vabs_sel\<close>)
  have "st \<notin> fst ` set (moves hb lb (disk t) 0 k)" unfolding fst_moves using hb(1) by force
  then have "view s3 ROOTDEV st = disk t st"
    using arg_cong [OF v3, of vview] arg_cong [OF v2, of vview] by (simp add: apply_writes_other)
  then obtain s4 where s4: "write_head s3 = Inr s4" "bio_ok q s4" "vabs q s4 = v_write st (v_set st (st32 (disk t st) 0 0) (vabs q s3))"
    using write_head_ok [OF r3(1,2) l3(1) _ r3(4)] r3(3) l3 by (auto simp: Let_def put_empty_head)
  have "initlog ROOTDEV sb t = Inr s4"
    using s1(1) s2(1) s4(1) by (simp add: initlog_def recover_from_log_def s_def [symmetric] install_trans_def s1(4) h(1) k_def [symmetric] s3_def)
  moreover have "recovery_writes st (disk t) = moves hb lb (disk t) 0 k @ [(st, st32 (disk t st) 0 0)]"
    by (simp add: recovery_writes_def k_def hb_def lb_def)
  moreover have "dwrites s4 = dwrites t @ moves hb lb (disk t) 0 k @ [(st, st32 (disk t st) 0 0)]"
    "disk s4 = (apply_writes (moves hb lb (disk t) 0 k) (disk t))(st := st32 (disk t st) 0 0)" "view s4 ROOTDEV = disk s4"
    using arg_cong [OF s4(3), of vview] arg_cong [OF s4(3), of vdisk] arg_cong [OF s4(3), of vwrites] unfolding v3 v2
    by (simp_all add: v_defs)
  ultimately show ?thesis using s4(2) by (auto simp: st_def)
qed

section \<open>Crashes\<close>

text \<open>\<open>d\<close> recovers to \<open>X\<close>, outside the log.\<close>

definition recovers :: "nat \<Rightarrow> nat \<Rightarrow> (nat \<Rightarrow> blk) \<Rightarrow> (nat \<Rightarrow> blk) \<Rightarrow> bool" where
  "recovers st sz d X \<longleftrightarrow> head_wf st sz d \<and> (\<forall>n. n \<notin> {st..<st + sz} \<longrightarrow> replay st d n = X n)"

lemma replay_other: "n \<notin> head_block st d ` {..<nat (head_n st d)} \<Longrightarrow> replay st d n = d n"
  unfolding replay_def by (rule apply_writes_other) (auto simp: fst_moves)

lemma replay_in:
  assumes "head_wf st sz d" and "i < nat (head_n st d)"
  shows "replay st d (head_block st d i) = d (st + i + 1)"
  unfolding replay_def
proof (rule apply_writes_in)
  show "distinct (map fst (moves (head_block st d) (\<lambda>i. st + i + 1) d 0 (nat (head_n st d))))"
    using assms(1) by (auto simp: moves_def comp_def distinct_map inj_on_def head_wf_def)
  show "(head_block st d i, d (st + i + 1)) \<in> set (moves (head_block st d) (\<lambda>i. st + i + 1) d 0 (nat (head_n st d)))"
    using assms(2) by (auto simp: moves_def)
qed

lemma replay_empty: "head_n st d = 0 \<Longrightarrow> replay st d = d"
  by (simp add: replay_def)

lemma head_wf_empty: "head_n st d = 0 \<Longrightarrow> 0 < sz \<Longrightarrow> head_wf st sz d"
  by (simp add: head_wf_def)

lemma head_n_cleared: "head_n st (d(st := st32 x 0 0)) = 0"
  by (simp add: head_n_def b32.ld_st int_of_def)

text \<open>Writes to blocks that recovery overwrites do not matter.\<close>

lemma recovers_overwrite:
  assumes "recovers st sz d X" and "\<And>n. d' n \<noteq> d n \<Longrightarrow> n \<in> head_block st d ` {..<nat (head_n st d)}"
  shows "recovers st sz d' X"
proof -
  have wf: "head_wf st sz d" using assms(1) by (simp add: recovers_def)
  have same: "d' n = d n" if "n \<in> {st..<st + sz}" for n
    using wf assms(2) [of n] that by (auto simp: head_wf_def)
  have "0 < sz" using wf by (simp add: head_wf_def)
  then have "d' st = d st" by (intro same) simp
  then have h: "head_n st d' = head_n st d" "head_block st d' = head_block st d" by (simp_all add: head_n_def head_block_def [abs_def])
  have wf': "head_wf st sz d'" using wf by (simp add: head_wf_def h)
  have "replay st d' n = replay st d n" for n
  proof (cases "n \<in> head_block st d ` {..<nat (head_n st d)}")
    case True
    then obtain i where i: "i < nat (head_n st d)" "n = head_block st d i" by auto
    then have "st + i + 1 \<in> {st..<st + sz}" using wf by (auto simp: head_wf_def)
    then show ?thesis using replay_in [OF wf i(1)] replay_in [OF wf', of i] i same by (simp add: h)
  next
    case False
    then show ?thesis using replay_other [of n st d] replay_other [of n st d'] assms(2) [of n] by (auto simp: h)
  qed
  then show ?thesis using assms(1) wf' by (simp add: recovers_def)
qed

lemma prefix_moves: "prefix ws (moves dst src V 0 k) \<Longrightarrow> fst ` set ws \<subseteq> dst ` {..<k}"
  using image_mono [OF set_mono_prefix, of ws "moves dst src V 0 k" fst] by (simp add: fst_moves lessThan_atLeast0)

lemma writes_outside: "apply_writes ws d n \<noteq> d n \<Longrightarrow> n \<in> fst ` set ws"
  using apply_writes_other by metis

lemma recovers_recovery:
  assumes "recovers st sz d X" and "recovery_writes st d = ws @ rest"
  shows "recovers st sz (apply_writes ws d) X"
proof (cases "rest = []")
  case False
  then have "prefix ws (moves (head_block st d) (\<lambda>i. st + i + 1) d 0 (nat (head_n st d)))"
    using assms(2) by (cases rest rule: rev_cases) (auto simp: recovery_writes_def simp flip: append_assoc)
  then have "fst ` set ws \<subseteq> head_block st d ` {..<nat (head_n st d)}"
    by (rule prefix_moves)
  then show ?thesis by (intro recovers_overwrite [OF assms(1)]) (rule subsetD, assumption, rule writes_outside)
next
  case True
  then have a: "apply_writes ws d = (replay st d)(st := st32 (d st) 0 0)"
    using assms(2) by (auto simp: recovery_writes_def replay_def)
  have z: "head_n st (apply_writes ws d) = 0" by (simp add: a head_n_cleared)
  have "0 < sz" using assms(1) by (simp add: recovers_def head_wf_def)
  then show ?thesis
    using assms(1) by (simp add: recovers_def head_wf_empty replay_empty z) (auto simp: a)
qed

lemma recovers_commit:
  assumes inv: "log_inv s" and sb: "st = lstart (log s)" "int sz = lsize (log s)"
    and w: "commit_writes s = ws @ rest"
  shows "recovers st sz (apply_writes ws (disk s)) (disk s) \<or> recovers st sz (apply_writes ws (disk s)) (view s ROOTDEV)"
proof -
  define k hb lb V where "k = nat (hn (lh (log s)))" and "hb = hblock (lh (log s))" and "lb = (\<lambda>i. st + i + 1)" and "V = view s ROOTDEV"
  let ?d = "apply_writes ws (disk s)" and ?A = "{st..<st + sz}"
  have A: "log_area s = ?A" using sb by (simp add: log_area_def flip: sb(2))
  have sz: "0 < sz" using inv sb(2) by (auto simp: log_inv_def)
  have z: "head_n st (disk s) = 0" using inv by (simp add: log_inv_def head_n_def sb)
  have dirty: "V n = disk s n" if "n \<notin> hb ` {..<k}" for n
    using inv that by (simp add: log_inv_def logged_def V_def hb_def k_def lessThan_atLeast0)
  note H = log_inv_hblock [OF inv, folded sb(1), folded hb_def k_def, folded A]
  have lb: "lb i \<in> ?A" if "i < k" for i using H(5) [OF that] A by (simp add: lb_def)
  let ?w1 = "moves lb hb V 0 k" and ?w2 = "moves hb hb V 0 k" and ?hd = "put_head (lh (log s)) (V st)"
  have early: ?thesis if "prefix ws ?w1"
  proof -
    have "fst ` set ws \<subseteq> lb ` {..<k}"
      by (rule prefix_moves [OF that])
    then have o: "?d n = disk s n" if "n \<notin> ?A \<or> n = st" for n
      using lb that by (intro apply_writes_other) (auto simp: lb_def)
    have "head_n st ?d = 0" using z o [of st] by (simp add: head_n_def)
    then have "recovers st sz ?d (disk s)" using o sz by (simp add: recovers_def head_wf_empty replay_empty)
    then show ?thesis ..
  qed
  show ?thesis
  proof (cases "k = 0")
    case True
    then have "ws = []" using w by (simp add: commit_writes_def Let_def k_def)
    then show ?thesis using early by simp
  next
    case False
    let ?hd' = "put_head ((lh (log s))\<lparr>hn := 0\<rparr>) ?hd"
    have cw: "ws @ rest = ?w1 @ [(st, ?hd)] @ ?w2 @ [(st, ?hd')]"
      using False unfolding w [symmetric] commit_writes_def Let_def by (simp add: sb(1) k_def hb_def lb_def V_def)
    define d1 where "d1 = (apply_writes ?w1 (disk s))(st := ?hd)"
    have n: "0 \<le> hn (lh (log s))" "hn (lh (log s)) \<le> int LOGSIZE" "hn (lh (log s)) < int sz" using inv sb by (auto simp: log_inv_def)
    have hn1: "head_n st d1 = hn (lh (log s))"
      using put_head_sel(1) [of "lh (log s)" "V st"] n by (simp add: d1_def head_n_def)
    have h1: "head_block st d1 i = hb i" if "i < k" for i
      using put_head_sel(2) [where h = "lh (log s)" and d = "V st"] n H(4) [of i] that
      by (simp add: d1_def head_block_def hb_def k_def)
    have k1: "nat (head_n st d1) = k" using hn1 False by (simp add: k_def)
    have i1: "head_block st d1 ` {..<k} = hb ` {..<k}" using h1 by auto
    have wf1: "head_wf st sz d1"
      using n False H(2,7) sz unfolding head_wf_def k1 by (auto simp: h1 hn1 A k_def)
    have l1: "d1 (lb i) = V (hb i)" if "i < k" for i
    proof -
      have "apply_writes ?w1 (disk s) (lb i) = V (hb i)"
        by (rule apply_writes_in) (use that in \<open>auto simp: moves_def comp_def distinct_map inj_on_def lb_def\<close>)
      then show ?thesis by (simp add: d1_def lb_def)
    qed
    have o1: "d1 n = disk s n" if "n \<notin> ?A" for n
    proof -
      have "n \<notin> fst ` set ?w1" using lb that by (auto simp: fst_moves)
      moreover have "n \<noteq> st" using that sz by auto
      ultimately show ?thesis by (simp add: d1_def apply_writes_other)
    qed
    have new: "recovers st sz d1 V"
      unfolding recovers_def
    proof (intro conjI allI impI wf1)
      fix n assume n: "n \<notin> ?A"
      show "replay st d1 n = V n"
      proof (cases "n \<in> hb ` {..<k}")
        case True
        then obtain i where i: "i < k" "n = hb i" by auto
        then show ?thesis using replay_in [OF wf1, of i] l1 [OF i(1)] by (simp add: k1 h1 lb_def)
      next
        case False
        then show ?thesis using replay_other [of n st d1] o1 [OF n] dirty by (simp add: k1 i1)
      qed
    qed
    consider "prefix ws ?w1" | zs where "ws = ?w1 @ [(st, ?hd)] @ zs" "prefix zs ?w2" | "ws = ?w1 @ [(st, ?hd)] @ ?w2 @ [(st, ?hd')]"
    proof -
      have "prefix ws (?w1 @ [(st, ?hd)] @ ?w2 @ [(st, ?hd')])" using cw by (metis prefixI)
      then show thesis using that by (auto simp: prefix_append prefix_Cons)
    qed
    then show ?thesis
    proof cases
      case 1
      then show ?thesis by (rule early)
    next
      case (2 zs)
      have "fst ` set zs \<subseteq> hb ` {..<k}"
        by (rule prefix_moves [OF 2(2)])
      then have "recovers st sz (apply_writes zs d1) V"
        by (intro recovers_overwrite [OF new, unfolded k1 i1]) (rule subsetD, assumption, rule writes_outside)
      then show ?thesis by (simp add: V_def 2(1) d1_def)
    next
      case 3
      have d: "?d = (apply_writes ?w2 d1)(st := st32 ?hd 0 0)" by (simp add: 3 d1_def put_empty_head)
      have "?d n = V n" if n: "n \<notin> ?A" for n
      proof -
        have "n \<noteq> st" using n sz by auto
        moreover have "apply_writes ?w2 d1 n = V n"
        proof (cases "n \<in> hb ` {..<k}")
          case True
          then obtain i where i: "i < k" "n = hb i" by auto
          show ?thesis unfolding i(2)
            by (rule apply_writes_in) (use i H(7) in \<open>auto simp: moves_def comp_def distinct_map inj_on_def\<close>)
        next
          case False
          then have "n \<notin> fst ` set ?w2" by (simp add: fst_moves lessThan_atLeast0)
          then show ?thesis using o1 [OF n] dirty [OF False] by (simp add: apply_writes_other)
        qed
        ultimately show ?thesis by (simp add: d)
      qed
      moreover have "head_n st ?d = 0" by (simp add: d head_n_cleared)
      ultimately have "recovers st sz ?d V" using sz by (simp add: recovers_def head_wf_empty replay_empty)
      then show ?thesis by (simp add: V_def)
    qed
  qed
qed

section \<open>Transactions\<close>

text \<open>Blocks changed and not handed to the log. Whoever locks a logged block has a reference beside the log's.\<close>

definition dirty :: "'a klog_scheme \<Rightarrow> nat set" where
  "dirty s = {n. n \<notin> set (logged s) \<and> view s ROOTDEV n \<noteq> disk s n}"

definition log_ok :: "'a klog_scheme \<Rightarrow> bool" where
  "log_ok s \<longleftrightarrow> ldev (log s) = ROOTDEV \<and> 1 \<le> outstanding (log s) \<and> 0 \<le> hn (lh (log s)) \<and> hn (lh (log s)) \<le> int LOGSIZE \<and>
     hn (lh (log s)) < lsize (log s) \<and>
     distinct (logged s) \<and> (\<forall>b \<in> set (logged s). b \<notin> log_area s \<and> b < 4294967296 \<and> 0 < refs s ROOTDEV b) \<and>
     (\<forall>b \<in> set (logged s). locked_by s ROOTDEV b \<noteq> None \<longrightarrow> 1 < refs s ROOTDEV b) \<and>
     (\<forall>n \<in> dirty s. 0 < refs s ROOTDEV n) \<and> int_of (ld32 (disk s (lstart (log s))) 0) = 0"

definition j_ok :: "int \<Rightarrow> 'a klog_scheme \<Rightarrow> bool" where
  "j_ok q s \<longleftrightarrow> bio_ok q s \<and> log_ok s"

text \<open>What a transaction leaves alone, and its abstract state.\<close>

definition fs_env :: "'a klog_scheme \<Rightarrow> _" where
  "fs_env s = (kmem.truncate s, map (\<lambda>p. p\<lparr>pstate := UNUSED\<rparr>) (procs s), nextpid s, initproc s, cpus s, hartid s,
     disk s, dwrites s, (log s)\<lparr>lh := \<lparr>hn = 0, hblock = (\<lambda>_. 0)\<rparr>\<rparr>, klog.more s)"

definition sole :: "'e vcache \<Rightarrow> nat set" where
  "sole v = {n. n \<in> ran (vat v) \<and> vrefs v n = 1}"

definition jabs :: "int \<Rightarrow> 'a klog_scheme \<Rightarrow> _ vjournal" where
  "jabs q s = \<lparr>jview = view s ROOTDEV, jat = at_buf q s, jheld = {n. locked_by s ROOTDEV n \<noteq> None},
     jlog = set (logged s), jhome = {n. n \<notin> log_area s \<and> n < 4294967296},
     jspace = nat (min (int LOGSIZE) (lsize (log s) - 1) - hn (lh (log s))),
     jroom = card (spare s) + card (sole (vabs q s)), jenv = fs_env s\<rparr>"

lemma jabs_sel [simp]:
  "jview (jabs q s) = view s ROOTDEV" "jat (jabs q s) = at_buf q s" "jheld (jabs q s) = {n. locked_by s ROOTDEV n \<noteq> None}"
  "jlog (jabs q s) = set (logged s)" "jhome (jabs q s) = {n. n \<notin> log_area s \<and> n < 4294967296}"
  "jspace (jabs q s) = nat (min (int LOGSIZE) (lsize (log s) - 1) - hn (lh (log s)))"
  "jroom (jabs q s) = card (spare s) + card (sole (vabs q s))" "jenv (jabs q s) = fs_env s"
  by (simp_all add: jabs_def)

lemma finite_at: "finite (dom (at_buf q s))"
proof (rule finite_subset)
  show "dom (at_buf q s) \<subseteq> {..<NBUF}" by (auto simp: at_buf_def split: if_splits)
qed simp

lemma finite_sole: "finite (sole (vabs q s))" "card (sole (vabs q s)) \<le> card (dom (at_buf q s))"
proof -
  have f: "finite (ran (at_buf q s))" using finite_at by (rule finite_ran)
  have "sole (vabs q s) \<subseteq> ran (at_buf q s)" by (auto simp: sole_def)
  then show "finite (sole (vabs q s))" using f by (rule finite_subset)
  have "ran (at_buf q s) = (the \<circ> at_buf q s) ` dom (at_buf q s)" by (force simp: ran_def dom_def image_iff)
  then have "card (ran (at_buf q s)) \<le> card (dom (at_buf q s))" using finite_at card_image_le by metis
  then show "card (sole (vabs q s)) \<le> card (dom (at_buf q s))"
    using card_mono [OF f \<open>sole (vabs q s) \<subseteq> ran (at_buf q s)\<close>] by simp
qed

lemma log_ok_clean: "log_ok s \<Longrightarrow> vclean (vabs q s)"
  by (auto simp: log_ok_def vclean_def dirty_def) (metis less_numeral_extra(3))

text \<open>The operations of the cache keep the log as it is.\<close>

lemma vabs_env:
  assumes "venv (vabs q s') = venv (vabs q s)"
  shows "log s' = log s" "logged s' = logged s" "log_area s' = log_area s"
    "disk s' = disk s \<Longrightarrow> dwrites s' = dwrites s \<Longrightarrow> fs_env s' = fs_env s"
proof -
  have e: "bio_env s' = bio_env s" using assms by simp
  show l: "log s' = log s" using bio_env_log [OF e] by simp
  show "logged s' = logged s" "log_area s' = log_area s" by (simp_all add: logged_def log_area_def l)
  show "fs_env s' = fs_env s" if "disk s' = disk s" "dwrites s' = dwrites s"
    using e bio_env_log [OF e] that by (simp add: fs_env_def bio_env_def)
qed

lemma sole_bread:
  assumes "vat v i = None" and "n \<notin> ran (vat v)"
  shows "sole (v_bread i n v) = (if vrefs v n = 0 then insert n (sole v) else sole v)"
proof -
  have "ran ((vat v)(i \<mapsto> n)) = insert n (ran (vat v))" using assms(1) by (simp add: ran_map_upd)
  then show ?thesis using assms(2) by (auto simp: sole_def v_bread_def)
qed

lemma sole_brelse:
  assumes "vat v i = Some n" and "\<And>j. j \<noteq> i \<Longrightarrow> vat v j \<noteq> Some n"
  shows "sole (v_brelse i n v) = sole v - {n}"
proof -
  have "x \<in> ran ((vat v)(i := None)) \<longleftrightarrow> x \<in> ran (vat v) \<and> x \<noteq> n" for x
    unfolding ran_def using assms by (cases "x = n") (auto split: if_splits, metis option.inject)
  then have "ran ((vat v)(i := None)) = ran (vat v) - {n}" by blast
  then show ?thesis by (auto simp: sole_def v_brelse_def)
qed

lemma journal_bread:
  assumes ok: "j_ok q s" and n: "n \<notin> jheld (jabs q s)" and room: "card (dom (jat (jabs q s))) < jroom (jabs q s)"
  shows "\<exists>i s'. bread ROOTDEV n s = Inr (i, s') \<and> j_ok q s' \<and> jat (jabs q s) i = None \<and> dirty s' = dirty s \<and>
    jabs q s' = (jabs q s)\<lparr>jat := (jat (jabs q s))(i \<mapsto> n), jheld := insert n (jheld (jabs q s))\<rparr>"
proof -
  have b: "bio_ok q s" and l: "log_ok s" using ok by (simp_all add: j_ok_def)
  have "0 < vroom (vabs q s)" using room finite_sole(2) [of q s] by simp
  then obtain i s' where r: "bread ROOTDEV n s = Inr (i, s')" "bio_ok q s'" "vat (vabs q s) i = None" "vabs q s' = v_bread i n (vabs q s)"
    using bc.bread_ok [OF b log_ok_clean [OF l], of n] n by auto
  note f = arg_cong [OF r(4)]
  have e: "view s' ROOTDEV = view s ROOTDEV" "disk s' = disk s" "dwrites s' = dwrites s" "venv (vabs q s') = venv (vabs q s)"
    "at_buf q s' = (at_buf q s)(i \<mapsto> n)" "{n. locked_by s' ROOTDEV n \<noteq> None} = insert n {n. locked_by s ROOTDEV n \<noteq> None}"
    "refs s' ROOTDEV = (refs s ROOTDEV)(n := refs s ROOTDEV n + 1)"
    "card (spare s') = (if refs s ROOTDEV n = 0 then card (spare s) - 1 else card (spare s))"
    using f [of vview] f [of vdisk] f [of vwrites] f [of venv] f [of vat] f [of vheld] f [of vrefs] f [of vroom]
    by (simp_all add: v_bread_def)
  note g = vabs_env [OF e(4)] 
  have d: "dirty s' = dirty s" by (simp add: dirty_def e g)
  have lk: "locked_by s' ROOTDEV m \<noteq> None \<longleftrightarrow> m = n \<or> locked_by s ROOTDEV m \<noteq> None" for m using e(6) by blast
  have "log_ok s'" using l unfolding log_ok_def d g e lk by auto
  have nr: "n \<notin> ran (vat (vabs q s))"
    using n bc.at_held [OF b, of _ n] by (auto simp: ran_def)
  have "n \<notin> sole (vabs q s)" using nr by (simp add: sole_def)
  then have "card (spare s') + card (sole (vabs q s')) = card (spare s) + card (sole (vabs q s))"
    unfolding r(4) sole_bread [OF r(3) nr] e(8) using \<open>0 < vroom (vabs q s)\<close> finite_sole(1) [of q s] by simp
  then have "jabs q s' = (jabs q s)\<lparr>jat := (jat (jabs q s))(i \<mapsto> n), jheld := insert n (jheld (jabs q s))\<rparr>"
    using g(4) [OF e(2,3)] e(6) by (simp add: jabs_def e(1,5) g)
  then show ?thesis using r(1-3) d \<open>log_ok s'\<close> by (auto simp: j_ok_def)
qed

lemma journal_brelse:
  assumes ok: "j_ok q s" and at: "jat (jabs q s) i = Some n" and nd: "n \<notin> dirty s"
  shows "\<exists>s'. brelse i s = Inr s' \<and> j_ok q s' \<and> dirty s' = dirty s \<and>
    jabs q s' = (jabs q s)\<lparr>jat := (jat (jabs q s))(i := None), jheld := jheld (jabs q s) - {n}\<rparr>"
proof -
  have b: "bio_ok q s" and l: "log_ok s" using ok by (simp_all add: j_ok_def)
  have a: "vat (vabs q s) i = Some n" using at by simp
  obtain s' where r: "brelse i s = Inr s'" "bio_ok q s'" "vabs q s' = v_brelse i n (vabs q s)" using bc.brelse_ok [OF b a] by blast
  note f = arg_cong [OF r(3)]
  have e: "view s' ROOTDEV = view s ROOTDEV" "disk s' = disk s" "dwrites s' = dwrites s" "venv (vabs q s') = venv (vabs q s)"
    "at_buf q s' = (at_buf q s)(i := None)" "{n. locked_by s' ROOTDEV n \<noteq> None} = {n. locked_by s ROOTDEV n \<noteq> None} - {n}"
    "refs s' ROOTDEV = (refs s ROOTDEV)(n := refs s ROOTDEV n - 1)"
    "card (spare s') = (if refs s ROOTDEV n = 1 then card (spare s) + 1 else card (spare s))"
    using f [of vview] f [of vdisk] f [of vwrites] f [of venv] f [of vat] f [of vheld] f [of vrefs] f [of vroom]
    by (simp_all add: v_brelse_def)
  note g = vabs_env [OF e(4)]
  have d: "dirty s' = dirty s" by (simp add: dirty_def e g)
  have pos: "0 < refs s ROOTDEV n" using bc.at_held [OF b a] by simp
  have lk: "locked_by s' ROOTDEV m \<noteq> None \<longleftrightarrow> m \<noteq> n \<and> locked_by s ROOTDEV m \<noteq> None" for m using e(6) by blast
  have "locked_by s ROOTDEV n \<noteq> None" using bc.at_held [OF b a] by simp
  then have "log_ok s'" using l nd unfolding log_ok_def d g e lk by auto
  have un: "vat (vabs q s) j \<noteq> Some n" if "j \<noteq> i" for j using bc.at_inj [OF b a, of j] that by blast
  have sb: "sole (v_brelse i n (vabs q s)) = sole (vabs q s) - {n}" by (rule sole_brelse [OF a]) (rule un)
  have m: "n \<in> sole (vabs q s) \<longleftrightarrow> refs s ROOTDEV n = 1" using a by (auto simp: sole_def ran_def)
  have "card (spare s') + card (sole (vabs q s')) = card (spare s) + card (sole (vabs q s))"
  proof (cases "refs s ROOTDEV n = 1")
    case True
    then have "n \<in> sole (vabs q s)" using m by simp
    moreover from this have "0 < card (sole (vabs q s))" using finite_sole(1) [of q s] by (auto simp: card_gt_0_iff)
    ultimately show ?thesis
      unfolding r(3) sb e(8) using True finite_sole(1) [of q s] by (simp add: card_Diff_singleton)
  next
    case False
    then show ?thesis unfolding r(3) sb e(8) using m by simp
  qed
  then have "jabs q s' = (jabs q s)\<lparr>jat := (jat (jabs q s))(i := None), jheld := jheld (jabs q s) - {n}\<rparr>"
    using g(4) [OF e(2,3)] e(6) by (simp add: jabs_def e(1,5) g)
  then show ?thesis using r(1,2) d \<open>log_ok s'\<close> by (auto simp: j_ok_def)
qed

lemma journal_set_data:
  assumes ok: "j_ok q s" and at: "jat (jabs q s) i = Some n"
  shows "j_ok q (set_data i x s) \<and> dirty (set_data i x s) \<subseteq> insert n (dirty s) \<and>
    jabs q (set_data i x s) = (jabs q s)\<lparr>jview := (jview (jabs q s))(n := x)\<rparr>"
proof -
  have b: "bio_ok q s" and l: "log_ok s" using ok by (simp_all add: j_ok_def)
  have a: "vat (vabs q s) i = Some n" using at by simp
  let ?s' = "set_data i x s"
  have r: "bio_ok q ?s'" "vabs q ?s' = v_set n x (vabs q s)" using bc.set_data_ok [OF b a] by blast+
  note f = arg_cong [OF r(2)]
  have e: "view ?s' ROOTDEV = (view s ROOTDEV)(n := x)" "disk ?s' = disk s" "dwrites ?s' = dwrites s" "venv (vabs q ?s') = venv (vabs q s)"
    "at_buf q ?s' = at_buf q s" "{n. locked_by ?s' ROOTDEV n \<noteq> None} = {n. locked_by s ROOTDEV n \<noteq> None}"
    "refs ?s' ROOTDEV = refs s ROOTDEV" "card (spare ?s') = card (spare s)" "sole (vabs q ?s') = sole (vabs q s)"
    using f [of vview] f [of vdisk] f [of vwrites] f [of venv] f [of vat] f [of vheld] f [of vrefs] f [of vroom] f [of sole]
    by (simp_all add: v_set_def sole_def)
  note g = vabs_env [OF e(4)]
  have d: "dirty ?s' \<subseteq> insert n (dirty s)" by (auto simp: dirty_def e g)
  have "0 < refs s ROOTDEV n" using bc.at_held [OF b a] by simp
  moreover have lk: "locked_by ?s' ROOTDEV m \<noteq> None \<longleftrightarrow> locked_by s ROOTDEV m \<noteq> None" for m using e(6) by blast
  ultimately have "log_ok ?s'" using l d unfolding log_ok_def g e lk by auto
  moreover have "jabs q ?s' = (jabs q s)\<lparr>jview := (jview (jabs q s))(n := x)\<rparr>"
    using g(4) [OF e(2,3)] e(6) by (simp add: jabs_def e(1,5,8,9) g)
  ultimately show ?thesis using r(1) d by (simp add: j_ok_def)
qed

lemma journal_log_write:
  assumes ok: "j_ok q s" and at: "jat (jabs q s) i = Some n" and home: "n \<in> jhome (jabs q s)" and sp: "0 < jspace (jabs q s)"
  shows "\<exists>s' r. log_write i s = Inr s' \<and> j_ok q s' \<and> dirty s' = dirty s - {n} \<and> jabs q s' = j_log n r (jabs q s) \<and>
    jroom (jabs q s) \<le> (if n \<in> jlog (jabs q s) then r else r + 1)"
proof -
  have b: "bio_ok q s" and l: "log_ok s" using ok by (simp_all add: j_ok_def)
  have a: "vat (vabs q s) i = Some n" using at by simp
  have bn: "bno (bufs s i) = n" using at by (simp add: at_buf_def split: if_splits)
  define h where "h = lh (log s)"
  have hn: "0 \<le> hn h" "hn h < int LOGSIZE" "hn h < lsize (log s) - 1" "1 \<le> outstanding (log s)"
    using l sp by (auto simp: log_ok_def h_def)
  show ?thesis
  proof (cases "n \<in> set (logged s)")
    case True
    then obtain j where j: "find (\<lambda>i. hblock h i = n) [0..<nat (hn h)] = Some j"
      by (cases "find (\<lambda>i. hblock h i = n) [0..<nat (hn h)]") (auto simp: find_None_iff logged_def h_def)
    then have jn: "j < nat (hn h)" "hblock h j = n" by (auto simp: find_Some_iff)
    have "log_write i s = Inr (upd_log (\<lambda>l. l\<lparr>lh := (lh l)\<lparr>hblock := (hblock (lh l))(j := n)\<rparr>\<rparr>) s)"
      using hn j jn(1) by (simp add: log_write_def Let_def bn flip: h_def)
    moreover have "upd_log (\<lambda>l. l\<lparr>lh := (lh l)\<lparr>hblock := (hblock (lh l))(j := n)\<rparr>\<rparr>) s = s"
      using jn(2) by (simp add: upd_log_def h_def fun_upd_idem)
    moreover have "dirty s - {n} = dirty s" using True by (auto simp: dirty_def)
    moreover have "j_log n (jroom (jabs q s)) (jabs q s) = jabs q s" using True by (simp add: j_log_def insert_absorb)
    ultimately show ?thesis using ok by (intro exI [of _ s] exI [of _ "jroom (jabs q s)"]) (simp del: jabs_sel)
  next
    case False
    then have fn: "find (\<lambda>i. hblock h i = n) [0..<nat (hn h)] = None" by (auto simp: find_None_iff logged_def h_def)
    define h' where "h' = \<lparr>hn = hn h + 1, hblock = (hblock h)(nat (hn h) := n)\<rparr>"
    define s2 where "s2 = upd_log (\<lambda>l. l\<lparr>lh := h'\<rparr>) (bpin i s)"
    have w: "log_write i s = Inr s2"
      using hn fn by (simp add: log_write_def Let_def bn s2_def h'_def bpin_def upd_log_def upd_buf_def flip: h_def)
    have p: "bio_ok q (bpin i s)" "vabs q (bpin i s) = v_pin n (vabs q s)" using bc.bpin_ok [OF b a] by blast+
    note f = arg_cong [OF p(2)]
    have v2: "vabs q s2 = (v_pin n (vabs q s))\<lparr>venv := bio_env s2\<rparr>" by (simp add: s2_def vabs_upd_log p(2))
    note f2 = arg_cong [OF v2]
    have e: "view s2 ROOTDEV = view s ROOTDEV" "disk s2 = disk s" "dwrites s2 = dwrites s"
      "at_buf q s2 = at_buf q s" "{n. locked_by s2 ROOTDEV n \<noteq> None} = {n. locked_by s ROOTDEV n \<noteq> None}"
      "refs s2 ROOTDEV = (refs s ROOTDEV)(n := refs s ROOTDEV n + 1)" "card (spare s2) = card (spare s)"
      using f2 [of vview] f2 [of vdisk] f2 [of vwrites] f2 [of vat] f2 [of vheld] f2 [of vrefs] f2 [of vroom]
      by (simp_all add: v_pin_def)
    have lg: "log s2 = (log s)\<lparr>lh := h'\<rparr>" by (simp add: s2_def)
    have nt: "nat (hn h + 1) = Suc (nat (hn h))" using hn(1) by simp
    have lo: "logged s2 = logged s @ [n]"
      by (simp add: logged_def lg h'_def nt flip: h_def)
    have d: "dirty s2 = dirty s - {n}" by (auto simp: dirty_def lo e)
    have pos: "0 < refs s ROOTDEV n" using bc.at_held [OF b a] by simp
    have lk: "locked_by s2 ROOTDEV m \<noteq> None \<longleftrightarrow> locked_by s ROOTDEV m \<noteq> None" for m using e(5) by blast
    have "log_ok s2" using l home False hn pos unfolding log_ok_def d lo e lk by (auto simp: lg log_area_def h'_def)
    have "0 < vrefs (vabs q s) n" using pos by simp
    then have "sole (vabs q s2) = sole (vabs q s) - {n}" by (auto simp: sole_def v2 v_pin_def simp del: vabs_sel)
    then have r: "card (sole (vabs q s)) \<le> card (sole (vabs q s2)) + 1"
      using card_Suc_Diff1 [OF finite_sole(1) [of q s], of n] by (cases "n \<in> sole (vabs q s)") simp_all
    have be: "bio_env (bpin i s) = bio_env s" using f [of venv] by (simp add: v_pin_def)
    have "fs_env s2 = fs_env s"
      using be bio_env_log [OF be] e(2,3) by (simp add: fs_env_def bio_env_def s2_def) (simp add: upd_log_def kmem.defs)
    moreover have "{m. m \<notin> log_area s2 \<and> m < 4294967296} = {m. m \<notin> log_area s \<and> m < 4294967296}" by (simp add: log_area_def lg)
    ultimately have "jabs q s2 = j_log n (jroom (jabs q s2)) (jabs q s)"
      using e(5) False hn by (simp add: jabs_def j_log_def e(1,4) lo lg h'_def flip: h_def)
    moreover have "bio_ok q s2" using p(1) by (simp add: s2_def)
    moreover have "jroom (jabs q s) \<le> jroom (jabs q s2) + 1" using r e(7) by simp
    ultimately show ?thesis using w d \<open>log_ok s2\<close> False
      by (intro exI [of _ s2] exI [of _ "jroom (jabs q s2)"]) (simp add: j_ok_def)
  qed
qed

interpretation jl: journal "bread ROOTDEV" brelse "\<lambda>s i. bdata (bufs s i)" set_data log_write "j_ok q" dirty "jabs q" for q
proof unfold_locales
  fix s :: "'a klog_scheme" and i j n x
  assume ok: "j_ok q s"
  then have b: "bio_ok q s" by (simp add: j_ok_def)
  show "finite (dom (jat (jabs q s)))" using finite_at by simp
  show "\<exists>i s'. bread ROOTDEV n s = Inr (i, s') \<and> j_ok q s' \<and> jat (jabs q s) i = None \<and> dirty s' = dirty s \<and>
        jabs q s' = (jabs q s)\<lparr>jat := (jat (jabs q s))(i \<mapsto> n), jheld := insert n (jheld (jabs q s))\<rparr>"
    if "n \<notin> jheld (jabs q s)" "card (dom (jat (jabs q s))) < jroom (jabs q s)"
    using journal_bread [OF ok that] .
  assume at: "jat (jabs q s) i = Some n"
  then have a: "vat (vabs q s) i = Some n" by simp
  show "n \<in> jheld (jabs q s)" using bc.at_held [OF b a] by simp
  show "i = j" if "jat (jabs q s) j = Some n" using bc.at_inj [OF b a, of j] that by simp
  show "bdata (bufs s i) = jview (jabs q s) n" using bc.data_at [OF b a] by simp
  show "\<exists>s'. brelse i s = Inr s' \<and> j_ok q s' \<and> dirty s' = dirty s \<and>
    jabs q s' = (jabs q s)\<lparr>jat := (jat (jabs q s))(i := None), jheld := jheld (jabs q s) - {n}\<rparr>" if "n \<notin> dirty s"
    using journal_brelse [OF ok at that] .
  show "j_ok q (set_data i x s) \<and> dirty (set_data i x s) \<subseteq> insert n (dirty s) \<and>
        jabs q (set_data i x s) = (jabs q s)\<lparr>jview := (jview (jabs q s))(n := x)\<rparr>"
    using journal_set_data [OF ok at] .
  show "\<exists>s' r. log_write i s = Inr s' \<and> j_ok q s' \<and> dirty s' = dirty s - {n} \<and> jabs q s' = j_log n r (jabs q s) \<and>
        jroom (jabs q s) \<le> (if n \<in> jlog (jabs q s) then r else r + 1)"
    if "n \<in> jhome (jabs q s)" "0 < jspace (jabs q s)"
    using journal_log_write [OF ok at that] .
qed

end
