(* ===== verification/Crash.thy ===== *)
theory Crash
  imports Log
begin

text \<open>
  The properties of the log: a commit is atomic whatever disk write a crash follows, also when the recovery from the
  crash is itself interrupted, and the reservations of \<open>begin_op\<close> keep operations from overfilling the log.
\<close>

section \<open>Atomic commit\<close>

text \<open>The disks a crash can leave: in the commit, or in a later recovery.\<close>

inductive crash_disk :: "int \<Rightarrow> superblock \<Rightarrow> 'a klog_scheme \<Rightarrow> (nat \<Rightarrow> blk) \<Rightarrow> bool" for q sb s where
  in_commit: "commit s = Inr s' \<Longrightarrow> dwrites s' = dwrites s @ ws @ rest \<Longrightarrow> crash_disk q sb s (apply_writes ws (disk s))"
| in_recovery: "crash_disk q sb s (disk (t :: 'a klog_scheme)) \<Longrightarrow> fresh q t \<Longrightarrow> initlog ROOTDEV sb t = Inr t' \<Longrightarrow>
    dwrites t' = dwrites t @ ws @ rest \<Longrightarrow> crash_disk q sb s (apply_writes ws (disk t))"

lemma crash_recovers:
  assumes "crash_disk q sb s d" and "commit_ready q s" and "logstart sb = lstart (log s)" "int (nlog sb) = lsize (log s)"
  shows "recovers (logstart sb) (nlog sb) d (disk s) \<or> recovers (logstart sb) (nlog sb) d (view s ROOTDEV)"
  using assms
proof (induction rule: crash_disk.induct)
  case (in_commit s' ws rest)
  have "dwrites s' = dwrites s @ commit_writes s" using commit_runs [OF in_commit.prems(1)] in_commit.hyps(1) by auto
  then have "commit_writes s = ws @ rest" using in_commit.hyps(2) by simp
  moreover have "log_inv s" using in_commit.prems(1) by (simp add: commit_ready_def)
  ultimately show ?case using recovers_commit in_commit.prems(2,3) by blast
next
  case (in_recovery t t' ws rest)
  then have r: "recovers (logstart sb) (nlog sb) (disk t) X \<Longrightarrow> head_wf (logstart sb) (nlog sb) (disk t)" for X
    by (simp add: recovers_def)
  obtain X where X: "X = disk s \<or> X = view s ROOTDEV" "recovers (logstart sb) (nlog sb) (disk t) X" using in_recovery by blast
  have "dwrites t' = dwrites t @ recovery_writes (logstart sb) (disk t)"
    using initlog_runs [OF in_recovery.hyps(2) r [OF X(2)]] in_recovery.hyps(3) by auto
  then have "recovery_writes (logstart sb) (disk t) = ws @ rest" using in_recovery.hyps(4) by simp
  then show ?case using recovers_recovery [OF X(2)] X(1) by blast
qed

text \<open>
  C1. A commit is atomic: if the machine stops after any of the disk writes of \<open>commit\<close>, and then after any writes of
  any number of recoveries, the boot that completes finds on the disk, outside the log, either all the old contents or
  all the contents the transaction had written.
\<close>

theorem commit_atomic:
  assumes "commit_ready q s" and "logstart sb = lstart (log s)" "int (nlog sb) = lsize (log s)"
    and "crash_disk q sb s (disk t)" and "fresh q t"
  shows "\<exists>t'. initlog ROOTDEV sb t = Inr t' \<and>
    ((\<forall>n. n \<notin> log_area s \<longrightarrow> disk t' n = disk s n) \<or> (\<forall>n. n \<notin> log_area s \<longrightarrow> disk t' n = view s ROOTDEV n))"
proof -
  let ?st = "logstart sb" and ?sz = "nlog sb"
  obtain X where X: "X = disk s \<or> X = view s ROOTDEV" "recovers ?st ?sz (disk t) X"
    using crash_recovers [OF assms(4,1-3)] by blast
  then have wf: "head_wf ?st ?sz (disk t)" by (simp add: recovers_def)
  obtain t' where t': "initlog ROOTDEV sb t = Inr t'" "disk t' = apply_writes (recovery_writes ?st (disk t)) (disk t)"
    using initlog_runs [OF assms(5) wf] by blast
  have "disk t' = (replay ?st (disk t))(?st := st32 (disk t ?st) 0 0)" by (simp add: t'(2) recovery_writes_def replay_def)
  moreover have "?st \<in> {?st..<?st + ?sz}" using wf by (simp add: head_wf_def)
  ultimately have "disk t' n = X n" if "n \<notin> {?st..<?st + ?sz}" for n using X(2) that by (auto simp: recovers_def)
  moreover have "log_area s = {?st..<?st + ?sz}" using assms(2) by (simp add: log_area_def flip: assms(3))
  ultimately show ?thesis using t'(1) X(1) by auto
qed

section \<open>A transaction from boot to commit\<close>

definition log0 :: log_st where
  "log0 = \<lparr>lstart = 2, lsize = 30, outstanding = 1, committing = False, ldev = ROOTDEV, lh = \<lparr>hn = 0, hblock = (\<lambda>_. 0)\<rparr>\<rparr>"

definition sb0 :: superblock where
  "sb0 = \<lparr>magic = 0x10203040, sbsize = 2000, nblocks = 1954, ninodes = 200, nlog = 30, logstart = 2, inodestart = 32, bmapstart = 45\<rparr>"

definition disk0 :: "nat \<Rightarrow> blk" where
  "disk0 n = (\<lambda>_. if n = 2 then 0 else of_nat n)"

definition booted_log :: "(nat \<Rightarrow> blk) \<Rightarrow> klog" where
  "booted_log d = booted_cache d \<lparr>log = log0\<rparr>"

lemma booted_log_log: "log (booted_log d) = log0"
proof -
  have "bcache.more (booted_log d) = \<lparr>log = log0\<rparr>" by (simp add: booted_log_def booted_cache_ok)
  then show ?thesis by (cases "booted_log d") simp
qed

lemma booted_log_cache:
  "bio_ok 1 (booted_log d)" "locked_by (booted_log d) ROOTDEV n = None" "spare (booted_log d) = {..<NBUF}"
  "view (booted_log d) ROOTDEV = d" "refs (booted_log d) ROOTDEV = (\<lambda>_. 0)" "disk (booted_log d) = d"
  by (simp_all add: booted_log_def booted_cache_ok)

lemma booted_log_fresh: "fresh 1 (booted_log d)"
  by (simp add: fresh_def booted_log_cache)

lemma booted_log_ok:
  "j_ok 1 (booted_log disk0)" "dirty (booted_log disk0) = {}" "jheld (jabs 1 (booted_log disk0)) = {}"
  "budget 10 2 (jabs 1 (booted_log disk0))" "jlog (jabs 1 (booted_log disk0)) = {}" "jview (jabs 1 (booted_log disk0)) = disk0"
  "n \<in> jhome (jabs 1 (booted_log disk0)) \<longleftrightarrow> (n < 2 \<or> 32 \<le> n) \<and> n < 4294967296"
proof -
  have lg: "logged (booted_log disk0) = []" by (simp add: logged_def booted_log_log log0_def)
  show d: "dirty (booted_log disk0) = {}" by (simp add: dirty_def booted_log_cache)
  have "int_of (ld32 (disk0 2) 0) = 0" by (simp add: disk0_def ld32_def ld16_def int_of_def)
  then show "j_ok 1 (booted_log disk0)"
    by (simp add: j_ok_def log_ok_def d lg booted_log_cache) (simp add: booted_log_log log0_def)
  show "jheld (jabs 1 (booted_log disk0)) = {}" by (simp add: booted_log_cache)
  then have "at_buf 1 (booted_log disk0) = Map.empty"
    using bc.at_held [OF booted_log_cache(1) [of disk0]] by (auto simp: booted_log_cache intro!: ext) (metis not_None_eq)
  then show "budget 10 2 (jabs 1 (booted_log disk0))"
    by (simp add: budget_def booted_log_cache) (simp add: booted_log_log log0_def)
  show "jlog (jabs 1 (booted_log disk0)) = {}" by (simp add: lg)
  show "jview (jabs 1 (booted_log disk0)) = disk0" by (simp add: booted_log_cache)
  show "n \<in> jhome (jabs 1 (booted_log disk0)) \<longleftrightarrow> (n < 2 \<or> 32 \<le> n) \<and> n < 4294967296"
    by (auto simp: log_area_def booted_log_log log0_def)
qed

lemma commit_readyI:
  assumes "j_ok q s" and "dirty s = {}" and "jheld (jabs q s) = {}" and "0 < jroom (jabs q s)"
  shows "commit_ready q s"
proof -
  have ok: "bio_ok q s" and l: "log_ok s" using assms(1) by (simp_all add: j_ok_def)
  have nl: "locked_by s ROOTDEV n = None" for n using assms(3) by auto
  have "vat (vabs q s) i = None" for i using bc.at_held [OF ok, of i] nl by (cases "vat (vabs q s) i") auto
  then have "sole (vabs q s) = {}" by (auto simp: sole_def ran_def)
  then have "spare s \<noteq> {}" using assms(4) by (auto simp: card_gt_0_iff)
  moreover have "log_inv s" using l assms(2) by (auto simp: log_ok_def log_inv_def dirty_def)
  ultimately show ?thesis using ok nl by (simp add: commit_ready_def)
qed

lemma log_st_but_lh: "x\<lparr>lh := a\<rparr> = y\<lparr>lh := a\<rparr> \<Longrightarrow> x = y\<lparr>lh := lh x\<rparr>" for x y :: log_st
  by (cases x; cases y) simp

lemma one_block_transaction:
  "\<exists>s :: klog. commit_ready 1 s \<and> log s = log0\<lparr>lh := lh (log s)\<rparr> \<and> disk s = disk0 \<and> view s ROOTDEV = disk0(50 := (\<lambda>_. 7))"
proof -
  have b: "budget (Suc 9) (Suc 1) (jabs 1 (booted_log disk0))" by (rule budget_mono [OF booted_log_ok(4)]) simp_all
  have n: "50 \<notin> jheld (jabs 1 (booted_log disk0))" "50 \<in> jhome (jabs 1 (booted_log disk0))" "50 \<notin> dirty (booted_log disk0)"
    unfolding booted_log_ok(2,3,7) by simp_all
  obtain s' r where s': "j_ok 1 s'" "dirty s' \<subseteq> dirty (booted_log disk0)"
    "jabs 1 s' = j_log 50 r ((jabs 1 (booted_log disk0))\<lparr>jview := (jview (jabs 1 (booted_log disk0)))(50 := (\<lambda>_. 7))\<rparr>)"
    "budget 9 (Suc 1) (jabs 1 s')"
    using jl.update_block [OF booted_log_ok(1) n b, of "\<lambda>_. 7"] by (elim exE conjE) (rule that)
  have "commit_ready 1 s'"
  proof (rule commit_readyI [OF s'(1)])
    show "dirty s' = {}" using s'(2) booted_log_ok(2) by simp
    show "jheld (jabs 1 s') = {}" using booted_log_ok(3) by (simp add: s'(3) del: jabs_sel)
    show "0 < jroom (jabs 1 s')" using s'(4) by (simp add: budget_def del: jabs_sel)
  qed
  moreover have "fs_env s' = fs_env (booted_log disk0)" using arg_cong [OF s'(3), of jenv] by simp
  then have "(log s')\<lparr>lh := \<lparr>hn = 0, hblock = (\<lambda>_. 0)\<rparr>\<rparr> = log0\<lparr>lh := \<lparr>hn = 0, hblock = (\<lambda>_. 0)\<rparr>\<rparr>" "disk s' = disk0"
    by (simp_all add: fs_env_def booted_log_log booted_log_cache)
  then have "log s' = log0\<lparr>lh := lh (log s')\<rparr>" "disk s' = disk0" using log_st_but_lh by blast+
  moreover have "view s' ROOTDEV = disk0(50 := (\<lambda>_. 7))" using arg_cong [OF s'(3), of jview] by (simp add: booted_log_cache)
  ultimately show ?thesis by blast
qed

theorem commit_atomic_witness:
  "\<exists>(s :: klog) t'. commit_ready 1 s \<and> view s ROOTDEV 50 \<noteq> disk s 50 \<and>
    initlog ROOTDEV sb0 (booted_log (apply_writes (take 2 (commit_writes s)) (disk s))) = Inr t' \<and>
    (disk t' 50 = disk s 50 \<or> disk t' 50 = view s ROOTDEV 50)"
proof -
  obtain s :: klog where s: "commit_ready 1 s" "log s = log0\<lparr>lh := lh (log s)\<rparr>" "disk s = disk0" "view s ROOTDEV = disk0(50 := (\<lambda>_. 7))"
    using one_block_transaction by blast
  have l: "lstart (log s) = 2" "lsize (log s) = 30"
    using arg_cong [OF s(2), of lstart] arg_cong [OF s(2), of lsize] by (simp_all add: log0_def)
  have sb: "logstart sb0 = lstart (log s)" "int (nlog sb0) = lsize (log s)" by (simp_all add: l sb0_def)
  obtain s' where "commit s = Inr s'" "dwrites s' = dwrites s @ commit_writes s" using commit_runs [OF s(1)] by blast
  then have c: "crash_disk 1 sb0 s (apply_writes (take 2 (commit_writes s)) (disk s))"
    by (intro crash_disk.in_commit [of _ s' _ "drop 2 (commit_writes s)"]) simp_all
  have "50 \<notin> log_area s" by (simp add: log_area_def l)
  moreover have "view s ROOTDEV 50 \<noteq> disk s 50" by (simp add: s(3,4) disk0_def fun_eq_iff)
  ultimately show ?thesis
    using commit_atomic [OF s(1) sb _ booted_log_fresh, unfolded booted_log_cache(6), OF c] s(1) by blast
qed

section \<open>Reservations\<close>

text \<open>
  Operations in progress, by name, with the number of times each has called \<open>log_write\<close>; none does so more than
  \<open>MAXOPBLOCKS\<close> times. A step of the first kind is
  anything that leaves the log alone.
\<close>

inductive log_step :: "'a klog_scheme \<Rightarrow> (nat \<Rightarrow> nat option) \<Rightarrow> 'a klog_scheme \<Rightarrow> (nat \<Rightarrow> nat option) \<Rightarrow> bool" where
  elsewhere: "log s' = log s \<Longrightarrow> log_step s a s' a"
| begins: "begin_op s = Inr s' \<Longrightarrow> a i = None \<Longrightarrow> log_step s a s' (a(i \<mapsto> 0))"
| logs: "log_write b s = Inr s' \<Longrightarrow> a i = Some u \<Longrightarrow> u < MAXOPBLOCKS \<Longrightarrow> log_step s a s' (a(i \<mapsto> u + 1))"
| ends: "end_op s = Inr s' \<Longrightarrow> a i = Some u \<Longrightarrow> log_step s a s' (a(i := None))"

inductive log_steps :: "'a klog_scheme \<Rightarrow> (nat \<Rightarrow> nat option) \<Rightarrow> 'a klog_scheme \<Rightarrow> (nat \<Rightarrow> nat option) \<Rightarrow> bool" where
  none: "log_steps s a s a"
| more: "log_steps s a s1 a1 \<Longrightarrow> log_step s1 a1 s' a' \<Longrightarrow> log_steps s a s' a'"

text \<open>What the operations in progress may still log.\<close>

definition reserved :: "(nat \<Rightarrow> nat option) \<Rightarrow> int" where
  "reserved a = (\<Sum>i \<in> dom a. int MAXOPBLOCKS - int (the (a i)))"

definition reserve_inv :: "'a klog_scheme \<Rightarrow> (nat \<Rightarrow> nat option) \<Rightarrow> bool" where
  "reserve_inv s a \<longleftrightarrow> finite (dom a) \<and> outstanding (log s) = int (card (dom a)) \<and> 0 \<le> hn (lh (log s)) \<and>
     \<not> committing (log s) \<and> lsize (log s) = int LOGSIZE \<and> hn (lh (log s)) + reserved a \<le> int LOGSIZE \<and>
     (\<forall>i u. a i = Some u \<longrightarrow> u \<le> MAXOPBLOCKS)"

lemma reserved_upd:
  assumes "finite (dom a)" and "a i = Some u"
  shows "reserved (a(i \<mapsto> v)) = reserved a + int u - int v" "reserved (a(i := None)) = reserved a - (int MAXOPBLOCKS - int u)"
proof -
  have i: "i \<in> dom a" "dom a = insert i (dom a - {i})" using assms(2) by auto
  have r: "reserved a = int MAXOPBLOCKS - int u + (\<Sum>i \<in> dom a - {i}. int MAXOPBLOCKS - int (the (a i)))"
    unfolding reserved_def 
    using sum.remove [OF assms(1) i(1), of "\<lambda>j. int MAXOPBLOCKS - int (the (a j))"] assms(2) by simp
  have c: "(\<Sum>j \<in> dom a - {i}. int MAXOPBLOCKS - int (the ((a(i := w)) j))) = (\<Sum>j \<in> dom a - {i}. int MAXOPBLOCKS - int (the (a j)))" for w
    by (rule sum.cong) auto
  have "dom (a(i \<mapsto> v)) = dom a" using i by auto
  then have "reserved (a(i \<mapsto> v)) = int MAXOPBLOCKS - int v + (\<Sum>i \<in> dom a - {i}. int MAXOPBLOCKS - int (the (a i)))"
    using sum.remove [OF assms(1) i(1), of "\<lambda>j. int MAXOPBLOCKS - int (the ((a(i \<mapsto> v)) j))"] c [of "Some v"]
    by (simp add: reserved_def)
  then show "reserved (a(i \<mapsto> v)) = reserved a + int u - int v" using r by simp
  have "reserved (a(i := None)) = (\<Sum>i \<in> dom a - {i}. int MAXOPBLOCKS - int (the (a i)))"
    using c [of None] by (simp add: reserved_def)
  then show "reserved (a(i := None)) = reserved a - (int MAXOPBLOCKS - int u)" using r by simp
qed

lemma reserved_new: "finite (dom a) \<Longrightarrow> a i = None \<Longrightarrow> reserved (a(i \<mapsto> 0)) = reserved a + int MAXOPBLOCKS"
proof -
  assume "finite (dom a)" "a i = None"
  moreover have "(\<Sum>j \<in> dom a. int MAXOPBLOCKS - int (the ((a(i \<mapsto> 0)) j))) = (\<Sum>j \<in> dom a. int MAXOPBLOCKS - int (the (a j)))"
    by (rule sum.cong) (use \<open>a i = None\<close> in auto)
  ultimately show ?thesis by (simp add: reserved_def domIff del: fun_upd_apply) simp
qed

lemma reserved_le: "finite (dom a) \<Longrightarrow> reserved a \<le> int MAXOPBLOCKS * int (card (dom a))"
  unfolding reserved_def using sum_bounded_above [of "dom a" "\<lambda>i. int MAXOPBLOCKS - int (the (a i))" "int MAXOPBLOCKS"] by simp

text \<open>The commit empties the log and changes nothing else of it.\<close>

lemma log_install: "install_trans_from r t k s = Inr s' \<Longrightarrow> log s' = log s"
proof (induction k arbitrary: t s)
  case (Suc k)
  from Suc.prems obtain s1 where "install_trans_from r (Suc t) k s1 = Inr s'" "log s1 = log s"
    by (auto split: prod.splits if_splits dest!: log_bread log_bwrite log_brelse)
  then show ?case using Suc.IH by auto
qed simp

lemma log_write_log: "write_log_from t k s = Inr s' \<Longrightarrow> log s' = log s"
proof (induction k arbitrary: t s)
  case (Suc k)
  from Suc.prems obtain s1 where "write_log_from (Suc t) k s1 = Inr s'" "log s1 = log s"
    by (auto split: prod.splits dest!: log_bread log_bwrite log_brelse)
  then show ?case using Suc.IH by auto
qed simp

lemma log_write_head: "write_head s = Inr s' \<Longrightarrow> log s' = log s"
  by (auto simp: write_head_def Let_def split: prod.splits if_splits dest!: log_bread log_bwrite log_brelse)

lemma log_commit: "commit s = Inr s' \<Longrightarrow> 0 \<le> hn (lh (log s)) \<Longrightarrow> log s' = (log s)\<lparr>lh := (lh (log s))\<lparr>hn := 0\<rparr>\<rparr>"
  by (auto simp: commit_def write_log_def install_trans_def split: if_splits dest!: log_write_log log_write_head log_install)

lemma log_log_write:
  assumes "log_write b s = Inr s'"
  shows "hn (lh (log s')) \<le> hn (lh (log s)) + 1" "hn (lh (log s)) \<le> hn (lh (log s'))"
    "outstanding (log s') = outstanding (log s)" "committing (log s') = committing (log s)" "lsize (log s') = lsize (log s)"
  using assms by (auto simp: log_write_def Let_def split: if_splits)

lemma reserve_inv_step:
  assumes "log_step s a s' a'" and "reserve_inv s a"
  shows "reserve_inv s' a'"
  using assms
proof cases
  case elsewhere
  then show ?thesis using assms(2) by (simp add: reserve_inv_def)
next
  case (begins i)
  have "reserved a \<le> int MAXOPBLOCKS * int (card (dom a))" using assms(2) by (intro reserved_le) (simp add: reserve_inv_def)
  then show ?thesis
    using begins assms(2) reserved_new [of a i]
    by (auto simp: reserve_inv_def begin_op_def card_insert_if domIff split: if_splits)
next
  case (logs b i u)
  have "dom (a(i \<mapsto> u + 1)) = dom a" using logs(3) by auto
  then show ?thesis
    using log_log_write [OF logs(2)] assms(2) reserved_upd(1) [of a i u "u + 1"] logs(1,3,4)
    by (simp add: reserve_inv_def)
next
  case (ends i u)
  have fin: "finite (dom a)" and i: "i \<in> dom a" using assms(2) ends by (auto simp: reserve_inv_def)
  have card: "card (dom a) = Suc (card (dom a - {i}))" using card_Suc_Diff1 [OF fin i] by simp
  have r: "reserved (a(i := None)) \<le> int MAXOPBLOCKS * int (card (dom a - {i}))" using reserved_le [of "a(i := None)"] fin by simp
  let ?s = "upd_log (\<lambda>l. l\<lparr>outstanding := outstanding l - 1\<rparr>) s"
  show ?thesis
  proof (cases "outstanding (log s) = 1")
    case True
    then have z: "dom a - {i} = {}" using assms(2) card fin by (simp add: reserve_inv_def card_eq_0_iff)
    obtain s1 where s1: "commit (upd_log (\<lambda>l. l\<lparr>committing := True\<rparr>) ?s) = Inr s1"
      "s' = wakeup ChanLog (upd_log (\<lambda>l. l\<lparr>committing := False\<rparr>) s1)"
      using ends(2) True assms(2) by (auto simp: end_op_def Let_def reserve_inv_def)
    have "log s' = (log s)\<lparr>outstanding := 0, committing := False, lh := (lh (log s))\<lparr>hn := 0\<rparr>\<rparr>"
      using log_commit [OF s1(1)] assms(2) True by (simp add: s1(2) reserve_inv_def)
    moreover have "reserved (a(i := None)) \<le> 0" "card (dom a - {i}) = 0" using r unfolding z by simp_all
    ultimately show ?thesis using assms(2) fin by (simp add: ends(1) reserve_inv_def)
  next
    case False
    then have "s' = wakeup ChanLog ?s" using ends(2) assms(2) by (auto simp: end_op_def Let_def reserve_inv_def split: if_splits)
    moreover have "u \<le> MAXOPBLOCKS" using assms(2) ends(3) by (auto simp: reserve_inv_def)
    ultimately show ?thesis
      using assms(2) reserved_upd(2) [OF fin ends(3)] card by (simp add: ends(1) reserve_inv_def)
  qed
qed

lemma reserve_inv_steps: "log_steps s a s' a' \<Longrightarrow> reserve_inv s a \<Longrightarrow> reserve_inv s' a'"
  by (induction rule: log_steps.induct) (auto intro: reserve_inv_step)

definition log_empty :: "'a klog_scheme \<Rightarrow> bool" where
  "log_empty s \<longleftrightarrow> outstanding (log s) = 0 \<and> hn (lh (log s)) = 0 \<and> \<not> committing (log s) \<and> lsize (log s) = int LOGSIZE"

lemma reserve_inv_empty: "log_empty s \<Longrightarrow> reserve_inv s Map.empty"
  by (simp add: log_empty_def reserve_inv_def reserved_def)

text \<open>
  C21. In whatever order operations begin, log blocks and end, with a log of \<open>LOGSIZE\<close> blocks as \<open>mkfs\<close> makes it, an
  operation that has called \<open>log_write\<close> fewer than \<open>MAXOPBLOCKS - 1\<close> times can call it again without a panic.
\<close>

theorem reservation_suffices:
  assumes "log_steps s Map.empty s' a" and "log_empty s" and "a i = Some u" and "u + 1 < MAXOPBLOCKS"
  shows "\<exists>t. log_write b s' = Inr t"
proof -
  have inv: "reserve_inv s' a" using assms(1,2) reserve_inv_empty reserve_inv_steps by blast
  then have fin: "finite (dom a)" by (simp add: reserve_inv_def)
  have "0 \<le> (\<Sum>j \<in> dom a - {i}. int MAXOPBLOCKS - int (the (a j)))"
    by (rule sum_nonneg) (use inv in \<open>auto simp: reserve_inv_def\<close>)
  then have "int MAXOPBLOCKS - int u \<le> reserved a"
    unfolding reserved_def using sum.remove [OF fin, of i "\<lambda>j. int MAXOPBLOCKS - int (the (a j))"] assms(3) by (auto simp: domIff)
  moreover have "0 < card (dom a)" using fin assms(3) by (auto simp: card_gt_0_iff)
  ultimately show ?thesis using inv assms(4) by (auto simp: reserve_inv_def log_write_def Let_def)
qed

definition idle_log :: "klog" where
  "idle_log = upd_log (\<lambda>l. l\<lparr>outstanding := 0\<rparr>) (booted_log disk0)"

lemma log_idle_log: "log idle_log = log0\<lparr>outstanding := 0\<rparr>" "log_empty idle_log"
  by (simp_all add: idle_log_def booted_log_log log_empty_def log0_def)

theorem reservation_suffices_witness:
  "\<exists>s t. begin_op idle_log = Inr s \<and> log_write 0 s = Inr t"
proof -
  obtain s where s: "begin_op idle_log = Inr s" by (simp add: begin_op_def log_idle_log log0_def)
  then have "log_steps idle_log Map.empty s (Map.empty(0 \<mapsto> 0))" by (intro more [OF none] begins) simp_all
  then have "\<exists>t. log_write 0 s = Inr t" by (rule reservation_suffices [OF _ log_idle_log(2), of _ _ 0 0]) simp_all
  then show ?thesis using s by blast
qed

text \<open>One more block logged, by an operation that has not used up its share.\<close>

lemma log_one_more:
  assumes "log s = l" and "hn (lh l) = int n" "n < 29" "lsize l = 30" "1 \<le> outstanding l" and "\<forall>i < n. hblock (lh l) i = 100 + i"
    and "a i = Some u" "u < MAXOPBLOCKS"
  shows "\<exists>s'. log_steps s a s' (a(i \<mapsto> u + 1)) \<and> hn (lh (log s')) = int (Suc n) \<and> lsize (log s') = 30 \<and>
    outstanding (log s') = outstanding l \<and> (\<forall>i < Suc n. hblock (lh (log s')) i = 100 + i)"
proof -
  define t where "t = upd_buf 0 (\<lambda>x. x\<lparr>bno := 100 + n\<rparr>) s"
  have t: "log t = l" "bno (bufs t 0) = 100 + n" by (simp_all add: t_def assms(1)) (simp add: upd_buf_def)
  have f: "find (\<lambda>i. hblock (lh l) i = 100 + n) [0..<n] = None" using assms(6) by (simp add: find_None_iff)
  obtain s' where w: "log_write 0 t = Inr s'" and l': "log s' = l\<lparr>lh := \<lparr>hn = int (Suc n), hblock = (hblock (lh l))(n := 100 + n)\<rparr>\<rparr>"
    using assms(2-5) f by (simp add: log_write_def Let_def t)
  have "log_step s a t a" by (rule elsewhere) (simp add: t assms(1))
  moreover have "log_step t a s' (a(i \<mapsto> u + 1))" using w assms(7,8) by (rule logs)
  ultimately have "log_steps s a s' (a(i \<mapsto> u + 1))" by (intro more [OF more [OF none]])
  then show ?thesis using l' assms(4,6) by (intro exI [of _ s']) (auto simp: less_Suc_eq)
qed

lemma log_steps_trans: "log_steps s1 a1 s2 a2 \<Longrightarrow> log_steps s a s1 a1 \<Longrightarrow> log_steps s a s2 a2"
  by (induction rule: log_steps.induct) (auto intro: more)

lemma log_many_more:
  assumes "hn (lh (log s)) = int n" "n + k \<le> 29" "lsize (log s) = 30" "1 \<le> outstanding (log s)"
    and "\<forall>i < n. hblock (lh (log s)) i = 100 + i" and "a i = Some u" "u + k \<le> MAXOPBLOCKS"
  shows "\<exists>s'. log_steps s a s' (a(i \<mapsto> u + k)) \<and> hn (lh (log s')) = int (n + k) \<and> lsize (log s') = 30 \<and>
    outstanding (log s') = outstanding (log s) \<and> (\<forall>i < n + k. hblock (lh (log s')) i = 100 + i)"
  using assms(2,7)
proof (induction k)
  case 0
  have "a(i \<mapsto> u + 0) = a" using assms(6) by (simp add: fun_upd_idem)
  then show ?case using assms none by (metis add_0_right)
next
  case (Suc k)
  have "n + k \<le> 29" "u + k \<le> MAXOPBLOCKS" using Suc.prems by simp_all
  from Suc.IH [OF this] obtain s1 where s1: "log_steps s a s1 (a(i \<mapsto> u + k))" "hn (lh (log s1)) = int (n + k)" "lsize (log s1) = 30"
    "outstanding (log s1) = outstanding (log s)" "\<forall>i < n + k. hblock (lh (log s1)) i = 100 + i" by blast
  have "n + k < 29" "1 \<le> outstanding (log s1)" "(a(i \<mapsto> u + k)) i = Some (u + k)" "u + k < MAXOPBLOCKS" using Suc.prems s1(4) assms(4) by simp_all
  from log_one_more [where a = "a(i \<mapsto> u + k)" and i = i, OF refl s1(2) this(1) s1(3) this(2) s1(5) this(3,4)]
  obtain s2 where s2: "log_steps s1 (a(i \<mapsto> u + k)) s2 ((a(i \<mapsto> u + k))(i \<mapsto> u + k + 1))" "hn (lh (log s2)) = int (Suc (n + k))"
    "lsize (log s2) = 30" "outstanding (log s2) = outstanding (log s1)" "\<forall>i < Suc (n + k). hblock (lh (log s2)) i = 100 + i"
    by blast
  have "log_steps s a s2 (a(i \<mapsto> u + Suc k))" using log_steps_trans [OF s2(1) s1(1)] by simp
  then show ?case using s2(2-5) s1(4) by (intro exI [of _ s2] conjI) (assumption | simp)+
qed

text \<open>
  C22. The reservations do not cover a whole share: three operations that \<open>begin_op\<close> admits together, each within its
  \<open>MAXOPBLOCKS\<close> calls of \<open>log_write\<close>, reach a state in which the next call, the tenth of its operation, panics.
\<close>

theorem full_reservation_panics:
  "\<exists>(s :: klog) a. log_steps idle_log Map.empty s a \<and> a = [0 \<mapsto> 10, 1 \<mapsto> 10, 2 \<mapsto> 9] \<and>
     log_write b s = Inl (Panic ''too big a transaction'')"
proof -
  define s3 where "s3 = upd_log (\<lambda>l. l\<lparr>outstanding := 3\<rparr>) (booted_log disk0)"
  let ?u = "\<lambda>n. upd_log (\<lambda>l. l\<lparr>outstanding := n\<rparr>) (booted_log disk0)"
  have b: "begin_op (?u n) = Inr (?u (n + 1))" if "(n + 1) * 10 \<le> 30" for n
    using that by (simp add: begin_op_def booted_log_log log0_def upd_log_def)
  have "log_steps idle_log Map.empty (?u 0) Map.empty" unfolding idle_log_def by (rule none)
  then have "log_steps idle_log Map.empty (?u 1) (Map.empty(0 \<mapsto> 0))" by (rule more) (use b [of 0] in \<open>auto intro: begins\<close>)
  then have "log_steps idle_log Map.empty (?u 2) (Map.empty(0 \<mapsto> 0, 1 \<mapsto> 0))" by (rule more) (use b [of 1] in \<open>auto intro: begins\<close>)
  then have s3: "log_steps idle_log Map.empty s3 (Map.empty(0 \<mapsto> 0, 1 \<mapsto> 0, 2 \<mapsto> 0))"
    unfolding s3_def by (rule more) (use b [of 2] in \<open>auto intro: begins\<close>)
  have l3: "hn (lh (log s3)) = int 0" "lsize (log s3) = 30" "outstanding (log s3) = 3"
    by (simp_all add: s3_def booted_log_log log0_def)
  let ?a = "\<lambda>u v w. Map.empty(0 :: nat \<mapsto> u :: nat, 1 \<mapsto> v, 2 \<mapsto> w)"
  have tw: "(?a u v w)(0 \<mapsto> x) = ?a x v w" "(?a u v w)(1 \<mapsto> x) = ?a u x w" "(?a u v w)(2 \<mapsto> x) = ?a u v x" for u v w x :: nat
    by (auto simp: fun_eq_iff)
  obtain s4 where s4: "log_steps s3 (?a 0 0 0) s4 (?a 10 0 0)"
    "hn (lh (log s4)) = int 10" "lsize (log s4) = 30" "1 \<le> outstanding (log s4)" "\<forall>i < 10. hblock (lh (log s4)) i = 100 + i"
    using log_many_more [OF l3(1) _ l3(2), of 10 "?a 0 0 0" 0 0] l3(3) unfolding tw by auto
  obtain s5 where s5: "log_steps s4 (?a 10 0 0) s5 (?a 10 10 0)"
    "hn (lh (log s5)) = int 20" "lsize (log s5) = 30" "1 \<le> outstanding (log s5)" "\<forall>i < 20. hblock (lh (log s5)) i = 100 + i"
    using log_many_more [OF s4(2) _ s4(3), of 10 "?a 10 0 0" 1 0] s4(4,5) unfolding tw by auto
  obtain s6 where s6: "log_steps s5 (?a 10 10 0) s6 (?a 10 10 9)"
    "hn (lh (log s6)) = int 29" "lsize (log s6) = 30"
    using log_many_more [OF s5(2) _ s5(3), of 9 "?a 10 10 0" 2 0] s5(4,5) unfolding tw by auto
  have "log_write b s6 = Inl (Panic ''too big a transaction'')" using s6(2,3) by (simp add: log_write_def)
  then show ?thesis using log_steps_trans [OF s6(1) log_steps_trans [OF s5(1) log_steps_trans [OF s4(1) s3]]] by blast
qed

end
