(* ===== verification/Fs.thy ===== *)
theory Fs
  imports Log
begin

text \<open>
  The file system (\<open>fs.c\<close>): the block allocator, the inode table and the inodes on the disk, the contents of files,
  directories and path names. Every function of the file is a definition here, over the buffer cache and the log.

  A pointer to an inode is its index in the table, a null pointer \<open>None\<close>. Block numbers, sizes and offsets are
  \<open>uint\<close>s, kept as natural numbers with the wrap-around of \<open>off + n\<close> written out where the code tests for it. A path
  or a name in a kernel buffer is the list of its bytes before the NUL. Diagnostics printed with \<open>printf\<close> are left out.
\<close>

section \<open>On-disk format\<close>

abbreviation ROOTINO :: nat where "ROOTINO \<equiv> 1"
abbreviation FSMAGIC :: nat where "FSMAGIC \<equiv> 0x10203040"
abbreviation NDIRECT :: nat where "NDIRECT \<equiv> 12"
abbreviation NINDIRECT :: nat where "NINDIRECT \<equiv> 256"
abbreviation MAXFILE :: nat where "MAXFILE \<equiv> 268"
abbreviation IPB :: nat where "IPB \<equiv> 16"
abbreviation BPB :: nat where "BPB \<equiv> 8192"
abbreviation DIRSIZ :: nat where "DIRSIZ \<equiv> 14"
abbreviation NINODE :: nat where "NINODE \<equiv> 50"
abbreviation T_DIR :: int where "T_DIR \<equiv> 1"
abbreviation T_FILE :: int where "T_FILE \<equiv> 2"
abbreviation T_DEVICE :: int where "T_DEVICE \<equiv> 3"

definition IBLOCK :: "nat \<Rightarrow> superblock \<Rightarrow> nat" where
  "IBLOCK i sb = i div IPB + inodestart sb"

definition BBLOCK :: "nat \<Rightarrow> superblock \<Rightarrow> nat" where
  "BBLOCK b sb = b div BPB + bmapstart sb"

section \<open>State\<close>

record inode =
  idev :: nat
  inum :: nat
  iref :: int
  ilk :: sleeplock
  ivalid :: bool
  itype :: int
  imajor :: int
  iminor :: int
  inlink :: int
  isize :: nat
  iaddrs :: "nat \<Rightarrow> nat"

record kfs = klog +
  fsb :: superblock
  itable :: "nat \<Rightarrow> inode"

definition upd_inode :: "nat \<Rightarrow> (inode \<Rightarrow> inode) \<Rightarrow> 'a kfs_scheme \<Rightarrow> 'a kfs_scheme" where
  "upd_inode ip f s = s\<lparr>itable := (itable s)(ip := f (itable s ip))\<rparr>"

abbreviation bufdata :: "nat \<Rightarrow> 'a kfs_scheme \<Rightarrow> blk" where
  "bufdata b s \<equiv> bdata (bufs s b)"

section \<open>Super block\<close>

definition get_sb :: "blk \<Rightarrow> superblock" where
  "get_sb d = \<lparr>magic = ld32 d 0, sbsize = ld32 d 4, nblocks = ld32 d 8, ninodes = ld32 d 12, nlog = ld32 d 16,
     logstart = ld32 d 20, inodestart = ld32 d 24, bmapstart = ld32 d 28\<rparr>"

definition readsb :: "nat \<Rightarrow> 'a kfs_scheme \<Rightarrow> 'a kfs_scheme kres" where
  "readsb dev s =
     kbind (bread dev 1 s) (\<lambda>(bp, s).
     brelse bp (s\<lparr>fsb := get_sb (bufdata bp s)\<rparr>))"

definition fsinit :: "nat \<Rightarrow> 'a kfs_scheme \<Rightarrow> 'a kfs_scheme kres" where
  "fsinit dev s =
     kbind (readsb dev s) (\<lambda>s.
     if magic (fsb s) \<noteq> FSMAGIC then Inl (Panic ''invalid file system'')
     else initlog dev (fsb s) s)"

section \<open>Blocks\<close>

definition bzero :: "nat \<Rightarrow> nat \<Rightarrow> 'a kfs_scheme \<Rightarrow> 'a kfs_scheme kres" where
  "bzero dev n s =
     kbind (bread dev n s) (\<lambda>(bp, s).
     kbind (log_write bp (set_data bp (\<lambda>_. 0) s)) (\<lambda>s.
     brelse bp s))"

text \<open>The bit \<open>bi\<close> of a block of the bitmap: the byte \<open>bi/8\<close> and the mask \<open>1 << (bi % 8)\<close>.\<close>

definition bit_mask :: "nat \<Rightarrow> u8" where
  "bit_mask bi = push_bit (bi mod 8) 1"

definition bit_clear :: "blk \<Rightarrow> nat \<Rightarrow> bool" where
  "bit_clear d bi \<longleftrightarrow> d (bi div 8) AND bit_mask bi = 0"

definition bit_set :: "blk \<Rightarrow> nat \<Rightarrow> blk" where
  "bit_set d bi = d(bi div 8 := d (bi div 8) OR bit_mask bi)"

definition bit_unset :: "blk \<Rightarrow> nat \<Rightarrow> blk" where
  "bit_unset d bi = d(bi div 8 := d (bi div 8) AND NOT (bit_mask bi))"

text \<open>
  The inner loop of \<open>balloc\<close> finds the first clear bit at \<open>bi\<close> or above in the bitmap block for blocks from \<open>b\<close> on;
  \<open>k\<close> is the number of bits still to look at. The outer loop runs once for every bitmap block.
\<close>

fun free_bit :: "blk \<Rightarrow> nat \<Rightarrow> nat \<Rightarrow> nat \<Rightarrow> nat \<Rightarrow> nat option" where
  "free_bit d sz b bi 0 = None"
| "free_bit d sz b bi (Suc k) =
     (if b + bi < sz then if bit_clear d bi then Some bi else free_bit d sz b (Suc bi) k else None)"

fun balloc_loop :: "nat \<Rightarrow> nat \<Rightarrow> nat \<Rightarrow> 'a kfs_scheme \<Rightarrow> (nat \<times> 'a kfs_scheme) kres" where
  "balloc_loop dev b 0 s = Inr (0, s)"
| "balloc_loop dev b (Suc k) s =
     (if b < sbsize (fsb s) then
        kbind (bread dev (BBLOCK b (fsb s)) s) (\<lambda>(bp, s).
        case free_bit (bufdata bp s) (sbsize (fsb s)) b 0 BPB of
          Some bi \<Rightarrow>
            kbind (log_write bp (set_data bp (bit_set (bufdata bp s) bi) s)) (\<lambda>s.
            kbind (brelse bp s) (\<lambda>s.
            kbind (bzero dev (b + bi) s) (\<lambda>s.
            Inr (b + bi, s))))
        | None \<Rightarrow> kbind (brelse bp s) (\<lambda>s. balloc_loop dev (b + BPB) k s))
      else Inr (0, s))"

definition balloc :: "nat \<Rightarrow> 'a kfs_scheme \<Rightarrow> (nat \<times> 'a kfs_scheme) kres" where
  "balloc dev s = balloc_loop dev 0 (Suc (sbsize (fsb s) div BPB)) s"

definition bfree :: "nat \<Rightarrow> nat \<Rightarrow> 'a kfs_scheme \<Rightarrow> 'a kfs_scheme kres" where
  "bfree dev b s =
     kbind (bread dev (BBLOCK b (fsb s)) s) (\<lambda>(bp, s).
     let bi = b mod BPB in
     if bit_clear (bufdata bp s) bi then Inl (Panic ''freeing free block'')
     else kbind (log_write bp (set_data bp (bit_unset (bufdata bp s) bi) s)) (\<lambda>s.
          brelse bp s))"

section \<open>Inodes\<close>

definition iinit :: "'a kfs_scheme \<Rightarrow> 'a kfs_scheme" where
  "iinit s = s\<lparr>itable := (\<lambda>i. if i < NINODE then (itable s i)\<lparr>ilk := initsleeplock\<rparr> else itable s i)\<rparr>"

text \<open>The entry of the table that holds an inode, and a free one.\<close>

definition iget :: "nat \<Rightarrow> nat \<Rightarrow> 'a kfs_scheme \<Rightarrow> (nat \<times> 'a kfs_scheme) kres" where
  "iget dev n s =
     (case find (\<lambda>i. iref (itable s i) > 0 \<and> idev (itable s i) = dev \<and> inum (itable s i) = n) [0..<NINODE] of
        Some ip \<Rightarrow> Inr (ip, upd_inode ip (\<lambda>i. i\<lparr>iref := iref i + 1\<rparr>) s)
      | None \<Rightarrow>
          (case find (\<lambda>i. iref (itable s i) = 0) [0..<NINODE] of
             None \<Rightarrow> Inl (Panic ''iget: no inodes'')
           | Some ip \<Rightarrow> Inr (ip, upd_inode ip (\<lambda>i. i\<lparr>idev := dev, inum := n, iref := 1, ivalid := False\<rparr>) s)))"

text \<open>A \<open>struct dinode\<close> in its block: 64 bytes at offset \<open>o\<close>.\<close>

definition dinode_off :: "nat \<Rightarrow> nat" where
  "dinode_off n = 64 * (n mod IPB)"

definition dinode_type :: "blk \<Rightarrow> nat \<Rightarrow> int" where
  "dinode_type d n = short_of (ld16 d (dinode_off n))"

definition new_dinode :: "nat \<Rightarrow> int \<Rightarrow> blk \<Rightarrow> blk" where
  "new_dinode n type d =
     (let p = dinode_off n in st16 (\<lambda>i. if p \<le> i \<and> i < p + 64 then 0 else d i) p (of_short type))"

definition get_dinode :: "blk \<Rightarrow> nat \<Rightarrow> inode \<Rightarrow> inode" where
  "get_dinode d n i =
     (let p = dinode_off n in
      i\<lparr>itype := short_of (ld16 d p), imajor := short_of (ld16 d (p + 2)), iminor := short_of (ld16 d (p + 4)),
        inlink := short_of (ld16 d (p + 6)), isize := ld32 d (p + 8),
        iaddrs := (\<lambda>j. if j \<le> NDIRECT then ld32 d (p + 12 + 4 * j) else iaddrs i j)\<rparr>)"

definition put_dinode :: "inode \<Rightarrow> nat \<Rightarrow> blk \<Rightarrow> blk" where
  "put_dinode i n d =
     (let p = dinode_off n;
          d = st16 d p (of_short (itype i));
          d = st16 d (p + 2) (of_short (imajor i));
          d = st16 d (p + 4) (of_short (iminor i));
          d = st16 d (p + 6) (of_short (inlink i));
          d = st32 d (p + 8) (isize i)
      in fold (\<lambda>j d. st32 d (p + 12 + 4 * j) (iaddrs i j)) [0..<NDIRECT + 1] d)"

fun ialloc_loop :: "nat \<Rightarrow> int \<Rightarrow> nat \<Rightarrow> nat \<Rightarrow> 'a kfs_scheme \<Rightarrow> (nat option \<times> 'a kfs_scheme) kres" where
  "ialloc_loop dev type n 0 s = Inr (None, s)"
| "ialloc_loop dev type n (Suc k) s =
     kbind (bread dev (IBLOCK n (fsb s)) s) (\<lambda>(bp, s).
     if dinode_type (bufdata bp s) n = 0
     then kbind (log_write bp (set_data bp (new_dinode n type (bufdata bp s)) s)) (\<lambda>s.
          kbind (brelse bp s) (\<lambda>s.
          kbind (iget dev n s) (\<lambda>(ip, s).
          Inr (Some ip, s))))
     else kbind (brelse bp s) (\<lambda>s. ialloc_loop dev type (Suc n) k s))"

definition ialloc :: "nat \<Rightarrow> int \<Rightarrow> 'a kfs_scheme \<Rightarrow> (nat option \<times> 'a kfs_scheme) kres" where
  "ialloc dev type s = ialloc_loop dev type 1 (ninodes (fsb s) - 1) s"

definition iupdate :: "nat \<Rightarrow> 'a kfs_scheme \<Rightarrow> 'a kfs_scheme kres" where
  "iupdate ip s =
     (let i = itable s ip in
      kbind (bread (idev i) (IBLOCK (inum i) (fsb s)) s) (\<lambda>(bp, s).
      kbind (log_write bp (set_data bp (put_dinode i (inum i) (bufdata bp s)) s)) (\<lambda>s.
      brelse bp s)))"

definition idup :: "nat \<Rightarrow> 'a kfs_scheme \<Rightarrow> nat \<times> 'a kfs_scheme" where
  "idup ip s = (ip, upd_inode ip (\<lambda>i. i\<lparr>iref := iref i + 1\<rparr>) s)"

definition ilock :: "nat \<Rightarrow> 'a kfs_scheme \<Rightarrow> 'a kfs_scheme kres" where
  "ilock ip s =
     (if iref (itable s ip) < 1 then Inl (Panic ''ilock'')
      else
        kbind (acquiresleep s (ilk (itable s ip))) (\<lambda>lk.
        let s = upd_inode ip (\<lambda>i. i\<lparr>ilk := lk\<rparr>) s; i = itable s ip in
        if \<not> ivalid i then
          kbind (bread (idev i) (IBLOCK (inum i) (fsb s)) s) (\<lambda>(bp, s).
          let s = upd_inode ip (get_dinode (bufdata bp s) (inum i)) s in
          kbind (brelse bp s) (\<lambda>s.
          let s = upd_inode ip (\<lambda>i. i\<lparr>ivalid := True\<rparr>) s in
          if itype (itable s ip) = 0 then Inl (Panic ''ilock: no type'') else Inr s))
        else Inr s))"

definition iunlock :: "nat \<Rightarrow> 'a kfs_scheme \<Rightarrow> 'a kfs_scheme kres" where
  "iunlock ip s =
     kbind (holdingsleep s (ilk (itable s ip))) (\<lambda>h.
     if \<not> h \<or> iref (itable s ip) < 1 then Inl (Panic ''iunlock'')
     else let (lk, s) = releasesleep (ChanInode ip) s (ilk (itable s ip)) in Inr (upd_inode ip (\<lambda>i. i\<lparr>ilk := lk\<rparr>) s))"

section \<open>Inode content\<close>

definition bmap :: "nat \<Rightarrow> nat \<Rightarrow> 'a kfs_scheme \<Rightarrow> (nat \<times> 'a kfs_scheme) kres" where
  "bmap ip bn s =
     (let i = itable s ip in
      if bn < NDIRECT then
        if iaddrs i bn = 0 then
          kbind (balloc (idev i) s) (\<lambda>(addr, s).
          if addr = 0 then Inr (0, s)
          else Inr (addr, upd_inode ip (\<lambda>i. i\<lparr>iaddrs := (iaddrs i)(bn := addr)\<rparr>) s))
        else Inr (iaddrs i bn, s)
      else if bn - NDIRECT < NINDIRECT then
        kbind (if iaddrs i NDIRECT = 0 then
                 kbind (balloc (idev i) s) (\<lambda>(addr, s).
                 if addr = 0 then Inr (0, s)
                 else Inr (addr, upd_inode ip (\<lambda>i. i\<lparr>iaddrs := (iaddrs i)(NDIRECT := addr)\<rparr>) s))
               else Inr (iaddrs i NDIRECT, s)) (\<lambda>(addr, s).
        if addr = 0 then Inr (0, s)
        else
          kbind (bread (idev i) addr s) (\<lambda>(bp, s).
          let k = 4 * (bn - NDIRECT); addr = ld32 (bufdata bp s) k in
          kbind (if addr = 0 then
                   kbind (balloc (idev i) s) (\<lambda>(addr, s).
                   if addr \<noteq> 0
                   then kbind (log_write bp (set_data bp (st32 (bufdata bp s) k addr) s)) (\<lambda>s. Inr (addr, s))
                   else Inr (0, s))
                 else Inr (addr, s)) (\<lambda>(addr, s).
          kbind (brelse bp s) (\<lambda>s.
          Inr (addr, s)))))
      else Inl (Panic ''bmap: out of range''))"

fun itrunc_direct :: "nat \<Rightarrow> nat \<Rightarrow> nat \<Rightarrow> 'a kfs_scheme \<Rightarrow> 'a kfs_scheme kres" where
  "itrunc_direct ip i 0 s = Inr s"
| "itrunc_direct ip i (Suc k) s =
     kbind (if iaddrs (itable s ip) i \<noteq> 0
            then kbind (bfree (idev (itable s ip)) (iaddrs (itable s ip) i) s) (\<lambda>s.
                 Inr (upd_inode ip (\<lambda>n. n\<lparr>iaddrs := (iaddrs n)(i := 0)\<rparr>) s))
            else Inr s)
       (itrunc_direct ip (Suc i) k)"

fun itrunc_indirect :: "nat \<Rightarrow> nat \<Rightarrow> nat \<Rightarrow> nat \<Rightarrow> 'a kfs_scheme \<Rightarrow> 'a kfs_scheme kres" where
  "itrunc_indirect dev bp j 0 s = Inr s"
| "itrunc_indirect dev bp j (Suc k) s =
     kbind (let a = ld32 (bufdata bp s) (4 * j) in if a \<noteq> 0 then bfree dev a s else Inr s)
       (itrunc_indirect dev bp (Suc j) k)"

definition itrunc :: "nat \<Rightarrow> 'a kfs_scheme \<Rightarrow> 'a kfs_scheme kres" where
  "itrunc ip s =
     kbind (itrunc_direct ip 0 NDIRECT s) (\<lambda>s.
     let i = itable s ip in
     kbind (if iaddrs i NDIRECT \<noteq> 0 then
              kbind (bread (idev i) (iaddrs i NDIRECT) s) (\<lambda>(bp, s).
              kbind (itrunc_indirect (idev i) bp 0 NINDIRECT s) (\<lambda>s.
              kbind (brelse bp s) (\<lambda>s.
              kbind (bfree (idev i) (iaddrs i NDIRECT) s) (\<lambda>s.
              Inr (upd_inode ip (\<lambda>n. n\<lparr>iaddrs := (iaddrs n)(NDIRECT := 0)\<rparr>) s)))))
            else Inr s) (\<lambda>s.
     iupdate ip (upd_inode ip (\<lambda>n. n\<lparr>isize := 0\<rparr>) s)))"

definition iput :: "nat \<Rightarrow> 'a kfs_scheme \<Rightarrow> 'a kfs_scheme kres" where
  "iput ip s =
     kbind (if iref (itable s ip) = 1 \<and> ivalid (itable s ip) \<and> inlink (itable s ip) = 0 then
              kbind (acquiresleep s (ilk (itable s ip))) (\<lambda>lk.
              kbind (itrunc ip (upd_inode ip (\<lambda>i. i\<lparr>ilk := lk\<rparr>) s)) (\<lambda>s.
              kbind (iupdate ip (upd_inode ip (\<lambda>i. i\<lparr>itype := 0\<rparr>) s)) (\<lambda>s.
              let s = upd_inode ip (\<lambda>i. i\<lparr>ivalid := False\<rparr>) s;
                  (lk, s) = releasesleep (ChanInode ip) s (ilk (itable s ip))
              in Inr (upd_inode ip (\<lambda>i. i\<lparr>ilk := lk\<rparr>) s))))
            else Inr s) (\<lambda>s.
     Inr (upd_inode ip (\<lambda>i. i\<lparr>iref := iref i - 1\<rparr>) s))"

definition iunlockput :: "nat \<Rightarrow> 'a kfs_scheme \<Rightarrow> 'a kfs_scheme kres" where
  "iunlockput ip s = kbind (iunlock ip s) (iput ip)"

record stat =
  st_dev :: nat
  st_ino :: nat
  st_type :: int
  st_nlink :: int
  st_size :: nat

definition stati :: "nat \<Rightarrow> 'a kfs_scheme \<Rightarrow> stat" where
  "stati ip s =
     (let i = itable s ip in
      \<lparr>st_dev = idev i, st_ino = inum i, st_type = itype i, st_nlink = inlink i, st_size = isize i\<rparr>)"

text \<open>Bytes of a block, and a block with some of them replaced.\<close>

definition blk_get :: "blk \<Rightarrow> nat \<Rightarrow> nat \<Rightarrow> u8 list" where
  "blk_get d x n = map d [x..<x + n]"

definition blk_put :: "blk \<Rightarrow> nat \<Rightarrow> u8 list \<Rightarrow> blk" where
  "blk_put d x bs = (\<lambda>i. if x \<le> i \<and> i < x + length bs then bs ! (i - x) else d i)"

definition chunk :: "nat \<Rightarrow> nat \<Rightarrow> nat \<Rightarrow> nat" where
  "chunk n tot off = min (n - tot) (BSIZE - off mod BSIZE)"

lemma chunk_pos: "tot < n \<Longrightarrow> 0 < chunk n tot off"
  by (simp add: chunk_def)

text \<open>The loop of \<open>readi\<close>; \<open>-1\<close> when the destination cannot be written.\<close>

function readi_loop :: "nat \<Rightarrow> uaddr \<Rightarrow> nat \<Rightarrow> nat \<Rightarrow> nat \<Rightarrow> 'a kfs_scheme \<Rightarrow> (int \<times> uaddr \<times> 'a kfs_scheme) kres" where
  "readi_loop ip dst off n tot s =
     (if tot < n then
        kbind (bmap ip (off div BSIZE) s) (\<lambda>(addr, s).
        if addr = 0 then Inr (int tot, dst, s)
        else
          kbind (bread (idev (itable s ip)) addr s) (\<lambda>(bp, s).
          let m = chunk n tot off in
          kbind (either_copyout s dst (blk_get (bufdata bp s) (off mod BSIZE) m)) (\<lambda>(r, dst, s).
          if r = -1 then kbind (brelse bp s) (\<lambda>s. Inr (-1, dst, s))
          else kbind (brelse bp s) (\<lambda>s. readi_loop ip (advance dst m) (off + m) n (tot + m) s))))
      else Inr (int tot, dst, s))"
  by pat_completeness auto
termination by (relation "measure (\<lambda>(ip, dst, off, n, tot, s). n - tot)") (auto simp: chunk_def)

definition readi :: "nat \<Rightarrow> uaddr \<Rightarrow> nat \<Rightarrow> nat \<Rightarrow> 'a kfs_scheme \<Rightarrow> (int \<times> uaddr \<times> 'a kfs_scheme) kres" where
  "readi ip dst off n s =
     (let sz = isize (itable s ip) in
      if off > sz \<or> (off + n) mod 4294967296 < off then Inr (0, dst, s)
      else readi_loop ip dst off (if off + n > sz then sz - off else n) 0 s)"

text \<open>
  The loop of \<open>writei\<close> also gives the offset it has reached. When \<open>either_copyin\<close> fails, the bytes it has copied are
  in the buffer, which is released without being logged.
\<close>

function writei_loop :: "nat \<Rightarrow> uaddr \<Rightarrow> nat \<Rightarrow> nat \<Rightarrow> nat \<Rightarrow> 'a kfs_scheme \<Rightarrow> (nat \<times> nat \<times> 'a kfs_scheme) kres" where
  "writei_loop ip src off n tot s =
     (if tot < n then
        kbind (bmap ip (off div BSIZE) s) (\<lambda>(addr, s).
        if addr = 0 then Inr (tot, off, s)
        else
          kbind (bread (idev (itable s ip)) addr s) (\<lambda>(bp, s).
          let m = chunk n tot off in
          kbind (either_copyin s src m) (\<lambda>(r, bs, src).
          let s = set_data bp (blk_put (bufdata bp s) (off mod BSIZE) bs) s in
          if r = -1 then kbind (brelse bp s) (\<lambda>s. Inr (tot, off, s))
          else
            kbind (log_write bp s) (\<lambda>s.
            kbind (brelse bp s) (\<lambda>s. writei_loop ip (advance src m) (off + m) n (tot + m) s)))))
      else Inr (tot, off, s))"
  by pat_completeness auto
termination by (relation "measure (\<lambda>(ip, src, off, n, tot, s). n - tot)") (auto simp: chunk_def)

definition writei :: "nat \<Rightarrow> uaddr \<Rightarrow> nat \<Rightarrow> nat \<Rightarrow> 'a kfs_scheme \<Rightarrow> (int \<times> 'a kfs_scheme) kres" where
  "writei ip src off n s =
     (if off > isize (itable s ip) \<or> (off + n) mod 4294967296 < off then Inr (-1, s)
      else if off + n > MAXFILE * BSIZE then Inr (-1, s)
      else
        kbind (writei_loop ip src off n 0 s) (\<lambda>(tot, off, s).
        let s = (if off > isize (itable s ip) then upd_inode ip (\<lambda>i. i\<lparr>isize := off\<rparr>) s else s) in
        kbind (iupdate ip s) (\<lambda>s.
        Inr (int tot, s))))"

section \<open>Directories\<close>

text \<open>\<open>strncmp\<close> on strings in kernel buffers, given by their bytes before the NUL.\<close>

definition str_head :: "u8 list \<Rightarrow> u8" where
  "str_head p = (case p of [] \<Rightarrow> 0 | x # _ \<Rightarrow> x)"

fun strncmp_str :: "u8 list \<Rightarrow> u8 list \<Rightarrow> nat \<Rightarrow> int" where
  "strncmp_str p q 0 = 0"
| "strncmp_str p q (Suc n) =
     (if str_head p \<noteq> 0 \<and> str_head p = str_head q then strncmp_str (tl p) (tl q) n
      else uint (str_head p) - uint (str_head q))"

definition namecmp :: "u8 list \<Rightarrow> u8 list \<Rightarrow> int" where
  "namecmp p q = strncmp_str p q DIRSIZ"

text \<open>A \<open>struct dirent\<close>, as the 16 bytes that are read and written.\<close>

abbreviation sizeof_dirent :: nat where "sizeof_dirent \<equiv> 16"

definition de_inum :: "u8 list \<Rightarrow> nat" where
  "de_inum de = unat (de ! 0) + 256 * unat (de ! 1)"

definition de_name :: "u8 list \<Rightarrow> u8 list" where
  "de_name de = take DIRSIZ (drop 2 de)"

definition mk_dirent :: "nat \<Rightarrow> u8 list \<Rightarrow> u8 list" where
  "mk_dirent n name = [of_nat n, of_nat (n div 256)] @ take DIRSIZ (name @ replicate DIRSIZ 0)"

text \<open>Reading an entry into a kernel variable; the size of a directory stays the same in the loops.\<close>

definition read_dirent :: "nat \<Rightarrow> nat \<Rightarrow> string \<Rightarrow> 'a kfs_scheme \<Rightarrow> (u8 list \<times> 'a kfs_scheme) kres" where
  "read_dirent dp off msg s =
     kbind (readi dp (Kern []) off sizeof_dirent s) (\<lambda>(r, dst, s).
     if r \<noteq> int sizeof_dirent then Inl (Panic msg)
     else Inr (case dst of Kern de \<Rightarrow> de | User _ \<Rightarrow> [], s))"

function dirlookup_loop ::
  "nat \<Rightarrow> u8 list \<Rightarrow> nat \<Rightarrow> nat \<Rightarrow> 'a kfs_scheme \<Rightarrow> ((nat \<times> nat) option \<times> 'a kfs_scheme) kres" where
  "dirlookup_loop dp name sz off s =
     (if off < sz then
        kbind (read_dirent dp off ''dirlookup read'' s) (\<lambda>(de, s).
        if de_inum de = 0 then dirlookup_loop dp name sz (off + sizeof_dirent) s
        else if namecmp name (de_name de) = 0
        then kbind (iget (idev (itable s dp)) (de_inum de) s) (\<lambda>(ip, s). Inr (Some (ip, off), s))
        else dirlookup_loop dp name sz (off + sizeof_dirent) s)
      else Inr (None, s))"
  by pat_completeness auto
termination by (relation "measure (\<lambda>(dp, name, sz, off, s). sz - off)") auto

definition dirlookup :: "nat \<Rightarrow> u8 list \<Rightarrow> 'a kfs_scheme \<Rightarrow> ((nat \<times> nat) option \<times> 'a kfs_scheme) kres" where
  "dirlookup dp name s =
     (if itype (itable s dp) \<noteq> T_DIR then Inl (Panic ''dirlookup not DIR'')
      else dirlookup_loop dp name (isize (itable s dp)) 0 s)"

function empty_dirent :: "nat \<Rightarrow> nat \<Rightarrow> nat \<Rightarrow> 'a kfs_scheme \<Rightarrow> (nat \<times> 'a kfs_scheme) kres" where
  "empty_dirent dp sz off s =
     (if off < sz then
        kbind (read_dirent dp off ''dirlink read'' s) (\<lambda>(de, s).
        if de_inum de = 0 then Inr (off, s) else empty_dirent dp sz (off + sizeof_dirent) s)
      else Inr (off, s))"
  by pat_completeness auto
termination by (relation "measure (\<lambda>(dp, sz, off, s). sz - off)") auto

definition dirlink :: "nat \<Rightarrow> u8 list \<Rightarrow> nat \<Rightarrow> 'a kfs_scheme \<Rightarrow> (int \<times> 'a kfs_scheme) kres" where
  "dirlink dp name n s =
     kbind (dirlookup dp name s) (\<lambda>(r, s).
     case r of
       Some (ip, _) \<Rightarrow> kbind (iput ip s) (\<lambda>s. Inr (-1, s))
     | None \<Rightarrow>
         kbind (empty_dirent dp (isize (itable s dp)) 0 s) (\<lambda>(off, s).
         kbind (writei dp (Kern (mk_dirent n name)) off sizeof_dirent s) (\<lambda>(r, s).
         if r \<noteq> int sizeof_dirent then Inr (-1, s) else Inr (0, s))))"

section \<open>Paths\<close>

abbreviation slash :: u8 where "slash \<equiv> 47"

text \<open>The element, cut to the \<open>DIRSIZ\<close> bytes that \<open>name\<close> has room for, and the rest of the path.\<close>

definition skipelem :: "u8 list \<Rightarrow> (u8 list \<times> u8 list) option" where
  "skipelem pth =
     (let pth = dropWhile (\<lambda>c. c = slash) pth in
      if pth = [] then None
      else
        let elem = takeWhile (\<lambda>c. c \<noteq> slash) pth;
            pth = dropWhile (\<lambda>c. c \<noteq> slash) pth
        in Some (take DIRSIZ elem, dropWhile (\<lambda>c. c = slash) pth))"

lemma skipelem_shorter: "skipelem pth = Some (name, rest) \<Longrightarrow> length rest < length pth"
proof -
  assume s: "skipelem pth = Some (name, rest)"
  let ?p = "dropWhile (\<lambda>c. c = slash) pth"
  have p: "?p \<noteq> []" "rest = dropWhile (\<lambda>c. c = slash) (dropWhile (\<lambda>c. c \<noteq> slash) ?p)"
    using s by (auto simp: skipelem_def Let_def split: if_splits)
  have "hd ?p \<noteq> slash" using hd_dropWhile [OF p(1)] by simp
  then have "dropWhile (\<lambda>c. c \<noteq> slash) ?p = dropWhile (\<lambda>c. c \<noteq> slash) (tl ?p)" using p(1) by (cases ?p) auto
  then have "length rest \<le> length (tl ?p)"
    using order_trans [OF length_dropWhile_le length_dropWhile_le] by (simp only: p(2))
  also have "\<dots> < length ?p" using p(1) by simp
  also have "\<dots> \<le> length pth" by (rule length_dropWhile_le)
  finally show ?thesis .
qed

function namex_loop :: "nat \<Rightarrow> u8 list \<Rightarrow> bool \<Rightarrow> u8 list \<Rightarrow> 'a kfs_scheme \<Rightarrow> (nat option \<times> u8 list \<times> 'a kfs_scheme) kres" where
  "namex_loop ip pth nameiparent name s =
     (case skipelem pth of
        None \<Rightarrow> if nameiparent then kbind (iput ip s) (\<lambda>s. Inr (None, name, s)) else Inr (Some ip, name, s)
      | Some (name, pth) \<Rightarrow>
          kbind (ilock ip s) (\<lambda>s.
          if itype (itable s ip) \<noteq> T_DIR then kbind (iunlockput ip s) (\<lambda>s. Inr (None, name, s))
          else if nameiparent \<and> pth = [] then kbind (iunlock ip s) (\<lambda>s. Inr (Some ip, name, s))
          else
            kbind (dirlookup ip name s) (\<lambda>(r, s).
            case r of
              None \<Rightarrow> kbind (iunlockput ip s) (\<lambda>s. Inr (None, name, s))
            | Some (nxt, _) \<Rightarrow> kbind (iunlockput ip s) (\<lambda>s. namex_loop nxt pth nameiparent name s))))"
  by pat_completeness auto
termination by (relation "measure (\<lambda>(ip, pth, np, name, s). length pth)") (auto dest: skipelem_shorter)

text \<open>A null \<open>cwd\<close> would fault on \<open>ip->ref\<close>.\<close>

definition namex :: "u8 list \<Rightarrow> bool \<Rightarrow> 'a kfs_scheme \<Rightarrow> (nat option \<times> u8 list \<times> 'a kfs_scheme) kres" where
  "namex pth nameiparent s =
     kbind (if str_head pth = slash then iget ROOTDEV ROOTINO s
            else kbind (curproc s) (\<lambda>p. case cwd (procs s ! p) of None \<Rightarrow> Inl (PageFault 8) | Some ip \<Rightarrow> Inr (idup ip s)))
       (\<lambda>(ip, s). namex_loop ip pth nameiparent [] s)"

definition namei :: "u8 list \<Rightarrow> 'a kfs_scheme \<Rightarrow> (nat option \<times> 'a kfs_scheme) kres" where
  "namei pth s = kbind (namex pth False s) (\<lambda>(ip, name, s). Inr (ip, s))"

definition nameiparent :: "u8 list \<Rightarrow> 'a kfs_scheme \<Rightarrow> (nat option \<times> u8 list \<times> 'a kfs_scheme) kres" where
  "nameiparent pth s = namex pth True s"

end
