(* ===== verification/Ring.thy ===== *)
theory Ring
  imports Prelude
begin

text \<open>
  Ring buffers with free-running indices: the reader's and the writer's index are machine words that only ever grow and
  wrap around, and an element lives at its index modulo the size of the buffer. Pipes, the console's input buffer and
  the UART's output buffer are of this kind. The contract that makes them queues is that the size is a proper divisor of the
  number of values of an index, and that the two indices are never further apart than the size.
\<close>

definition ring_list :: "(nat \<Rightarrow> 'b) \<Rightarrow> nat \<Rightarrow> 'w::len word \<Rightarrow> 'w word \<Rightarrow> 'b list" where
  "ring_list buf N r w = map (\<lambda>i. buf (unat (r + of_nat i) mod N)) [0..<unat (w - r)]"

lemma length_ring_list [simp]: "length (ring_list buf N r w) = unat (w - r)"
  by (simp add: ring_list_def)

lemma ring_list_empty [simp]: "ring_list buf N r r = []"
  by (simp add: ring_list_def)

lemma ring_list_Nil_iff: "ring_list buf N r w = [] \<longleftrightarrow> r = w"
  by (metis length_0_conv length_ring_list right_minus_eq unat_eq_zero)

lemma ring_unput:
  fixes r w :: "'w::len word"
  assumes "r \<noteq> w"
  shows "ring_list buf N r (w - 1) = butlast (ring_list buf N r w)"
    "last (ring_list buf N r w) = buf (unat (w - 1) mod N)" "unat (w - 1 - r) = unat (w - r) - 1"
proof -
  have "w - r \<noteq> 0" using assms by simp
  then show d: "unat (w - 1 - r) = unat (w - r) - 1" using unat_minus_one [of "w - r"] by (simp add: algebra_simps)
  obtain k where k: "unat (w - r) = Suc k" using \<open>w - r \<noteq> 0\<close> by (cases "unat (w - r)") (auto simp: unat_eq_zero)
  show "ring_list buf N r (w - 1) = butlast (ring_list buf N r w)" by (simp add: ring_list_def d k)
  have "w - r = of_nat (Suc k)" using k by (metis of_nat_unat ucast_id)
  then have "r + of_nat k = w - 1" by (simp add: algebra_simps)
  then show "last (ring_list buf N r w) = buf (unat (w - 1) mod N)" by (simp add: ring_list_def k)
qed

locale ring_buffer =
  fixes N :: nat and idx :: "'w::len itself"
  assumes size_pos: "0 < N" and size_dvd: "N dvd 2 ^ LENGTH('w)" and size_less: "N < 2 ^ LENGTH('w)"
begin

lemma slot_add: "unat (a + b :: 'w word) mod N = (unat a + unat b) mod N"
  using size_dvd by (simp add: unat_word_ariths mod_mod_cancel)

lemma slot_add_nat: "unat (a + of_nat i :: 'w word) mod N = (unat a + i) mod N"
  using size_dvd by (simp add: unat_word_ariths unat_of_nat mod_mod_cancel mod_simps)

text \<open>Two positions less than the size apart are different slots.\<close>

lemma slot_inj:
  fixes a i j :: nat
  assumes "i < N" "j < N" "(a + i) mod N = (a + j) mod N"
  shows "i = j"
  using assms
proof (induction i j rule: linorder_wlog)
  case (le i j)
  then have "N dvd (a + j) - (a + i)" by (metis add_le_mono1 add.commute mod_eq_dvd_iff_nat)
  then show ?case using le by (auto dest: dvd_imp_le)
qed (auto simp: eq_commute)

lemma unat_succ_diff:
  fixes r w :: "'w word"
  shows "r \<noteq> w \<Longrightarrow> unat (w - r) = Suc (unat (w - (r + 1)))"
proof -
  assume "r \<noteq> w"
  then have "w - r \<noteq> 0" by simp
  then have "unat (w - r) = Suc (unat (w - r - 1))" by (simp add: unat_minus_one unat_gt_0)
  then show ?thesis by (simp add: diff_diff_eq)
qed

lemma ring_get:
  fixes r w :: "'w word"
  assumes "r \<noteq> w"
  shows "ring_list buf N r w = buf (unat r mod N) # ring_list buf N (r + 1) w"
proof -
  have "ring_list buf N r w = map (\<lambda>i. buf (unat (r + of_nat i) mod N)) (0 # map Suc [0..<unat (w - (r + 1))])"
    unfolding ring_list_def unat_succ_diff [OF assms] by (simp add: upt_conv_Cons map_Suc_upt del: upt_Suc)
  then show ?thesis by (simp add: ring_list_def comp_def add.assoc)
qed

lemma ring_put:
  fixes r w :: "'w word"
  assumes "unat (w - r) < N"
  shows "ring_list (buf(unat w mod N := x)) N r (w + 1) = ring_list buf N r w @ [x]"
proof -
  let ?k = "unat (w - r)"
  have "unat (w + 1 - r) = Suc ?k"
  proof -
    have "unat (w - r + 1) = ?k + 1" using assms size_less by (simp add: unat_word_ariths)
    then show ?thesis by (simp add: algebra_simps)
  qed
  moreover have w: "unat w mod N = (unat r + ?k) mod N" using slot_add [of r "w - r"] by simp
  have "(buf(unat w mod N := x)) (unat (r + of_nat i) mod N) = buf (unat (r + of_nat i) mod N)" if "i < ?k" for i
    using slot_inj [of i ?k "unat r"] that assms by (auto simp: w slot_add_nat)
  moreover have "(buf(unat w mod N := x)) (unat (r + of_nat ?k) mod N) = x" by (simp add: w slot_add_nat)
  ultimately show ?thesis unfolding ring_list_def by simp
qed

text \<open>The reader's index catches up with the writer's after exactly as many reads as there are elements.\<close>

lemma ring_put_length:
  fixes r w :: "'w word"
  shows "unat (w - r) < N \<Longrightarrow> unat (w + 1 - r) = Suc (unat (w - r))"
  using arg_cong [OF ring_put [of w r buf x], of length] by simp

lemma ring_full_iff:
  fixes r w :: "'w word"
  assumes "unat (w - r) \<le> N"
  shows "w = r + of_nat N \<longleftrightarrow> unat (w - r) = N"
proof -
  have "unat (of_nat N :: 'w word) = N" using size_less by (simp add: unat_of_nat)
  moreover have "w = r + of_nat N \<longleftrightarrow> w - r = of_nat N" by (auto simp: algebra_simps)
  ultimately show ?thesis by (metis unsigned_word_eqI)
qed

end

end
