(* ===== verification/Console.thy ===== *)
theory Console
  imports Fs Ring
begin

text \<open>
  The UART driver (\<open>uart.c\<close>) and the console (\<open>console.c\<close>): output buffered in a ring and handed to the device when it
  has room, input edited in a line buffer. The 16550 is modelled by its registers, the number of bytes its transmitter
  can take before it reports itself busy, the bytes it has been given, and the bytes that wait to be read.
\<close>

section \<open>State\<close>

record uart_dev =
  ier :: u8
  lcr :: u8
  fcr :: u8
  divisor_lo :: u8
  divisor_hi :: u8
  tx_room :: nat
  tx_out :: "u8 list"
  rx_in :: "u8 list"

record cons_st =
  cbuf :: "nat \<Rightarrow> u8"
  cr :: u32
  cw :: u32
  ce :: u32

datatype dev_driver = ConsoleDriver

record kdev = kfs +
  uart :: uart_dev
  uart_tx_buf :: "nat \<Rightarrow> u8"
  uart_tx_w :: u64
  uart_tx_r :: u64
  panicked :: bool
  cons :: cons_st
  devsw :: "nat \<Rightarrow> dev_driver option"

abbreviation UART_TX_BUF_SIZE :: nat where "UART_TX_BUF_SIZE \<equiv> 32"
abbreviation INPUT_BUF_SIZE :: nat where "INPUT_BUF_SIZE \<equiv> 128"
abbreviation CONSOLE :: nat where "CONSOLE \<equiv> 1"

text \<open>
  A call that may have to wait in the middle of its work either returns, or is blocked on a channel with the progress it
  has made; it goes on from there once it has been woken.
\<close>

datatype outcome = Done int | Blocked chan int

section \<open>The device's registers\<close>

text \<open>With bit 7 of LCR set, registers 0 and 1 are the baud rate divisor.\<close>

definition WriteReg :: "nat \<Rightarrow> u8 \<Rightarrow> uart_dev \<Rightarrow> uart_dev" where
  "WriteReg reg v u =
     (if reg = 0 then if bit (lcr u) 7 then u\<lparr>divisor_lo := v\<rparr> else u\<lparr>tx_out := tx_out u @ [v], tx_room := tx_room u - 1\<rparr>
      else if reg = 1 then if bit (lcr u) 7 then u\<lparr>divisor_hi := v\<rparr> else u\<lparr>ier := v\<rparr>
      else if reg = 2 then u\<lparr>fcr := v\<rparr>
      else if reg = 3 then u\<lparr>lcr := v\<rparr>
      else u)"

definition LSR_RX_READY :: "uart_dev \<Rightarrow> bool" where
  "LSR_RX_READY u \<longleftrightarrow> rx_in u \<noteq> []"

definition LSR_TX_IDLE :: "uart_dev \<Rightarrow> bool" where
  "LSR_TX_IDLE u \<longleftrightarrow> 0 < tx_room u"

abbreviation upd_uart :: "(uart_dev \<Rightarrow> uart_dev) \<Rightarrow> 'a kdev_scheme \<Rightarrow> 'a kdev_scheme" where
  "upd_uart f s \<equiv> s\<lparr>uart := f (uart s)\<rparr>"

section \<open>UART driver\<close>

definition uartinit :: "'a kdev_scheme \<Rightarrow> 'a kdev_scheme" where
  "uartinit s =
     upd_uart (WriteReg 1 3 \<circ> WriteReg 2 7 \<circ> WriteReg 3 3 \<circ> WriteReg 1 0 \<circ> WriteReg 0 3 \<circ> WriteReg 3 128 \<circ> WriteReg 1 0) s"

function uartstart :: "'a kdev_scheme \<Rightarrow> 'a kdev_scheme" where
  "uartstart s =
     (if uart_tx_w s = uart_tx_r s then s
      else if \<not> LSR_TX_IDLE (uart s) then s
      else
        let c = uart_tx_buf s (unat (uart_tx_r s) mod UART_TX_BUF_SIZE);
            s = s\<lparr>uart_tx_r := uart_tx_r s + 1\<rparr>;
            s = wakeup ChanUart s
        in uartstart (upd_uart (WriteReg 0 c) s))"
  by pat_completeness auto

lemma dev_wakeup [simp]:
  "uart (wakeup c s) = uart s" "uart_tx_w (wakeup c s) = uart_tx_w s" "uart_tx_r (wakeup c s) = uart_tx_r s"
  "uart_tx_buf (wakeup c s) = uart_tx_buf s" "cons (wakeup c s) = cons s" "panicked (wakeup c s) = panicked s"
  by (simp_all add: wakeup_def)

interpretation uring: ring_buffer UART_TX_BUF_SIZE "TYPE(64)"
  by unfold_locales simp_all

interpretation cring: ring_buffer INPUT_BUF_SIZE "TYPE(32)"
  by unfold_locales simp_all

termination uartstart
proof (relation "measure (\<lambda>s. unat (uart_tx_w s - uart_tx_r s))")
  fix s :: "'a kdev_scheme" and x xa xb
  assume "uart_tx_w s \<noteq> uart_tx_r s" "xa = s\<lparr>uart_tx_r := uart_tx_r s + 1\<rparr>" "xb = wakeup ChanUart xa"
  then show "(upd_uart (WriteReg 0 x) xb, s) \<in> measure (\<lambda>s. unat (uart_tx_w s - uart_tx_r s))"
    using uring.unat_succ_diff [of "uart_tx_r s" "uart_tx_w s"] by simp
qed simp

declare uartstart.simps [simp del]

text \<open>Blocked while the buffer is full; once the kernel has panicked, the output is frozen.\<close>

definition uartputc :: "u8 \<Rightarrow> 'a kdev_scheme \<Rightarrow> (bool \<times> 'a kdev_scheme) kres" where
  "uartputc c s =
     (if panicked s then Inl (Sleeps ''panicked'')
      else if uart_tx_w s = uart_tx_r s + of_nat UART_TX_BUF_SIZE then Inr (False, s)
      else
        let s = s\<lparr>uart_tx_buf := (uart_tx_buf s)(unat (uart_tx_w s) mod UART_TX_BUF_SIZE := c)\<rparr>;
            s = s\<lparr>uart_tx_w := uart_tx_w s + 1\<rparr>
        in Inr (True, uartstart s))"

text \<open>Waits until the transmitter is idle, then sends the byte.\<close>

definition uartputc_sync :: "u8 \<Rightarrow> 'a kdev_scheme \<Rightarrow> 'a kdev_scheme kres" where
  "uartputc_sync c s =
     (if panicked s then Inl (Sleeps ''panicked'')
      else Inr (upd_uart (\<lambda>u. WriteReg 0 c (if LSR_TX_IDLE u then u else u\<lparr>tx_room := 1\<rparr>)) s))"

definition uartgetc :: "'a kdev_scheme \<Rightarrow> int \<times> 'a kdev_scheme" where
  "uartgetc s =
     (if LSR_RX_READY (uart s) then (uint (hd (rx_in (uart s))), upd_uart (\<lambda>u. u\<lparr>rx_in := tl (rx_in u)\<rparr>) s) else (-1, s))"

section \<open>Console\<close>

abbreviation BACKSPACE :: int where "BACKSPACE \<equiv> 0x100"
abbreviation ctrl_D :: int where "ctrl_D \<equiv> 4"
abbreviation ctrl_H :: int where "ctrl_H \<equiv> 8"
abbreviation ctrl_P :: int where "ctrl_P \<equiv> 16"
abbreviation ctrl_U :: int where "ctrl_U \<equiv> 21"
abbreviation newline :: int where "newline \<equiv> 10"

definition consputc :: "int \<Rightarrow> 'a kdev_scheme \<Rightarrow> 'a kdev_scheme kres" where
  "consputc c s =
     (if c = BACKSPACE
      then kbind (uartputc_sync 8 s) (\<lambda>s. kbind (uartputc_sync 32 s) (\<lambda>s. uartputc_sync 8 s))
      else uartputc_sync (word_of_int c) s)"

text \<open>\<open>consolewrite\<close> from byte \<open>i\<close> on. A byte that cannot be queued blocks it there.\<close>

function consolewrite :: "uaddr \<Rightarrow> int \<Rightarrow> int \<Rightarrow> 'a kdev_scheme \<Rightarrow> (outcome \<times> 'a kdev_scheme) kres" where
  "consolewrite src n i s =
     (if i < n then
        kbind (either_copyin s src 1) (\<lambda>(r, bs, src).
        if r = -1 then Inr (Done i, s)
        else
          kbind (uartputc (hd bs) s) (\<lambda>(sent, s).
          if sent then consolewrite (advance src 1) n (i + 1) s else Inr (Blocked ChanUart i, s)))
      else Inr (Done i, s))"
  by pat_completeness auto
termination by (relation "measure (\<lambda>(src, n, i, s). nat (n - i))") auto

declare consolewrite.simps [simp del]

text \<open>
  \<open>consoleread\<close> of \<open>target\<close> bytes, \<open>n\<close> of which are still missing; \<open>dst\<close> is where the next one goes. Blocked on an
  empty buffer, with what is missing.
\<close>

function consoleread :: "uaddr \<Rightarrow> int \<Rightarrow> int \<Rightarrow> 'a kdev_scheme \<Rightarrow> (outcome \<times> uaddr \<times> 'a kdev_scheme) kres" where
  "consoleread dst target n s =
     (if n > 0 then
        if cr (cons s) = cw (cons s) then
          kbind (curproc s) (\<lambda>p.
          if killed p s \<noteq> 0 then Inr (Done (-1), dst, s) else Inr (Blocked ChanCons n, dst, s))
        else
          let c = cbuf (cons s) (unat (cr (cons s)) mod INPUT_BUF_SIZE);
              s = s\<lparr>cons := (cons s)\<lparr>cr := cr (cons s) + 1\<rparr>\<rparr>
          in
          if uint c = ctrl_D then
            Inr (Done (target - n), dst, if n < target then s\<lparr>cons := (cons s)\<lparr>cr := cr (cons s) - 1\<rparr>\<rparr> else s)
          else
            kbind (either_copyout s dst [c]) (\<lambda>(r, dst, s).
            if r = -1 then Inr (Done (target - n), dst, s)
            else if uint c = newline then Inr (Done (target - (n - 1)), advance dst 1, s)
            else consoleread (advance dst 1) target (n - 1) s)
      else Inr (Done (target - n), dst, s))"
  by pat_completeness auto
termination by (relation "measure (\<lambda>(dst, target, n, s). nat n)") auto

declare consoleread.simps [simp del]

lemma consputc_keeps: "consputc c s = Inr s' \<Longrightarrow> cons s' = cons s \<and> rx_in (uart s') = rx_in (uart s)"
  by (auto simp: consputc_def uartputc_sync_def WriteReg_def split: if_splits)

text \<open>Erasing the line typed so far.\<close>

function kill_line :: "'a kdev_scheme \<Rightarrow> 'a kdev_scheme kres" where
  "kill_line s =
     (if ce (cons s) \<noteq> cw (cons s) \<and> cbuf (cons s) (unat (ce (cons s) - 1) mod INPUT_BUF_SIZE) \<noteq> 10
      then kbind (consputc BACKSPACE (s\<lparr>cons := (cons s)\<lparr>ce := ce (cons s) - 1\<rparr>\<rparr>)) kill_line
      else Inr s)"
  by pat_completeness auto
termination kill_line
proof (relation "measure (\<lambda>s. unat (ce (cons s) - cw (cons s)))")
  fix s s' :: "'a kdev_scheme"
  assume "ce (cons s) \<noteq> cw (cons s) \<and> cbuf (cons s) (unat (ce (cons s) - 1) mod INPUT_BUF_SIZE) \<noteq> 10"
    and "consputc BACKSPACE (s\<lparr>cons := (cons s)\<lparr>ce := ce (cons s) - 1\<rparr>\<rparr>) = Inr s'"
  then have "cons s' = (cons s)\<lparr>ce := ce (cons s) - 1\<rparr>" "ce (cons s) - cw (cons s) \<noteq> 0" by (auto dest: consputc_keeps)
  moreover have "unat (ce (cons s) - cw (cons s)) = Suc (unat (ce (cons s) - 1 - cw (cons s)))"
    using calculation(2) unat_minus_one [of "ce (cons s) - cw (cons s)"] by (simp add: unat_gt_0 algebra_simps)
  ultimately show "(s', s) \<in> measure (\<lambda>s. unat (ce (cons s) - cw (cons s)))" by simp
qed simp

declare kill_line.simps [simp del]

text \<open>The listing of the processes that control-P asks for is output only and left out.\<close>

definition consoleintr :: "int \<Rightarrow> 'a kdev_scheme \<Rightarrow> 'a kdev_scheme kres" where
  "consoleintr c s =
     (if c = ctrl_P then Inr s
      else if c = ctrl_U then kill_line s
      else if c = ctrl_H \<or> c = 0x7f then
        if ce (cons s) \<noteq> cw (cons s) then consputc BACKSPACE (s\<lparr>cons := (cons s)\<lparr>ce := ce (cons s) - 1\<rparr>\<rparr>) else Inr s
      else if c \<noteq> 0 \<and> ce (cons s) - cr (cons s) < of_nat INPUT_BUF_SIZE then
        let c = (if c = 13 then newline else c) in
        kbind (consputc c s) (\<lambda>s.
        let s = s\<lparr>cons := (cons s)\<lparr>cbuf := (cbuf (cons s))(unat (ce (cons s)) mod INPUT_BUF_SIZE := word_of_int c),
              ce := ce (cons s) + 1\<rparr>\<rparr>
        in
        if c = newline \<or> c = ctrl_D \<or> ce (cons s) - cr (cons s) = of_nat INPUT_BUF_SIZE
        then Inr (wakeup ChanCons (s\<lparr>cons := (cons s)\<lparr>cw := ce (cons s)\<rparr>\<rparr>))
        else Inr s)
      else Inr s)"

lemma kill_line_keeps: "kill_line s = Inr s' \<Longrightarrow> rx_in (uart s') = rx_in (uart s)"
proof (induction s rule: kill_line.induct)
  case (1 s)
  show ?case
  proof (cases "ce (cons s) \<noteq> cw (cons s) \<and> cbuf (cons s) (unat (ce (cons s) - 1) mod INPUT_BUF_SIZE) \<noteq> 10")
    case True
    then obtain t where t: "consputc BACKSPACE (s\<lparr>cons := (cons s)\<lparr>ce := ce (cons s) - 1\<rparr>\<rparr>) = Inr t" "kill_line t = Inr s'"
      using 1(2) unfolding kill_line.simps [of s] by auto
    then show ?thesis using 1(1) [OF True t] consputc_keeps [OF t(1)] by simp
  qed (use 1(2) in \<open>auto simp: kill_line.simps [of s] split: if_splits\<close>)
qed

lemma consoleintr_keeps: "consoleintr c s = Inr s' \<Longrightarrow> rx_in (uart s') = rx_in (uart s)"
  by (auto simp: consoleintr_def Let_def split: if_splits dest!: kill_line_keeps consputc_keeps)

function uartintr_in :: "'a kdev_scheme \<Rightarrow> 'a kdev_scheme kres" where
  "uartintr_in s =
     (let (c, s') = uartgetc s in if c = -1 then Inr s' else kbind (consoleintr c s') uartintr_in)"
  by pat_completeness auto
termination uartintr_in
proof (relation "measure (\<lambda>s. length (rx_in (uart s)))")
  fix s s' t :: "'a kdev_scheme" and p c
  assume "p = uartgetc s" "(c, s') = p" "c \<noteq> -1" "consoleintr c s' = Inr t"
  then have "rx_in (uart s) \<noteq> [] \<and> rx_in (uart t) = tl (rx_in (uart s))"
    by (auto simp: uartgetc_def LSR_RX_READY_def dest!: consoleintr_keeps split: if_splits)
  then show "(t, s) \<in> measure (\<lambda>s. length (rx_in (uart s)))" by simp
qed simp

declare uartintr_in.simps [simp del]

definition uartintr :: "'a kdev_scheme \<Rightarrow> 'a kdev_scheme kres" where
  "uartintr s = kbind (uartintr_in s) (\<lambda>s. Inr (uartstart s))"

definition consoleinit :: "'a kdev_scheme \<Rightarrow> 'a kdev_scheme" where
  "consoleinit s = (let s = uartinit s in s\<lparr>devsw := (devsw s)(CONSOLE \<mapsto> ConsoleDriver)\<rparr>)"

section \<open>Output is a queue\<close>

text \<open>What has been handed to the device, and what waits for it.\<close>

definition tx_pending :: "'a kdev_scheme \<Rightarrow> u8 list" where
  "tx_pending s = ring_list (uart_tx_buf s) UART_TX_BUF_SIZE (uart_tx_r s) (uart_tx_w s)"

definition uart_inv :: "'a kdev_scheme \<Rightarrow> bool" where
  "uart_inv s \<longleftrightarrow> \<not> panicked s \<and> \<not> bit (lcr (uart s)) 7 \<and> length (tx_pending s) \<le> UART_TX_BUF_SIZE"

lemma uartstart_sends:
  "\<not> bit (lcr (uart s)) 7 \<Longrightarrow>
   tx_out (uart (uartstart s)) @ tx_pending (uartstart s) = tx_out (uart s) @ tx_pending s \<and>
   length (tx_pending (uartstart s)) \<le> length (tx_pending s) \<and> lcr (uart (uartstart s)) = lcr (uart s) \<and>
   panicked (uartstart s) = panicked s \<and> (tx_pending (uartstart s) = [] \<or> tx_room (uart (uartstart s)) = 0)"
proof (induction s rule: uartstart.induct)
  case (1 s)
  show ?case
  proof (cases "uart_tx_w s = uart_tx_r s \<or> \<not> LSR_TX_IDLE (uart s)")
    case True
    then have "uartstart s = s" by (auto simp: uartstart.simps [of s])
    then show ?thesis using True by (auto simp: tx_pending_def LSR_TX_IDLE_def)
  next
    case False
    define c where "c = uart_tx_buf s (unat (uart_tx_r s) mod UART_TX_BUF_SIZE)"
    define t where "t = upd_uart (WriteReg 0 c) (wakeup ChanUart (s\<lparr>uart_tx_r := uart_tx_r s + 1\<rparr>))"
    have "uart_tx_r s \<noteq> uart_tx_w s" using False by auto
    then have p: "tx_pending s = c # tx_pending t"
      using uring.ring_get [of "uart_tx_r s" "uart_tx_w s" "uart_tx_buf s"] by (simp add: tx_pending_def t_def c_def)
    have o: "tx_out (uart t) = tx_out (uart s) @ [c]" "lcr (uart t) = lcr (uart s)" "panicked t = panicked s"
      using 1(2) by (simp_all add: t_def WriteReg_def)
    have st: "uartstart s = uartstart t" using False by (simp add: uartstart.simps [of s] Let_def t_def c_def)
    have "\<not> bit (lcr (uart t)) 7" using 1(2) o(2) by simp
    then have "tx_out (uart (uartstart t)) @ tx_pending (uartstart t) = tx_out (uart t) @ tx_pending t \<and>
       length (tx_pending (uartstart t)) \<le> length (tx_pending t) \<and> lcr (uart (uartstart t)) = lcr (uart t) \<and>
       panicked (uartstart t) = panicked t \<and> (tx_pending (uartstart t) = [] \<or> tx_room (uart (uartstart t)) = 0)"
      unfolding t_def c_def using False by (intro 1(1) [OF _ _ refl refl refl]) simp_all
    then show ?thesis unfolding st by (simp add: p o)
  qed
qed

lemma uartputc_queues:
  assumes "uart_inv s"
  shows "if length (tx_pending s) = UART_TX_BUF_SIZE then uartputc c s = Inr (False, s)
    else \<exists>s'. uartputc c s = Inr (True, s') \<and> uart_inv s' \<and> tx_out (uart s') @ tx_pending s' = tx_out (uart s) @ tx_pending s @ [c]"
proof -
  have inv: "\<not> panicked s" "\<not> bit (lcr (uart s)) 7" "unat (uart_tx_w s - uart_tx_r s) \<le> UART_TX_BUF_SIZE"
    using assms by (simp_all add: uart_inv_def tx_pending_def)
  note full = uring.ring_full_iff [OF inv(3)]
  show ?thesis
  proof (cases "unat (uart_tx_w s - uart_tx_r s) = UART_TX_BUF_SIZE")
    case True
    then show ?thesis using full inv(1) by (simp add: uartputc_def tx_pending_def)
  next
    case False
    define t where "t = s\<lparr>uart_tx_buf := (uart_tx_buf s)(unat (uart_tx_w s) mod UART_TX_BUF_SIZE := c), uart_tx_w := uart_tx_w s + 1\<rparr>"
    have lt: "unat (uart_tx_w s - uart_tx_r s) < UART_TX_BUF_SIZE" using False inv(3) by simp
    have p: "tx_pending t = tx_pending s @ [c]"
      using uring.ring_put [OF lt, of "uart_tx_buf s" c] by (simp add: tx_pending_def t_def)
    have u: "uartputc c s = Inr (True, uartstart t)" using full False inv(1) by (simp add: uartputc_def Let_def t_def)
    have t: "uart t = uart s" "panicked t = panicked s" by (simp_all add: t_def)
    have "length (tx_pending t) \<le> UART_TX_BUF_SIZE" using lt by (simp add: p) (simp add: tx_pending_def)
    then show ?thesis using uartstart_sends [of t] inv u False p by (simp add: uart_inv_def t)
  qed
qed

text \<open>
  Processes that queue bytes, the interrupt handler that sends them, and the device that makes room, in any order; the
  list collects the bytes queued.
\<close>

inductive uart_run :: "'a kdev_scheme \<Rightarrow> u8 list \<Rightarrow> 'a kdev_scheme \<Rightarrow> bool" where
  start: "uart_run s [] s"
| put: "uart_run s cs t \<Longrightarrow> uartputc c t = Inr (sent, s') \<Longrightarrow> uart_run s (if sent then cs @ [c] else cs) s'"
| intr: "uart_run s cs t \<Longrightarrow> uart_run s cs (uartstart t)"
| room: "uart_run s cs t \<Longrightarrow> uart_run s cs (t\<lparr>uart := (uart t)\<lparr>tx_room := n\<rparr>\<rparr>)"

lemma tx_pending_uart [simp]: "tx_pending (t\<lparr>uart := u\<rparr>) = tx_pending t"
  by (simp add: tx_pending_def)

lemma uart_run_queue:
  "uart_run s cs s' \<Longrightarrow> uart_inv s \<Longrightarrow>
   uart_inv s' \<and> tx_out (uart s') @ tx_pending s' = tx_out (uart s) @ tx_pending s @ cs"
proof (induction rule: uart_run.induct)
  case (put s cs t c sent s')
  then show ?case using uartputc_queues [of t c] by (auto split: if_splits)
next
  case (intr s cs t)
  then show ?case using uartstart_sends [of t] by (auto simp: uart_inv_def)
next
  case (room s cs t n)
  then show ?case by (simp add: uart_inv_def)
qed simp

text \<open>
  C27. Console output is a bounded FIFO: however writers, interrupts and the device interleave, the bytes given to the
  device followed by those in the buffer are exactly the bytes queued, in order, and at most 32 of them wait.
\<close>

theorem uart_output_fifo:
  assumes "uart_run s cs s'" and "uart_inv s" and "tx_out (uart s) = []" and "uart_tx_r s = uart_tx_w s"
  shows "tx_out (uart s') @ tx_pending s' = cs \<and> length (tx_pending s') \<le> UART_TX_BUF_SIZE"
  using uart_run_queue [OF assms(1,2)] assms(3,4) by (simp add: uart_inv_def tx_pending_def)

definition booted_dev :: "kdev" where
  "booted_dev = consoleinit (booted_cache (\<lambda>_ _. 0) \<lparr>log = \<lparr>lstart = 2, lsize = 30, outstanding = 0, committing = False,
       ldev = ROOTDEV, lh = \<lparr>hn = 0, hblock = (\<lambda>_. 0)\<rparr>\<rparr>,
     fsb = \<lparr>magic = 0, sbsize = 0, nblocks = 0, ninodes = 0, nlog = 0, logstart = 0, inodestart = 0, bmapstart = 0\<rparr>,
     itable = (\<lambda>_. \<lparr>idev = 0, inum = 0, iref = 0, ilk = initsleeplock, ivalid = False, itype = 0, imajor = 0, iminor = 0, inlink = 0,
       isize = 0, iaddrs = (\<lambda>_. 0)\<rparr>),
     uart = \<lparr>ier = 0, lcr = 0, fcr = 0, divisor_lo = 0, divisor_hi = 0, tx_room = 1, tx_out = [], rx_in = []\<rparr>,
     uart_tx_buf = (\<lambda>_. 0), uart_tx_w = 0, uart_tx_r = 0, panicked = False,
     cons = \<lparr>cbuf = (\<lambda>_. 0), cr = 0, cw = 0, ce = 0\<rparr>, devsw = Map.empty\<rparr>)"

lemma kdev_more:
  assumes "bcache.more s = \<lparr>log = l, fsb = b, itable = t, uart = u, uart_tx_buf = tb, uart_tx_w = w, uart_tx_r = r,
    panicked = p, cons = c, devsw = d\<rparr>"
  shows "log s = l" "fsb s = b" "itable s = t" "uart s = u" "uart_tx_buf s = tb" "uart_tx_w s = w" "uart_tx_r s = r"
    "panicked s = p" "cons s = c" "devsw s = d"
  using assms by (cases s; simp)+

lemma booted_dev_sel:
  "uart booted_dev = \<lparr>ier = 3, lcr = 3, fcr = 7, divisor_lo = 3, divisor_hi = 0, tx_room = 1, tx_out = [], rx_in = []\<rparr>"
  "uart_tx_w booted_dev = 0" "uart_tx_r booted_dev = 0" "\<not> panicked booted_dev"
  "cons booted_dev = \<lparr>cbuf = (\<lambda>_. 0), cr = 0, cw = 0, ce = 0\<rparr>" "devsw booted_dev = [CONSOLE \<mapsto> ConsoleDriver]"
  unfolding booted_dev_def consoleinit_def uartinit_def Let_def
  by (simp_all add: kdev_more [OF booted_cache_ok(7)] WriteReg_def)

theorem uart_output_fifo_witness:
  "\<exists>s'. uartputc 72 booted_dev = Inr (True, s') \<and> tx_out (uart s') @ tx_pending s' = [72]"
proof -
  have inv: "uart_inv booted_dev" by (simp add: uart_inv_def booted_dev_sel tx_pending_def)
  obtain s' where s': "uartputc 72 booted_dev = Inr (True, s')"
    using uartputc_queues [OF inv, of 72] by (auto simp: tx_pending_def booted_dev_sel)
  have "uart_run booted_dev (if True then [] @ [72] else []) s'" by (rule put [OF start s'])
  from uart_output_fifo [OF this inv] s' show ?thesis by (simp add: booted_dev_sel)
qed

section \<open>The line editor\<close>

text \<open>What \<open>read\<close> may take, and the line being typed.\<close>

definition cons_lines :: "cons_st \<Rightarrow> u8 list \<times> u8 list" where
  "cons_lines c = (let xs = ring_list (cbuf c) INPUT_BUF_SIZE (cr c) (ce c); k = unat (cw c - cr c) in (take k xs, drop k xs))"

definition cons_inv :: "cons_st \<Rightarrow> bool" where
  "cons_inv c \<longleftrightarrow> unat (cw c - cr c) \<le> unat (ce c - cr c) \<and> unat (ce c - cr c) \<le> INPUT_BUF_SIZE \<and> 10 \<notin> set (snd (cons_lines c))"

text \<open>What a typed character does.\<close>

definition line_edit :: "int \<Rightarrow> u8 list \<times> u8 list \<Rightarrow> u8 list \<times> u8 list" where
  "line_edit c = (\<lambda>(ready, line).
     if c = ctrl_P then (ready, line)
     else if c = ctrl_U then (ready, [])
     else if c = ctrl_H \<or> c = 0x7f then (ready, butlast line)
     else if c \<noteq> 0 \<and> length ready + length line < INPUT_BUF_SIZE then
       let c = (if c = 13 then newline else c); line = line @ [word_of_int c] in
       if c = newline \<or> c = ctrl_D \<or> length ready + length line = INPUT_BUF_SIZE then (ready @ line, []) else (ready, line)
     else (ready, line))"

lemma consputc_ok: "\<not> panicked s \<Longrightarrow> \<exists>s'. consputc c s = Inr s' \<and> cons s' = cons s \<and> \<not> panicked s'"
  by (auto simp: consputc_def uartputc_sync_def)

lemma cons_at_end:
  assumes "cons_inv c"
  shows "ce c = cw c \<longleftrightarrow> snd (cons_lines c) = []" "length (fst (cons_lines c)) = unat (cw c - cr c)"
    "length (fst (cons_lines c)) + length (snd (cons_lines c)) = unat (ce c - cr c)"
proof -
  have i: "unat (cw c - cr c) \<le> unat (ce c - cr c)" using assms by (simp add: cons_inv_def)
  then show "length (fst (cons_lines c)) = unat (cw c - cr c)"
    "length (fst (cons_lines c)) + length (snd (cons_lines c)) = unat (ce c - cr c)"
    by (simp_all add: cons_lines_def Let_def)
  have "ce c = cw c \<longleftrightarrow> unat (ce c - cr c) = unat (cw c - cr c)" by (metis diff_left_imp_eq diff_add_cancel unsigned_word_eqI)
  then show "ce c = cw c \<longleftrightarrow> snd (cons_lines c) = []" using i by (auto simp: cons_lines_def Let_def)
qed

lemma cons_back:
  assumes inv: "cons_inv c" and ne: "ce c \<noteq> cw c"
  shows "cons_inv (c\<lparr>ce := ce c - 1\<rparr>)" "cons_lines (c\<lparr>ce := ce c - 1\<rparr>) = (fst (cons_lines c), butlast (snd (cons_lines c)))"
    "cbuf c (unat (ce c - 1) mod INPUT_BUF_SIZE) = last (snd (cons_lines c))"
proof -
  let ?k = "unat (cw c - cr c)" and ?xs = "ring_list (cbuf c) INPUT_BUF_SIZE (cr c) (ce c)"
  have line: "snd (cons_lines c) \<noteq> []" using cons_at_end(1) [OF inv] ne by simp
  then have k: "?k < length ?xs" by (simp add: cons_lines_def Let_def)
  then have re: "cr c \<noteq> ce c" by auto
  note u = ring_unput [OF re]
  show e: "cons_lines (c\<lparr>ce := ce c - 1\<rparr>) = (fst (cons_lines c), butlast (snd (cons_lines c)))"
    using k by (simp add: cons_lines_def Let_def u(1) take_butlast drop_butlast)
  have "unat (ce c - 1 - cr c) = unat (ce c - cr c) - 1" by (rule u(3))
  moreover have "10 \<notin> set (butlast (snd (cons_lines c)))" using inv in_set_butlastD by (fastforce simp: cons_inv_def)
  ultimately show "cons_inv (c\<lparr>ce := ce c - 1\<rparr>)" using inv k unfolding cons_inv_def e by (simp, linarith)
  show "cbuf c (unat (ce c - 1) mod INPUT_BUF_SIZE) = last (snd (cons_lines c))"
    using k by (simp add: cons_lines_def Let_def last_drop u(2))
qed

lemma kill_line_ok:
  "cons_inv (cons s) \<Longrightarrow> \<not> panicked s \<Longrightarrow>
   \<exists>s'. kill_line s = Inr s' \<and> \<not> panicked s' \<and> cons_inv (cons s') \<and> cons_lines (cons s') = (fst (cons_lines (cons s)), [])"
proof (induction s rule: kill_line.induct)
  case (1 s)
  note inv = 1(2)
  show ?case
  proof (cases "ce (cons s) = cw (cons s)")
    case True
    then have "kill_line s = Inr s" by (simp add: kill_line.simps [of s])
    then show ?thesis using inv cons_at_end(1) [OF inv] True 1(3) by (metis prod.collapse)
  next
    case False
    note b = cons_back [OF inv False]
    let ?t = "s\<lparr>cons := (cons s)\<lparr>ce := ce (cons s) - 1\<rparr>\<rparr>"
    have "snd (cons_lines (cons s)) \<noteq> []" using cons_at_end(1) [OF inv] False by simp
    then have "last (snd (cons_lines (cons s))) \<noteq> 10" using inv last_in_set by (fastforce simp: cons_inv_def)
    then have c: "ce (cons s) \<noteq> cw (cons s) \<and> cbuf (cons s) (unat (ce (cons s) - 1) mod INPUT_BUF_SIZE) \<noteq> 10" using False b(3) by simp
    obtain t where t: "consputc BACKSPACE ?t = Inr t" "cons t = (cons s)\<lparr>ce := ce (cons s) - 1\<rparr>" "\<not> panicked t"
      using consputc_ok [of ?t BACKSPACE] 1(3) by auto
    have "kill_line s = kill_line t" unfolding kill_line.simps [of s] using c t(1) by simp
    then show ?thesis using 1(1) [OF c t(1)] b(1,2) t(2,3) by simp
  qed
qed

lemma cons_put:
  assumes inv: "cons_inv c" and room: "unat (ce c - cr c) < INPUT_BUF_SIZE"
    and d: "d = c\<lparr>cbuf := (cbuf c)(unat (ce c) mod INPUT_BUF_SIZE := x), ce := ce c + 1\<rparr>"
  shows "cons_lines d = (fst (cons_lines c), snd (cons_lines c) @ [x])" "unat (ce d - cr d) = Suc (unat (ce c - cr c))"
    "x \<noteq> 10 \<Longrightarrow> cons_inv d" "cons_inv (d\<lparr>cw := ce d\<rparr>)"
    "cons_lines (d\<lparr>cw := ce d\<rparr>) = (fst (cons_lines c) @ snd (cons_lines c) @ [x], [])"
proof -
  have p: "ring_list (cbuf d) INPUT_BUF_SIZE (cr d) (ce d) = ring_list (cbuf c) INPUT_BUF_SIZE (cr c) (ce c) @ [x]"
    using cring.ring_put [OF room, of "cbuf c" x] by (simp add: d)
  have k: "unat (cw c - cr c) \<le> unat (ce c - cr c)" using inv by (simp add: cons_inv_def)
  show l: "cons_lines d = (fst (cons_lines c), snd (cons_lines c) @ [x])"
    unfolding cons_lines_def Let_def p using k by (simp add: d)
  show n: "unat (ce d - cr d) = Suc (unat (ce c - cr c))" using arg_cong [OF p, of length] by simp
  show "x \<noteq> 10 \<Longrightarrow> cons_inv d" using inv n room k unfolding cons_inv_def l by (simp add: d)
  have "cons_lines (d\<lparr>cw := ce d\<rparr>) = (ring_list (cbuf d) INPUT_BUF_SIZE (cr d) (ce d), [])" by (simp add: cons_lines_def Let_def)
  moreover have "fst (cons_lines c) @ snd (cons_lines c) = ring_list (cbuf c) INPUT_BUF_SIZE (cr c) (ce c)"
    by (simp add: cons_lines_def Let_def)
  ultimately show m: "cons_lines (d\<lparr>cw := ce d\<rparr>) = (fst (cons_lines c) @ snd (cons_lines c) @ [x], [])"
    using p by simp
  show "cons_inv (d\<lparr>cw := ce d\<rparr>)" unfolding cons_inv_def m using n room by simp
qed

text \<open>
  C28. The console's interrupt handler is a line editor: a typed character changes the pair of the input that is ready
  and the line being typed exactly as its specification says (append, erase, kill the line, hand the line over at a
  newline, at control-D or when the buffer is full), with all indices counted modulo \<open>2^32\<close>.
\<close>

theorem consoleintr_edits:
  assumes inv: "cons_inv (cons s)" and np: "\<not> panicked s" and c: "0 \<le> c" "c < 256"
  shows "\<exists>s'. consoleintr c s = Inr s' \<and> \<not> panicked s' \<and> cons_inv (cons s') \<and> cons_lines (cons s') = line_edit c (cons_lines (cons s))"
proof -
  obtain ready line where rl: "cons_lines (cons s) = (ready, line)" by force
  note e = cons_at_end [OF inv, unfolded rl fst_conv snd_conv]
  consider "c = ctrl_P" | "c = ctrl_U" | "c = ctrl_H \<or> c = 0x7f" | "c \<noteq> ctrl_P" "c \<noteq> ctrl_U" "c \<noteq> ctrl_H" "c \<noteq> 0x7f" by blast
  then show ?thesis
  proof cases
    case 1
    then show ?thesis using inv np by (simp add: consoleintr_def line_edit_def rl)
  next
    case 2
    then show ?thesis using kill_line_ok [OF inv np] by (simp add: consoleintr_def line_edit_def rl)
  next
    case 3
    show ?thesis
    proof (cases "ce (cons s) = cw (cons s)")
      case True
      then show ?thesis using 3 inv np e(1) by (auto simp: consoleintr_def line_edit_def rl)
    next
      case False
      then show ?thesis
        using 3 cons_back [OF inv False] consputc_ok [of "s\<lparr>cons := (cons s)\<lparr>ce := ce (cons s) - 1\<rparr>\<rparr>" BACKSPACE] np
        by (auto simp: consoleintr_def line_edit_def rl)
    qed
  next
    case 4
    have room: "ce (cons s) - cr (cons s) < of_nat INPUT_BUF_SIZE \<longleftrightarrow> length ready + length line < INPUT_BUF_SIZE"
      using e(3) by (simp add: word_less_nat_alt)
    show ?thesis
    proof (cases "c \<noteq> 0 \<and> length ready + length line < INPUT_BUF_SIZE")
      case False
      then show ?thesis using 4 inv np room by (auto simp: consoleintr_def line_edit_def rl)
    next
      case True
      define c' where "c' = (if c = 13 then newline else c)"
      have c': "word_of_int c' = (10 :: u8) \<longleftrightarrow> c' = newline"
      proof -
        have "uint (word_of_int c' :: u8) = c'" using c by (simp add: c'_def uint_word_of_int)
        moreover have "uint (10 :: u8) = 10" by simp
        ultimately show ?thesis by (auto dest: arg_cong [of _ _ uint])
      qed
      obtain t where t: "consputc c' s = Inr t" "cons t = cons s" "\<not> panicked t" using consputc_ok [OF np] by blast
      define d where "d = (cons s)\<lparr>cbuf := (cbuf (cons s))(unat (ce (cons s)) mod INPUT_BUF_SIZE := word_of_int c'), ce := ce (cons s) + 1\<rparr>"
      have lt: "unat (ce (cons s) - cr (cons s)) < INPUT_BUF_SIZE" using True e(3) by simp
      note p = cons_put [OF inv lt d_def, unfolded rl fst_conv snd_conv]
      have full: "ce d - cr d = of_nat INPUT_BUF_SIZE \<longleftrightarrow> length ready + length line + 1 = INPUT_BUF_SIZE"
        using p(2) e(3) by (simp add: word_unat_eq_iff)
      have r: "consoleintr c s = (if c' = newline \<or> c' = ctrl_D \<or> ce d - cr d = of_nat INPUT_BUF_SIZE
        then Inr (wakeup ChanCons (t\<lparr>cons := d\<lparr>cw := ce d\<rparr>\<rparr>)) else Inr (t\<lparr>cons := d\<rparr>))"
        using 4 True room t by (simp add: consoleintr_def Let_def c'_def d_def)
      have le: "line_edit c (ready, line) = (if c' = newline \<or> c' = ctrl_D \<or> length ready + length line + 1 = INPUT_BUF_SIZE
        then (ready @ line @ [word_of_int c'], []) else (ready, line @ [word_of_int c']))"
        using 4 True by (simp add: line_edit_def Let_def c'_def)
      show ?thesis
        unfolding r rl le full using p c' t(3) by auto
    qed
  qed
qed

theorem consoleintr_edits_witness:
  "\<exists>s1 s2 s3. consoleintr 97 booted_dev = Inr s1 \<and> consoleintr 98 s1 = Inr s2 \<and> consoleintr ctrl_H s2 = Inr s3 \<and>
     cons_lines (cons s3) = ([], [97])"
proof -
  have inv: "cons_inv (cons booted_dev)" "cons_lines (cons booted_dev) = ([], [])"
    by (simp_all add: booted_dev_sel cons_inv_def cons_lines_def)
  obtain s1 where s1: "consoleintr 97 booted_dev = Inr s1" "\<not> panicked s1" "cons_inv (cons s1)" "cons_lines (cons s1) = line_edit 97 ([], [])"
    using consoleintr_edits [OF inv(1) booted_dev_sel(4), of 97] unfolding inv(2) by auto
  obtain s2 where s2: "consoleintr 98 s1 = Inr s2" "\<not> panicked s2" "cons_inv (cons s2)" "cons_lines (cons s2) = line_edit 98 (cons_lines (cons s1))"
    using consoleintr_edits [OF s1(3,2), of 98] by auto
  obtain s3 where s3: "consoleintr ctrl_H s2 = Inr s3" "cons_lines (cons s3) = line_edit ctrl_H (cons_lines (cons s2))"
    using consoleintr_edits [OF s2(3,2), of ctrl_H] by auto
  have "cons_lines (cons s3) = ([], [97])" unfolding s3(2) s2(4) s1(4) by (simp add: line_edit_def Let_def)
  then show ?thesis using s1(1) s2(1) s3(1) by blast
qed

end
