(* ===== verification/File.thy ===== *)
theory File
  imports Console
begin

text \<open>
  The file table (\<open>file.c\<close>) and pipes (\<open>pipe.c\<close>). A pointer to a \<open>struct file\<close> is its index in the table. A pipe lives
  in a page of its own from the page allocator; the page's address names it, and its fields are kept in a table by that
  address.
\<close>

section \<open>State\<close>

abbreviation NFILE :: nat where "NFILE \<equiv> 100"
abbreviation NDEV :: int where "NDEV \<equiv> 10"
abbreviation PIPESIZE :: nat where "PIPESIZE \<equiv> 512"

datatype fdtype = FD_NONE | FD_PIPE | FD_INODE | FD_DEVICE

record file_st =
  ftype :: fdtype
  fref :: int
  readable :: bool
  writable :: bool
  fpipe :: u64
  fip :: nat
  foff :: nat
  fmajor :: int

record pipe =
  pdata :: "nat \<Rightarrow> u8"
  nread :: u32
  nwrite :: u32
  readopen :: bool
  writeopen :: bool

record kfile = kdev +
  ftable :: "nat \<Rightarrow> file_st"
  pipes :: "u64 \<Rightarrow> pipe"

definition upd_file :: "nat \<Rightarrow> (file_st \<Rightarrow> file_st) \<Rightarrow> 'a kfile_scheme \<Rightarrow> 'a kfile_scheme" where
  "upd_file f g s = s\<lparr>ftable := (ftable s)(f := g (ftable s f))\<rparr>"

definition upd_pipe :: "u64 \<Rightarrow> (pipe \<Rightarrow> pipe) \<Rightarrow> 'a kfile_scheme \<Rightarrow> 'a kfile_scheme" where
  "upd_pipe pi g s = s\<lparr>pipes := (pipes s)(pi := g (pipes s pi))\<rparr>"

section \<open>File table\<close>

definition filealloc :: "'a kfile_scheme \<Rightarrow> nat option \<times> 'a kfile_scheme" where
  "filealloc s =
     (case find (\<lambda>f. fref (ftable s f) = 0) [0..<NFILE] of
        Some f \<Rightarrow> (Some f, upd_file f (\<lambda>x. x\<lparr>fref := 1\<rparr>) s)
      | None \<Rightarrow> (None, s))"

definition filedup :: "nat \<Rightarrow> 'a kfile_scheme \<Rightarrow> (nat \<times> 'a kfile_scheme) kres" where
  "filedup f s =
     (if fref (ftable s f) < 1 then Inl (Panic ''filedup'')
      else Inr (f, upd_file f (\<lambda>x. x\<lparr>fref := fref x + 1\<rparr>) s))"

definition pipeclose :: "u64 \<Rightarrow> bool \<Rightarrow> 'a kfile_scheme \<Rightarrow> 'a kfile_scheme kres" where
  "pipeclose pi w s =
     (let s = (if w then wakeup (ChanPipeRead pi) (upd_pipe pi (\<lambda>p. p\<lparr>writeopen := False\<rparr>) s)
               else wakeup (ChanPipeWrite pi) (upd_pipe pi (\<lambda>p. p\<lparr>readopen := False\<rparr>) s))
      in if \<not> readopen (pipes s pi) \<and> \<not> writeopen (pipes s pi) then kfree s pi else Inr s)"

definition fileclose :: "nat \<Rightarrow> 'a kfile_scheme \<Rightarrow> 'a kfile_scheme kres" where
  "fileclose f s =
     (if fref (ftable s f) < 1 then Inl (Panic ''fileclose'')
      else
        let s = upd_file f (\<lambda>x. x\<lparr>fref := fref x - 1\<rparr>) s in
        if fref (ftable s f) > 0 then Inr s
        else
          let ff = ftable s f;
              s = upd_file f (\<lambda>x. x\<lparr>fref := 0, ftype := FD_NONE\<rparr>) s
          in
          if ftype ff = FD_PIPE then pipeclose (fpipe ff) (writable ff) s
          else if ftype ff = FD_INODE \<or> ftype ff = FD_DEVICE
          then kbind (begin_op s) (\<lambda>s. kbind (iput (fip ff) s) (\<lambda>s. end_op s))
          else Inr s)"

section \<open>Pipes\<close>

definition pipealloc :: "'a kfile_scheme \<Rightarrow> (int \<times> nat option \<times> nat option \<times> 'a kfile_scheme) kres" where
  "pipealloc s =
     (let bad = (\<lambda>f0 f1 s.
            kbind (case f0 of None \<Rightarrow> Inr s | Some f \<Rightarrow> fileclose f s) (\<lambda>s.
            kbind (case f1 of None \<Rightarrow> Inr s | Some f \<Rightarrow> fileclose f s) (\<lambda>s.
            Inr (-1, f0, f1, s))));
          (f0, s) = filealloc s
      in
      case f0 of None \<Rightarrow> bad None None s
      | Some r \<Rightarrow>
          let (f1, s) = filealloc s in
          case f1 of None \<Rightarrow> bad f0 None s
          | Some w \<Rightarrow>
              kbind (kalloc s) (\<lambda>(pi, s).
              if pi = 0 then bad f0 f1 s
              else
                let s = upd_pipe pi (\<lambda>p. p\<lparr>readopen := True, writeopen := True, nwrite := 0, nread := 0\<rparr>) s;
                    s = upd_file r (\<lambda>x. x\<lparr>ftype := FD_PIPE, readable := True, writable := False, fpipe := pi\<rparr>) s;
                    s = upd_file w (\<lambda>x. x\<lparr>ftype := FD_PIPE, readable := False, writable := True, fpipe := pi\<rparr>) s
                in Inr (0, f0, f1, s)))"

text \<open>\<open>pipewrite\<close> from byte \<open>i\<close> on; blocked on a full pipe.\<close>

function pipewrite :: "u64 \<Rightarrow> u64 \<Rightarrow> int \<Rightarrow> int \<Rightarrow> 'a kfile_scheme \<Rightarrow> (outcome \<times> 'a kfile_scheme) kres" where
  "pipewrite pi addr n i s =
     kbind (curproc s) (\<lambda>pr.
     if i < n then
       if \<not> readopen (pipes s pi) \<or> killed pr s \<noteq> 0 then Inr (Done (-1), s)
       else if nwrite (pipes s pi) = nread (pipes s pi) + of_nat PIPESIZE
       then Inr (Blocked (ChanPipeWrite pi) i, wakeup (ChanPipeRead pi) s)
       else
         kbind (copyin s (pagetable (procs s ! pr)) (addr + word_of_int i) 1) (\<lambda>(r, bs).
         if r = -1 then Inr (Done i, wakeup (ChanPipeRead pi) s)
         else
           let s = upd_pipe pi (\<lambda>p. p\<lparr>pdata := (pdata p)(unat (nwrite p) mod PIPESIZE := hd bs), nwrite := nwrite p + 1\<rparr>) s
           in pipewrite pi addr n (i + 1) s)
     else Inr (Done i, wakeup (ChanPipeRead pi) s))"
  by pat_completeness auto
termination by (relation "measure (\<lambda>(pi, addr, n, i, s). nat (n - i))") auto

declare pipewrite.simps [simp del]

function piperead_loop :: "u64 \<Rightarrow> u64 \<Rightarrow> nat \<Rightarrow> int \<Rightarrow> int \<Rightarrow> 'a kfile_scheme \<Rightarrow> (int \<times> 'a kfile_scheme) kres" where
  "piperead_loop pi addr pr n i s =
     (if i < n then
        if nread (pipes s pi) = nwrite (pipes s pi) then Inr (i, s)
        else
          let ch = pdata (pipes s pi) (unat (nread (pipes s pi)) mod PIPESIZE);
              s = upd_pipe pi (\<lambda>p. p\<lparr>nread := nread p + 1\<rparr>) s
          in kbind (copyout s (pagetable (procs s ! pr)) (addr + word_of_int i) [ch]) (\<lambda>(r, s).
             if r = -1 then Inr (i, s) else piperead_loop pi addr pr n (i + 1) s)
      else Inr (i, s))"
  by pat_completeness auto
termination by (relation "measure (\<lambda>(pi, addr, pr, n, i, s). nat (n - i))") auto

declare piperead_loop.simps [simp del]

definition piperead :: "u64 \<Rightarrow> u64 \<Rightarrow> int \<Rightarrow> 'a kfile_scheme \<Rightarrow> (outcome \<times> 'a kfile_scheme) kres" where
  "piperead pi addr n s =
     kbind (curproc s) (\<lambda>pr.
     if nread (pipes s pi) = nwrite (pipes s pi) \<and> writeopen (pipes s pi) then
       if killed pr s \<noteq> 0 then Inr (Done (-1), s) else Inr (Blocked (ChanPipeRead pi) 0, s)
     else
       kbind (piperead_loop pi addr pr n 0 s) (\<lambda>(i, s).
       Inr (Done i, wakeup (ChanPipeWrite pi) s)))"

section \<open>Reading and writing files\<close>

text \<open>The bytes of a \<open>struct stat\<close>; those of the padding before \<open>size\<close> are whatever the kernel's stack had.\<close>

definition le_bytes :: "nat \<Rightarrow> nat \<Rightarrow> u8 list" where
  "le_bytes k v = map (\<lambda>i. of_nat (v div 256 ^ i)) [0..<k]"

definition stat_bytes :: "u8 list \<Rightarrow> stat \<Rightarrow> u8 list" where
  "stat_bytes pad st = le_bytes 4 (st_dev st) @ le_bytes 4 (st_ino st) @ le_bytes 2 (of_short (st_type st)) @
     le_bytes 2 (of_short (st_nlink st)) @ take 4 (pad @ replicate 4 0) @ le_bytes 8 (st_size st)"

definition filestat :: "u8 list \<Rightarrow> nat \<Rightarrow> u64 \<Rightarrow> 'a kfile_scheme \<Rightarrow> (int \<times> 'a kfile_scheme) kres" where
  "filestat pad f addr s =
     kbind (curproc s) (\<lambda>p.
     let x = ftable s f in
     if ftype x = FD_INODE \<or> ftype x = FD_DEVICE then
       kbind (ilock (fip x) s) (\<lambda>s.
       let st = stati (fip x) s in
       kbind (iunlock (fip x) s) (\<lambda>s.
       kbind (copyout s (pagetable (procs s ! p)) addr (stat_bytes pad st)) (\<lambda>(r, s).
       if r < 0 then Inr (-1, s) else Inr (0, s))))
     else Inr (-1, s))"

definition fileread :: "nat \<Rightarrow> u64 \<Rightarrow> int \<Rightarrow> 'a kfile_scheme \<Rightarrow> (outcome \<times> 'a kfile_scheme) kres" where
  "fileread f addr n s =
     (let x = ftable s f in
      if \<not> readable x then Inr (Done (-1), s)
      else
        case ftype x of
          FD_PIPE \<Rightarrow> piperead (fpipe x) addr n s
        | FD_DEVICE \<Rightarrow>
            if fmajor x < 0 \<or> fmajor x \<ge> NDEV then Inr (Done (-1), s)
            else (case devsw s (nat (fmajor x)) of
                    None \<Rightarrow> Inr (Done (-1), s)
                  | Some ConsoleDriver \<Rightarrow> kbind (consoleread (User addr) n n s) (\<lambda>(r, dst, s). Inr (r, s)))
        | FD_INODE \<Rightarrow>
            kbind (ilock (fip x) s) (\<lambda>s.
            kbind (readi (fip x) (User addr) (foff (ftable s f)) (of_int32 n) s) (\<lambda>(r, dst, s).
            let s = (if r > 0 then upd_file f (\<lambda>y. y\<lparr>foff := (foff y + nat r) mod 4294967296\<rparr>) s else s) in
            kbind (iunlock (fip x) s) (\<lambda>s.
            Inr (Done r, s))))
        | FD_NONE \<Rightarrow> Inl (Panic ''fileread''))"

text \<open>\<open>max\<close> of \<open>filewrite\<close>: \<open>((MAXOPBLOCKS-1-1-2) / 2) * BSIZE\<close>.\<close>

abbreviation max_write :: int where "max_write \<equiv> 3072"

function filewrite_loop :: "nat \<Rightarrow> nat \<Rightarrow> u64 \<Rightarrow> int \<Rightarrow> int \<Rightarrow> 'a kfile_scheme \<Rightarrow> (int \<times> 'a kfile_scheme) kres" where
  "filewrite_loop f ip addr n i s =
     (if i < n then
        let n1 = min (n - i) max_write in
        kbind (begin_op s) (\<lambda>s.
        kbind (ilock ip s) (\<lambda>s.
        kbind (writei ip (User (addr + word_of_int i)) (foff (ftable s f)) (nat n1) s) (\<lambda>(r, s).
        let s = (if r > 0 then upd_file f (\<lambda>y. y\<lparr>foff := (foff y + nat r) mod 4294967296\<rparr>) s else s) in
        kbind (iunlock ip s) (\<lambda>s.
        kbind (end_op s) (\<lambda>s.
        if r \<noteq> n1 then Inr (i, s) else filewrite_loop f ip addr n (i + r) s)))))
      else Inr (i, s))"
  by pat_completeness auto
termination by (relation "measure (\<lambda>(f, ip, addr, n, i, s). nat (n - i))") auto

declare filewrite_loop.simps [simp del]

definition filewrite :: "nat \<Rightarrow> u64 \<Rightarrow> int \<Rightarrow> 'a kfile_scheme \<Rightarrow> (outcome \<times> 'a kfile_scheme) kres" where
  "filewrite f addr n s =
     (let x = ftable s f in
      if \<not> writable x then Inr (Done (-1), s)
      else
        case ftype x of
          FD_PIPE \<Rightarrow> pipewrite (fpipe x) addr n 0 s
        | FD_DEVICE \<Rightarrow>
            if fmajor x < 0 \<or> fmajor x \<ge> NDEV then Inr (Done (-1), s)
            else (case devsw s (nat (fmajor x)) of
                    None \<Rightarrow> Inr (Done (-1), s)
                  | Some ConsoleDriver \<Rightarrow> consolewrite (User addr) n 0 s)
        | FD_INODE \<Rightarrow>
            kbind (filewrite_loop f (fip x) addr n 0 s) (\<lambda>(i, s).
            Inr (Done (if i = n then n else -1), s))
        | FD_NONE \<Rightarrow> Inl (Panic ''filewrite''))"

end
