(* ===== verification/Vmkeep.thy ===== *)
theory Vmkeep
  imports Vm
begin

text \<open>
  What the memory management code leaves alone: everything in the state beyond the memory, the free list and the
  reference counts. The components that keep their own tables beside the memory rely on these facts. And reading user
  memory depends on nothing but the contents of the memory.
\<close>

section \<open>The rest of the state is kept\<close>

lemma kept_store [simp]:
  fixes s s' :: "'a kmem_scheme"
  shows "store64 s a v = Inr s' \<Longrightarrow> kmem.more s' = kmem.more s"
    "update64 s a f = Inr s' \<Longrightarrow> kmem.more s' = kmem.more s"
    "kmemset s a c n = Inr s' \<Longrightarrow> kmem.more s' = kmem.more s"
    "kmemmove s a b n = Inr s' \<Longrightarrow> kmem.more s' = kmem.more s"
    "kput_bytes s a bs = Inr s' \<Longrightarrow> kmem.more s' = kmem.more s"
  by (auto simp: store64_def update64_def kmemset_def kmemmove_def kput_bytes_def split: if_splits)

lemma kept_kalloc [simp]: "kalloc s = Inr (r, s') \<Longrightarrow> kmem.more s' = kmem.more s"
  by (auto simp: kalloc_def Let_def split: if_splits dest!: kept_store)

lemma kept_kfree [simp]: "kfree s p = Inr s' \<Longrightarrow> kmem.more s' = kmem.more s"
  by (auto simp: kfree_def Let_def split: if_splits dest!: kept_store)

lemma kept_increase [simp]: "increase_refer s p = Inr s' \<Longrightarrow> kmem.more s' = kmem.more s"
  by (auto simp: increase_refer_def split: if_splits)

lemma kept_walk_loop: "walk_loop s pt va alloc l = Inr (r, s') \<Longrightarrow> kmem.more s' = kmem.more s"
proof (induction s pt va alloc l rule: walk_loop.induct)
  case (2 s pt va alloc l)
  let ?pte = "pt + 8 * PX (Suc l) va"
  from 2(3) obtain e where e: "load64 s ?pte = Inr e" by (auto simp: Let_def)
  show ?case
  proof (cases "e AND PTE_V \<noteq> 0 \<or> \<not> alloc")
    case True
    then show ?thesis using 2(1) [OF refl e] 2(3) e by (auto simp: Let_def split: if_splits)
  next
    case False
    then obtain p s1 where k: "kalloc s = Inr (p, s1)" using 2(3) e by (auto simp: Let_def split: if_splits)
    show ?thesis
    proof (cases "p = 0")
      case True
      then show ?thesis using 2(3) e k False by (auto simp: Let_def)
    next
      case np: False
      then obtain s2 s3 where s23: "kmemset s1 p 0 4096 = Inr s2" "store64 s2 ?pte (PA2PTE p OR PTE_V) = Inr s3"
        "walk_loop s3 p va alloc l = Inr (r, s')"
        using 2(3) e k False by (auto simp: Let_def)
      then have "kmem.more s' = kmem.more s3" using 2(2) [OF refl e _ _ k refl np s23(1,2)] False by simp
      then show ?thesis using s23 k by (auto dest!: kept_store kept_kalloc)
    qed
  qed
qed simp

lemma kept_walk [simp]: "walk s pt va alloc = Inr (r, s') \<Longrightarrow> kmem.more s' = kmem.more s"
  by (auto simp: walk_def split: if_splits dest: kept_walk_loop)

lemma kept_mappages_loop: "mappages_loop s pt a l pa perm = Inr (r, s') \<Longrightarrow> kmem.more s' = kmem.more s"
proof (induction s pt a l pa perm rule: mappages_loop.induct)
  case (1 s pt a l pa perm)
  from 1(2) obtain pte s1 where w: "walk s pt a True = Inr (pte, s1)" unfolding mappages_loop.simps [of s] by auto
  show ?case
  proof (cases "pte = 0")
    case True
    then show ?thesis using 1(2) w unfolding mappages_loop.simps [of s] by auto
  next
    case False
    then obtain e s2 where e: "load64 s1 pte = Inr e" "e AND PTE_V = 0" "store64 s1 pte (PA2PTE pa OR perm OR PTE_V) = Inr s2"
      using 1(2) w unfolding mappages_loop.simps [of s] by (auto split: if_splits)
    then have m: "kmem.more s2 = kmem.more s" using w by auto
    show ?thesis
    proof (cases "a = l")
      case True
      then show ?thesis using 1(2) w e False m unfolding mappages_loop.simps [of s] by auto
    next
      case al: False
      then show ?thesis
        using 1(2) w e False m 1(1) [OF w refl False e(1) _ e(3) al] unfolding mappages_loop.simps [of s] by auto
    qed
  qed
qed

lemma kept_mappages [simp]: "mappages s pt va sz pa perm = Inr (r, s') \<Longrightarrow> kmem.more s' = kmem.more s"
  by (auto simp: mappages_def split: if_splits dest: kept_mappages_loop)

lemma kept_cow_alloc [simp]: "cow_alloc s pt va = Inr (r, s') \<Longrightarrow> kmem.more s' = kmem.more s"
  by (auto simp: cow_alloc_def Let_def split: if_splits dest!: kept_walk kept_store kept_kalloc kept_mappages kept_kfree)

lemma kept_copyout [simp]: "copyout s pt va src = Inr (r, s') \<Longrightarrow> kmem.more s' = kmem.more s"
proof (induction s pt va src rule: copyout.induct)
  case (1 s pt va src)
  show ?case
  proof (cases "src = []")
    case True
    then show ?thesis using 1(2) unfolding copyout.simps [of s] by simp
  next
    case False
    from 1(2) False obtain pa0 where w: "walkaddr s pt (PGROUNDDOWN va) = Inr pa0"
      unfolding copyout.simps [of s] by (auto simp: Let_def)
    show ?thesis
    proof (cases "pa0 = 0")
      case True
      then show ?thesis using 1(2) w False unfolding copyout.simps [of s] by (simp add: Let_def)
    next
      case p: False
      from 1(2) False w p obtain cow pa1 s1 where c: "is_cowpage s pt (PGROUNDDOWN va) = Inr cow"
        "(if cow then cow_alloc s pt (PGROUNDDOWN va) else Inr (pa0, s)) = Inr (pa1, s1)"
        unfolding copyout.simps [of s] by (auto simp: Let_def)
      have m: "kmem.more s1 = kmem.more s" using c(2) by (auto split: if_splits)
      show ?thesis
      proof (cases "pa1 = 0")
        case True
        then show ?thesis using 1(2) w False p c m unfolding copyout.simps [of s] by (simp add: Let_def)
      next
        case q: False
        then show ?thesis
          using 1(2) w False p c m 1(1) [OF _ refl w p refl c(1) c(2) refl q] unfolding copyout.simps [of s]
          by (auto simp: Let_def)
      qed
    qed
  qed
qed

section \<open>Reading depends on the memory only\<close>

lemma load64_ram: "ram s' = ram s \<Longrightarrow> load64 s' a = load64 s a"
  by (simp add: load64_def)

lemma walk_loop_ram:
  assumes "ram s' = ram s"
  shows "walk_loop s' pt va False l = kbind (walk_loop s pt va False l) (\<lambda>(p, _). Inr (p, s'))"
proof (induction l arbitrary: pt)
  case (Suc l)
  show ?case
  proof (cases "load64 s (pt + 8 * PX (Suc l) va)")
    case (Inr e)
    then show ?thesis using Suc load64_ram [OF assms] by (simp add: Let_def)
  qed (simp add: Let_def load64_ram [OF assms])
qed simp

lemma walk_read: "walk s pt va False = Inr (p, s1) \<Longrightarrow> s1 = s"
proof -
  have "s1 = s" if "walk_loop s pt va False l = Inr (p, s1)" for pt l
    using that by (induction l arbitrary: pt) (auto simp: Let_def split: if_splits)
  then show "walk s pt va False = Inr (p, s1) \<Longrightarrow> s1 = s" by (auto simp: walk_def split: if_splits)
qed

lemma walkaddr_ram:
  assumes "ram s' = ram s"
  shows "walkaddr s' pt va = walkaddr s pt va"
proof -
  have w: "walk s' pt va False = kbind (walk s pt va False) (\<lambda>(p, _). Inr (p, s'))"
    using walk_loop_ram [OF assms] by (simp add: walk_def)
  show ?thesis
  proof (cases "walk s pt va False")
    case (Inr x)
    then have "walk s pt va False = Inr (fst x, s)" using walk_read [of s pt va "fst x" "snd x"] by (simp add: prod_eq_iff)
    then show ?thesis by (simp add: walkaddr_def w load64_ram [OF assms])
  qed (simp add: walkaddr_def w)
qed

lemma copyin_ram:
  assumes "ram s' = ram s"
  shows "copyin s' pt va n = copyin s pt va n"
proof -
  have "copyin_loop s' dst pt va n = copyin_loop s dst pt va n" for dst
  proof (induction n arbitrary: dst va rule: less_induct)
    case (less n)
    have g: "kget_bytes s' x k = kget_bytes s x k" for x k by (simp add: kget_bytes_def assms)
    let ?v = "PGROUNDDOWN va" and ?k = "min (unat (PGSIZE - (va - PGROUNDDOWN va))) n"
    have ih: "copyin_loop s' d pt (?v + PGSIZE) (n - ?k) = copyin_loop s d pt (?v + PGSIZE) (n - ?k)" if "0 < n" for d
      using that by (intro less.IH) (simp add: page_rest)
    show ?case
    proof (cases "walkaddr s pt ?v")
      case (Inr pa)
      then show ?thesis
        using ih by (cases "kget_bytes s (pa + (va - ?v)) ?k")
          (simp_all add: copyin_loop.simps [of s' dst pt va] copyin_loop.simps [of s dst pt va] walkaddr_ram [OF assms] g Let_def)
    qed (simp add: copyin_loop.simps [of s' dst pt va] copyin_loop.simps [of s dst pt va] walkaddr_ram [OF assms] Let_def)
  qed
  then show ?thesis by (simp add: copyin_def)
qed

text \<open>\<open>copyin\<close> of one byte gives that byte, or fails.\<close>

lemma copyin_byte:
  assumes "copyin s pt va 1 = Inr (r, bs)"
  shows "r = 0 \<and> length bs = 1 \<or> r = -1 \<and> bs = []"
proof -
  have "min (unat (PGSIZE - (va - PGROUNDDOWN va))) 1 = 1" by (simp add: page_rest)
  then show ?thesis
    using assms by (auto simp: copyin_def copyin_loop.simps [of s "[]"] copyin_loop.simps [of s _ _ _ 0] kget_bytes_def Let_def split: if_splits)
qed

end
