(* ===== verification/Pipes.thy ===== *)
theory Pipes
  imports File Vmkeep Isolation
begin

text \<open>
  A pipe (\<open>pipe.c\<close>) is a bounded queue of bytes: writing appends bytes of the writer's memory, reading takes bytes off
  the front and stores them in the reader's memory, and the two counters may wrap around at any time.
\<close>

section \<open>The queue of a pipe\<close>

definition pipe_list :: "pipe \<Rightarrow> u8 list" where
  "pipe_list p = ring_list (pdata p) PIPESIZE (nread p) (nwrite p)"

definition pipe_inv :: "pipe \<Rightarrow> bool" where
  "pipe_inv p \<longleftrightarrow> length (pipe_list p) \<le> PIPESIZE"

interpretation pring: ring_buffer PIPESIZE "TYPE(32)"
  by unfold_locales simp_all

lemma pipe_list_put:
  assumes "pipe_inv p" "nwrite p \<noteq> nread p + of_nat PIPESIZE"
  shows "pipe_list (p\<lparr>pdata := (pdata p)(unat (nwrite p) mod PIPESIZE := c), nwrite := nwrite p + 1\<rparr>) = pipe_list p @ [c]"
    "pipe_inv (p\<lparr>pdata := (pdata p)(unat (nwrite p) mod PIPESIZE := c), nwrite := nwrite p + 1\<rparr>)"
proof -
  have le: "unat (nwrite p - nread p) \<le> PIPESIZE" using assms(1) by (simp add: pipe_inv_def pipe_list_def)
  then have lt: "unat (nwrite p - nread p) < PIPESIZE" using assms(2) pring.ring_full_iff [OF le] by simp
  show a: "pipe_list (p\<lparr>pdata := (pdata p)(unat (nwrite p) mod PIPESIZE := c), nwrite := nwrite p + 1\<rparr>) = pipe_list p @ [c]"
    using pring.ring_put [OF lt] by (simp add: pipe_list_def)
  show "pipe_inv (p\<lparr>pdata := (pdata p)(unat (nwrite p) mod PIPESIZE := c), nwrite := nwrite p + 1\<rparr>)"
    using lt unfolding pipe_inv_def a by (simp add: pipe_list_def)
qed

lemma pipe_list_get:
  assumes "nread p \<noteq> nwrite p"
  shows "pipe_list p = pdata p (unat (nread p) mod PIPESIZE) # pipe_list (p\<lparr>nread := nread p + 1\<rparr>)"
  using pring.ring_get [OF assms] by (simp add: pipe_list_def)

lemma pipe_list_Nil: "pipe_list p = [] \<longleftrightarrow> nread p = nwrite p"
  by (simp add: pipe_list_def ring_list_Nil_iff)

lemma wakeup_file [simp]:
  "pipes (wakeup c s) = pipes s" "ftable (wakeup c s) = ftable s" "ram (wakeup c s) = ram s"
  by (simp_all add: wakeup_def)

lemma upd_pipe_sel [simp]:
  "pipes (upd_pipe pi f s) = (pipes s)(pi := f (pipes s pi))" "ram (upd_pipe pi f s) = ram s" "procs (upd_pipe pi f s) = procs s"
  "curproc (upd_pipe pi f s) = curproc s" "killed p (upd_pipe pi f s) = killed p s"
  by (simp_all add: upd_pipe_def curproc_def myproc_def cpuid_def killed_def)

section \<open>Writing\<close>

lemma pipewrite_appends_bytes:
  assumes "pipewrite pi addr n i s = Inr (out, s')" and "pipe_inv (pipes s pi)" and "curproc s = Inr pr"
  shows "\<exists>bs. pipe_list (pipes s' pi) = pipe_list (pipes s pi) @ bs \<and> pipe_inv (pipes s' pi) \<and> ram s' = ram s \<and>
    (\<forall>j < length bs. copyin s (pagetable (procs s ! pr)) (addr + word_of_int (i + int j)) 1 = Inr (0, [bs ! j])) \<and>
    (out = Done (-1) \<and> (\<not> readopen (pipes s pi) \<or> killed pr s \<noteq> 0) \<or>
     out = Done (i + int (length bs)) \<and> (n \<le> i + int (length bs) \<or>
       (\<exists>b. copyin s (pagetable (procs s ! pr)) (addr + word_of_int (i + int (length bs))) 1 = Inr (-1, b))) \<or>
     out = Blocked (ChanPipeWrite pi) (i + int (length bs)) \<and> i + int (length bs) < n \<and> length (pipe_list (pipes s' pi)) = PIPESIZE)"
  using assms
proof (induction pi addr n i s rule: pipewrite.induct)
  case (1 pi addr n i s)
  let ?p = "pipes s pi" and ?pt = "pagetable (procs s ! pr)"
  note eq = pipewrite.simps [of pi addr n i s]
  consider (all) "\<not> i < n" | (dead) "i < n" "\<not> readopen ?p \<or> killed pr s \<noteq> 0"
    | (full) "i < n" "readopen ?p" "killed pr s = 0" "nwrite ?p = nread ?p + of_nat PIPESIZE"
    | (room) "i < n" "readopen ?p" "killed pr s = 0" "nwrite ?p \<noteq> nread ?p + of_nat PIPESIZE"
    by blast
  then show ?case
  proof cases
    case all
    then show ?thesis using 1(2-4) unfolding eq by (intro exI [of _ "[]"]) auto
  next
    case dead
    then show ?thesis using 1(2-4) unfolding eq by (intro exI [of _ "[]"]) (auto split: if_splits)
  next
    case full
    have le: "unat (nwrite ?p - nread ?p) \<le> PIPESIZE" using 1(3) by (simp add: pipe_inv_def pipe_list_def)
    have "length (pipe_list ?p) = PIPESIZE" using full(4) pring.ring_full_iff [OF le] by (simp add: pipe_list_def)
    then show ?thesis using 1(2-4) full unfolding eq by (intro exI [of _ "[]"]) auto
  next
    case room
    obtain r b where c: "copyin s ?pt (addr + word_of_int i) 1 = Inr (r, b)" using 1(2,4) room unfolding eq by auto
    show ?thesis
    proof (cases "r = -1")
      case True
      then show ?thesis using 1(2-4) room c unfolding eq by (intro exI [of _ "[]"]) auto
    next
      case False
      then obtain x where x: "r = 0" and b: "b = [x]" using copyin_byte [OF c] by (auto simp: length_Suc_conv)
      note c = c [unfolded x b]
      let ?t = "upd_pipe pi (\<lambda>p. p\<lparr>pdata := (pdata p)(unat (nwrite p) mod PIPESIZE := hd [x]), nwrite := nwrite p + 1\<rparr>) s"
      note put = pipe_list_put [OF 1(3) room(4), of x]
      have w: "pipewrite pi addr n (i + 1) ?t = Inr (out, s')" using 1(2,4) room c unfolding eq by (auto simp: Let_def)
      have cr: "copyin ?t q a k = copyin s q a k" for q a k by (rule copyin_ram) simp
      have pre: "\<not> (\<not> readopen ?p \<or> killed pr s \<noteq> 0)" "pipe_inv (pipes ?t pi)" "curproc ?t = Inr pr"
        using room(2,3) put(2) 1(4) by simp_all
      obtain bs where bs: "pipe_list (pipes s' pi) = pipe_list (pipes ?t pi) @ bs" "pipe_inv (pipes s' pi)" "ram s' = ram ?t"
        "\<forall>j < length bs. copyin ?t (pagetable (procs ?t ! pr)) (addr + word_of_int (i + 1 + int j)) 1 = Inr (0, [bs ! j])"
        "out = Done (-1) \<and> (\<not> readopen (pipes ?t pi) \<or> killed pr ?t \<noteq> 0) \<or>
         out = Done (i + 1 + int (length bs)) \<and> (n \<le> i + 1 + int (length bs) \<or>
           (\<exists>b. copyin ?t (pagetable (procs ?t ! pr)) (addr + word_of_int (i + 1 + int (length bs))) 1 = Inr (-1, b))) \<or>
         out = Blocked (ChanPipeWrite pi) (i + 1 + int (length bs)) \<and> i + 1 + int (length bs) < n \<and> length (pipe_list (pipes s' pi)) = PIPESIZE"
        using 1(1) [OF 1(4) room(1) pre(1) room(4) c refl _ refl w pre(2,3)] by auto
      note bs = bs [unfolded cr]
      have j: "copyin s ?pt (addr + word_of_int (i + int j)) 1 = Inr (0, [(x # bs) ! j])" if "j < Suc (length bs)" for j
        using that bs(4) [rule_format, of "j - 1"] c by (cases j) (simp_all add: add.assoc)
      show ?thesis
        using bs(1,2,3,5) put(1) by (intro exI [of _ "x # bs"] conjI allI impI j) (simp_all add: add.assoc)
    qed
  qed
qed

section \<open>Reading\<close>

lemma kmem_more_file:
  assumes "kmem.more s' = kmem.more s"
  shows "pipes s' = pipes s" "ftable s' = ftable s" "procs s' = procs s" "curproc s' = curproc s" "killed p s' = killed p s"
  using assms by (cases s; cases s'; simp add: curproc_def myproc_def cpuid_def killed_def)+

text \<open>
  Bytes stored one after the other in user memory by successful calls of \<open>copyout\<close>, while the rest of the kernel's state
  may change in between.
\<close>

inductive user_stores :: "u64 \<Rightarrow> u64 \<Rightarrow> 'a kmem_scheme \<Rightarrow> u8 list \<Rightarrow> 'a kmem_scheme \<Rightarrow> bool" where
  none: "user_stores pt a s [] s"
| byte: "copyout (kmem.more_update (\<lambda>_. m) s) pt a [b] = Inr (r, s1) \<Longrightarrow> r \<noteq> -1 \<Longrightarrow> user_stores pt (a + 1) s1 bs s2 \<Longrightarrow>
    user_stores pt a s (b # bs) s2"

lemma upd_pipe_more: "upd_pipe pi f s = kmem.more_update (\<lambda>_. kmem.more (upd_pipe pi f s)) s"
  by (cases s) (simp add: upd_pipe_def)

lemma piperead_loop_takes:
  assumes "piperead_loop pi addr pr n i s = Inr (m, s')"
  shows "\<exists>bs lost t. user_stores (pagetable (procs s ! pr)) (addr + word_of_int i) s bs t \<and>
    pipe_list (pipes s pi) = bs @ lost @ pipe_list (pipes s' pi) \<and> m = i + int (length bs) \<and>
    procs s' = procs s \<and>
    (lost = [] \<and> ram s' = ram t \<and> (n \<le> m \<or> pipe_list (pipes s' pi) = []) \<or>
     m < n \<and> (\<exists>x u. lost = [x] \<and> copyout (kmem.more_update (\<lambda>_. u) t) (pagetable (procs s ! pr)) (addr + word_of_int m) [x] = Inr (-1, s')))"
  using assms
proof (induction pi addr pr n i s rule: piperead_loop.induct)
  case (1 pi addr pr n i s)
  let ?p = "pipes s pi" and ?pt = "pagetable (procs s ! pr)"
  note eq = piperead_loop.simps [of pi addr pr n i s]
  show ?case
  proof (cases "i < n \<and> nread ?p \<noteq> nwrite ?p")
    case False
    then have "m = i \<and> s' = s" using 1(2) unfolding eq by (auto split: if_splits)
    then show ?thesis using False by (intro exI [of _ "[]"] exI [of _ s]) (auto simp: pipe_list_Nil none)
  next
    case True
    let ?x = "pdata ?p (unat (nread ?p) mod PIPESIZE)"
    let ?t = "upd_pipe pi (\<lambda>p. p\<lparr>nread := nread p + 1\<rparr>) s"
    obtain r s1 where c: "copyout ?t ?pt (addr + word_of_int i) [?x] = Inr (r, s1)"
      using 1(2) True unfolding eq by (auto simp: Let_def)
    obtain u where u: "?t = kmem.more_update (\<lambda>_. u) s" using upd_pipe_more by blast
    have k: "pipes s1 = pipes ?t" "procs s1 = procs s" using kmem_more_file [OF kept_copyout [OF c]] by simp_all
    have l: "pipe_list ?p = ?x # pipe_list (pipes s1 pi)" using pipe_list_get [of ?p] True k(1) by simp
    show ?thesis
    proof (cases "r = -1")
      case r: True
      then have "m = i \<and> s' = s1" using 1(2) True c unfolding eq by (auto simp: Let_def)
      then show ?thesis
        using True l k(2) c [unfolded r u]
        by (intro exI [of _ "[]"] exI [of _ "[?x]"] exI [of _ s] conjI disjI2 exI [of _ ?x] exI [of _ u]) (simp_all add: none)
    next
      case r: False
      have w: "piperead_loop pi addr pr n (i + 1) s1 = Inr (m, s')" using 1(2) True r c unfolding eq by (auto simp: Let_def)
      have c': "copyout ?t (pagetable (procs ?t ! pr)) (addr + word_of_int i) [?x] = Inr (r, s1)" using c by simp
      obtain bs lost t where h: "user_stores ?pt (addr + word_of_int (i + 1)) s1 bs t"
        "pipe_list (pipes s1 pi) = bs @ lost @ pipe_list (pipes s' pi)" "m = i + 1 + int (length bs)" "procs s' = procs s"
        "lost = [] \<and> ram s' = ram t \<and> (n \<le> m \<or> pipe_list (pipes s' pi) = []) \<or>
         m < n \<and> (\<exists>x u. lost = [x] \<and> copyout (kmem.more_update (\<lambda>_. u) t) ?pt (addr + word_of_int m) [x] = Inr (-1, s'))"
        using 1(1) [OF conjunct1 [OF True] conjunct2 [OF True] refl refl c' refl r w, unfolded k(2)] by blast
      have "user_stores ?pt (addr + word_of_int i) s (?x # bs) t"
        using h(1) by (intro byte [OF c [unfolded u] r]) (simp add: add.assoc)
      then show ?thesis using h(2-5) l by (intro exI [of _ "?x # bs"] exI [of _ lost] exI [of _ t]) auto
    qed
  qed
qed


section \<open>The properties\<close>

text \<open>
  C30. Writing to a pipe appends to its queue exactly the bytes copied from the writer's memory, in order, and never
  overfills it. The call returns the number of bytes written, which is the number asked for unless a byte of the source
  cannot be read; it sleeps only when the pipe holds 512 bytes; and it returns -1 only if the read end is closed or the
  process was killed.
\<close>

theorem pipewrite_appends:
  assumes "pipewrite pi addr n 0 s = Inr (out, s')" and "pipe_inv (pipes s pi)" and "curproc s = Inr pr"
  shows "\<exists>bs. pipe_list (pipes s' pi) = pipe_list (pipes s pi) @ bs \<and> pipe_inv (pipes s' pi) \<and>
    (\<forall>j < length bs. copyin s (pagetable (procs s ! pr)) (addr + of_nat j) 1 = Inr (0, [bs ! j])) \<and>
    (out = Done (-1) \<and> (\<not> readopen (pipes s pi) \<or> killed pr s \<noteq> 0) \<or>
     out = Done (int (length bs)) \<and> (n \<le> int (length bs) \<or>
       (\<exists>b. copyin s (pagetable (procs s ! pr)) (addr + of_nat (length bs)) 1 = Inr (-1, b))) \<or>
     out = Blocked (ChanPipeWrite pi) (int (length bs)) \<and> int (length bs) < n \<and> length (pipe_list (pipes s' pi)) = PIPESIZE)"
  using pipewrite_appends_bytes [OF assms] by simp blast

text \<open>A process with the memory of process \<open>B\<close> after a fork, and a pipe with one byte whose counters are about to wrap.\<close>

definition piped :: kfile where
  "piped = (kdev.extend booted_dev (kfile.fields
       (\<lambda>_. \<lparr>ftype = FD_NONE, fref = 0, readable = False, writable = False, fpipe = 0, fip = 0, foff = 0, fmajor = 0\<rparr>)
       (\<lambda>_. \<lparr>pdata = (\<lambda>_. 65), nread = -1, nwrite = 0, readopen = True, writeopen = True\<rparr>)))
     \<lparr>ram := ram (two_procs cow_pte cow_pte 2 0), procs := [(idle_proc RUNNING None 1)\<lparr>pagetable := proc_B\<rparr>], cpus := (\<lambda>_. Some 0)\<rparr>"

lemma piped_sel:
  "ram piped = ram (two_procs cow_pte cow_pte 2 0)" "pagetable (procs piped ! 0) = proc_B" "curproc piped = Inr 0"
  "killed 0 piped = 0" "pipes piped p = \<lparr>pdata = (\<lambda>_. 65), nread = -1, nwrite = 0, readopen = True, writeopen = True\<rparr>"
  "pipe_list (pipes piped p) = [65]" "pipe_inv (pipes piped p)"
  "pipe_list \<lparr>pdata = (\<lambda>_. 65), nread = -1, nwrite = 0, readopen = True, writeopen = True\<rparr> = [65]"
  by (simp_all add: piped_def kdev.defs kfile.defs idle_proc_def curproc_def myproc_def killed_def pipe_list_def pipe_inv_def ring_list_def)

theorem pipewrite_appends_witness:
  "\<exists>s'. pipewrite 0x87000000 4095 1 0 piped = Inr (Done 1, s') \<and> pipe_list (pipes s' 0x87000000) = [65, 0]"
proof -
  have "copyin (two_procs cow_pte cow_pte 2 0) proc_B 4095 1 = Inr (0, [0])"
    using copyin_loop_bytes [OF after_spaces [of 0], of proc_B 1 4095 "[]"] demo_bytes(2) by (simp add: copyin_def)
  then have c: "copyin piped proc_B 4095 1 = Inr (0, [0])" using copyin_ram [OF piped_sel(1)] by metis
  then obtain s' where s': "pipewrite 0x87000000 4095 1 0 piped = Inr (Done 1, s')"
    by (simp add: pipewrite.simps [of _ _ _ 0] pipewrite.simps [of _ _ _ 1] piped_sel)
  from pipewrite_appends [OF s' piped_sel(7,3)] c s' show ?thesis
    by (auto simp: piped_sel length_Suc_conv)
qed

text \<open>
  C31. Reading from a pipe takes a prefix off its queue and stores it, byte by byte and in order, in the reader's memory.
  It returns the number of bytes stored: as many as were asked for, or all there were. If a byte cannot be stored the call
  ends early, and that byte is gone from the pipe. It sleeps only on an empty pipe whose write end is open.
\<close>

theorem piperead_takes:
  assumes "piperead pi addr n s = Inr (out, s')" and "curproc s = Inr pr"
  shows "out = Blocked (ChanPipeRead pi) 0 \<and> pipe_list (pipes s pi) = [] \<and> writeopen (pipes s pi) \<and> s' = s \<or>
    out = Done (-1) \<and> killed pr s \<noteq> 0 \<and> s' = s \<or>
    (\<exists>bs t. user_stores (pagetable (procs s ! pr)) addr s bs t \<and> out = Done (int (length bs)) \<and>
      (pipe_list (pipes s pi) = bs @ pipe_list (pipes s' pi) \<and> ram s' = ram t \<and> (n \<le> int (length bs) \<or> pipe_list (pipes s' pi) = []) \<or>
       (\<exists>x u t'. pipe_list (pipes s pi) = bs @ x # pipe_list (pipes s' pi) \<and> int (length bs) < n \<and>
         copyout (kmem.more_update (\<lambda>_. u) t) (pagetable (procs s ! pr)) (addr + of_nat (length bs)) [x] = Inr (-1, t'))))"
proof (cases "nread (pipes s pi) = nwrite (pipes s pi) \<and> writeopen (pipes s pi)")
  case True
  then show ?thesis using assms by (auto simp: piperead_def pipe_list_Nil split: if_splits)
next
  case False
  then obtain i s1 where r: "piperead_loop pi addr pr n 0 s = Inr (i, s1)" "out = Done i" "s' = wakeup (ChanPipeWrite pi) s1"
    using assms by (auto simp: piperead_def)
  obtain bs lost t where h: "user_stores (pagetable (procs s ! pr)) (addr + word_of_int 0) s bs t"
    "pipe_list (pipes s pi) = bs @ lost @ pipe_list (pipes s1 pi)" "i = int (length bs)"
    "lost = [] \<and> ram s1 = ram t \<and> (n \<le> i \<or> pipe_list (pipes s1 pi) = []) \<or>
     i < n \<and> (\<exists>x u. lost = [x] \<and> copyout (kmem.more_update (\<lambda>_. u) t) (pagetable (procs s ! pr)) (addr + word_of_int i) [x] = Inr (-1, s1))"
    using piperead_loop_takes [OF r(1)] unfolding add_0 by blast
  have "pipe_list (pipes s pi) = bs @ pipe_list (pipes s' pi) \<and> ram s' = ram t \<and> (n \<le> int (length bs) \<or> pipe_list (pipes s' pi) = []) \<or>
       (\<exists>x u t'. pipe_list (pipes s pi) = bs @ x # pipe_list (pipes s' pi) \<and> int (length bs) < n \<and>
         copyout (kmem.more_update (\<lambda>_. u) t) (pagetable (procs s ! pr)) (addr + of_nat (length bs)) [x] = Inr (-1, t'))"
    using h(2-4) by (auto simp: r(3))
  then show ?thesis using h(1,3) r(2) by simp blast
qed

theorem piperead_takes_witness:
  "\<exists>s'. piperead 0x87000000 4096 1 piped = Inr (Done 0, s') \<and> pipe_list (pipes piped 0x87000000) = [65] \<and>
     pipe_list (pipes s' 0x87000000) = []"
proof -
  let ?t = "upd_pipe 0x87000000 (\<lambda>p. p\<lparr>nread := nread p + 1\<rparr>) piped"
  have "walkaddr ?t proc_B 4096 = walkaddr (two_procs cow_pte cow_pte 2 0) proc_B 4096"
    by (rule walkaddr_ram) (simp add: piped_sel)
  also have "\<dots> = Inr 0"
    using walkaddr_eq [of "two_procs cow_pte cow_pte 2 0" proc_B 4096] after_spaces [of 0] two_pte(2) [of 4096]
    by (auto simp: spaces_def kmem_inv_def user_pte_def same_page_def PGROUNDDOWN_def)
  finally have "copyout ?t proc_B 4096 [65] = Inr (-1, ?t)"
    by (simp add: copyout.simps PGROUNDDOWN_def Let_def)
  then obtain s' where s': "piperead 0x87000000 4096 1 piped = Inr (Done 0, s')"
    by (simp add: piperead_def piperead_loop.simps [of _ _ _ _ 0] piped_sel Let_def)
  from piperead_takes [OF s' piped_sel(3)] show ?thesis using s' by (auto simp: piped_sel)
qed

end
