(* ===== verification/Printf.thy ===== *)
theory Printf
  imports Console
begin

text \<open>
  Formatted console output (\<open>printf.c\<close>). The format and the strings are the lists of their bytes before the NUL; the
  variable arguments are a list of tagged values, and taking one of another type is undefined in C.
\<close>

definition str :: "string \<Rightarrow> u8 list" where
  "str cs = map of_char cs"

definition digits :: "u8 list" where
  "digits = str ''0123456789abcdef''"

datatype parg = AInt int | APtr u64 | AStr "u8 list option"

section \<open>Operations\<close>

fun consputs :: "u8 list \<Rightarrow> 'a kdev_scheme \<Rightarrow> 'a kdev_scheme kres" where
  "consputs [] s = Inr s"
| "consputs (c # cs) s = kbind (consputc (uint c) s) (consputs cs)"

text \<open>The digits of \<open>x\<close>, the lowest first; the base is at least 2.\<close>

function digit_loop :: "nat \<Rightarrow> nat \<Rightarrow> u8 list" where
  "digit_loop base x =
     digits ! (x mod base) # (if x div base \<noteq> 0 \<and> 1 < base then digit_loop base (x div base) else [])"
  by pat_completeness auto
termination
proof (relation "measure (\<lambda>(base, x). x)")
  fix base x :: nat assume "x div base \<noteq> 0 \<and> 1 < base"
  moreover from this have "x \<noteq> 0" by (cases x) auto
  ultimately show "((base, x div base), base, x) \<in> measure (\<lambda>(base, x). x)" by simp
qed simp

declare digit_loop.simps [simp del]

text \<open>The contents of \<open>buf\<close> of \<open>printint\<close>; \<open>x\<close> is a \<open>uint\<close>.\<close>

definition printint_buf :: "int \<Rightarrow> nat \<Rightarrow> bool \<Rightarrow> u8 list" where
  "printint_buf xx base sign =
     (let neg = (sign \<and> xx < 0);
          x = nat ((if neg then - xx else xx) mod 4294967296)
      in digit_loop base x @ (if neg then [45] else []))"

definition printint :: "int \<Rightarrow> nat \<Rightarrow> bool \<Rightarrow> 'a kdev_scheme \<Rightarrow> 'a kdev_scheme kres" where
  "printint xx base sign s =
     (let buf = printint_buf xx base sign in
      if length buf > 16 then Inl (Undefined ''buf'') else consputs (rev buf) s)"

fun printptr_loop :: "nat \<Rightarrow> u64 \<Rightarrow> u8 list" where
  "printptr_loop 0 x = []"
| "printptr_loop (Suc k) x = digits ! unat (drop_bit 60 x) # printptr_loop k (push_bit 4 x)"

definition printptr :: "u64 \<Rightarrow> 'a kdev_scheme \<Rightarrow> 'a kdev_scheme kres" where
  "printptr x s = consputs (str ''0x'' @ printptr_loop 16 x) s"

fun printf :: "u8 list \<Rightarrow> parg list \<Rightarrow> 'a kdev_scheme \<Rightarrow> 'a kdev_scheme kres" where
  "printf [] ap s = Inr s"
| "printf [c] ap s = (if c \<noteq> 37 then consputc (uint c) s else Inr s)"
| "printf (c # d # fmt) ap s =
     (if c \<noteq> 37 then kbind (consputc (uint c) s) (printf (d # fmt) ap)
      else if d = 100 then
        (case ap of AInt i # ap \<Rightarrow> kbind (printint i 10 True s) (printf fmt ap) | _ \<Rightarrow> Inl (Undefined ''va_arg''))
      else if d = 120 then
        (case ap of AInt i # ap \<Rightarrow> kbind (printint i 16 True s) (printf fmt ap) | _ \<Rightarrow> Inl (Undefined ''va_arg''))
      else if d = 112 then
        (case ap of APtr x # ap \<Rightarrow> kbind (printptr x s) (printf fmt ap) | _ \<Rightarrow> Inl (Undefined ''va_arg''))
      else if d = 115 then
        (case ap of
           AStr t # ap \<Rightarrow> kbind (consputs (case t of None \<Rightarrow> str ''(null)'' | Some cs \<Rightarrow> cs) s) (printf fmt ap)
         | _ \<Rightarrow> Inl (Undefined ''va_arg''))
      else if d = 37 then kbind (consputc 37 s) (printf fmt ap)
      else kbind (consputc 37 s) (\<lambda>s. kbind (consputc (uint d) s) (printf fmt ap)))"

text \<open>What \<open>panic\<close> does before it loops for ever.\<close>

definition panic :: "u8 list \<Rightarrow> 'a kdev_scheme \<Rightarrow> 'a kdev_scheme kres" where
  "panic msg s =
     kbind (printf (str ''panic: '') [] s) (\<lambda>s.
     kbind (printf msg [] s) (\<lambda>s.
     kbind (printf [10] [] s) (\<lambda>s.
     Inr (s\<lparr>panicked := True\<rparr>))))"

section \<open>What is printed\<close>

text \<open>The bytes that a format and its arguments stand for.\<close>

fun format :: "u8 list \<Rightarrow> parg list \<Rightarrow> u8 list option" where
  "format [] ap = Some []"
| "format [c] ap = Some (if c \<noteq> 37 then [c] else [])"
| "format (c # d # fmt) ap =
     (if c \<noteq> 37 then map_option ((@) [c]) (format (d # fmt) ap)
      else if d = 100 then
        (case ap of AInt i # ap \<Rightarrow> map_option ((@) (rev (printint_buf i 10 True))) (format fmt ap) | _ \<Rightarrow> None)
      else if d = 120 then
        (case ap of AInt i # ap \<Rightarrow> map_option ((@) (rev (printint_buf i 16 True))) (format fmt ap) | _ \<Rightarrow> None)
      else if d = 112 then
        (case ap of APtr x # ap \<Rightarrow> map_option ((@) (str ''0x'' @ printptr_loop 16 x)) (format fmt ap) | _ \<Rightarrow> None)
      else if d = 115 then
        (case ap of AStr t # ap \<Rightarrow> map_option ((@) (case t of None \<Rightarrow> str ''(null)'' | Some cs \<Rightarrow> cs)) (format fmt ap) | _ \<Rightarrow> None)
      else if d = 37 then map_option ((@) [37]) (format fmt ap)
      else map_option ((@) [37, d]) (format fmt ap))"

text \<open>The machine before and after output: only the device changes, by the bytes sent.\<close>

definition sent_bytes :: "'a kdev_scheme \<Rightarrow> u8 list \<Rightarrow> 'a kdev_scheme \<Rightarrow> bool" where
  "sent_bytes s cs s' \<longleftrightarrow> tx_out (uart s') = tx_out (uart s) @ cs \<and> (\<exists>r. s' = upd_uart (\<lambda>u. u\<lparr>tx_out := tx_out u @ cs, tx_room := r\<rparr>) s)"

definition can_print :: "'a kdev_scheme \<Rightarrow> bool" where
  "can_print s \<longleftrightarrow> \<not> panicked s \<and> \<not> bit (lcr (uart s)) 7"

lemma sent_none: "sent_bytes s [] s"
  unfolding sent_bytes_def by (intro conjI exI [of _ "tx_room (uart s)"]) simp_all

lemma sent_trans:
  assumes "sent_bytes s cs s1" "sent_bytes s1 ds s2"
  shows "sent_bytes s (cs @ ds) s2"
proof -
  from assms obtain r q where "s1 = upd_uart (\<lambda>u. u\<lparr>tx_out := tx_out u @ cs, tx_room := r\<rparr>) s"
    "s2 = upd_uart (\<lambda>u. u\<lparr>tx_out := tx_out u @ ds, tx_room := q\<rparr>) s1" unfolding sent_bytes_def by blast
  then show ?thesis unfolding sent_bytes_def by (intro conjI exI [of _ q]) simp_all
qed

lemma sent_can_print: "sent_bytes s cs s' \<Longrightarrow> can_print s \<Longrightarrow> can_print s'"
  by (auto simp: sent_bytes_def can_print_def)

lemma consputc_sends: "can_print s \<Longrightarrow> \<exists>s'. consputc (uint c) s = Inr s' \<and> sent_bytes s [c] s'"
proof -
  assume p: "can_print s"
  have "uint c < 256" using unsigned_less [of c, where 'a = int] by simp
  then have "uint c \<noteq> BACKSPACE" by simp
  then have "consputc (uint c) s = uartputc_sync c s" by (simp add: consputc_def)
  also have "\<dots> = Inr (upd_uart (\<lambda>u. u\<lparr>tx_out := tx_out u @ [c], tx_room := (if LSR_TX_IDLE u then tx_room u - 1 else 0)\<rparr>) s)"
    using p by (simp add: uartputc_sync_def can_print_def WriteReg_def)
  finally show ?thesis
    unfolding sent_bytes_def by (intro exI conjI) (assumption, simp, rule refl)
qed

lemma consputs_sends: "can_print s \<Longrightarrow> \<exists>s'. consputs cs s = Inr s' \<and> sent_bytes s cs s'"
proof (induction cs arbitrary: s)
  case (Cons c cs)
  obtain s1 where s1: "consputc (uint c) s = Inr s1" "sent_bytes s [c] s1" using consputc_sends [OF Cons.prems] by blast
  obtain s2 where s2: "consputs cs s1 = Inr s2" "sent_bytes s1 cs s2" using Cons.IH [OF sent_can_print [OF s1(2) Cons.prems]] by blast
  show ?case using s1 s2 sent_trans [OF s1(2) s2(2)] by simp
qed (simp add: sent_none)

text \<open>The digits are those of the number, and \<open>buf\<close> has room for them and the sign.\<close>

fun digits_value :: "nat \<Rightarrow> nat list \<Rightarrow> nat" where
  "digits_value base [] = 0"
| "digits_value base (d # ds) = d + base * digits_value base ds"

function digit_vals :: "nat \<Rightarrow> nat \<Rightarrow> nat list" where
  "digit_vals base x = x mod base # (if x div base \<noteq> 0 \<and> 1 < base then digit_vals base (x div base) else [])"
  by pat_completeness auto
termination
proof (relation "measure (\<lambda>(base, x). x)")
  fix base x :: nat assume "x div base \<noteq> 0 \<and> 1 < base"
  moreover from this have "x \<noteq> 0" by (cases x) auto
  ultimately show "((base, x div base), base, x) \<in> measure (\<lambda>(base, x). x)" by simp
qed simp

declare digit_vals.simps [simp del]

lemma digit_loop_vals: "digit_loop base x = map ((!) digits) (digit_vals base x)"
  by (induction base x rule: digit_vals.induct) (simp add: digit_loop.simps digit_vals.simps)

lemma digits_value_vals: "1 < base \<Longrightarrow> digits_value base (digit_vals base x) = x"
proof (induction base x rule: digit_vals.induct)
  case (1 base x)
  show ?case
  proof (cases "x div base = 0")
    case True
    then have "x < base" using 1(2) by (simp add: div_eq_0_iff)
    then show ?thesis using True by (simp add: digit_vals.simps [of base x])
  next
    case False
    then show ?thesis using 1 by (simp add: digit_vals.simps [of base x])
  qed
qed

lemma digit_vals_less: "1 < base \<Longrightarrow> d \<in> set (digit_vals base x) \<Longrightarrow> d < base"
proof (induction base x rule: digit_vals.induct)
  case (1 base x)
  then show ?case by (auto simp: digit_vals.simps [of base x] split: if_splits)
qed

lemma length_digit_vals: "1 < base \<Longrightarrow> x < base ^ Suc k \<Longrightarrow> length (digit_vals base x) \<le> Suc k"
proof (induction k arbitrary: x)
  case 0
  then show ?case by (simp add: digit_vals.simps [of base x])
next
  case (Suc k)
  have "x div base < base ^ Suc k"
    using Suc.prems by (intro less_mult_imp_div_less) (simp add: mult.commute)
  then show ?case using Suc.IH [of "x div base"] Suc.prems by (simp add: digit_vals.simps [of base x])
qed

lemma printint_buf_fits:
  assumes "base = 10 \<or> base = 16"
  shows "length (printint_buf xx base sign) \<le> 11"
proof -
  let ?x = "nat ((if sign \<and> xx < 0 then - xx else xx) mod 4294967296)"
  have x: "?x < 4294967296" by (simp add: nat_less_iff)
  then have "?x < base ^ Suc 9" using assms by (auto simp: power_def)
  then have "length (digit_vals base ?x) \<le> Suc 9" using assms by (intro length_digit_vals) auto
  then show ?thesis by (cases "sign \<and> xx < 0") (auto simp: printint_buf_def Let_def digit_loop_vals)
qed

lemma printint_sends:
  assumes "can_print s" "base = 10 \<or> base = 16"
  shows "\<exists>s'. printint xx base sign s = Inr s' \<and> sent_bytes s (rev (printint_buf xx base sign)) s'"
  using printint_buf_fits [OF assms(2), of xx sign] consputs_sends [OF assms(1), of "rev (printint_buf xx base sign)"]
  by (simp add: printint_def Let_def)


lemma print_step:
  fixes s :: "'a kdev_scheme"
  assumes "can_print s" and "\<exists>s1. m = Inr s1 \<and> sent_bytes s xs s1"
    and "\<And>t :: 'a kdev_scheme. can_print t \<Longrightarrow> \<exists>s'. k t = Inr s' \<and> sent_bytes t ys s'"
  shows "\<exists>s'. kbind m k = Inr s' \<and> sent_bytes s (xs @ ys) s'"
proof -
  from assms(2) obtain s1 where s1: "m = Inr s1" "sent_bytes s xs s1" by blast
  from assms(3) [OF sent_can_print [OF s1(2) assms(1)]] obtain s2 where "k s1 = Inr s2" "sent_bytes s1 ys s2" by blast
  then show ?thesis using s1 sent_trans [OF s1(2)] by auto
qed

lemma printf_sends:
  fixes s :: "'a kdev_scheme"
  shows "can_print s \<Longrightarrow> format fmt ap = Some cs \<Longrightarrow> \<exists>s'. printf fmt ap s = Inr s' \<and> sent_bytes s cs s'"
proof (induction fmt ap arbitrary: s cs rule: format.induct)
  case (1 ap)
  then show ?case by (simp add: sent_none)
next
  case (2 c ap)
  then show ?case using consputc_sends [of s c] by (auto simp: sent_none)
next
  case (3 c d fmt ap)
  note p = "3.prems"(1) and step = print_step [OF "3.prems"(1)]
  consider (plain) "c \<noteq> 37" | (int) b where "c = 37" "d = 100 \<and> b = (10 :: nat) \<or> d = 120 \<and> b = 16"
    | (ptr) "c = 37" "d = 112" | (st) "c = 37" "d = 115" | (other) "c = 37" "d \<noteq> 100" "d \<noteq> 120" "d \<noteq> 112" "d \<noteq> 115"
    by blast
  then show ?case
  proof cases
    case plain
    then obtain ys where "format (d # fmt) ap = Some ys" "cs = [c] @ ys" using "3.prems"(2) by auto
    then show ?thesis using plain step [OF consputc_sends [OF p], of "printf (d # fmt) ap" ys c] "3.IH"(1) [OF plain] by simp
  next
    case int
    then obtain i ap' ys where a: "ap = AInt i # ap'" "format fmt ap' = Some ys" "cs = rev (printint_buf i b True) @ ys"
      using "3.prems"(2) by (auto split: list.splits parg.splits)
    have "\<exists>s'. kbind (printint i b True s) (printf fmt ap') = Inr s' \<and> sent_bytes s (rev (printint_buf i b True) @ ys) s'"
    proof (rule step)
      show "\<exists>s1. printint i b True s = Inr s1 \<and> sent_bytes s (rev (printint_buf i b True)) s1" using int by (intro printint_sends p) auto
      show "\<exists>s'. printf fmt ap' t = Inr s' \<and> sent_bytes t ys s'" if "can_print t" for t :: "'a kdev_scheme"
        using int a "3.IH"(2,3) that by fastforce
    qed
    then show ?thesis using int a by auto
  next
    case ptr
    then obtain x ap' ys where a: "ap = APtr x # ap'" "format fmt ap' = Some ys" "cs = (str ''0x'' @ printptr_loop 16 x) @ ys"
      using "3.prems"(2) by (auto split: list.splits parg.splits)
    have "\<exists>s'. kbind (printptr x s) (printf fmt ap') = Inr s' \<and> sent_bytes s ((str ''0x'' @ printptr_loop 16 x) @ ys) s'"
    proof (rule step)
      show "\<exists>s1. printptr x s = Inr s1 \<and> sent_bytes s (str ''0x'' @ printptr_loop 16 x) s1" unfolding printptr_def by (rule consputs_sends [OF p])
      show "\<exists>s'. printf fmt ap' t = Inr s' \<and> sent_bytes t ys s'" if "can_print t" for t :: "'a kdev_scheme"
        using ptr a "3.IH"(4) that by fastforce
    qed
    then show ?thesis using ptr a by auto
  next
    case st
    then obtain x ap' ys where a: "ap = AStr x # ap'" "format fmt ap' = Some ys"
      "cs = (case x of None \<Rightarrow> str ''(null)'' | Some cs \<Rightarrow> cs) @ ys"
      using "3.prems"(2) by (auto split: list.splits parg.splits)
    have "\<exists>s'. kbind (consputs (case x of None \<Rightarrow> str ''(null)'' | Some cs \<Rightarrow> cs) s) (printf fmt ap') = Inr s' \<and> sent_bytes s cs s'"
      unfolding a(3)
    proof (rule step)
      show "\<exists>s'. printf fmt ap' t = Inr s' \<and> sent_bytes t ys s'" if "can_print t" for t :: "'a kdev_scheme"
        using st a "3.IH"(5) that by fastforce
    qed (rule consputs_sends [OF p])
    then show ?thesis using st a by auto
  next
    case other
    then obtain ys where a: "format fmt ap = Some ys" "cs = (if d = 37 then [37] else [37, d]) @ ys"
      using "3.prems"(2) by (auto split: if_splits)
    have e: "printf (c # d # fmt) ap s = kbind (consputs (if d = 37 then [37] else [37, d]) s) (printf fmt ap)"
      using other by (simp add: kbind_assoc)
    have ih: "\<exists>s'. printf fmt ap t = Inr s' \<and> sent_bytes t ys s'" if "can_print t" for t :: "'a kdev_scheme"
    proof (cases "d = 37")
      case True
      show ?thesis by (rule "3.IH"(6); use other(1) True that a(1) in simp)
    next
      case False
      show ?thesis by (rule "3.IH"(7); use other False that a(1) in simp)
    qed
    show ?thesis unfolding e a(2) by (intro step consputs_sends [OF p] ih)
  qed
qed

text \<open>Reading a number back.\<close>

definition digit_val :: "u8 \<Rightarrow> nat" where
  "digit_val c = (if c \<ge> 97 then unat c - 87 else unat c - 48)"

definition read_int :: "nat \<Rightarrow> u8 list \<Rightarrow> int" where
  "read_int base cs =
     (if cs \<noteq> [] \<and> hd cs = 45 then - int (digits_value base (map digit_val (rev (tl cs)))) else int (digits_value base (map digit_val (rev cs))))"

lemma digits_eq: "digits = [48, 49, 50, 51, 52, 53, 54, 55, 56, 57, 97, 98, 99, 100, 101, 102]"
  by (simp add: digits_def str_def of_char_def)

lemma digit_val_digits: "d < 16 \<Longrightarrow> digit_val (digits ! d) = d"
proof -
  have "\<forall>d \<in> set [0..<16]. digit_val (digits ! d) = d" unfolding digits_eq digit_val_def by (simp add: upt_rec)
  then show "d < 16 \<Longrightarrow> digit_val (digits ! d) = d" by simp
qed

lemma digits_no_sign: "d < 16 \<Longrightarrow> digits ! d \<noteq> 45"
proof -
  have "\<forall>d \<in> set [0..<16]. digits ! d \<noteq> 45" unfolding digits_eq by (simp add: upt_rec)
  then show "d < 16 \<Longrightarrow> digits ! d \<noteq> 45" by simp
qed

lemma read_digits:
  assumes "base = 10 \<or> base = 16"
  shows "digits_value base (map digit_val (digit_loop base x)) = x" "45 \<notin> set (digit_loop base x)"
proof -
  have l: "d < 16" if "d \<in> set (digit_vals base x)" for d using digit_vals_less [OF _ that] assms by auto
  then have "map digit_val (digit_loop base x) = digit_vals base x"
    by (simp add: digit_loop_vals digit_val_digits map_idI)
  then show "digits_value base (map digit_val (digit_loop base x)) = x" using assms by (auto simp: digits_value_vals)
  show "45 \<notin> set (digit_loop base x)"
    using l digits_no_sign by (force simp: digit_loop_vals)
qed

section \<open>Properties\<close>



text \<open>
  C33. The text that \<open>printint\<close> prints for a 32-bit integer, in base 10 or 16, is the numeral of that integer: reading it
  back gives the integer.
\<close>

theorem printint_roundtrip:
  assumes "- 2147483648 \<le> xx" and "xx < 2147483648" and "base = 10 \<or> base = 16"
  shows "read_int base (rev (printint_buf xx base True)) = xx"
proof -
  let ?x = "if xx < 0 then - xx else xx"
  have m: "?x mod 4294967296 = ?x" using assms(1,2) by (intro mod_pos_pos_trivial) auto
  note r = read_digits [OF assms(3), of "nat ?x"]
  have ne: "digit_loop base y \<noteq> []" for y by (simp add: digit_loop.simps [of base y])
  show ?thesis
  proof (cases "xx < 0")
    case True
    then have "rev (printint_buf xx base True) = 45 # rev (digit_loop base (nat ?x))" using m by (simp add: printint_buf_def)
    then show ?thesis using r(1) True by (simp add: read_int_def)
  next
    case False
    then have e: "rev (printint_buf xx base True) = rev (digit_loop base (nat ?x))" using m by (simp add: printint_buf_def)
    have "hd (rev (digit_loop base (nat ?x))) \<in> set (digit_loop base (nat ?x))"
      using hd_in_set [of "rev (digit_loop base (nat ?x))"] ne by simp
    then have "hd (rev (digit_loop base (nat ?x))) \<noteq> 45" using r(2) by metis
    then show ?thesis unfolding e using r(1) False by (simp add: read_int_def)
  qed
qed

theorem printint_roundtrip_witness: "read_int 16 (rev (printint_buf (-255) 16 True)) = -255 \<and> rev (printint_buf (-255) 16 True) = str ''-ff''"
proof -
  have "printint_buf (-255) 16 True = rev (str ''-ff'')"
    by (simp add: str_def of_char_def printint_buf_def digit_loop.simps digits_eq)
  then show ?thesis using printint_roundtrip [of "-255" 16] by simp
qed

end
