(* ===== verification/Virtio.thy ===== *)
theory Virtio
  imports Kproc Blocks
begin

text \<open>
  The disk driver (\<open>virtio_disk.c\<close>, \<open>virtio.h\<close>): requests are chains of three descriptors, handed to the device through the
  available ring and given back through the used ring.

  The descriptor table and the rings are shared with the device. A DMA address is one of the three kinds of object the
  driver passes: a request header, the data of a buffer, a status byte. A function that wakes processes up gives the list
  of the channels, in order; the caller applies them to the process table.
\<close>

section \<open>State\<close>

abbreviation NUM :: nat where "NUM \<equiv> 8"
abbreviation (input) VRING_DESC_F_NEXT :: u16 where "VRING_DESC_F_NEXT \<equiv> 1"
abbreviation (input) VRING_DESC_F_WRITE :: u16 where "VRING_DESC_F_WRITE \<equiv> 2"
abbreviation (input) VIRTIO_BLK_T_IN :: u32 where "VIRTIO_BLK_T_IN \<equiv> 0"
abbreviation (input) VIRTIO_BLK_T_OUT :: u32 where "VIRTIO_BLK_T_OUT \<equiv> 1"

datatype dma_addr = NullAddr | OpsAddr nat | DataAddr nat | StatusAddr nat

record virtq_desc =
  daddr :: dma_addr
  dlen :: nat
  dflags :: u16
  dnext :: nat

record virtio_blk_req =
  rtype :: u32
  rreserved :: u32
  rsector :: nat

text \<open>
  \<open>struct disk\<close> with the rings it points to; \<open>mmio\<close> are the device's registers; \<open>bdisk\<close> and \<open>bmem\<close> are the fields
  \<open>disk\<close> and \<open>data\<close> of the buffers.
\<close>

record vdisk =
  desc :: "nat \<Rightarrow> virtq_desc"
  avail_idx :: u16
  avail_ring :: "nat \<Rightarrow> nat"
  used_dev_idx :: u16
  used_ring :: "nat \<Rightarrow> nat"
  dfree :: "nat \<Rightarrow> bool"
  used_idx :: u16
  info_b :: "nat \<Rightarrow> nat option"
  info_status :: "nat \<Rightarrow> u8"
  ops :: "nat \<Rightarrow> virtio_blk_req"
  mmio :: "nat \<Rightarrow> u32"
  bdisk :: "nat \<Rightarrow> bool"
  bmem :: "nat \<Rightarrow> blk"

section \<open>Descriptors\<close>

definition alloc_desc :: "'a vdisk_scheme \<Rightarrow> nat option \<times> 'a vdisk_scheme" where
  "alloc_desc v =
     (case find (dfree v) [0..<NUM] of
        Some i \<Rightarrow> (Some i, v\<lparr>dfree := (dfree v)(i := False)\<rparr>)
      | None \<Rightarrow> (None, v))"

definition null_desc :: virtq_desc where
  "null_desc = \<lparr>daddr = NullAddr, dlen = 0, dflags = 0, dnext = 0\<rparr>"

definition free_desc :: "nat \<Rightarrow> 'a vdisk_scheme \<Rightarrow> (chan list \<times> 'a vdisk_scheme) kres" where
  "free_desc i v =
     (if i \<ge> NUM then Inl (Panic ''free_desc 1'')
      else if dfree v i then Inl (Panic ''free_desc 2'')
      else Inr ([ChanDisk], v\<lparr>desc := (desc v)(i := null_desc), dfree := (dfree v)(i := True)\<rparr>))"

text \<open>Freeing a chain ends, since a descriptor that is met again is free.\<close>

function free_chain :: "nat \<Rightarrow> 'a vdisk_scheme \<Rightarrow> (chan list \<times> 'a vdisk_scheme) kres" where
  "free_chain i v =
     (let flag = dflags (desc v i); nxt = dnext (desc v i) in
      kbind (free_desc i v) (\<lambda>(w, v).
      if flag AND VRING_DESC_F_NEXT \<noteq> 0 then kbind (free_chain nxt v) (\<lambda>(w', v). Inr (w @ w', v))
      else Inr (w, v)))"
  by pat_completeness auto
termination
proof (relation "measure (\<lambda>(i, v). card {j. j < NUM \<and> \<not> dfree v j})", simp, goal_cases)
  case (1 i v flag nxt r w v')
  then have l: "i < NUM" "\<not> dfree v i" "dfree v' = (dfree v)(i := True)" by (auto simp: free_desc_def split: if_splits)
  have "{j. j < NUM \<and> \<not> dfree v' j} = {j. j < NUM \<and> \<not> dfree v j} - {i}" unfolding l(3) by auto
  moreover have "i \<in> {j. j < NUM \<and> \<not> dfree v j}" using l(1,2) by simp
  ultimately have "card {j. j < NUM \<and> \<not> dfree v' j} < card {j. j < NUM \<and> \<not> dfree v j}"
    by (simp only:) (rule card_Diff1_less, simp_all)
  then show ?case by simp
qed

declare free_chain.simps [simp del]

fun free_descs :: "nat list \<Rightarrow> 'a vdisk_scheme \<Rightarrow> (chan list \<times> 'a vdisk_scheme) kres" where
  "free_descs [] v = Inr ([], v)"
| "free_descs (i # is) v = kbind (free_desc i v) (\<lambda>(w, v). kbind (free_descs is v) (\<lambda>(w', v). Inr (w @ w', v)))"

text \<open>The loop of \<open>alloc3_desc\<close>, with \<open>k\<close> descriptors still to allocate; the descriptors, or none of them.\<close>

fun alloc_descs :: "nat list \<Rightarrow> nat \<Rightarrow> 'a vdisk_scheme \<Rightarrow> (nat list option \<times> chan list \<times> 'a vdisk_scheme) kres" where
  "alloc_descs idx 0 v = Inr (Some idx, [], v)"
| "alloc_descs idx (Suc k) v =
     (let (r, v) = alloc_desc v in
      case r of
        Some i \<Rightarrow> alloc_descs (idx @ [i]) k v
      | None \<Rightarrow> kbind (free_descs idx v) (\<lambda>(w, v). Inr (None, w, v)))"

definition alloc3_desc :: "'a vdisk_scheme \<Rightarrow> (nat list option \<times> chan list \<times> 'a vdisk_scheme) kres" where
  "alloc3_desc v = alloc_descs [] 3 v"

section \<open>Requests\<close>

abbreviation QUEUE_NOTIFY :: nat where "QUEUE_NOTIFY \<equiv> 0x50"
abbreviation INTERRUPT_STATUS :: nat where "INTERRUPT_STATUS \<equiv> 0x60"
abbreviation INTERRUPT_ACK :: nat where "INTERRUPT_ACK \<equiv> 0x64"

definition set_reg :: "nat \<Rightarrow> u32 \<Rightarrow> 'a vdisk_scheme \<Rightarrow> 'a vdisk_scheme" where
  "set_reg r x v = v\<lparr>mmio := (mmio v)(r := x)\<rparr>"

text \<open>Formatting the request and handing it to the device.\<close>

definition submit :: "nat \<Rightarrow> nat \<Rightarrow> bool \<Rightarrow> nat \<Rightarrow> nat \<Rightarrow> nat \<Rightarrow> 'a vdisk_scheme \<Rightarrow> 'a vdisk_scheme" where
  "submit b blockno write i0 i1 i2 v =
     (let sector = (blockno * (BSIZE div 512)) mod 4294967296;
          v = v\<lparr>ops := (ops v)(i0 := \<lparr>rtype = (if write then VIRTIO_BLK_T_OUT else VIRTIO_BLK_T_IN), rreserved = 0, rsector = sector\<rparr>)\<rparr>;
          v = v\<lparr>desc := (desc v)(i0 := \<lparr>daddr = OpsAddr i0, dlen = 16, dflags = VRING_DESC_F_NEXT, dnext = i1\<rparr>)\<rparr>;
          v = v\<lparr>desc := (desc v)(i1 := \<lparr>daddr = DataAddr b, dlen = BSIZE,
                  dflags = (if write then 0 else VRING_DESC_F_WRITE) OR VRING_DESC_F_NEXT, dnext = i2\<rparr>)\<rparr>;
          v = v\<lparr>info_status := (info_status v)(i0 := 0xff)\<rparr>;
          v = v\<lparr>desc := (desc v)(i2 := \<lparr>daddr = StatusAddr i0, dlen = 1, dflags = VRING_DESC_F_WRITE, dnext = 0\<rparr>)\<rparr>;
          v = v\<lparr>bdisk := (bdisk v)(b := True), info_b := (info_b v)(i0 := Some b)\<rparr>;
          v = v\<lparr>avail_ring := (avail_ring v)(unat (avail_idx v) mod NUM := i0)\<rparr>;
          v = v\<lparr>avail_idx := avail_idx v + 1\<rparr>
      in set_reg QUEUE_NOTIFY 0 v)"

text \<open>
  \<open>virtio_disk_rw\<close> in the parts between its calls of \<open>sleep\<close>: up to the hand-over, which gives the head of the chain, or
  nothing if it has to wait for descriptors; and the end, which has to wait as long as the device owns the buffer.
\<close>

definition virtio_disk_rw_start :: "nat \<Rightarrow> nat \<Rightarrow> bool \<Rightarrow> 'a vdisk_scheme \<Rightarrow> (nat option \<times> chan list \<times> 'a vdisk_scheme) kres" where
  "virtio_disk_rw_start b blockno write v =
     kbind (alloc3_desc v) (\<lambda>(r, w, v).
     case r of
       Some [i0, i1, i2] \<Rightarrow> Inr (Some i0, w, submit b blockno write i0 i1 i2 v)
     | _ \<Rightarrow> Inr (None, w, v))"

definition virtio_disk_rw_end :: "nat \<Rightarrow> nat \<Rightarrow> 'a vdisk_scheme \<Rightarrow> (bool \<times> chan list \<times> 'a vdisk_scheme) kres" where
  "virtio_disk_rw_end b i0 v =
     (if bdisk v b then Inr (False, [], v)
      else
        kbind (free_chain i0 (v\<lparr>info_b := (info_b v)(i0 := None)\<rparr>)) (\<lambda>(w, v).
        Inr (True, w, v)))"

text \<open>The completions that \<open>virtio_disk_intr\<close> finds in the used ring. A null \<open>b\<close> would fault.\<close>

function virtio_disk_done :: "'a vdisk_scheme \<Rightarrow> (chan list \<times> 'a vdisk_scheme) kres" where
  "virtio_disk_done v =
     (if used_idx v \<noteq> used_dev_idx v then
        let i = used_ring v (unat (used_idx v) mod NUM) in
        if i \<ge> NUM then Inl (Undefined ''info'')
        else if info_status v i \<noteq> 0 then Inl (Panic ''virtio_disk_intr status'')
        else
          (case info_b v i of
             None \<Rightarrow> Inl (PageFault 4)
           | Some b \<Rightarrow>
               kbind (virtio_disk_done (v\<lparr>bdisk := (bdisk v)(b := False), used_idx := used_idx v + 1\<rparr>)) (\<lambda>(w, v).
               Inr (ChanIo b # w, v)))
      else Inr ([], v))"
  by pat_completeness auto
termination
proof (relation "measure (\<lambda>v. unat (used_dev_idx v - used_idx v))", simp, goal_cases)
  case (1 v x b)
  then have "used_dev_idx v - used_idx v \<noteq> 0" by auto
  then have "unat (used_dev_idx v - used_idx v - 1) < unat (used_dev_idx v - used_idx v)"
    by (simp add: unat_minus_one unat_gt_0)
  then show ?case by (simp add: diff_diff_eq)
qed

declare virtio_disk_done.simps [simp del]

definition virtio_disk_intr :: "'a vdisk_scheme \<Rightarrow> (chan list \<times> 'a vdisk_scheme) kres" where
  "virtio_disk_intr v = virtio_disk_done (set_reg INTERRUPT_ACK (mmio v INTERRUPT_STATUS AND 3) v)"

end
