(* ===== verification/Process.thy ===== *)
theory Process
  imports File Printf Virtio
begin

text \<open>
  Processes (\<open>proc.c\<close>): creating them, giving up their resources, growing them, and the protocol of \<open>fork\<close>, \<open>exit\<close> and
  \<open>wait\<close>. The trap frame of a process is a page of memory, read and written at the offsets of \<open>struct trapframe\<close>.
  A process's \<open>name\<close> is kept as the string in the array.
\<close>

section \<open>State\<close>

text \<open>The addresses the linker gives to symbols that the code takes the address of.\<close>

record ksyms =
  etext :: u64
  trampoline :: u64
  uservec :: u64
  userret :: u64
  kernelvec :: u64
  usertrap_addr :: u64
  forkret_addr :: u64

text \<open>The control and status registers of a hart that the trap code uses.\<close>

record csrs =
  sstatus :: u64
  sepc :: u64
  scause :: u64
  stval :: u64
  stvec :: u64
  satp :: u64
  sip :: u64

text \<open>The interrupt controller: enabled sources, priorities, and for each hart the interrupt it hands out next.\<close>

record plic_dev =
  plic_priority :: "nat \<Rightarrow> u32"
  plic_senable :: "nat \<Rightarrow> u32"
  plic_spriority :: "nat \<Rightarrow> u32"
  plic_next :: "nat \<Rightarrow> nat"
  plic_served :: "nat list"

text \<open>
  \<open>junk\<close> is what the kernel stack holds where a variable is not initialised. \<open>first\<close> is the static variable of \<open>forkret\<close>.
\<close>

record ktrap = kfile +
  syms :: ksyms
  csr :: "nat \<Rightarrow> csrs"
  plic :: plic_dev
  kernel_pagetable :: u64
  ticks :: u32
  first :: bool
  vq :: vdisk
  junk :: "u8 list"

abbreviation (input) FREEWALK_DEPTH :: nat where "FREEWALK_DEPTH \<equiv> 8"

section \<open>The trap frame\<close>

abbreviation (input) tf_kernel_satp :: u64 where "tf_kernel_satp \<equiv> 0"
abbreviation (input) tf_kernel_sp :: u64 where "tf_kernel_sp \<equiv> 8"
abbreviation (input) tf_kernel_trap :: u64 where "tf_kernel_trap \<equiv> 16"
abbreviation (input) tf_epc :: u64 where "tf_epc \<equiv> 24"
abbreviation (input) tf_kernel_hartid :: u64 where "tf_kernel_hartid \<equiv> 32"
abbreviation (input) tf_sp :: u64 where "tf_sp \<equiv> 48"
abbreviation (input) tf_a0 :: u64 where "tf_a0 \<equiv> 112"
abbreviation (input) tf_a1 :: u64 where "tf_a1 \<equiv> 120"
abbreviation (input) tf_a7 :: u64 where "tf_a7 \<equiv> 168"
abbreviation (input) sizeof_trapframe :: nat where "sizeof_trapframe \<equiv> 288"

definition tf_get :: "nat \<Rightarrow> u64 \<Rightarrow> 'a kproc_scheme \<Rightarrow> u64 kres" where
  "tf_get p off s = load64 s (trapframe (procs s ! p) + off)"

definition tf_set :: "nat \<Rightarrow> u64 \<Rightarrow> u64 \<Rightarrow> 'a kproc_scheme \<Rightarrow> 'a kproc_scheme kres" where
  "tf_set p off v s = store64 s (trapframe (procs s ! p) + off) v"

section \<open>Page tables of processes\<close>

definition proc_pagetable :: "nat \<Rightarrow> 'a ktrap_scheme \<Rightarrow> (u64 \<times> 'a ktrap_scheme) kres" where
  "proc_pagetable p s =
     kbind (uvmcreate s) (\<lambda>(pt, s).
     if pt = 0 then Inr (0, s)
     else
       kbind (mappages s pt TRAMPOLINE PGSIZE (trampoline (syms s)) (PTE_R OR PTE_X)) (\<lambda>(r, s).
       if r < 0 then kbind (uvmfree FREEWALK_DEPTH s pt 0) (\<lambda>s. Inr (0, s))
       else
         kbind (mappages s pt TRAPFRAME PGSIZE (trapframe (procs s ! p)) (PTE_R OR PTE_W)) (\<lambda>(r, s).
         if r < 0 then
           kbind (uvmunmap s pt TRAMPOLINE 1 False) (\<lambda>s.
           kbind (uvmfree FREEWALK_DEPTH s pt 0) (\<lambda>s.
           Inr (0, s)))
         else Inr (pt, s))))"

definition proc_freepagetable :: "u64 \<Rightarrow> u64 \<Rightarrow> 'a ktrap_scheme \<Rightarrow> 'a ktrap_scheme kres" where
  "proc_freepagetable pt sz s =
     kbind (uvmunmap s pt TRAMPOLINE 1 False) (\<lambda>s.
     kbind (uvmunmap s pt TRAPFRAME 1 False) (\<lambda>s.
     uvmfree FREEWALK_DEPTH s pt sz))"

definition freeproc :: "nat \<Rightarrow> 'a ktrap_scheme \<Rightarrow> 'a ktrap_scheme kres" where
  "freeproc p s =
     kbind (if trapframe (procs s ! p) \<noteq> 0 then kfree s (trapframe (procs s ! p)) else Inr s) (\<lambda>s.
     let s = upd_proc p (\<lambda>x. x\<lparr>trapframe := 0\<rparr>) s in
     kbind (if pagetable (procs s ! p) \<noteq> 0 then proc_freepagetable (pagetable (procs s ! p)) (psz (procs s ! p)) s
            else Inr s) (\<lambda>s.
     Inr (upd_proc p (\<lambda>x. x\<lparr>pagetable := 0, psz := 0, pid := 0, parent := None, pname := [], pchan := None, pkilled := 0,
            xstate := 0, pstate := UNUSED\<rparr>) s)))"

definition allocproc :: "'a ktrap_scheme \<Rightarrow> (nat option \<times> 'a ktrap_scheme) kres" where
  "allocproc s =
     (case find (\<lambda>p. pstate (procs s ! p) = UNUSED) [0..<length (procs s)] of
        None \<Rightarrow> Inr (None, s)
      | Some p \<Rightarrow>
          let (n, s) = allocpid s; s = upd_proc p (\<lambda>x. x\<lparr>pid := n, pstate := USED\<rparr>) s in
          kbind (kalloc s) (\<lambda>(tf, s).
          let s = upd_proc p (\<lambda>x. x\<lparr>trapframe := tf\<rparr>) s in
          if tf = 0 then kbind (freeproc p s) (\<lambda>s. Inr (None, s))
          else
            kbind (proc_pagetable p s) (\<lambda>(pt, s).
            let s = upd_proc p (\<lambda>x. x\<lparr>pagetable := pt\<rparr>) s in
            if pt = 0 then kbind (freeproc p s) (\<lambda>s. Inr (None, s))
            else
              Inr (Some p, upd_proc p (\<lambda>x. x\<lparr>pcontext :=
                \<lparr>ctx_ra = forkret_addr (syms s), ctx_sp = kstack x + PGSIZE, ctx_s = replicate 12 0\<rparr>\<rparr>) s))))"

section \<open>The first process\<close>

definition initcode :: "u8 list" where
  "initcode =
     [0x17, 0x05, 0x00, 0x00, 0x13, 0x05, 0x45, 0x02,
      0x97, 0x05, 0x00, 0x00, 0x93, 0x85, 0x35, 0x02,
      0x93, 0x08, 0x70, 0x00, 0x73, 0x00, 0x00, 0x00,
      0x93, 0x08, 0x20, 0x00, 0x73, 0x00, 0x00, 0x00,
      0xef, 0xf0, 0x9f, 0xff, 0x2f, 0x69, 0x6e, 0x69,
      0x74, 0x00, 0x00, 0x24, 0x00, 0x00, 0x00, 0x00,
      0x00, 0x00, 0x00, 0x00]"

text \<open>The string that \<open>safestrcpy\<close> leaves in an array of \<open>n\<close> bytes.\<close>

definition cut_name :: "nat \<Rightarrow> u8 list \<Rightarrow> u8 list" where
  "cut_name n cs = take (n - 1) cs"

definition userinit :: "'a ktrap_scheme \<Rightarrow> 'a ktrap_scheme kres" where
  "userinit s =
     kbind (allocproc s) (\<lambda>(r, s).
     let s = s\<lparr>initproc := r\<rparr> in
     case r of None \<Rightarrow> Inl (PageFault 0)
     | Some p \<Rightarrow>
         kbind (uvmfirst s (pagetable (procs s ! p)) initcode) (\<lambda>s.
         let s = upd_proc p (\<lambda>x. x\<lparr>psz := PGSIZE\<rparr>) s in
         kbind (tf_set p tf_epc 0 s) (\<lambda>s.
         kbind (tf_set p tf_sp PGSIZE s) (\<lambda>s.
         let s = upd_proc p (\<lambda>x. x\<lparr>pname := cut_name 16 (str ''initcode'')\<rparr>) s in
         kbind (namei [slash] s) (\<lambda>(ip, s).
         Inr (upd_proc p (\<lambda>x. x\<lparr>cwd := ip, pstate := RUNNABLE\<rparr>) s))))))"

section \<open>Growing, forking\<close>

definition growproc :: "int \<Rightarrow> 'a kproc_scheme \<Rightarrow> (int \<times> 'a kproc_scheme) kres" where
  "growproc n s =
     kbind (curproc s) (\<lambda>p.
     let sz = psz (procs s ! p); pt = pagetable (procs s ! p) in
     if n > 0 then
       kbind (uvmalloc s pt sz (sz + word_of_int n) PTE_W) (\<lambda>(sz, s).
       if sz = 0 then Inr (-1, s) else Inr (0, upd_proc p (\<lambda>x. x\<lparr>psz := sz\<rparr>) s))
     else if n < 0 then
       kbind (uvmdealloc s pt sz (sz + word_of_int n)) (\<lambda>(sz, s).
       Inr (0, upd_proc p (\<lambda>x. x\<lparr>psz := sz\<rparr>) s))
     else Inr (0, upd_proc p (\<lambda>x. x\<lparr>psz := sz\<rparr>) s))"

text \<open>The loop of \<open>fork\<close> over the descriptors, from \<open>i\<close> on.\<close>

fun fork_files :: "nat \<Rightarrow> nat \<Rightarrow> nat \<Rightarrow> nat \<Rightarrow> 'a kfile_scheme \<Rightarrow> 'a kfile_scheme kres" where
  "fork_files p np i 0 s = Inr s"
| "fork_files p np i (Suc k) s =
     kbind (case ofile (procs s ! p) ! i of
              None \<Rightarrow> Inr s
            | Some f \<Rightarrow> kbind (filedup f s) (\<lambda>(f, s). Inr (upd_proc np (\<lambda>x. x\<lparr>ofile := (ofile x)[i := Some f]\<rparr>) s)))
       (fork_files p np (Suc i) k)"

definition fork :: "'a ktrap_scheme \<Rightarrow> (int \<times> 'a ktrap_scheme) kres" where
  "fork s =
     kbind (curproc s) (\<lambda>p.
     kbind (allocproc s) (\<lambda>(r, s).
     case r of None \<Rightarrow> Inr (-1, s)
     | Some np \<Rightarrow>
         kbind (uvmcopy s (pagetable (procs s ! p)) (pagetable (procs s ! np)) (psz (procs s ! p))) (\<lambda>(r, s).
         if r < 0 then kbind (freeproc np s) (\<lambda>s. Inr (-1, s))
         else
           let s = upd_proc np (\<lambda>x. x\<lparr>psz := psz (procs s ! p)\<rparr>) s in
           kbind (kget_bytes s (trapframe (procs s ! p)) sizeof_trapframe) (\<lambda>bs.
           kbind (kput_bytes s (trapframe (procs s ! np)) bs) (\<lambda>s.
           kbind (tf_set np tf_a0 0 s) (\<lambda>s.
           kbind (fork_files p np 0 NOFILE s) (\<lambda>s.
           case cwd (procs s ! p) of None \<Rightarrow> Inl (PageFault 8)
           | Some ip \<Rightarrow>
               let (ip, s) = idup ip s;
                   s = upd_proc np (\<lambda>x. x\<lparr>cwd := Some ip, pname := cut_name 16 (pname (procs s ! p))\<rparr>) s;
                   n = pid (procs s ! np);
                   s = upd_proc np (\<lambda>x. x\<lparr>parent := Some p\<rparr>) s
               in Inr (n, upd_proc np (\<lambda>x. x\<lparr>pstate := RUNNABLE\<rparr>) s))))))))"

section \<open>Exit and wait\<close>

fun reparent_from :: "nat \<Rightarrow> nat \<Rightarrow> nat \<Rightarrow> 'a kproc_scheme \<Rightarrow> 'a kproc_scheme" where
  "reparent_from p i 0 s = s"
| "reparent_from p i (Suc k) s =
     reparent_from p (Suc i) k
       (if parent (procs s ! i) = Some p
        then let s = upd_proc i (\<lambda>x. x\<lparr>parent := initproc s\<rparr>) s in
             (case initproc s of None \<Rightarrow> s | Some q \<Rightarrow> wakeup (ChanProc q) s)
        else s)"

definition reparent :: "nat \<Rightarrow> 'a kproc_scheme \<Rightarrow> 'a kproc_scheme" where
  "reparent p s = reparent_from p 0 (length (procs s)) s"

fun exit_files :: "nat \<Rightarrow> nat \<Rightarrow> nat \<Rightarrow> 'a kfile_scheme \<Rightarrow> 'a kfile_scheme kres" where
  "exit_files p fd 0 s = Inr s"
| "exit_files p fd (Suc k) s =
     kbind (case ofile (procs s ! p) ! fd of
              None \<Rightarrow> Inr s
            | Some f \<Rightarrow> kbind (fileclose f s) (\<lambda>s. Inr (upd_proc p (\<lambda>x. x\<lparr>ofile := (ofile x)[fd := None]\<rparr>) s)))
       (exit_files p (Suc fd) k)"

text \<open>
  The hart belongs to the scheduler afterwards. No process sleeps on the null channel, so waking the sleepers on the
  parent of a process without one does nothing.
\<close>

definition exit :: "int \<Rightarrow> 'a kfile_scheme \<Rightarrow> 'a kfile_scheme kres" where
  "exit status s =
     kbind (curproc s) (\<lambda>p.
     if Some p = initproc s then Inl (Panic ''init exiting'')
     else
       kbind (exit_files p 0 NOFILE s) (\<lambda>s.
       kbind (begin_op s) (\<lambda>s.
       kbind (case cwd (procs s ! p) of None \<Rightarrow> Inl (PageFault 8) | Some ip \<Rightarrow> iput ip s) (\<lambda>s.
       kbind (end_op s) (\<lambda>s.
       let s = upd_proc p (\<lambda>x. x\<lparr>cwd := None\<rparr>) s;
           s = reparent p s;
           s = (case parent (procs s ! p) of None \<Rightarrow> s | Some q \<Rightarrow> wakeup (ChanProc q) s)
       in sched (upd_proc p (\<lambda>x. x\<lparr>xstate := status, pstate := ZOMBIE\<rparr>) s))))))"

text \<open>One scan of the table by \<open>wait\<close>; it is repeated after each wakeup.\<close>

fun wait_scan :: "nat \<Rightarrow> u64 \<Rightarrow> bool \<Rightarrow> nat \<Rightarrow> nat \<Rightarrow> 'a ktrap_scheme \<Rightarrow> (outcome \<times> 'a ktrap_scheme) kres" where
  "wait_scan p addr havekids i 0 s =
     (if \<not> havekids \<or> killed p s \<noteq> 0 then Inr (Done (-1), s) else Inr (Blocked (ChanProc p) 0, s))"
| "wait_scan p addr havekids i (Suc k) s =
     (if parent (procs s ! i) = Some p then
        if pstate (procs s ! i) = ZOMBIE then
          let n = pid (procs s ! i) in
          kbind (if addr \<noteq> 0 then copyout s (pagetable (procs s ! p)) addr (le_bytes 4 (of_int32 (xstate (procs s ! i))))
                 else Inr (0, s)) (\<lambda>(r, s).
          if r < 0 then Inr (Done (-1), s)
          else kbind (freeproc i s) (\<lambda>s. Inr (Done n, s)))
        else wait_scan p addr True (Suc i) k s
      else wait_scan p addr havekids (Suc i) k s)"

definition wait :: "u64 \<Rightarrow> 'a ktrap_scheme \<Rightarrow> (outcome \<times> 'a ktrap_scheme) kres" where
  "wait addr s = kbind (curproc s) (\<lambda>p. wait_scan p addr False 0 (length (procs s)) s)"

section \<open>Listing the processes\<close>

definition state_name :: "procstate \<Rightarrow> u8 list" where
  "state_name st = (case st of UNUSED \<Rightarrow> str ''unused'' | USED \<Rightarrow> str ''used'' | SLEEPING \<Rightarrow> str ''sleep ''
     | RUNNABLE \<Rightarrow> str ''runble'' | RUNNING \<Rightarrow> str ''run   '' | ZOMBIE \<Rightarrow> str ''zombie'')"

fun procdump_from :: "proc list \<Rightarrow> 'a kdev_scheme \<Rightarrow> 'a kdev_scheme kres" where
  "procdump_from [] s = Inr s"
| "procdump_from (p # ps) s =
     (if pstate p = UNUSED then procdump_from ps s
      else
        kbind (printf (str ''%d %s %s'') [AInt (pid p), AStr (Some (state_name (pstate p))), AStr (Some (pname p))] s) (\<lambda>s.
        kbind (printf [10] [] s) (procdump_from ps)))"

definition procdump :: "'a kdev_scheme \<Rightarrow> 'a kdev_scheme kres" where
  "procdump s = kbind (printf [10] [] s) (procdump_from (procs s))"

end
