(* ===== verification/Exec.thy ===== *)
theory Exec
  imports Process
begin

text \<open>
  Loading a program (\<open>exec.c\<close>). The headers of an ELF file (\<open>elf.h\<close>) are parsed from the bytes that \<open>readi\<close> delivers.
  The argument vector is the list of its strings; the caller ends it with a null pointer.
\<close>

abbreviation MAXARG :: nat where "MAXARG \<equiv> 32"
abbreviation ELF_MAGIC :: nat where "ELF_MAGIC \<equiv> 0x464C457F"
abbreviation ELF_PROG_LOAD :: nat where "ELF_PROG_LOAD \<equiv> 1"

section \<open>Headers\<close>

fun le_nat :: "u8 list \<Rightarrow> nat" where
  "le_nat [] = 0"
| "le_nat (b # bs) = unat b + 256 * le_nat bs"

definition le_field :: "u8 list \<Rightarrow> nat \<Rightarrow> nat \<Rightarrow> nat" where
  "le_field bs off n = le_nat (take n (drop off bs))"

record elfhdr =
  e_magic :: nat
  e_type :: nat
  e_machine :: nat
  e_version :: nat
  e_entry :: u64
  e_phoff :: u64
  e_shoff :: u64
  e_flags :: nat
  e_ehsize :: nat
  e_phentsize :: nat
  e_phnum :: nat
  e_shentsize :: nat
  e_shnum :: nat
  e_shstrndx :: nat

record proghdr =
  p_type :: nat
  p_flags :: nat
  p_off :: u64
  p_vaddr :: u64
  p_paddr :: u64
  p_filesz :: u64
  p_memsz :: u64
  p_align :: u64

abbreviation sizeof_elfhdr :: nat where "sizeof_elfhdr \<equiv> 64"
abbreviation sizeof_proghdr :: nat where "sizeof_proghdr \<equiv> 56"

definition get_elfhdr :: "u8 list \<Rightarrow> elfhdr" where
  "get_elfhdr bs =
     \<lparr>e_magic = le_field bs 0 4, e_type = le_field bs 16 2, e_machine = le_field bs 18 2, e_version = le_field bs 20 4,
      e_entry = of_nat (le_field bs 24 8), e_phoff = of_nat (le_field bs 32 8), e_shoff = of_nat (le_field bs 40 8),
      e_flags = le_field bs 48 4, e_ehsize = le_field bs 52 2, e_phentsize = le_field bs 54 2, e_phnum = le_field bs 56 2,
      e_shentsize = le_field bs 58 2, e_shnum = le_field bs 60 2, e_shstrndx = le_field bs 62 2\<rparr>"

definition get_proghdr :: "u8 list \<Rightarrow> proghdr" where
  "get_proghdr bs =
     \<lparr>p_type = le_field bs 0 4, p_flags = le_field bs 4 4, p_off = of_nat (le_field bs 8 8), p_vaddr = of_nat (le_field bs 16 8),
      p_paddr = of_nat (le_field bs 24 8), p_filesz = of_nat (le_field bs 32 8), p_memsz = of_nat (le_field bs 40 8),
      p_align = of_nat (le_field bs 48 8)\<rparr>"

definition kern_bytes :: "uaddr \<Rightarrow> u8 list" where
  "kern_bytes d = (case d of Kern bs \<Rightarrow> bs | User _ \<Rightarrow> [])"

section \<open>Loading the segments\<close>

definition flags2perm :: "nat \<Rightarrow> u64" where
  "flags2perm flags = (if bit flags 0 then PTE_X else 0) OR (if bit flags 1 then PTE_W else 0)"

text \<open>
  A segment has far fewer bytes than \<open>2\<^sup>3\<^sup>2\<close>, as all of it is mapped, so that the counter \<open>i\<close> does not wrap around. What
  \<open>readi\<close> has read goes to the page, also when that is less than asked for.
\<close>

function loadseg_from :: "u64 \<Rightarrow> u64 \<Rightarrow> nat \<Rightarrow> nat \<Rightarrow> nat \<Rightarrow> nat \<Rightarrow> 'a ktrap_scheme \<Rightarrow> (int \<times> 'a ktrap_scheme) kres" where
  "loadseg_from pt va ip offset sz i s =
     (if i < sz then
        kbind (walkaddr s pt (va + of_nat i)) (\<lambda>pa.
        if pa = 0 then Inl (Panic ''loadseg: address should exist'')
        else
          let n = (if sz - i < 4096 then sz - i else 4096) in
          kbind (readi ip (Kern []) ((offset + i) mod 4294967296) n s) (\<lambda>(r, dst, s).
          kbind (kput_bytes s pa (kern_bytes dst)) (\<lambda>s.
          if r \<noteq> int n then Inr (-1, s) else loadseg_from pt va ip offset sz (i + 4096) s)))
      else Inr (0, s))"
  by pat_completeness auto
termination by (relation "measure (\<lambda>(pt, va, ip, offset, sz, i, s). sz - i)") auto

declare loadseg_from.simps [simp del]

definition loadseg :: "u64 \<Rightarrow> u64 \<Rightarrow> nat \<Rightarrow> nat \<Rightarrow> nat \<Rightarrow> 'a ktrap_scheme \<Rightarrow> (int \<times> 'a ktrap_scheme) kres" where
  "loadseg pt va ip offset sz s = loadseg_from pt va ip offset sz 0 s"

text \<open>
  The loop over the program headers, with \<open>k\<close> of them left. It gives whether it came to the end, and the size reached. The
  file offset and size of a segment are cut to the 32 bits of the parameters of \<open>loadseg\<close>.
\<close>

fun load_segments :: "u64 \<Rightarrow> nat \<Rightarrow> int \<Rightarrow> nat \<Rightarrow> u64 \<Rightarrow> 'a ktrap_scheme \<Rightarrow> (bool \<times> u64 \<times> 'a ktrap_scheme) kres" where
  "load_segments pt ip off 0 sz s = Inr (True, sz, s)"
| "load_segments pt ip off (Suc k) sz s =
     kbind (readi ip (Kern []) (of_int32 off) sizeof_proghdr s) (\<lambda>(r, dst, s).
     let ph = get_proghdr (kern_bytes dst) in
     if r \<noteq> int sizeof_proghdr then Inr (False, sz, s)
     else if p_type ph \<noteq> ELF_PROG_LOAD then load_segments pt ip (wrap32 (off + int sizeof_proghdr)) k sz s
     else if p_memsz ph < p_filesz ph then Inr (False, sz, s)
     else if p_vaddr ph + p_memsz ph < p_vaddr ph then Inr (False, sz, s)
     else if p_vaddr ph mod PGSIZE \<noteq> 0 then Inr (False, sz, s)
     else
       kbind (uvmalloc s pt sz (p_vaddr ph + p_memsz ph) (flags2perm (p_flags ph))) (\<lambda>(sz1, s).
       if sz1 = 0 then Inr (False, sz, s)
       else
         kbind (loadseg pt (p_vaddr ph) ip (unat (p_off ph) mod 4294967296) (unat (p_filesz ph) mod 4294967296) s) (\<lambda>(r, s).
         if r < 0 then Inr (False, sz1, s)
         else load_segments pt ip (wrap32 (off + int sizeof_proghdr)) k sz1 s)))"

section \<open>The new stack\<close>

text \<open>Pushing the argument strings; \<open>ustack\<close> collects their addresses.\<close>

fun push_args :: "u64 \<Rightarrow> u64 \<Rightarrow> u64 \<Rightarrow> u64 list \<Rightarrow> u8 list list \<Rightarrow> 'a ktrap_scheme \<Rightarrow> (bool \<times> u64 \<times> u64 list \<times> 'a ktrap_scheme) kres" where
  "push_args pt stackbase sp ustack [] s = Inr (True, sp, ustack, s)"
| "push_args pt stackbase sp ustack (a # argv) s =
     (if length ustack \<ge> MAXARG then Inr (False, sp, ustack, s)
      else
        let sp = sp - of_nat (length a + 1);
            sp = sp - sp mod 16
        in
        if sp < stackbase then Inr (False, sp, ustack, s)
        else
          kbind (copyout s pt sp (a @ [0])) (\<lambda>(r, s).
          if r < 0 then Inr (False, sp, ustack, s)
          else push_args pt stackbase sp (ustack @ [sp]) argv s))"

text \<open>The end of \<open>path\<close> after its last slash.\<close>

fun last_elem :: "u8 list \<Rightarrow> u8 list \<Rightarrow> u8 list" where
  "last_elem l [] = l"
| "last_elem l (c # cs) = last_elem (if c = slash then cs else l) cs"

text \<open>Giving up: the page table built so far is freed, the inode put.\<close>

definition exec_bad :: "u64 \<Rightarrow> u64 \<Rightarrow> nat option \<Rightarrow> 'a ktrap_scheme \<Rightarrow> (int \<times> 'a ktrap_scheme) kres" where
  "exec_bad pt sz ip s =
     kbind (if pt \<noteq> 0 then proc_freepagetable pt sz s else Inr s) (\<lambda>s.
     kbind (case ip of None \<Rightarrow> Inr s | Some ip \<Rightarrow> kbind (iunlockput ip s) end_op) (\<lambda>s.
     Inr (-1, s)))"

text \<open>The second half of \<open>exec\<close>: the stack, and the switch to the new image.\<close>

definition exec_image :: "nat \<Rightarrow> u8 list \<Rightarrow> u8 list list \<Rightarrow> u64 \<Rightarrow> u64 \<Rightarrow> u64 \<Rightarrow> 'a ktrap_scheme \<Rightarrow> (int \<times> 'a ktrap_scheme) kres" where
  "exec_image p pth argv pt entry sz s =
     (let oldsz = psz (procs s ! p); sz = PGROUNDUP sz in
      kbind (uvmalloc s pt sz (sz + 2 * PGSIZE) PTE_W) (\<lambda>(sz1, s).
      if sz1 = 0 then exec_bad pt sz None s
      else
        let sz = sz1 in
        kbind (uvmclear s pt (sz - 2 * PGSIZE)) (\<lambda>s.
        let stackbase = sz - PGSIZE in
        kbind (push_args pt stackbase sz [] argv s) (\<lambda>(ok, sp, ustack, s).
        if \<not> ok then exec_bad pt sz None s
        else
          let argc = length ustack;
              sp = sp - of_nat ((argc + 1) * 8);
              sp = sp - sp mod 16
          in
          if sp < stackbase then exec_bad pt sz None s
          else
            kbind (copyout s pt sp (concat (map (\<lambda>a. le_bytes 8 (unat a)) (ustack @ [0])))) (\<lambda>(r, s).
            if r < 0 then exec_bad pt sz None s
            else
              kbind (tf_set p tf_a1 sp s) (\<lambda>s.
              let s = upd_proc p (\<lambda>x. x\<lparr>pname := cut_name 16 (last_elem pth pth)\<rparr>) s;
                  oldpagetable = pagetable (procs s ! p);
                  s = upd_proc p (\<lambda>x. x\<lparr>pagetable := pt, psz := sz\<rparr>) s
              in
              kbind (tf_set p tf_epc entry s) (\<lambda>s.
              kbind (tf_set p tf_sp sp s) (\<lambda>s.
              kbind (proc_freepagetable oldpagetable oldsz s) (\<lambda>s.
              Inr (int argc, s))))))))))"

definition exec :: "u8 list \<Rightarrow> u8 list list \<Rightarrow> 'a ktrap_scheme \<Rightarrow> (int \<times> 'a ktrap_scheme) kres" where
  "exec pth argv s =
     kbind (curproc s) (\<lambda>p.
     kbind (begin_op s) (\<lambda>s.
     kbind (namei pth s) (\<lambda>(r, s).
     case r of None \<Rightarrow> kbind (end_op s) (\<lambda>s. Inr (-1, s))
     | Some ip \<Rightarrow>
         kbind (ilock ip s) (\<lambda>s.
         kbind (readi ip (Kern []) 0 sizeof_elfhdr s) (\<lambda>(r, dst, s).
         let elf = get_elfhdr (kern_bytes dst) in
         if r \<noteq> int sizeof_elfhdr then exec_bad 0 0 (Some ip) s
         else if e_magic elf \<noteq> ELF_MAGIC then exec_bad 0 0 (Some ip) s
         else
           kbind (proc_pagetable p s) (\<lambda>(pt, s).
           if pt = 0 then exec_bad 0 0 (Some ip) s
           else
             kbind (load_segments pt ip (wrap32 (uint (e_phoff elf))) (e_phnum elf) 0 s) (\<lambda>(ok, sz, s).
             if \<not> ok then exec_bad pt sz (Some ip) s
             else
               kbind (iunlockput ip s) (\<lambda>s.
               kbind (end_op s) (\<lambda>s.
               exec_image p pth argv pt (e_entry elf) sz s)))))))))"

end
