(* ===== verification/Sysfile.thy ===== *)
theory Sysfile
  imports Exec
begin

text \<open>
  The arguments of system calls (\<open>syscall.c\<close>) and the system calls on files (\<open>sysfile.c\<close>). A call that has to wait in the
  middle of its work is \<open>Blocked\<close>; one that would wait for the log, a buffer or an inode is an \<open>Inl (Sleeps ..)\<close> like every
  other call of the file system.
\<close>

abbreviation MAXPATH :: nat where "MAXPATH \<equiv> 128"
abbreviation (input) O_RDONLY :: int where "O_RDONLY \<equiv> 0"
abbreviation (input) O_WRONLY :: int where "O_WRONLY \<equiv> 1"
abbreviation (input) O_RDWR :: int where "O_RDWR \<equiv> 2"
abbreviation (input) O_CREATE :: int where "O_CREATE \<equiv> 0x200"
abbreviation (input) O_TRUNC :: int where "O_TRUNC \<equiv> 0x400"

section \<open>Arguments\<close>

text \<open>The \<open>uint64\<close> at an address of the current process, and whether it could be read.\<close>

definition fetchaddr :: "u64 \<Rightarrow> 'a kproc_scheme \<Rightarrow> (int \<times> u64) kres" where
  "fetchaddr addr s =
     kbind (curproc s) (\<lambda>p.
     let sz = psz (procs s ! p) in
     if addr \<ge> sz \<or> addr + 8 > sz then Inr (-1, 0)
     else
       kbind (copyin s (pagetable (procs s ! p)) addr 8) (\<lambda>(r, bs).
       if r \<noteq> 0 then Inr (-1, 0) else Inr (0, of_nat (le_nat bs))))"

text \<open>The string at an address of the current process, and its length or -1.\<close>

definition fetchstr :: "u64 \<Rightarrow> nat \<Rightarrow> 'a kproc_scheme \<Rightarrow> (int \<times> u8 list) kres" where
  "fetchstr addr mx s =
     kbind (curproc s) (\<lambda>p.
     kbind (copyinstr s (pagetable (procs s ! p)) addr mx) (\<lambda>(r, bs).
     if r < 0 then Inr (-1, [])
     else let cs = takeWhile (\<lambda>c. c \<noteq> 0) bs in Inr (int (length cs), cs)))"

definition argraw :: "nat \<Rightarrow> 'a kproc_scheme \<Rightarrow> u64 kres" where
  "argraw n s =
     kbind (curproc s) (\<lambda>p.
     if n \<le> 5 then tf_get p (tf_a0 + 8 * of_nat n) s else Inl (Panic ''argraw''))"

definition argint :: "nat \<Rightarrow> 'a kproc_scheme \<Rightarrow> int kres" where
  "argint n s = kbind (argraw n s) (\<lambda>v. Inr (wrap32 (uint v)))"

definition argaddr :: "nat \<Rightarrow> 'a kproc_scheme \<Rightarrow> u64 kres" where
  "argaddr n s = argraw n s"

definition argstr :: "nat \<Rightarrow> nat \<Rightarrow> 'a kproc_scheme \<Rightarrow> (int \<times> u8 list) kres" where
  "argstr n mx s = kbind (argaddr n s) (\<lambda>addr. fetchstr addr mx s)"

text \<open>The descriptor and the open file, if the argument is an open descriptor.\<close>

definition argfd :: "nat \<Rightarrow> 'a kproc_scheme \<Rightarrow> (nat \<times> nat) option kres" where
  "argfd n s =
     kbind (argint n s) (\<lambda>fd.
     if fd < 0 \<or> fd \<ge> int NOFILE then Inr None
     else
       kbind (curproc s) (\<lambda>p.
       case ofile (procs s ! p) ! nat fd of None \<Rightarrow> Inr None | Some f \<Rightarrow> Inr (Some (nat fd, f))))"

definition fdalloc :: "nat \<Rightarrow> 'a kproc_scheme \<Rightarrow> (int \<times> 'a kproc_scheme) kres" where
  "fdalloc f s =
     kbind (curproc s) (\<lambda>p.
     case find (\<lambda>fd. ofile (procs s ! p) ! fd = None) [0..<NOFILE] of
       None \<Rightarrow> Inr (-1, s)
     | Some fd \<Rightarrow> Inr (int fd, upd_proc p (\<lambda>x. x\<lparr>ofile := (ofile x)[fd := Some f]\<rparr>) s))"

section \<open>Descriptors\<close>

definition sys_dup :: "'a kfile_scheme \<Rightarrow> (int \<times> 'a kfile_scheme) kres" where
  "sys_dup s =
     kbind (argfd 0 s) (\<lambda>a.
     case a of None \<Rightarrow> Inr (-1, s)
     | Some (_, f) \<Rightarrow>
         kbind (fdalloc f s) (\<lambda>(fd, s).
         if fd < 0 then Inr (-1, s)
         else kbind (filedup f s) (\<lambda>(_, s). Inr (fd, s))))"

definition sys_read :: "'a kfile_scheme \<Rightarrow> (outcome \<times> 'a kfile_scheme) kres" where
  "sys_read s =
     kbind (argaddr 1 s) (\<lambda>p.
     kbind (argint 2 s) (\<lambda>n.
     kbind (argfd 0 s) (\<lambda>a.
     case a of None \<Rightarrow> Inr (Done (-1), s)
     | Some (_, f) \<Rightarrow> fileread f p n s)))"

definition sys_write :: "'a kfile_scheme \<Rightarrow> (outcome \<times> 'a kfile_scheme) kres" where
  "sys_write s =
     kbind (argaddr 1 s) (\<lambda>p.
     kbind (argint 2 s) (\<lambda>n.
     kbind (argfd 0 s) (\<lambda>a.
     case a of None \<Rightarrow> Inr (Done (-1), s)
     | Some (_, f) \<Rightarrow> filewrite f p n s)))"

definition sys_close :: "'a kfile_scheme \<Rightarrow> (int \<times> 'a kfile_scheme) kres" where
  "sys_close s =
     kbind (argfd 0 s) (\<lambda>a.
     case a of None \<Rightarrow> Inr (-1, s)
     | Some (fd, f) \<Rightarrow>
         kbind (curproc s) (\<lambda>p.
         kbind (fileclose f (upd_proc p (\<lambda>x. x\<lparr>ofile := (ofile x)[fd := None]\<rparr>) s)) (\<lambda>s.
         Inr (0, s))))"

definition sys_fstat :: "'a ktrap_scheme \<Rightarrow> (int \<times> 'a ktrap_scheme) kres" where
  "sys_fstat s =
     kbind (argaddr 1 s) (\<lambda>st.
     kbind (argfd 0 s) (\<lambda>a.
     case a of None \<Rightarrow> Inr (-1, s)
     | Some (_, f) \<Rightarrow> filestat (junk s) f st s))"

section \<open>Links\<close>

text \<open>A link count is a \<open>short\<close>.\<close>

definition add_nlink :: "int \<Rightarrow> inode \<Rightarrow> inode" where
  "add_nlink k i = i\<lparr>inlink := short_of (of_short (inlink i + k))\<rparr>"

definition sys_link_bad :: "nat \<Rightarrow> 'a kfs_scheme \<Rightarrow> (int \<times> 'a kfs_scheme) kres" where
  "sys_link_bad ip s =
     kbind (ilock ip s) (\<lambda>s.
     kbind (iupdate ip (upd_inode ip (add_nlink (-1)) s)) (\<lambda>s.
     kbind (iunlockput ip s) (\<lambda>s.
     kbind (end_op s) (\<lambda>s.
     Inr (-1, s)))))"

definition sys_link :: "'a kfs_scheme \<Rightarrow> (int \<times> 'a kfs_scheme) kres" where
  "sys_link s =
     kbind (argstr 0 MAXPATH s) (\<lambda>(r, old).
     if r < 0 then Inr (-1, s)
     else kbind (argstr 1 MAXPATH s) (\<lambda>(r, new).
     if r < 0 then Inr (-1, s)
     else kbind (begin_op s) (\<lambda>s.
     kbind (namei old s) (\<lambda>(ip, s).
     case ip of None \<Rightarrow> kbind (end_op s) (\<lambda>s. Inr (-1, s))
     | Some ip \<Rightarrow>
         kbind (ilock ip s) (\<lambda>s.
         if itype (itable s ip) = T_DIR then
           kbind (iunlockput ip s) (\<lambda>s. kbind (end_op s) (\<lambda>s. Inr (-1, s)))
         else
           kbind (iupdate ip (upd_inode ip (add_nlink 1) s)) (\<lambda>s.
           kbind (iunlock ip s) (\<lambda>s.
           kbind (nameiparent new s) (\<lambda>(dp, name, s).
           case dp of None \<Rightarrow> sys_link_bad ip s
           | Some dp \<Rightarrow>
               kbind (ilock dp s) (\<lambda>s.
               kbind (if idev (itable s dp) \<noteq> idev (itable s ip) then Inr (-1, s)
                      else dirlink dp name (inum (itable s ip)) s) (\<lambda>(r, s).
               if r < 0 then kbind (iunlockput dp s) (sys_link_bad ip)
               else
                 kbind (iunlockput dp s) (\<lambda>s.
                 kbind (iput ip s) (\<lambda>s.
                 kbind (end_op s) (\<lambda>s.
                 Inr (0, s))))))))))))))"

function isdirempty_from :: "nat \<Rightarrow> nat \<Rightarrow> nat \<Rightarrow> 'a kfs_scheme \<Rightarrow> (bool \<times> 'a kfs_scheme) kres" where
  "isdirempty_from dp sz off s =
     (if off < sz then
        kbind (read_dirent dp off ''isdirempty: readi'' s) (\<lambda>(de, s).
        if de_inum de \<noteq> 0 then Inr (False, s) else isdirempty_from dp sz (off + sizeof_dirent) s)
      else Inr (True, s))"
  by pat_completeness auto
termination by (relation "measure (\<lambda>(dp, sz, off, s). sz - off)") auto

declare isdirempty_from.simps [simp del]

definition isdirempty :: "nat \<Rightarrow> 'a kfs_scheme \<Rightarrow> (bool \<times> 'a kfs_scheme) kres" where
  "isdirempty dp s = isdirempty_from dp (isize (itable s dp)) (2 * sizeof_dirent) s"

definition sys_unlink_bad :: "nat \<Rightarrow> 'a kfs_scheme \<Rightarrow> (int \<times> 'a kfs_scheme) kres" where
  "sys_unlink_bad dp s = kbind (iunlockput dp s) (\<lambda>s. kbind (end_op s) (\<lambda>s. Inr (-1, s)))"

definition sys_unlink :: "'a kfs_scheme \<Rightarrow> (int \<times> 'a kfs_scheme) kres" where
  "sys_unlink s =
     kbind (argstr 0 MAXPATH s) (\<lambda>(r, pth).
     if r < 0 then Inr (-1, s)
     else kbind (begin_op s) (\<lambda>s.
     kbind (nameiparent pth s) (\<lambda>(dp, name, s).
     case dp of None \<Rightarrow> kbind (end_op s) (\<lambda>s. Inr (-1, s))
     | Some dp \<Rightarrow>
         kbind (ilock dp s) (\<lambda>s.
         if namecmp name (str ''.'') = 0 \<or> namecmp name (str ''..'') = 0 then sys_unlink_bad dp s
         else
           kbind (dirlookup dp name s) (\<lambda>(r, s).
           case r of None \<Rightarrow> sys_unlink_bad dp s
           | Some (ip, off) \<Rightarrow>
               kbind (ilock ip s) (\<lambda>s.
               if inlink (itable s ip) < 1 then Inl (Panic ''unlink: nlink < 1'')
               else
                 kbind (if itype (itable s ip) = T_DIR then isdirempty ip s else Inr (True, s)) (\<lambda>(emp, s).
                 if \<not> emp then kbind (iunlockput ip s) (sys_unlink_bad dp)
                 else
                   kbind (writei dp (Kern (replicate sizeof_dirent 0)) off sizeof_dirent s) (\<lambda>(r, s).
                   if r \<noteq> int sizeof_dirent then Inl (Panic ''unlink: writei'')
                   else
                     kbind (if itype (itable s ip) = T_DIR then iupdate dp (upd_inode dp (add_nlink (-1)) s) else Inr s) (\<lambda>s.
                     kbind (iunlockput dp s) (\<lambda>s.
                     kbind (iupdate ip (upd_inode ip (add_nlink (-1)) s)) (\<lambda>s.
                     kbind (iunlockput ip s) (\<lambda>s.
                     kbind (end_op s) (\<lambda>s.
                     Inr (0, s))))))))))))))"

section \<open>Creating and opening\<close>

definition create_fail :: "nat \<Rightarrow> nat \<Rightarrow> 'a kfs_scheme \<Rightarrow> (nat option \<times> 'a kfs_scheme) kres" where
  "create_fail dp ip s =
     kbind (iupdate ip (upd_inode ip (\<lambda>i. i\<lparr>inlink := 0\<rparr>) s)) (\<lambda>s.
     kbind (iunlockput ip s) (\<lambda>s.
     kbind (iunlockput dp s) (\<lambda>s.
     Inr (None, s))))"

definition create :: "u8 list \<Rightarrow> int \<Rightarrow> int \<Rightarrow> int \<Rightarrow> 'a kfs_scheme \<Rightarrow> (nat option \<times> 'a kfs_scheme) kres" where
  "create pth type major minor s =
     kbind (nameiparent pth s) (\<lambda>(dp, name, s).
     case dp of None \<Rightarrow> Inr (None, s)
     | Some dp \<Rightarrow>
         kbind (ilock dp s) (\<lambda>s.
         kbind (dirlookup dp name s) (\<lambda>(r, s).
         case r of
           Some (ip, _) \<Rightarrow>
             kbind (iunlockput dp s) (\<lambda>s.
             kbind (ilock ip s) (\<lambda>s.
             if type = T_FILE \<and> (itype (itable s ip) = T_FILE \<or> itype (itable s ip) = T_DEVICE) then Inr (Some ip, s)
             else kbind (iunlockput ip s) (\<lambda>s. Inr (None, s))))
         | None \<Rightarrow>
             kbind (ialloc (idev (itable s dp)) type s) (\<lambda>(r, s).
             case r of None \<Rightarrow> kbind (iunlockput dp s) (\<lambda>s. Inr (None, s))
             | Some ip \<Rightarrow>
                 kbind (ilock ip s) (\<lambda>s.
                 kbind (iupdate ip (upd_inode ip (\<lambda>i. i\<lparr>imajor := major, iminor := minor, inlink := 1\<rparr>) s)) (\<lambda>s.
                 kbind (if type = T_DIR then
                          kbind (dirlink ip (str ''.'') (inum (itable s ip)) s) (\<lambda>(r, s).
                          if r < 0 then Inr (r, s) else dirlink ip (str ''..'') (inum (itable s dp)) s)
                        else Inr (0, s)) (\<lambda>(r, s).
                 if r < 0 then create_fail dp ip s
                 else
                   kbind (dirlink dp name (inum (itable s ip)) s) (\<lambda>(r, s).
                   if r < 0 then create_fail dp ip s
                   else
                     kbind (if type = T_DIR then iupdate dp (upd_inode dp (add_nlink 1) s) else Inr s) (\<lambda>s.
                     kbind (iunlockput dp s) (\<lambda>s.
                     Inr (Some ip, s)))))))))))"

definition sys_open_bad :: "nat \<Rightarrow> 'a kfile_scheme \<Rightarrow> (int \<times> 'a kfile_scheme) kres" where
  "sys_open_bad ip s = kbind (iunlockput ip s) (\<lambda>s. kbind (end_op s) (\<lambda>s. Inr (-1, s)))"

text \<open>The second half of \<open>sys_open\<close>, with the inode locked.\<close>

definition open_inode :: "nat \<Rightarrow> int \<Rightarrow> 'a kfile_scheme \<Rightarrow> (int \<times> 'a kfile_scheme) kres" where
  "open_inode ip omode s =
     (if itype (itable s ip) = T_DEVICE \<and> (imajor (itable s ip) < 0 \<or> imajor (itable s ip) \<ge> NDEV) then sys_open_bad ip s
      else
        let (f, s) = filealloc s in
        case f of None \<Rightarrow> sys_open_bad ip s
        | Some f \<Rightarrow>
            kbind (fdalloc f s) (\<lambda>(fd, s).
            if fd < 0 then kbind (fileclose f s) (sys_open_bad ip)
            else
              let i = itable s ip;
                  s = (if itype i = T_DEVICE then upd_file f (\<lambda>x. x\<lparr>ftype := FD_DEVICE, fmajor := imajor i\<rparr>) s
                       else upd_file f (\<lambda>x. x\<lparr>ftype := FD_INODE, foff := 0\<rparr>) s);
                  s = upd_file f (\<lambda>x. x\<lparr>fip := ip, readable := (omode AND O_WRONLY = 0),
                        writable := (omode AND O_WRONLY \<noteq> 0 \<or> omode AND O_RDWR \<noteq> 0)\<rparr>) s
              in
              kbind (if omode AND O_TRUNC \<noteq> 0 \<and> itype (itable s ip) = T_FILE then itrunc ip s else Inr s) (\<lambda>s.
              kbind (iunlock ip s) (\<lambda>s.
              kbind (end_op s) (\<lambda>s.
              Inr (fd, s))))))"

definition sys_open :: "'a kfile_scheme \<Rightarrow> (int \<times> 'a kfile_scheme) kres" where
  "sys_open s =
     kbind (argint 1 s) (\<lambda>omode.
     kbind (argstr 0 MAXPATH s) (\<lambda>(n, pth).
     if n < 0 then Inr (-1, s)
     else kbind (begin_op s) (\<lambda>s.
     if omode AND O_CREATE \<noteq> 0 then
       kbind (create pth T_FILE 0 0 s) (\<lambda>(r, s).
       case r of None \<Rightarrow> kbind (end_op s) (\<lambda>s. Inr (-1, s)) | Some ip \<Rightarrow> open_inode ip omode s)
     else
       kbind (namei pth s) (\<lambda>(r, s).
       case r of None \<Rightarrow> kbind (end_op s) (\<lambda>s. Inr (-1, s))
       | Some ip \<Rightarrow>
           kbind (ilock ip s) (\<lambda>s.
           if itype (itable s ip) = T_DIR \<and> omode \<noteq> O_RDONLY then sys_open_bad ip s
           else open_inode ip omode s)))))"

definition sys_mkdir :: "'a kfs_scheme \<Rightarrow> (int \<times> 'a kfs_scheme) kres" where
  "sys_mkdir s =
     kbind (begin_op s) (\<lambda>s.
     kbind (argstr 0 MAXPATH s) (\<lambda>(n, pth).
     kbind (if n < 0 then Inr (None, s) else create pth T_DIR 0 0 s) (\<lambda>(r, s).
     case r of None \<Rightarrow> kbind (end_op s) (\<lambda>s. Inr (-1, s))
     | Some ip \<Rightarrow> kbind (iunlockput ip s) (\<lambda>s. kbind (end_op s) (\<lambda>s. Inr (0, s))))))"

text \<open>The device numbers are cut to \<open>short\<close>s when they are passed to \<open>create\<close>.\<close>

definition sys_mknod :: "'a kfs_scheme \<Rightarrow> (int \<times> 'a kfs_scheme) kres" where
  "sys_mknod s =
     kbind (begin_op s) (\<lambda>s.
     kbind (argint 1 s) (\<lambda>major.
     kbind (argint 2 s) (\<lambda>minor.
     kbind (argstr 0 MAXPATH s) (\<lambda>(n, pth).
     kbind (if n < 0 then Inr (None, s)
            else create pth T_DEVICE (short_of (of_short major)) (short_of (of_short minor)) s) (\<lambda>(r, s).
     case r of None \<Rightarrow> kbind (end_op s) (\<lambda>s. Inr (-1, s))
     | Some ip \<Rightarrow> kbind (iunlockput ip s) (\<lambda>s. kbind (end_op s) (\<lambda>s. Inr (0, s))))))))"

definition sys_chdir :: "'a kfs_scheme \<Rightarrow> (int \<times> 'a kfs_scheme) kres" where
  "sys_chdir s =
     kbind (curproc s) (\<lambda>p.
     kbind (begin_op s) (\<lambda>s.
     kbind (argstr 0 MAXPATH s) (\<lambda>(n, pth).
     kbind (if n < 0 then Inr (None, s) else namei pth s) (\<lambda>(r, s).
     case r of None \<Rightarrow> kbind (end_op s) (\<lambda>s. Inr (-1, s))
     | Some ip \<Rightarrow>
         kbind (ilock ip s) (\<lambda>s.
         if itype (itable s ip) \<noteq> T_DIR then
           kbind (iunlockput ip s) (\<lambda>s. kbind (end_op s) (\<lambda>s. Inr (-1, s)))
         else
           kbind (iunlock ip s) (\<lambda>s.
           kbind (case cwd (procs s ! p) of None \<Rightarrow> Inl (PageFault 8) | Some old \<Rightarrow> iput old s) (\<lambda>s.
           kbind (end_op s) (\<lambda>s.
           Inr (0, upd_proc p (\<lambda>x. x\<lparr>cwd := Some ip\<rparr>) s)))))))))"

section \<open>exec and pipe\<close>

text \<open>
  Fetching the argument vector, from argument \<open>i\<close> on: the pages allocated for the strings, the strings, and whether the end
  of the vector was reached.
\<close>

function exec_args :: "u64 \<Rightarrow> nat \<Rightarrow> u64 list \<Rightarrow> u8 list list \<Rightarrow> 'a kproc_scheme \<Rightarrow> (bool \<times> u64 list \<times> u8 list list \<times> 'a kproc_scheme) kres" where
  "exec_args uargv i pages argv s =
     (if i \<ge> MAXARG then Inr (False, pages, argv, s)
      else
        kbind (fetchaddr (uargv + 8 * of_nat i) s) (\<lambda>(r, uarg).
        if r < 0 then Inr (False, pages, argv, s)
        else if uarg = 0 then Inr (True, pages, argv, s)
        else
          kbind (kalloc s) (\<lambda>(page, s).
          if page = 0 then Inr (False, pages, argv, s)
          else
            kbind (fetchstr uarg 4096 s) (\<lambda>(r, a).
            if r < 0 then Inr (False, pages @ [page], argv, s)
            else
              kbind (kput_bytes s page (a @ [0])) (\<lambda>s.
              exec_args uargv (i + 1) (pages @ [page]) (argv @ [a]) s)))))"
  by pat_completeness auto
termination by (relation "measure (\<lambda>(uargv, i, pages, argv, s). MAXARG - i)") auto

declare exec_args.simps [simp del]

definition sys_exec :: "'a ktrap_scheme \<Rightarrow> (int \<times> 'a ktrap_scheme) kres" where
  "sys_exec s =
     kbind (argaddr 1 s) (\<lambda>uargv.
     kbind (argstr 0 MAXPATH s) (\<lambda>(r, pth).
     if r < 0 then Inr (-1, s)
     else
       kbind (exec_args uargv 0 [] [] s) (\<lambda>(ok, pages, argv, s).
       kbind (if ok then exec pth argv s else Inr (-1, s)) (\<lambda>(ret, s).
       kbind (release_many kfree pages s) (\<lambda>s.
       Inr (ret, s))))))"

definition sys_pipe :: "'a kfile_scheme \<Rightarrow> (int \<times> 'a kfile_scheme) kres" where
  "sys_pipe s =
     kbind (curproc s) (\<lambda>p.
     kbind (argaddr 0 s) (\<lambda>fdarray.
     kbind (pipealloc s) (\<lambda>(r, rfile, wfile, s).
     case (rfile, wfile) of
       (Some rfile, Some wfile) \<Rightarrow>
         if r < 0 then Inr (-1, s)
         else
           let close2 = (\<lambda>s. kbind (fileclose rfile s) (\<lambda>s. kbind (fileclose wfile s) (\<lambda>s. Inr (-1, s))));
               clear = (\<lambda>fd s. upd_proc p (\<lambda>x. x\<lparr>ofile := (ofile x)[nat fd := None]\<rparr>) s)
           in
           kbind (fdalloc rfile s) (\<lambda>(fd0, s).
           if fd0 < 0 then close2 s
           else
             kbind (fdalloc wfile s) (\<lambda>(fd1, s).
             if fd1 < 0 then close2 (clear fd0 s)
             else
               kbind (copyout s (pagetable (procs s ! p)) fdarray (le_bytes 4 (of_int32 fd0))) (\<lambda>(r, s).
               if r < 0 then close2 (clear fd1 (clear fd0 s))
               else
                 kbind (copyout s (pagetable (procs s ! p)) (fdarray + 4) (le_bytes 4 (of_int32 fd1))) (\<lambda>(r, s).
                 if r < 0 then close2 (clear fd1 (clear fd0 s)) else Inr (0, s)))))
     | _ \<Rightarrow> Inr (-1, s))))"

end
