(* ===== verification/Trap.thy ===== *)
theory Trap
  imports Sysfile
begin

text \<open>
  System calls on processes (\<open>sysproc.c\<close>), the dispatch of system calls (\<open>syscall.c\<close>), and traps (\<open>trap.c\<close>, \<open>plic.c\<close>).

  Some of this code does not come back: \<open>exit\<close> leaves the process for good, \<open>yield\<close> and a call that waits leave it until it
  is scheduled again, and \<open>usertrapret\<close> ends in user mode. Where control goes is a value.
\<close>

section \<open>System calls on processes\<close>

datatype sysres = SysRet u64 | SysBlock chan int | SysExit

definition sys_int :: "int \<times> 'a \<Rightarrow> sysres \<times> 'a" where
  "sys_int x = (case x of (r, s) \<Rightarrow> (SysRet (word_of_int r), s))"

definition sys_outcome :: "outcome \<times> 'a \<Rightarrow> sysres \<times> 'a" where
  "sys_outcome x = (case x of (Done r, s) \<Rightarrow> (SysRet (word_of_int r), s) | (Blocked c k, s) \<Rightarrow> (SysBlock c k, s))"

definition sys_exit :: "'a kfile_scheme \<Rightarrow> (sysres \<times> 'a kfile_scheme) kres" where
  "sys_exit s = kbind (argint 0 s) (\<lambda>n. kbind (exit n s) (\<lambda>s. Inr (SysExit, s)))"

definition sys_getpid :: "'a kproc_scheme \<Rightarrow> (int \<times> 'a kproc_scheme) kres" where
  "sys_getpid s = kbind (curproc s) (\<lambda>p. Inr (pid (procs s ! p), s))"

definition sys_fork :: "'a ktrap_scheme \<Rightarrow> (int \<times> 'a ktrap_scheme) kres" where
  "sys_fork s = fork s"

definition sys_wait :: "'a ktrap_scheme \<Rightarrow> (outcome \<times> 'a ktrap_scheme) kres" where
  "sys_wait s = kbind (argaddr 0 s) (\<lambda>p. wait p s)"

definition sys_sbrk :: "'a kproc_scheme \<Rightarrow> (sysres \<times> 'a kproc_scheme) kres" where
  "sys_sbrk s =
     kbind (argint 0 s) (\<lambda>n.
     kbind (curproc s) (\<lambda>p.
     let addr = psz (procs s ! p) in
     kbind (growproc n s) (\<lambda>(r, s).
     if r < 0 then Inr (SysRet (-1), s) else Inr (SysRet addr, s))))"

text \<open>The loop of \<open>sys_sleep\<close>; \<open>n\<close> is converted to \<open>uint\<close> for the comparison.\<close>

definition sleep_until :: "u32 \<Rightarrow> int \<Rightarrow> 'a ktrap_scheme \<Rightarrow> (sysres \<times> 'a ktrap_scheme) kres" where
  "sleep_until ticks0 n s =
     (if ticks s - ticks0 < word_of_int n then
        kbind (curproc s) (\<lambda>p.
        if killed p s \<noteq> 0 then Inr (SysRet (-1), s) else Inr (SysBlock ChanTicks (uint ticks0), s))
      else Inr (SysRet 0, s))"

definition sys_sleep :: "'a ktrap_scheme \<Rightarrow> (sysres \<times> 'a ktrap_scheme) kres" where
  "sys_sleep s =
     kbind (argint 0 s) (\<lambda>n.
     let n = (if n < 0 then 0 else n) in
     sleep_until (ticks s) n s)"

definition sys_kill :: "'a kproc_scheme \<Rightarrow> (int \<times> 'a kproc_scheme) kres" where
  "sys_kill s = kbind (argint 0 s) (\<lambda>n. Inr (kill n s))"

definition sys_uptime :: "'a ktrap_scheme \<Rightarrow> (int \<times> 'a ktrap_scheme) kres" where
  "sys_uptime s = Inr (uint (ticks s), s)"

section \<open>Dispatch\<close>

text \<open>The table \<open>syscalls\<close>.\<close>

definition syscalls :: "int \<Rightarrow> ('a ktrap_scheme \<Rightarrow> (sysres \<times> 'a ktrap_scheme) kres) option" where
  "syscalls num =
     (let int_call = (\<lambda>f s. kbind (f s) (\<lambda>x. Inr (sys_int x)));
          out_call = (\<lambda>f s. kbind (f s) (\<lambda>x. Inr (sys_outcome x)))
      in
      if num = 1 then Some (int_call sys_fork)
      else if num = 2 then Some sys_exit
      else if num = 3 then Some (out_call sys_wait)
      else if num = 4 then Some (int_call sys_pipe)
      else if num = 5 then Some (out_call sys_read)
      else if num = 6 then Some (int_call sys_kill)
      else if num = 7 then Some (int_call sys_exec)
      else if num = 8 then Some (int_call sys_fstat)
      else if num = 9 then Some (int_call sys_chdir)
      else if num = 10 then Some (int_call sys_dup)
      else if num = 11 then Some (int_call sys_getpid)
      else if num = 12 then Some sys_sbrk
      else if num = 13 then Some sys_sleep
      else if num = 14 then Some (int_call sys_uptime)
      else if num = 15 then Some (int_call sys_open)
      else if num = 16 then Some (out_call sys_write)
      else if num = 17 then Some (int_call sys_mknod)
      else if num = 18 then Some (int_call sys_unlink)
      else if num = 19 then Some (int_call sys_link)
      else if num = 20 then Some (int_call sys_mkdir)
      else if num = 21 then Some (int_call sys_close)
      else None)"

text \<open>What became of a call: the result is in the trap frame, or the process waits, or it has exited.\<close>

datatype call_end = Returned | Waiting chan int | Exited

definition syscall :: "'a ktrap_scheme \<Rightarrow> (call_end \<times> 'a ktrap_scheme) kres" where
  "syscall s =
     kbind (curproc s) (\<lambda>p.
     kbind (tf_get p tf_a7 s) (\<lambda>a7.
     let num = wrap32 (uint a7) in
     case syscalls num of
       Some f \<Rightarrow>
         kbind (f s) (\<lambda>(r, s).
         case r of
           SysRet v \<Rightarrow> kbind (tf_set p tf_a0 v s) (\<lambda>s. Inr (Returned, s))
         | SysBlock c k \<Rightarrow> Inr (Waiting c k, s)
         | SysExit \<Rightarrow> Inr (Exited, s))
     | None \<Rightarrow>
         kbind (printf (str ''%d %s: unknown sys call %d'' @ [10]) [AInt (pid (procs s ! p)), AStr (Some (pname (procs s ! p))), AInt num] s) (\<lambda>s.
         kbind (tf_set p tf_a0 (-1) s) (\<lambda>s. Inr (Returned, s)))))"

section \<open>Interrupts from devices\<close>

abbreviation (input) UART0_IRQ :: nat where "UART0_IRQ \<equiv> 10"
abbreviation (input) VIRTIO0_IRQ :: nat where "VIRTIO0_IRQ \<equiv> 1"

abbreviation (input) SSTATUS_SPP :: u64 where "SSTATUS_SPP \<equiv> 0x100"
abbreviation (input) SSTATUS_SPIE :: u64 where "SSTATUS_SPIE \<equiv> 0x20"
abbreviation (input) SSTATUS_SIE :: u64 where "SSTATUS_SIE \<equiv> 0x2"

abbreviation hcsr :: "'a ktrap_scheme \<Rightarrow> csrs" where
  "hcsr s \<equiv> csr s (hartid s)"

definition upd_csr :: "(csrs \<Rightarrow> csrs) \<Rightarrow> 'a ktrap_scheme \<Rightarrow> 'a ktrap_scheme" where
  "upd_csr f s = s\<lparr>csr := (csr s)(hartid s := f (csr s (hartid s)))\<rparr>"

definition plicinit :: "'a ktrap_scheme \<Rightarrow> 'a ktrap_scheme" where
  "plicinit s = s\<lparr>plic := (plic s)\<lparr>plic_priority := (plic_priority (plic s))(UART0_IRQ := 1, VIRTIO0_IRQ := 1)\<rparr>\<rparr>"

definition plicinithart :: "'a ktrap_scheme \<Rightarrow> 'a ktrap_scheme" where
  "plicinithart s =
     (let h = cpuid s in
      s\<lparr>plic := (plic s)\<lparr>plic_senable := (plic_senable (plic s))(h := push_bit UART0_IRQ 1 OR push_bit VIRTIO0_IRQ 1),
           plic_spriority := (plic_spriority (plic s))(h := 0)\<rparr>\<rparr>)"

text \<open>Reading the claim register takes the interrupt; writing it says that it has been served.\<close>

definition plic_claim :: "'a ktrap_scheme \<Rightarrow> nat \<times> 'a ktrap_scheme" where
  "plic_claim s =
     (let h = cpuid s in
      (plic_next (plic s) h, s\<lparr>plic := (plic s)\<lparr>plic_next := (plic_next (plic s))(h := 0)\<rparr>\<rparr>))"

definition plic_complete :: "nat \<Rightarrow> 'a ktrap_scheme \<Rightarrow> 'a ktrap_scheme" where
  "plic_complete irq s = s\<lparr>plic := (plic s)\<lparr>plic_served := plic_served (plic s) @ [irq]\<rparr>\<rparr>"

definition clockintr :: "'a ktrap_scheme \<Rightarrow> 'a ktrap_scheme" where
  "clockintr s = wakeup ChanTicks (s\<lparr>ticks := ticks s + 1\<rparr>)"

text \<open>The disk's interrupt, with the wakeups of the driver.\<close>

definition disk_intr :: "'a ktrap_scheme \<Rightarrow> 'a ktrap_scheme kres" where
  "disk_intr s = kbind (virtio_disk_intr (vq s)) (\<lambda>(w, v). Inr (fold wakeup w (s\<lparr>vq := v\<rparr>)))"

definition devintr :: "'a ktrap_scheme \<Rightarrow> (int \<times> 'a ktrap_scheme) kres" where
  "devintr s =
     (let cause = scause (hcsr s) in
      if cause AND 0x8000000000000000 \<noteq> 0 \<and> cause AND 0xff = 9 then
        let (irq, s) = plic_claim s in
        kbind (if irq = UART0_IRQ then uartintr s
               else if irq = VIRTIO0_IRQ then disk_intr s
               else if irq \<noteq> 0 then printf (str ''unexpected interrupt irq=%d'' @ [10]) [AInt (int irq)] s
               else Inr s) (\<lambda>s.
        Inr (1, if irq \<noteq> 0 then plic_complete irq s else s))
      else if cause = 0x8000000000000001 then
        let s = (if cpuid s = 0 then clockintr s else s) in
        Inr (2, upd_csr (\<lambda>c. c\<lparr>sip := sip c AND NOT 2\<rparr>) s)
      else Inr (0, s))"

section \<open>Traps from user space\<close>

text \<open>Where the hart goes: to user mode with a page table, or to the scheduler with the process in some state.\<close>

datatype trap_end = ToUser u64 | Yielded | Asleep chan int | Gone

definition MAKE_SATP :: "u64 \<Rightarrow> u64" where
  "MAKE_SATP pt = push_bit 60 8 OR drop_bit 12 pt"

definition trapinithart :: "'a ktrap_scheme \<Rightarrow> 'a ktrap_scheme" where
  "trapinithart s = upd_csr (\<lambda>c. c\<lparr>stvec := kernelvec (syms s)\<rparr>) s"

definition usertrapret :: "'a ktrap_scheme \<Rightarrow> (trap_end \<times> 'a ktrap_scheme) kres" where
  "usertrapret s =
     kbind (curproc s) (\<lambda>p.
     let s = upd_csr (\<lambda>c. c\<lparr>sstatus := sstatus c AND NOT SSTATUS_SIE\<rparr>) s;
         s = upd_csr (\<lambda>c. c\<lparr>stvec := TRAMPOLINE + (uservec (syms s) - trampoline (syms s))\<rparr>) s
     in
     kbind (tf_set p tf_kernel_satp (satp (hcsr s)) s) (\<lambda>s.
     kbind (tf_set p tf_kernel_sp (kstack (procs s ! p) + PGSIZE) s) (\<lambda>s.
     kbind (tf_set p tf_kernel_trap (usertrap_addr (syms s)) s) (\<lambda>s.
     kbind (tf_set p tf_kernel_hartid (of_nat (hartid s)) s) (\<lambda>s.
     let s = upd_csr (\<lambda>c. c\<lparr>sstatus := (sstatus c AND NOT SSTATUS_SPP) OR SSTATUS_SPIE\<rparr>) s in
     kbind (tf_get p tf_epc s) (\<lambda>epc.
     Inr (ToUser (MAKE_SATP (pagetable (procs s ! p))), upd_csr (\<lambda>c. c\<lparr>sepc := epc\<rparr>) s)))))))"

text \<open>The end of \<open>usertrap\<close>, from the test of \<open>killed\<close> on.\<close>

definition usertrap_end :: "nat \<Rightarrow> int \<Rightarrow> 'a ktrap_scheme \<Rightarrow> (trap_end \<times> 'a ktrap_scheme) kres" where
  "usertrap_end p which_dev s =
     (if killed p s \<noteq> 0 then kbind (exit (-1) s) (\<lambda>s. Inr (Gone, s))
      else if which_dev = 2 then kbind (yield s) (\<lambda>s. Inr (Yielded, s))
      else usertrapret s)"

text \<open>The message about an unexpected trap, and the kill.\<close>

definition unexpected_trap :: "nat \<Rightarrow> 'a ktrap_scheme \<Rightarrow> 'a ktrap_scheme kres" where
  "unexpected_trap p s =
     kbind (printf (str ''usertrap(): unexpected scause %p pid=%d'' @ [10]) [APtr (scause (hcsr s)), AInt (pid (procs s ! p))] s) (\<lambda>s.
     kbind (printf (str ''            sepc=%p stval=%p'' @ [10]) [APtr (sepc (hcsr s)), APtr (stval (hcsr s))] s) (\<lambda>s.
     Inr (setkilled p s)))"

definition usertrap :: "'a ktrap_scheme \<Rightarrow> (trap_end \<times> 'a ktrap_scheme) kres" where
  "usertrap s =
     (if sstatus (hcsr s) AND SSTATUS_SPP \<noteq> 0 then Inl (Panic ''usertrap: not from user mode'')
      else
        let s = upd_csr (\<lambda>c. c\<lparr>stvec := kernelvec (syms s)\<rparr>) s in
        kbind (curproc s) (\<lambda>p.
        kbind (tf_set p tf_epc (sepc (hcsr s)) s) (\<lambda>s.
        let cause = scause (hcsr s) in
        if cause = 8 then
          if killed p s \<noteq> 0 then kbind (exit (-1) s) (\<lambda>s. Inr (Gone, s))
          else
            kbind (tf_get p tf_epc s) (\<lambda>epc.
            kbind (tf_set p tf_epc (epc + 4) s) (\<lambda>s.
            let s = upd_csr (\<lambda>c. c\<lparr>sstatus := sstatus c OR SSTATUS_SIE\<rparr>) s in
            kbind (syscall s) (\<lambda>(r, s).
            case r of
              Returned \<Rightarrow> usertrap_end p 0 s
            | Waiting c k \<Rightarrow> Inr (Asleep c k, s)
            | Exited \<Rightarrow> Inr (Gone, s))))
        else if cause = 15 then
          let fault_va = stval (hcsr s); pt = pagetable (procs s ! p) in
          kbind (if fault_va > psz (procs s ! p) then Inr (False, s)
                 else
                   kbind (is_cowpage s pt fault_va) (\<lambda>cow.
                   if \<not> cow then Inr (False, s)
                   else kbind (cow_alloc s pt (PGROUNDDOWN fault_va)) (\<lambda>(pa, s). Inr (pa \<noteq> 0, s)))) (\<lambda>(ok, s).
          kbind (if ok then Inr s else unexpected_trap p s) (usertrap_end p 0))
        else
          kbind (devintr s) (\<lambda>(which_dev, s).
          kbind (if which_dev \<noteq> 0 then Inr s else unexpected_trap p s) (usertrap_end p which_dev)))))"

section \<open>Traps from the kernel\<close>

text \<open>After \<open>yield\<close> the hart belongs to the scheduler; the registers are restored once the thread runs again.\<close>

definition kerneltrap :: "'a ktrap_scheme \<Rightarrow> (bool \<times> 'a ktrap_scheme) kres" where
  "kerneltrap s =
     (let epc = sepc (hcsr s); status = sstatus (hcsr s); cause = scause (hcsr s) in
      if status AND SSTATUS_SPP = 0 then Inl (Panic ''kerneltrap: not from supervisor mode'')
      else if sstatus (hcsr s) AND SSTATUS_SIE \<noteq> 0 then Inl (Panic ''kerneltrap: interrupts enabled'')
      else
        kbind (devintr s) (\<lambda>(which_dev, s).
        if which_dev = 0 then
          kbind (printf (str ''scause %p'' @ [10]) [APtr cause] s) (\<lambda>s.
          kbind (printf (str ''sepc=%p stval=%p'' @ [10]) [APtr (sepc (hcsr s)), APtr (stval (hcsr s))] s) (\<lambda>s.
          Inl (Panic ''kerneltrap'')))
        else if which_dev = 2 \<and> (case myproc s of None \<Rightarrow> False | Some p \<Rightarrow> pstate (procs s ! p) = RUNNING)
        then kbind (yield s) (\<lambda>s. Inr (True, s))
        else Inr (False, upd_csr (\<lambda>c. c\<lparr>sepc := epc, sstatus := status\<rparr>) s)))"

section \<open>The first return of a process\<close>

definition forkret :: "'a ktrap_scheme \<Rightarrow> (trap_end \<times> 'a ktrap_scheme) kres" where
  "forkret s =
     kbind (curproc s) (\<lambda>p.
     kbind (if first s then fsinit ROOTDEV (s\<lparr>first := False\<rparr>) else Inr s) usertrapret)"

end
