(* ===== verification/Usertrap.thy ===== *)
theory Usertrap
  imports Trap Isolation Pipes
begin

text \<open>
  The trap path as a whole: what \<open>usertrap\<close> does for a store to a copy-on-write page, from the trap to the return to user
  mode, and for a store to the first address beyond the memory of the process.
\<close>

section \<open>Memory and the rest of the state\<close>

text \<open>The invariants of the address spaces speak of the memory, the free list and the reference counts only.\<close>

lemma spaces_cong:
  fixes s :: "'a kmem_scheme" and s' :: "'b kmem_scheme"
  assumes "kmem.truncate s' = kmem.truncate s"
  shows "spaces s' R = spaces s R" "exclusive s' R = exclusive s R" "mappers s' R x = mappers s R x" "free_pages s' = free_pages s"
    "ubyte s' r y = ubyte s r y" "ram s' = ram s" "refcnt s' x = refcnt s x"
proof -
  have e: "ram s' = ram s" "kend s' = kend s" "freelist s' = freelist s" "refer_count s' = refer_count s"
    using assms by (auto simp: kmem.defs)
  have k: "kpage s' = kpage s" "refcnt s' = refcnt s" "kend_ok s' = kend_ok s" by (simp_all add: kpage_def [abs_def] refcnt_def [abs_def] kend_ok_def e)
  show f: "free_pages s' = free_pages s" by (simp add: free_pages_def k)
  have w: "kmem_inv s' = kmem_inv s" "wf_pt s' r = wf_pt s r" for r by (simp_all add: kmem_inv_def wf_pt_def k f e)
  show m: "mappers s' R x = mappers s R x" for x by (simp add: mappers_def e)
  show "spaces s' R = spaces s R" "exclusive s' R = exclusive s R" by (simp_all add: spaces_def exclusive_def w m k e)
  show "ubyte s' r y = ubyte s r y" "ram s' = ram s" "refcnt s' x = refcnt s x" by (simp_all add: ubyte_def Let_def e k)
qed

text \<open>A page of the kernel's own: no process maps it, no page table is in it, and it is not free.\<close>

definition kernel_page :: "'a kmem_scheme \<Rightarrow> u64 set \<Rightarrow> u64 \<Rightarrow> bool" where
  "kernel_page s R t \<longleftrightarrow> page_aligned t \<and> ram_ok t 4096 \<and> t \<notin> free_pages s \<and> mappers s R t = {} \<and> (\<forall>r \<in> R. t \<notin> tpages (ram s) r)"

lemma kernel_page_cong:
  fixes s :: "'a kmem_scheme" and s' :: "'b kmem_scheme"
  shows "kmem.truncate s' = kmem.truncate s \<Longrightarrow> kernel_page s' R t = kernel_page s R t"
  using spaces_cong [of s' s] by (simp add: kernel_page_def)

text \<open>The same memory for every process, whatever the kernel has done in its own pages.\<close>

definition same_memory :: "u64 set \<Rightarrow> 'a kmem_scheme \<Rightarrow> 'a kmem_scheme \<Rightarrow> bool" where
  "same_memory R s s' \<longleftrightarrow> (\<forall>r \<in> R. \<forall>y. ubyte s' r y = ubyte s r y)"

definition same_spaces :: "u64 set \<Rightarrow> 'a kmem_scheme \<Rightarrow> 'a kmem_scheme \<Rightarrow> bool" where
  "same_spaces R s s' \<longleftrightarrow> spaces s' R \<and> (exclusive s R \<longrightarrow> exclusive s' R) \<and> same_memory R s s' \<and> free_pages s' = free_pages s \<and>
     (\<forall>r \<in> R. \<forall>x. pte_at (ram s') r x = pte_at (ram s) r x \<and> pte_slot (ram s') r x = pte_slot (ram s) r x) \<and> (\<forall>x. mappers s' R x = mappers s R x) \<and>
     (\<forall>t. kernel_page s R t \<longrightarrow> kernel_page s' R t)"

lemma same_spaces_trans: "same_spaces R s s' \<Longrightarrow> same_spaces R s' s'' \<Longrightarrow> same_spaces R s s''"
  unfolding same_spaces_def same_memory_def by simp

lemma same_spaces_cong:
  fixes s s' :: "'a kmem_scheme"
  assumes "kmem.truncate s' = kmem.truncate s" and "spaces s R"
  shows "same_spaces R s s'"
  using assms(2) spaces_cong [OF assms(1)] kernel_page_cong [OF assms(1)] by (simp add: same_spaces_def same_memory_def)

lemma ram_ok_sub: "ram_ok t 4096 \<Longrightarrow> unat (off :: u64) + n \<le> 4096 \<Longrightarrow> ram_ok (t + off) n"
  by (auto simp: ram_ok_def unat_plus_if_size word_size word_le_nat_alt)

lemma mod8_add:
  assumes "t mod 8 = 0" and "off mod 8 = (0 :: u64)"
  shows "(t + off) mod 8 = 0"
proof -
  have "unat t mod 8 = 0" "unat off mod 8 = 0" using arg_cong [OF assms(1), of unat] arg_cong [OF assms(2), of unat] by (simp_all add: unat_mod)
  then have "(unat t + unat off) mod 8 = 0" by (metis mod_add_eq add_0 mod_0)
  then have "unat ((t + off) mod 8) = 0" by (simp add: unat_mod unat_word_ariths mod_mod_cancel)
  then show ?thesis by (simp add: unat_eq_zero)
qed

lemma kernel_store:
  fixes s :: "'a kmem_scheme"
  assumes sp: "spaces s R" and t: "kernel_page s R t" and off: "unat off + 8 \<le> 4096" "off mod 8 = 0"
  shows "\<exists>s'. store64 s (t + off) v = Inr s' \<and> ld64 (ram s') (t + off) = v \<and> same_spaces R s s' \<and> kmem.more s' = kmem.more s \<and>
    (\<forall>x. x mod 8 = 0 \<longrightarrow> x \<noteq> t + off \<longrightarrow> ld64 (ram s') x = ld64 (ram s) x)"
proof -
  let ?m = "st64 (ram s) (t + off) v"
  let ?s = "s\<lparr>ram := ?m\<rparr>"
  have T: "page_aligned t" "ram_ok t 4096" "t \<notin> free_pages s" "mappers s R t = {}" "\<And>r. r \<in> R \<Longrightarrow> t \<notin> tpages (ram s) r"
    using t by (auto simp: kernel_page_def)
  have "off < PGSIZE" using off(1) by (simp add: word_less_nat_alt)
  then have pg: "PGROUNDDOWN (t + off) = t" using PGROUNDDOWN_add [OF T(1)] by simp
  have "t mod 8 = 0" using page_mod8 [OF T(1)] .
  then have al: "(t + off) mod 8 = 0" using off(2) by (rule mod8_add)
  have f: "frame s ?s {t}" using st64_frame [OF al] pg by (auto simp: frame_def)
  have o: "wf_pt ?s r" "tpages ?m r = tpages (ram s) r" "\<And>x. pte_at ?m r x = pte_at (ram s) r x" if "r \<in> R" for r
    using frame_other [OF f spacesD(2) [OF sp that]] T(5) [OF that] by auto
  have sl: "pte_slot ?m r x = pte_slot (ram s) r x" if "r \<in> R" for r x
  proof -
    have "\<forall>a. PGROUNDDOWN a \<in> tpages (ram s) r \<longrightarrow> ?m a = ram s a" using f T(5) [OF that] by (auto simp: frame_def)
    then show ?thesis using node_frame [of "ram s" r ?m "path x"] wf_pt_aligned [OF spacesD(2) [OF sp that]] by (simp add: pte_slot_def)
  qed
  have inv: "kmem_inv ?s" using f T(3) by (intro kmem_inv_ram_frame [OF spacesD(1) [OF sp]]) (auto simp: frame_def)
  have m: "mappers ?s R q = mappers s R q" for q using o(3) by (auto simp: mappers_def)
  have sp': "spaces ?s R" using o m inv by (intro spaces_same_ptes [OF sp]) auto
  have ub: "ubyte ?s r y = ubyte s r y" if r: "r \<in> R" for r y
  proof (rule ubyte_cong)
    show "user_pte (pte_at (ram ?s) r y) = user_pte (pte_at (ram s) r y)" using o(3) [OF r] by simp
    assume y: "y < MAXVA" "user_pte (pte_at (ram s) r y)"
    let ?p = "PTE2PA (pte_at (ram s) r y)"
    have "?p \<noteq> t" using ubyte_mapper [OF r y] T(4) by auto
    then show "ram ?s (PTE2PA (pte_at (ram ?s) r y) + (y - PGROUNDDOWN y)) = ram s (?p + (y - PGROUNDDOWN y))"
      using o(3) [OF r] st64_frame [OF al] page_offset [of ?p y] pg by simp
  qed
  have c: "refcnt ?s x = refcnt s x" "free_pages ?s = free_pages s" "kernel_page s R t' \<Longrightarrow> kernel_page ?s R t'" for x t'
    using m o(2) by (simp_all add: refcnt_def free_pages_def kpage_def kernel_page_def)
  have "exclusive s R \<longrightarrow> exclusive ?s R" using o(3) c(1) by (simp add: exclusive_def)
  then have "same_spaces R s ?s" using sp' ub c o(3) sl m by (simp add: same_spaces_def same_memory_def)
  moreover have "store64 s (t + off) v = Inr ?s" using ram_ok_sub [OF T(2) off(1)] by (simp add: store64_def)
  ultimately show ?thesis using al by (intro exI [of _ ?s]) (auto simp: ld64_st64_same ld64_st64_other)
qed

section \<open>A fault leaves the kernel's pages alone\<close>

lemma kernel_page_frame:
  fixes s s' :: "'a kmem_scheme"
  assumes sp: "spaces s R" and t: "kernel_page s R t" and r: "r \<in> R" and f: "frame s s' (insert p (tpages (ram s) r))" and p: "p \<noteq> t"
    and tr: "tpages (ram s') r = tpages (ram s) r" and pr: "\<forall>r'\<in>R. p \<notin> tpages (ram s) r'"
    and c: "\<forall>r'\<in>R. \<forall>x\<in>tpages (ram s) r'. refcnt s' x = refcnt s x"
    and fr: "t \<notin> free_pages s'" and m: "mappers s' R t = {}"
  shows "kernel_page s' R t" "kmem.more s' = kmem.more s" "\<And>x. PGROUNDDOWN x = t \<Longrightarrow> ram s' x = ram s x"
proof -
  have T: "page_aligned t" "ram_ok t 4096" "\<And>r. r \<in> R \<Longrightarrow> t \<notin> tpages (ram s) r" using t by (auto simp: kernel_page_def)
  have "tpages (ram s') r' = tpages (ram s) r'" if r': "r' \<in> R" for r'
  proof (cases "r' = r")
    case False
    then have "tpages (ram s) r' \<inter> insert p (tpages (ram s) r) = {}" using spacesD(3) [OF sp r' r] pr r' by blast
    then show ?thesis using frame_other(2) [OF f spacesD(2) [OF sp r']] c r' by blast
  qed (simp add: tr)
  then show "kernel_page s' R t" using T fr m by (simp add: kernel_page_def)
  show "kmem.more s' = kmem.more s" "\<And>x. PGROUNDDOWN x = t \<Longrightarrow> ram s' x = ram s x"
    using f T(3) [OF r] p by (auto simp: frame_def)
qed

lemma mappers_changed:
  assumes "\<And>r' y. r' \<in> R \<Longrightarrow> y < MAXVA \<Longrightarrow> page_aligned y \<Longrightarrow> (r', y) \<noteq> (r, va) \<Longrightarrow> pte_at (ram s') r' y = pte_at (ram s) r' y"
    and "(r, va) \<in> mappers s' R p" and "p \<noteq> t" and "mappers s R t = {}"
  shows "mappers s' R t = {}"
proof (rule ccontr)
  assume "mappers s' R t \<noteq> {}"
  then obtain r' y where y: "(r', y) \<in> mappers s' R t" by fastforce
  then have "(r', y) \<noteq> (r, va)" using assms(2,3) by (auto simp: mappers_def)
  then have "(r', y) \<in> mappers s R t" using y assms(1) by (auto simp: mappers_def)
  then show False using assms(4) by simp
qed

lemma cow_alloc_kernel_page:
  fixes s s' :: "'a kmem_scheme"
  assumes sp: "spaces s R" and x: "(r, va) \<in> mappers s R pa" and t: "kernel_page s R t" and free: "free_pages s \<noteq> {}"
    and run: "cow_alloc s r va = Inr (p, s')"
  shows "kernel_page s' R t \<and> kmem.more s' = kmem.more s \<and> (\<forall>x. PGROUNDDOWN x = t \<longrightarrow> ram s' x = ram s x)"
proof -
  note M = mapper_user_page [OF sp x]
  define e where "e = pte_at (ram s) r va"
  have pa: "PTE2PA e = pa" "user_pte e" and va: "va < MAXVA" "page_aligned va" using x by (simp_all add: e_def mappers_def)
  have inv: "kmem_inv s" and wf: "wf_pt s r" using spacesD(1) [OF sp] spacesD(2) [OF sp M(3)] .
  have nt: "pa \<noteq> t" "t \<notin> free_pages s" "mappers s R t = {}" using x t by (auto simp: kernel_page_def)
  show ?thesis
  proof (cases "refcnt s pa = 1")
    case True
    let ?v = "(e OR PTE_W) AND NOT PTE_RSW_COW"
    obtain a where a: "pte_slot (ram s) r va = Some a" "cow_alloc s r va = Inr (pa, set_pte s a ?v)"
      using cow_alloc_sole [OF inv wf M(1) e_def] True pa(1) by auto
    have v: "PTE2PA ?v = pa" "user_pte ?v" using user_pte_flags [OF pa(2)] pa(1) by simp_all
    note F = spaces_set_flags [OF sp x a(1) v(2,1)] and E = evolve_set_pte [OF inv wf a(1), of ?v]
    have s': "s' = set_pte s a ?v" using run a(2) by simp
    have f: "frame s s' (insert pa (tpages (ram s) r))" unfolding s' using E(3) by (auto simp: frame_def)
    have m: "mappers s' R t = {}" unfolding s' by (rule mappers_changed [OF _ F(3) nt(1,3)]) (use F(4) in auto)
    have k: "\<forall>r'\<in>R. pa \<notin> tpages (ram s) r'" using spacesD(5) [OF sp x] by blast
    show ?thesis
      using kernel_page_frame [OF sp t M(3) f nt(1) _ k _ _ m] E(2) nt(2) unfolding s' by simp
  next
    case False
    obtain q where q: "q \<noteq> 0" "copied s s' r va q" using cow_alloc_copy [OF inv wf M(1) e_def] False free pa(1) run by auto
    note F = spaces_copied [OF sp x q(2) False] and C = copiedD [OF q(2) e_def]
    have qt: "q \<noteq> t" using C(3) nt(2) by blast
    have m: "mappers s' R t = {}" by (rule mappers_changed [OF _ F(3) qt nt(3)]) (use F(4) in auto)
    have k: "q \<notin> tpages (ram s) r'" if "r' \<in> R" for r' using tpages_not_free [OF spacesD(2) [OF sp that]] C(3) by blast
    have c: "refcnt s' y = refcnt s y" if "r' \<in> R" "y \<in> tpages (ram s) r'" for r' y
      using C(9) [OF wf_pt_kpage [OF spacesD(2) [OF sp that(1)] that(2)]] k [OF that(1)] that spacesD(5) [OF sp x that(1)] pa(1) by auto
    have fr: "t \<notin> free_pages s'" using C(4) nt(2) by blast
    have kc: "\<forall>r'\<in>R. q \<notin> tpages (ram s) r'" "\<forall>r'\<in>R. \<forall>x\<in>tpages (ram s) r'. refcnt s' x = refcnt s x" using k c by blast+
    show ?thesis using kernel_page_frame [OF sp t M(3) C(7) qt C(5) kc fr m] by blast
  qed
qed

section \<open>The trapframe\<close>

lemma kmem_more_trap:
  fixes s s' :: "'a ktrap_scheme"
  assumes "kmem.more s' = kmem.more s"
  shows "procs s' = procs s" "curproc s' = curproc s" "killed p s' = killed p s" "csr s' = csr s" "hartid s' = hartid s" "syms s' = syms s"
  using assms by (cases s; cases s'; simp add: curproc_def myproc_def cpuid_def killed_def)+

lemma upd_csr_sel:
  "kmem.truncate (upd_csr f s) = kmem.truncate s" "procs (upd_csr f s) = procs s" "curproc (upd_csr f s) = curproc s"
  "killed p (upd_csr f s) = killed p s" "hartid (upd_csr f s) = hartid s" "syms (upd_csr f s) = syms s" "ram (upd_csr f s) = ram s"
  "csr (upd_csr f s) h = (if h = hartid s then f (csr s h) else csr s h)"
  by (simp_all add: upd_csr_def kmem.defs curproc_def myproc_def cpuid_def killed_def)

text \<open>What the trap path keeps: the address spaces and the processes.\<close>

definition keeps :: "u64 set \<Rightarrow> 'a ktrap_scheme \<Rightarrow> 'a ktrap_scheme \<Rightarrow> bool" where
  "keeps R s s' \<longleftrightarrow> same_spaces R s s' \<and> procs s' = procs s \<and> curproc s' = curproc s \<and> (\<forall>p. killed p s' = killed p s) \<and>
     hartid s' = hartid s \<and> syms s' = syms s"

lemma keeps_trans: "keeps R s s' \<Longrightarrow> keeps R s' s'' \<Longrightarrow> keeps R s s''"
  unfolding keeps_def using same_spaces_trans by metis

lemma keepsD:
  assumes "keeps R s s'"
  shows "spaces s' R" "kernel_page s R t \<Longrightarrow> kernel_page s' R t" "procs s' = procs s" "curproc s' = curproc s" "hartid s' = hartid s"
    "exclusive s R \<Longrightarrow> exclusive s' R" "same_memory R s s'" "mappers s' R x = mappers s R x" "r \<in> R \<Longrightarrow> pte_at (ram s') r y = pte_at (ram s) r y"
    "free_pages s' = free_pages s" "killed p s' = killed p s"
    "r \<in> R \<Longrightarrow> pte_slot (ram s') r y = pte_slot (ram s) r y"
  using assms by (simp_all add: keeps_def same_spaces_def)

lemma keeps_csr: "spaces s R \<Longrightarrow> keeps R s (upd_csr f s)"
  using same_spaces_cong [OF upd_csr_sel(1)] by (simp add: keeps_def upd_csr_sel)

lemma tf_set_ok:
  fixes s :: "'a ktrap_scheme"
  assumes "spaces s R" and "kernel_page s R (trapframe (procs s ! p))" and "unat off + 8 \<le> 4096" and "off mod 8 = 0"
  obtains s' where "tf_set p off v s = Inr s'" "keeps R s s'" "csr s' = csr s" "tf_get p off s' = Inr v"
    "\<And>o'. o' mod 8 = 0 \<Longrightarrow> o' \<noteq> off \<Longrightarrow> tf_get p o' s' = tf_get p o' s"
proof -
  let ?t = "trapframe (procs s ! p)"
  have t: "page_aligned ?t" "ram_ok ?t 4096" using assms(2) by (simp_all add: kernel_page_def)
  from kernel_store [OF assms] obtain s' where s': "store64 s (?t + off) v = Inr s'" "ld64 (ram s') (?t + off) = v" "same_spaces R s s'"
    "kmem.more s' = kmem.more s" "\<forall>x. x mod 8 = 0 \<longrightarrow> x \<noteq> ?t + off \<longrightarrow> ld64 (ram s') x = ld64 (ram s) x" by blast
  note K = kmem_more_trap [OF s'(4)]
  show ?thesis
  proof (rule that [of s'])
    show "tf_set p off v s = Inr s'" "keeps R s s'" "csr s' = csr s" using s'(1,3) K by (simp_all add: tf_set_def keeps_def)
    show "tf_get p off s' = Inr v" using s'(2) ram_ok_sub [OF t(2) assms(3)] K(1) by (simp add: tf_get_def load64_def)
    show "tf_get p o' s' = tf_get p o' s" if "o' mod 8 = 0" "o' \<noteq> off" for o'
      using s'(5) mod8_add [OF page_mod8 [OF t(1)] that(1)] that(2) K(1) by (simp add: tf_get_def load64_def)
  qed
qed

lemma tf_get_csr: "tf_get p off (upd_csr f s) = tf_get p off s"
  by (simp add: tf_get_def load64_def upd_csr_sel)

lemma usertrapret_ok:
  fixes s :: "'a ktrap_scheme"
  assumes sp: "spaces s R" and t: "kernel_page s R (trapframe (procs s ! p))" and p: "curproc s = Inr p" and epc: "tf_get p tf_epc s = Inr epc"
  shows "\<exists>s'. usertrapret s = Inr (ToUser (MAKE_SATP (pagetable (procs s ! p))), s') \<and> keeps R s s' \<and> sepc (hcsr s') = epc"
proof -
  define s0 where "s0 = upd_csr (\<lambda>c. c\<lparr>stvec := TRAMPOLINE + (uservec (syms s) - trampoline (syms s))\<rparr>)
    (upd_csr (\<lambda>c. c\<lparr>sstatus := sstatus c AND NOT SSTATUS_SIE\<rparr>) s)"
  have k0: "keeps R s s0" unfolding s0_def
    by (rule keeps_trans [OF keeps_csr [OF sp] keeps_csr]) (rule keepsD(1) [OF keeps_csr [OF sp]])
  have e0: "tf_get p tf_epc s0 = Inr epc" using epc by (simp add: s0_def tf_get_csr)
  obtain s1 where s1: "tf_set p tf_kernel_satp (satp (hcsr s0)) s0 = Inr s1" "keeps R s0 s1" "csr s1 = csr s0" "tf_get p tf_epc s1 = tf_get p tf_epc s0"
    by (rule tf_set_ok [OF keepsD(1) [OF k0], where p = p and off = 0 and v = "satp (hcsr s0)"])
      (use keepsD(2,3) [OF k0] t in simp_all)
  note k1 = keeps_trans [OF k0 s1(2)]
  obtain s2 where s2: "tf_set p tf_kernel_sp (kstack (procs s1 ! p) + PGSIZE) s1 = Inr s2" "keeps R s1 s2" "csr s2 = csr s1" "tf_get p tf_epc s2 = tf_get p tf_epc s1"
    by (rule tf_set_ok [OF keepsD(1) [OF k1], where p = p and off = 8 and v = "kstack (procs s1 ! p) + PGSIZE"])
      (use keepsD(2,3) [OF k1] t in simp_all)
  note k2 = keeps_trans [OF k1 s2(2)]
  obtain s3 where s3: "tf_set p tf_kernel_trap (usertrap_addr (syms s2)) s2 = Inr s3" "keeps R s2 s3" "csr s3 = csr s2" "tf_get p tf_epc s3 = tf_get p tf_epc s2"
    by (rule tf_set_ok [OF keepsD(1) [OF k2], where p = p and off = 16 and v = "usertrap_addr (syms s2)"])
      (use keepsD(2,3) [OF k2] t in simp_all)
  note k3 = keeps_trans [OF k2 s3(2)]
  obtain s4 where s4: "tf_set p tf_kernel_hartid (of_nat (hartid s3)) s3 = Inr s4" "keeps R s3 s4" "csr s4 = csr s3" "tf_get p tf_epc s4 = tf_get p tf_epc s3"
    by (rule tf_set_ok [OF keepsD(1) [OF k3], where p = p and off = 32 and v = "of_nat (hartid s3)"])
      (use keepsD(2,3) [OF k3] t in simp_all)
  note k4 = keeps_trans [OF k3 s4(2)]
  let ?s5 = "upd_csr (\<lambda>c. c\<lparr>sstatus := (sstatus c AND NOT SSTATUS_SPP) OR SSTATUS_SPIE\<rparr>) s4"
  let ?s6 = "upd_csr (\<lambda>c. c\<lparr>sepc := epc\<rparr>) ?s5"
  have k5: "keeps R s ?s5" by (rule keeps_trans [OF k4 keeps_csr [OF keepsD(1) [OF k4]]])
  have k6: "keeps R s ?s6" by (rule keeps_trans [OF k5 keeps_csr [OF keepsD(1) [OF k5]]])
  have e: "tf_get p tf_epc ?s5 = Inr epc" using e0 s1(4) s2(4) s3(4) s4(4) by (simp add: tf_get_csr)
  have "usertrapret s = Inr (ToUser (MAKE_SATP (pagetable (procs ?s5 ! p))), ?s6)"
    unfolding usertrapret_def p kbind_Inr Let_def upd_csr_sel(6) s0_def [symmetric] s1(1) s2(1) s3(1) s4(1) e by (rule refl)
  then show ?thesis using k6 keepsD(3) [OF k5] by (simp add: upd_csr_sel)
qed

section \<open>A store to a copy-on-write page\<close>

lemma cow_alloc_own:
  fixes s :: "'a ktrap_scheme"
  assumes sp: "spaces s R" and ex: "exclusive s R" and x: "(r, va) \<in> mappers s R pa" and free: "free_pages s \<noteq> {}" and t: "kernel_page s R t"
  shows "\<exists>p s'. cow_alloc s r va = Inr (p, s') \<and> p \<noteq> 0 \<and> spaces s' R \<and> exclusive s' R \<and> mappers s' R p = {(r, va)} \<and>
    pte_at (ram s') r va AND PTE_W \<noteq> 0 \<and> same_memory R s s' \<and> kernel_page s' R t \<and> kmem.more s' = kmem.more s \<and>
    (\<forall>x. PGROUNDDOWN x = t \<longrightarrow> ram s' x = ram s x)"
proof -
  from cow_fault_own_page [OF sp ex x free] obtain p s' where s': "cow_alloc s r va = Inr (p, s')" "p \<noteq> 0" "spaces s' R" "exclusive s' R"
    "mappers s' R p = {(r, va)}" "pte_at (ram s') r va AND PTE_W \<noteq> 0" "\<forall>r' \<in> R. \<forall>y. ubyte s' r' y = ubyte s r' y" by blast
  from cow_alloc_kernel_page [OF sp x t free s'(1)]
  have k: "kernel_page s' R t" "kmem.more s' = kmem.more s" "\<forall>x. PGROUNDDOWN x = t \<longrightarrow> ram s' x = ram s x" by blast+
  show ?thesis using s' k unfolding same_memory_def by blast
qed

lemma ld64_page:
  assumes "page_aligned t" and "off mod 8 = 0" and "unat off + 8 \<le> 4096" and "\<forall>x. PGROUNDDOWN x = t \<longrightarrow> m' x = m x"
  shows "ld64 m' (t + off) = ld64 m (t + off)"
proof -
  have "off < PGSIZE" using assms(3) by (simp add: word_less_nat_alt)
  then have pg: "PGROUNDDOWN (t + off) = t" using PGROUNDDOWN_add [OF assms(1)] by simp
  show ?thesis by (rule ld64_in_page [OF mod8_add [OF page_mod8 [OF assms(1)] assms(2)]]) (use assms(4) in \<open>unfold pg, blast\<close>)
qed

lemma is_cowpage_at:
  assumes sp: "spaces s R" and r: "r \<in> R" and va: "va < MAXVA" and e: "user_pte (pte_at (ram s) r va)"
  shows "is_cowpage s r va = Inr (pte_at (ram s) r va AND PTE_RSW_COW \<noteq> 0)"
proof -
  have kend: "kend_ok s" and wf: "wf_pt s r" using kmem_inv_kend_ok [OF spacesD(1) [OF sp]] spacesD(2) [OF sp r] .
  obtain a where slot: "pte_slot (ram s) r va = Some a" using e by (cases "pte_slot (ram s) r va") (auto simp: pte_at_def user_pte_def)
  then show ?thesis using walk_lookup [OF kend wf va] update64_slot(2) [OF kend wf slot] by (simp add: is_cowpage_def pte_at_def)
qed

text \<open>The first part of \<open>usertrap\<close> for a store fault: the program counter is saved in the trapframe, then the fault is handled.\<close>

lemma usertrap_store:
  fixes s :: "'a ktrap_scheme"
  assumes sp: "spaces s R" and p: "curproc s = Inr p" and t: "kernel_page s R (trapframe (procs s ! p))"
    and c: "sstatus (hcsr s) AND SSTATUS_SPP = 0" "scause (hcsr s) = 15" "stval (hcsr s) \<le> psz (procs s ! p)"
  shows "\<exists>s1. keeps R s s1 \<and> tf_get p tf_epc s1 = Inr (sepc (hcsr s)) \<and> usertrap s =
    kbind (is_cowpage s1 (pagetable (procs s ! p)) (stval (hcsr s))) (\<lambda>cow.
    kbind (if \<not> cow then Inr (False, s1)
           else kbind (cow_alloc s1 (pagetable (procs s ! p)) (PGROUNDDOWN (stval (hcsr s)))) (\<lambda>(pa, s). Inr (pa \<noteq> 0, s))) (\<lambda>(ok, s).
    kbind (if ok then Inr s else unexpected_trap p s) (usertrap_end p 0)))"
proof -
  define s0 where "s0 = upd_csr (\<lambda>c. c\<lparr>stvec := kernelvec (syms s)\<rparr>) s"
  have k0: "keeps R s s0" unfolding s0_def using sp by (rule keeps_csr)
  have h0: "sepc (hcsr s0) = sepc (hcsr s)" "scause (hcsr s0) = 15" "stval (hcsr s0) = stval (hcsr s)" using c(2) by (simp_all add: s0_def upd_csr_sel)
  obtain s1 where s1: "tf_set p tf_epc (sepc (hcsr s0)) s0 = Inr s1" "keeps R s0 s1" "csr s1 = csr s0" "tf_get p tf_epc s1 = Inr (sepc (hcsr s0))"
    by (rule tf_set_ok [OF keepsD(1) [OF k0], where p = p and off = 24 and v = "sepc (hcsr s0)"]) (use keepsD(2,3) [OF k0] t in simp_all)
  have k1: "keeps R s s1" by (rule keeps_trans [OF k0 s1(2)])
  have cz: "curproc s0 = Inr p" and pr: "procs s1 = procs s" using keepsD(4) [OF k0] p keepsD(3) [OF k1] by simp_all
  have h1: "scause (hcsr s1) = 15" "stval (hcsr s1) = stval (hcsr s)" using h0 s1(3) keepsD(5) [OF s1(2)] by simp_all
  have l: "\<not> psz (procs s ! p) < stval (hcsr s)" using c(3) by (simp add: not_less)
  have "usertrap s = kbind (is_cowpage s1 (pagetable (procs s ! p)) (stval (hcsr s))) (\<lambda>cow.
    kbind (if \<not> cow then Inr (False, s1)
           else kbind (cow_alloc s1 (pagetable (procs s ! p)) (PGROUNDDOWN (stval (hcsr s)))) (\<lambda>(pa, s). Inr (pa \<noteq> 0, s))) (\<lambda>(ok, s).
    kbind (if ok then Inr s else unexpected_trap p s) (usertrap_end p 0)))"
    using c(1) l unfolding usertrap_def Let_def s0_def [symmetric] cz kbind_Inr s1(1) h1 pr by (simp add: kbind_assoc)
  then show ?thesis using k1 s1(4) h0(1) by auto
qed

lemma usertrap_cow:
  fixes s :: "'a ktrap_scheme"
  assumes sp: "spaces s R" and ex: "exclusive s R" and free: "free_pages s \<noteq> {}" and p: "curproc s = Inr p" and t: "kernel_page s R (trapframe (procs s ! p))"
    and r: "pagetable (procs s ! p) = r" "r \<in> R" and k: "killed p s = 0"
    and c: "sstatus (hcsr s) AND SSTATUS_SPP = 0" "scause (hcsr s) = 15" "stval (hcsr s) \<le> psz (procs s ! p)" "stval (hcsr s) < MAXVA"
    and e: "user_pte (pte_at (ram s) r (stval (hcsr s)))" "pte_at (ram s) r (stval (hcsr s)) AND PTE_RSW_COW \<noteq> 0"
  shows "\<exists>pa s'. usertrap s = Inr (ToUser (MAKE_SATP r), s') \<and> sepc (hcsr s') = sepc (hcsr s) \<and> spaces s' R \<and> exclusive s' R \<and>
    same_memory R s s' \<and> mappers s' R pa = {(r, PGROUNDDOWN (stval (hcsr s)))} \<and> pte_at (ram s') r (stval (hcsr s)) AND PTE_W \<noteq> 0"
proof -
  let ?va = "stval (hcsr s)" and ?t = "trapframe (procs s ! p)"
  from usertrap_store [OF sp p t c(1-3)] obtain s1 where k1: "keeps R s s1" and e1: "tf_get p tf_epc s1 = Inr (sepc (hcsr s))"
    and run: "usertrap s = kbind (is_cowpage s1 r ?va) (\<lambda>cow. kbind (if \<not> cow then Inr (False, s1)
           else kbind (cow_alloc s1 r (PGROUNDDOWN ?va)) (\<lambda>(pa, s). Inr (pa \<noteq> 0, s))) (\<lambda>(ok, s).
      kbind (if ok then Inr s else unexpected_trap p s) (usertrap_end p 0)))" unfolding r(1) by (elim exE conjE)
  note K = keepsD [OF k1]
  have ue: "user_pte (pte_at (ram s1) r ?va)" "pte_at (ram s1) r ?va AND PTE_RSW_COW \<noteq> 0" using e K(9) [OF r(2)] by simp_all
  have ex1: "exclusive s1 R" and fr1: "free_pages s1 \<noteq> {}" using K(6) [OF ex] K(10) free by simp_all
  have cow: "is_cowpage s1 r ?va = Inr True" using is_cowpage_at [OF K(1) r(2) c(4) ue(1)] ue(2) by simp
  obtain q s2 where s2: "cow_alloc s1 r (PGROUNDDOWN ?va) = Inr (q, s2)" "q \<noteq> 0" "spaces s2 R" "exclusive s2 R" "mappers s2 R q = {(r, PGROUNDDOWN ?va)}"
    "pte_at (ram s2) r (PGROUNDDOWN ?va) AND PTE_W \<noteq> 0" "same_memory R s1 s2" "kernel_page s2 R ?t" "kmem.more s2 = kmem.more s1"
    "\<forall>x. PGROUNDDOWN x = ?t \<longrightarrow> ram s2 x = ram s1 x"
    using cow_alloc_own [OF K(1) ex1 ubyte_mapper [OF r(2) c(4) ue(1)] fr1 K(2) [OF t]] by blast
  note M = kmem_more_trap [OF s2(9)]
  have ta: "page_aligned ?t" using t by (simp add: kernel_page_def)
  have epc: "tf_get p tf_epc s2 = Inr (sepc (hcsr s))"
    using e1 ld64_page [OF ta _ _ s2(10), of 24] K(3) M(1) by (simp add: tf_get_def load64_def split: if_splits)
  obtain s3 where s3: "usertrapret s2 = Inr (ToUser (MAKE_SATP (pagetable (procs s2 ! p))), s3)" "keeps R s2 s3" "sepc (hcsr s3) = sepc (hcsr s)"
    using usertrapret_ok [OF s2(3) _ _ epc] s2(8) M K p by auto
  have en: "usertrap_end p 0 s2 = Inr (ToUser (MAKE_SATP r), s3)" using s3(1) M K k r(1) by (simp add: usertrap_end_def)
  have "usertrap s = Inr (ToUser (MAKE_SATP r), s3)" unfolding run cow s2(1) by (simp add: s2(1,2) en)
  moreover have "same_memory R s s3" using K(7) s2(7) keepsD(7) [OF s3(2)] by (simp add: same_memory_def)
  moreover have "pte_at (ram s3) r ?va AND PTE_W \<noteq> 0" using keepsD(9) [OF s3(2) r(2)] s2(6) pte_at_page [OF c(4)] by simp
  ultimately show ?thesis using s3(3) keepsD(1,8) [OF s3(2)] keepsD(6) [OF s3(2) s2(4)] s2(5) by blast
qed

lemma usertrap_unmapped:
  fixes s :: "'a ktrap_scheme"
  assumes sp: "spaces s R" and p: "curproc s = Inr p" and t: "kernel_page s R (trapframe (procs s ! p))" and r: "pagetable (procs s ! p) \<in> R"
    and c: "sstatus (hcsr s) AND SSTATUS_SPP = 0" "scause (hcsr s) = 15" "stval (hcsr s) \<le> psz (procs s ! p)" "stval (hcsr s) < MAXVA"
    and e: "pte_slot (ram s) (pagetable (procs s ! p)) (stval (hcsr s)) = None"
  shows "usertrap s = Inl (PageFault 0)"
proof -
  let ?va = "stval (hcsr s)" and ?r = "pagetable (procs s ! p)"
  from usertrap_store [OF sp p t c(1-3)] obtain s1 f where k1: "keeps R s s1" and run: "usertrap s = kbind (is_cowpage s1 ?r ?va) f" by blast
  note K = keepsD [OF k1]
  have "is_cowpage s1 ?r ?va = Inl (PageFault 0)"
    using walk_lookup [OF kmem_inv_kend_ok [OF spacesD(1) [OF K(1)]] spacesD(2) [OF K(1) r] c(4)] K(12) [OF r] e by (simp add: is_cowpage_def)
  then show ?thesis by (simp add: run)
qed

section \<open>The trap of a store\<close>

text \<open>
  The two processes of \<open>two_procs\<close>, which share a page after a fork; the first one runs and has stored to the address \<open>va\<close>.
  Its trapframe is in a page that belongs to the kernel.
\<close>

definition trapped :: "u64 \<Rightarrow> ktrap" where
  "trapped va = kmem.extend (two_procs cow_pte cow_pte 2 0) (kmem.more ((kfile.extend piped (ktrap.fields
       \<lparr>etext = 0, trampoline = 0, uservec = 0, userret = 0, kernelvec = 0, usertrap_addr = 0, forkret_addr = 0\<rparr>
       (\<lambda>_. \<lparr>sstatus = 0, sepc = 0x40, scause = 15, stval = va, stvec = 0, satp = 0, sip = 0\<rparr>)
       \<lparr>plic_priority = (\<lambda>_. 0), plic_senable = (\<lambda>_. 0), plic_spriority = (\<lambda>_. 0), plic_next = (\<lambda>_. 0), plic_served = []\<rparr>
       0 0 False
       \<lparr>desc = (\<lambda>_. \<lparr>daddr = NullAddr, dlen = 0, dflags = 0, dnext = 0\<rparr>), avail_idx = 0, avail_ring = (\<lambda>_. 0), used_dev_idx = 0,
        used_ring = (\<lambda>_. 0), dfree = (\<lambda>_. True), used_idx = 0, info_b = (\<lambda>_. None), info_status = (\<lambda>_. 0),
        ops = (\<lambda>_. \<lparr>rtype = 0, rreserved = 0, rsector = 0\<rparr>), mmio = (\<lambda>_. 0), bdisk = (\<lambda>_. False), bmem = (\<lambda>_ _. 0)\<rparr>
       []))
     \<lparr>procs := [(idle_proc RUNNING None 1)\<lparr>pagetable := proc_A, trapframe := KERNBASE, psz := 0x200000\<rparr>]\<rparr>))"

lemma trapped_sel:
  "kmem.truncate (trapped va) = two_procs cow_pte cow_pte 2 0" "curproc (trapped va) = Inr 0" "killed 0 (trapped va) = 0"
  "trapframe (procs (trapped va) ! 0) = KERNBASE" "pagetable (procs (trapped va) ! 0) = proc_A" "psz (procs (trapped va) ! 0) = 0x200000"
  "csr (trapped va) h = \<lparr>sstatus = 0, sepc = 0x40, scause = 15, stval = va, stvec = 0, satp = 0, sip = 0\<rparr>"
  by (simp_all add: trapped_def piped_def kmem.defs kdev.defs kfile.defs ktrap.defs idle_proc_def curproc_def myproc_def cpuid_def killed_def two_procs_def)

lemma trapped_two: "kmem.truncate (trapped va) = kmem.truncate (two_procs cow_pte cow_pte 2 0)"
  unfolding trapped_sel(1) by (simp add: kmem.defs two_procs_def)

lemmas trapped_mem = spaces_cong [OF trapped_two] kernel_page_cong [OF trapped_two]

lemma trapped_ready:
  "spaces (trapped va) {proc_A, proc_B}" "exclusive (trapped va) {proc_A, proc_B}" "free_pages (trapped va) \<noteq> {}"
  "kernel_page (trapped va) {proc_A, proc_B} KERNBASE"
proof -
  show "spaces (trapped va) {proc_A, proc_B}" "exclusive (trapped va) {proc_A, proc_B}" "free_pages (trapped va) \<noteq> {}"
    using after_spaces after_exclusive two_free by (simp_all add: trapped_mem)
  have "page_aligned KERNBASE" "ram_ok KERNBASE 4096" by (simp_all add: page_aligned_def ram_ok_def)
  then show "kernel_page (trapped va) {proc_A, proc_B} KERNBASE"
    by (simp add: trapped_mem kernel_page_def two_free after_mappers two_tpages)
qed

text \<open>
  C5. A store to a copy-on-write page: when a process traps on such a store and a page is free, \<open>usertrap\<close> returns to user
  mode, in the page table of the process, at the instruction that trapped. The page of the address is then mapped by this
  process alone, and writable, so that the store succeeds; and no process, this one included, sees a byte of its memory
  change.
\<close>

theorem usertrap_resumes_store:
  assumes "spaces s R" and "exclusive s R" and "free_pages s \<noteq> {}" and "curproc s = Inr p"
    and "kernel_page s R (trapframe (procs s ! p))" and "pagetable (procs s ! p) = r" and "r \<in> R" and "killed p s = 0"
    and "sstatus (hcsr s) AND SSTATUS_SPP = 0" and "scause (hcsr s) = 15"
    and "stval (hcsr s) \<le> psz (procs s ! p)" and "stval (hcsr s) < MAXVA"
    and "user_pte (pte_at (ram s) r (stval (hcsr s)))" and "pte_at (ram s) r (stval (hcsr s)) AND PTE_RSW_COW \<noteq> 0"
  shows "\<exists>pa s'. usertrap s = Inr (ToUser (MAKE_SATP r), s') \<and> sepc (hcsr s') = sepc (hcsr s) \<and> spaces s' R \<and> exclusive s' R \<and>
    same_memory R s s' \<and> mappers s' R pa = {(r, PGROUNDDOWN (stval (hcsr s)))} \<and> pte_at (ram s') r (stval (hcsr s)) AND PTE_W \<noteq> 0"
  using assms by (rule usertrap_cow)

theorem usertrap_resumes_store_witness:
  "\<exists>pa s'. usertrap (trapped 0x10) = Inr (ToUser (MAKE_SATP proc_A), s') \<and> sepc (hcsr s') = 0x40 \<and>
     mappers s' {proc_A, proc_B} pa = {(proc_A, 0)} \<and> ubyte s' proc_B 0x10 = ubyte (two_procs cow_pte cow_pte 2 0) proc_B 0x10"
proof -
  have e: "pte_at (ram (trapped 0x10)) proc_A 0x10 = cow_pte"
    using two_pte(1) [of 16 cow_pte cow_pte 2 0] by (simp add: trapped_mem same_page_def PGROUNDDOWN_def)
  from usertrap_resumes_store [OF trapped_ready(1-3) trapped_sel(2), of 16 proc_A]
  obtain pa s' where "usertrap (trapped 0x10) = Inr (ToUser (MAKE_SATP proc_A), s')" "sepc (hcsr s') = 0x40"
    "mappers s' {proc_A, proc_B} pa = {(proc_A, PGROUNDDOWN 0x10)}" "same_memory {proc_A, proc_B} (trapped 0x10) s'"
    by (auto simp: trapped_sel trapped_ready(4) e user_pte_def)
  then show ?thesis by (intro exI [of _ pa] exI [of _ s']) (simp add: same_memory_def PGROUNDDOWN_def trapped_mem)
qed

text \<open>
  C11. A store to an address up to and including the size of the process that has no level-0 page table crashes the kernel:
  \<open>usertrap\<close> lets the size itself through, and \<open>is_cowpage\<close> reads the entry that \<open>walk\<close> returned without a test for 0.
  A process whose memory ends at a multiple of 2 MiB reaches this by a store to the first byte after its memory.
\<close>

theorem usertrap_null_entry:
  assumes "spaces s R" and "curproc s = Inr p" and "kernel_page s R (trapframe (procs s ! p))" and "pagetable (procs s ! p) \<in> R"
    and "sstatus (hcsr s) AND SSTATUS_SPP = 0" and "scause (hcsr s) = 15"
    and "stval (hcsr s) \<le> psz (procs s ! p)" and "stval (hcsr s) < MAXVA"
    and "pte_slot (ram s) (pagetable (procs s ! p)) (stval (hcsr s)) = None"
  shows "usertrap s = Inl (PageFault 0)"
  using assms by (rule usertrap_unmapped)

theorem usertrap_null_entry_witness:
  "psz (procs (trapped 0x200000) ! 0) = 0x200000 \<and> usertrap (trapped 0x200000) = Inl (PageFault 0)"
proof -
  have "pte_slot (ram (trapped 0x200000)) proc_A 0x200000 = None"
    using two_node(1) [OF idx_ok_path, of cow_pte cow_pte 2 0 "0x200000"] by (simp add: trapped_mem pte_slot_def path_def PX_def)
  then show ?thesis
    using usertrap_null_entry [OF trapped_ready(1) trapped_sel(2), of "0x200000"] by (simp add: trapped_sel trapped_ready(4))
qed

end
