(* ===== verification/Freewalk.thy ===== *)
theory Freewalk
  imports Usertrap
begin

text \<open>
  Giving an address space back: \<open>freewalk\<close> and \<open>uvmfree\<close> of \<open>kernel/vm.c\<close> and \<open>proc_freepagetable\<close> of \<open>kernel/proc.c\<close>.
  The recursion of \<open>freewalk\<close> follows the tree of the table pages, so it ends, and it frees each of them once.
\<close>

section \<open>The tree below a table page\<close>

text \<open>
  The pages \<open>P\<close> of a tree with \<open>k\<close> levels below its root, disjoint from each other, in which every valid entry of an inner
  level is a pointer to a table and no entry of the last level is valid.
\<close>

fun tree_at :: "nat \<Rightarrow> mem \<Rightarrow> u64 \<Rightarrow> u64 set \<Rightarrow> bool" where
  "tree_at 0 m pt P \<longleftrightarrow> P = {pt} \<and> (\<forall>i < 512. ld64 m (pt + 8 * of_nat i) AND PTE_V = 0)"
| "tree_at (Suc k) m pt P \<longleftrightarrow> (\<exists>C. P = insert pt (\<Union>i < 512. C i) \<and> (\<forall>i < 512. pt \<notin> C i) \<and>
     (\<forall>i < 512. \<forall>j < 512. i \<noteq> j \<longrightarrow> C i \<inter> C j = {}) \<and>
     (\<forall>i < (512 :: nat). let e = ld64 m (pt + 8 * of_nat i) in
        if e AND PTE_V = 0 then C i = {}
        else e AND (PTE_R OR PTE_W OR PTE_X) = 0 \<and> tree_at k m (PTE2PA e) (C i)))"

lemma tree_root: "tree_at k m pt P \<Longrightarrow> pt \<in> P"
  by (cases k) auto

lemma of_nat_512: "i < 512 \<Longrightarrow> (of_nat i :: u64) < 512"
  by (simp add: word_less_nat_alt unat_of_nat)

lemma tree_frame:
  assumes "tree_at k m pt P" and "\<forall>p \<in> P. page_aligned p" and "\<forall>x. PGROUNDDOWN x \<in> P \<longrightarrow> m' x = m x"
  shows "tree_at k m' pt P"
  using assms
proof (induction k arbitrary: pt P)
  case 0
  then have "ld64 m' (pt + 8 * of_nat i) = ld64 m (pt + 8 * of_nat i)" if "i < 512" for i
    using that of_nat_512 by (intro ld64_in_page) auto
  then show ?case using 0 by simp
next
  case (Suc k)
  from Suc.prems(1) obtain C where C: "P = insert pt (\<Union>i < 512. C i)" "\<forall>i < 512. pt \<notin> C i"
    "\<forall>i < 512. \<forall>j < 512. i \<noteq> j \<longrightarrow> C i \<inter> C j = {}"
    "\<And>i. i < (512 :: nat) \<Longrightarrow> let e = ld64 m (pt + 8 * of_nat i) in
        if e AND PTE_V = 0 then C i = {} else e AND (PTE_R OR PTE_W OR PTE_X) = 0 \<and> tree_at k m (PTE2PA e) (C i)"
    by (simp only: tree_at.simps) blast
  have e: "ld64 m' (pt + 8 * of_nat i) = ld64 m (pt + 8 * of_nat i)" if "i < 512" for i
    using that of_nat_512 Suc.prems(2,3) C(1) by (intro ld64_in_page) auto
  have t: "tree_at k m' q (C i)" if "i < 512" "tree_at k m q (C i)" for i q
    using Suc.IH [OF that(2)] Suc.prems(2,3) C(1) that(1) by blast
  have "let e = ld64 m' (pt + 8 * of_nat i) in
        if e AND PTE_V = 0 then C i = {} else e AND (PTE_R OR PTE_W OR PTE_X) = 0 \<and> tree_at k m' (PTE2PA e) (C i)"
    if i: "i < 512" for i
    using C(4) [OF i] t [OF i] unfolding e [OF i] by (auto simp: Let_def split: if_splits)
  then show ?case unfolding tree_at.simps using C(1-3) by blast
qed

section \<open>freewalk\<close>

text \<open>The pages \<open>P\<close> have been freed, and nothing else has happened.\<close>

definition released :: "'a kmem_scheme \<Rightarrow> 'a kmem_scheme \<Rightarrow> u64 set \<Rightarrow> bool" where
  "released s s' P \<longleftrightarrow> kmem_inv s' \<and> frame s s' P \<and> (\<forall>q. kpage s q \<longrightarrow> refcnt s' q = (if q \<in> P then 0 else refcnt s q))"

lemma released_kpage: "released s s' P \<Longrightarrow> kpage s' q = kpage s q"
  unfolding released_def using frame_kpage by blast

lemma released_trans:
  assumes "released s s' P" and "released s' s'' Q"
  shows "released s s'' (P \<union> Q)"
  using assms frame_trans [of s s' P s'' Q] released_kpage [OF assms(1)] unfolding released_def by auto

lemma released_kfree:
  assumes "kmem_inv s" and "kpage s p" and "refcnt s p = 1"
  shows "\<exists>s'. kfree s p = Inr s' \<and> released s s' {p}"
proof -
  obtain s' where "kfree s p = Inr s'" "kmem_inv s'" "frame s s' (if refcnt s p = 1 then {p} else {})"
    "\<And>q. kpage s q \<Longrightarrow> refcnt s' q = (if q = p then refcnt s p - 1 else refcnt s q)"
    using kfree_frame [OF assms(1,2)] assms(3) by (metis zero_less_one)
  then show ?thesis using assms(3) by (auto simp: released_def)
qed

text \<open>Clearing an entry of a table page that is not free.\<close>

lemma clear_entry:
  assumes inv: "kmem_inv s" and p: "kpage s pt" "0 < refcnt s pt" and i: "i < 512"
  defines "s' \<equiv> s\<lparr>ram := st64 (ram s) (pt + 8 * i) 0\<rparr>"
  shows "store64 s (pt + 8 * i) 0 = Inr s'" and "kmem_inv s'" and "frame s s' {pt}"
proof -
  have al: "page_aligned pt" and kend: "kend_ok s" using kpage_aligned [OF p(1)] kmem_inv_kend_ok [OF inv] .
  show "store64 s (pt + 8 * i) 0 = Inr s'" using entry_ram_ok [OF kend p(1) i] by (simp add: store64_def s'_def)
  show f: "frame s s' {pt}" using st64_frame [OF entry_mod8 [OF al i]] entry_page [OF al i] by (auto simp: frame_def s'_def)
  have "PGROUNDDOWN a \<noteq> pt" if "PGROUNDDOWN a \<in> free_pages s" for a using that p(2) by (auto simp: free_pages_def)
  then show "kmem_inv s'" unfolding s'_def using f by (intro kmem_inv_ram_frame [OF inv]) (auto simp: frame_def s'_def)
qed

text \<open>What the loop relies on: the subtrees of the entries from \<open>i\<close> on, each page of them held once.\<close>

definition held_once :: "'a kmem_scheme \<Rightarrow> u64 set \<Rightarrow> bool" where
  "held_once s P \<longleftrightarrow> (\<forall>q \<in> P. kpage s q \<and> refcnt s q = 1)"

definition subtrees :: "nat \<Rightarrow> 'a kmem_scheme \<Rightarrow> u64 \<Rightarrow> nat \<Rightarrow> (nat \<Rightarrow> u64 set) \<Rightarrow> bool" where
  "subtrees k s pt i C \<longleftrightarrow> (\<forall>j \<in> {i..<512}. pt \<notin> C j \<and> held_once s (C j) \<and>
     (let e = ld64 (ram s) (pt + 8 * of_nat j) in
      if e AND PTE_V = 0 then C j = {}
      else e AND (PTE_R OR PTE_W OR PTE_X) = 0 \<and> tree_at k (ram s) (PTE2PA e) (C j)))"

lemma subtrees_next:
  fixes s s1 :: "'a kmem_scheme"
  assumes inv: "kmem_inv s" and pt: "kpage s pt" "refcnt s pt = 1" and i: "i < 512" and sub: "subtrees k s pt i C"
    and dj: "\<forall>i < 512. \<forall>j < 512. i \<noteq> j \<longrightarrow> C i \<inter> C j = {}" and rel: "released s s1 (C i)"
  defines "s2 \<equiv> s1\<lparr>ram := st64 (ram s1) (pt + 8 * of_nat i) 0\<rparr>"
  shows "store64 s1 (pt + 8 * of_nat i) 0 = Inr s2" and "kmem_inv s2" and "frame s s2 (insert pt (C i))"
    and "kpage s q \<Longrightarrow> refcnt s2 q = (if q \<in> C i then 0 else refcnt s q)" and "subtrees k s2 pt (Suc i) C"
proof -
  have ni: "pt \<notin> C i" using sub i by (simp add: subtrees_def)
  have c1: "refcnt s1 q = (if q \<in> C i then 0 else refcnt s q)" if "kpage s q" for q using rel that by (simp add: released_def)
  have inv1: "kmem_inv s1" and f1: "frame s s1 (C i)" using rel by (simp_all add: released_def)
  have p1: "kpage s1 pt" "0 < refcnt s1 pt" using c1 [OF pt(1)] pt ni released_kpage [OF rel] by simp_all
  note E = clear_entry [OF inv1 p1 of_nat_512 [OF i], folded s2_def]
  show "store64 s1 (pt + 8 * of_nat i) 0 = Inr s2" "kmem_inv s2" by (rule E)+
  show f: "frame s s2 (insert pt (C i))" using frame_trans [OF f1 E(3)] by simp
  show c2: "refcnt s2 q = (if q \<in> C i then 0 else refcnt s q)" if "kpage s q" for q using c1 [OF that] by (simp add: s2_def)
  have al: "page_aligned pt" using pt(1) by (rule kpage_aligned)
  have e: "ld64 (ram s2) (pt + 8 * of_nat j) = ld64 (ram s) (pt + 8 * of_nat j)" if j: "i < j" "j < 512" for j
  proof -
    have ne: "(of_nat i :: u64) \<noteq> of_nat j" using j by (simp add: word_unat_eq_iff unat_of_nat)
    have "ld64 (ram s2) (pt + 8 * of_nat j) = ld64 (ram s1) (pt + 8 * of_nat j)"
      using entry_mod8 [OF al of_nat_512] j i ne entry_inj [OF of_nat_512 of_nat_512, of i j pt] by (simp add: s2_def ld64_st64_other)
    also have "\<dots> = ld64 (ram s) (pt + 8 * of_nat j)"
      using f1 ni of_nat_512 [OF j(2)] al by (intro ld64_in_page) (auto simp: frame_def)
    finally show ?thesis .
  qed
  have d: "C j \<inter> insert pt (C i) = {}" "held_once s (C j)" if "i < j" "j < 512" for j
    using that dj i sub by (auto simp: subtrees_def)
  have t: "tree_at k (ram s2) q (C j)" if "i < j" "j < 512" "tree_at k (ram s) q (C j)" for j q
  proof (rule tree_frame [OF that(3)])
    show "\<forall>p \<in> C j. page_aligned p" using d(2) [OF that(1,2)] kpage_aligned by (auto simp: held_once_def)
    show "\<forall>x. PGROUNDDOWN x \<in> C j \<longrightarrow> ram s2 x = ram s x" using f d(1) [OF that(1,2)] by (auto simp: frame_def)
  qed
  have h: "held_once s2 (C j)" if "i < j" "j < 512" for j
    using d [OF that] c2 frame_kpage [OF f] by (auto simp: held_once_def)
  show "subtrees k s2 pt (Suc i) C"
    unfolding subtrees_def
  proof
    fix j
    assume "j \<in> {Suc i..<512}"
    then have j: "i < j" "j < 512" by auto
    have "j \<in> {i..<512}" using j by simp
    from sub [unfolded subtrees_def, rule_format, OF this] h [OF j] t [OF j]
    show "pt \<notin> C j \<and> held_once s2 (C j) \<and> (let e = ld64 (ram s2) (pt + 8 * of_nat j) in
      if e AND PTE_V = 0 then C j = {}
      else e AND (PTE_R OR PTE_W OR PTE_X) = 0 \<and> tree_at k (ram s2) (PTE2PA e) (C j))"
      unfolding e [OF j] by (auto simp: Let_def split: if_splits)
  qed
qed

lemma freewalk_loop:
  fixes s :: "'a kmem_scheme"
  assumes IH: "\<And>(s :: 'a kmem_scheme) pt P. kmem_inv s \<Longrightarrow> tree_at k (ram s) pt P \<Longrightarrow> held_once s P \<Longrightarrow>
      \<exists>s'. freewalk_from d s pt 0 = Inr s' \<and> released s s' P"
    and "kmem_inv s" and "kpage s pt" and "refcnt s pt = 1" and "i \<le> 512" and "subtrees k s pt i C"
    and dj: "\<forall>i < 512. \<forall>j < 512. i \<noteq> j \<longrightarrow> C i \<inter> C j = {}"
  shows "\<exists>s'. freewalk_from (Suc d) s pt i = Inr s' \<and> released s s' (insert pt (\<Union>j \<in> {i..<512}. C j))"
  using assms(2-6)
proof (induction "512 - i" arbitrary: s i)
  case 0
  then have "i = 512" by simp
  then show ?case using released_kfree [OF 0(2-4)] by (simp add: freewalk_from.simps [of _ _ _ 512])
next
  case (Suc n)
  then have i: "i < 512" and n: "n = 512 - Suc i" "Suc i \<le> 512" by simp_all
  have U: "(\<Union>j \<in> {i..<512}. C j) = C i \<union> (\<Union>j \<in> {Suc i..<512}. C j)" 
    unfolding atLeastLessThan_eq_atLeastAtMost_diff using i by (auto simp: Suc_le_eq nat_less_le)
  let ?e = "ld64 (ram s) (pt + 8 * of_nat i)"
  have l: "load64 s (pt + 8 * of_nat i) = Inr ?e"
    using entry_ram_ok [OF kmem_inv_kend_ok [OF Suc.prems(1)] Suc.prems(2) of_nat_512 [OF i]] by (simp add: load64_def)
  have at: "i \<in> {i..<512}" using i by simp
  note S = Suc.prems(5) [unfolded subtrees_def, rule_format, OF at]
  show ?case
  proof (cases "?e AND PTE_V = 0")
    case True
    then have "C i = {}" using S by (simp add: Let_def)
    moreover have "subtrees k s pt (Suc i) C" using Suc.prems(5) by (auto simp: subtrees_def)
    ultimately show ?thesis using Suc.hyps(1) [OF n(1) Suc.prems(1-3) n(2)] i l True U by (simp add: freewalk_from.simps [of _ _ _ i])
  next
    case False
    have sub: "?e AND (PTE_R OR PTE_W OR PTE_X) = 0" "tree_at k (ram s) (PTE2PA ?e) (C i)" "held_once s (C i)" using S False by (simp_all add: Let_def)
    obtain s1 where s1: "freewalk_from d s (PTE2PA ?e) 0 = Inr s1" "released s s1 (C i)" using IH [OF Suc.prems(1) sub(2,3)] by blast
    define s2 where "s2 = s1\<lparr>ram := st64 (ram s1) (pt + 8 * of_nat i) 0\<rparr>"
    note N = subtrees_next [OF Suc.prems(1-3) i Suc.prems(5) dj s1(2), folded s2_def]
    have ni: "pt \<notin> C i" using S by simp
    have k2: "kpage s2 q = kpage s q" for q using frame_kpage [OF N(3)] .
    have p2: "kpage s2 pt" "refcnt s2 pt = 1" using k2 N(4) [OF Suc.prems(2)] ni Suc.prems(2,3) by simp_all
    obtain s3 where s3: "freewalk_from (Suc d) s2 pt (Suc i) = Inr s3" "released s2 s3 (insert pt (\<Union>j \<in> {Suc i..<512}. C j))"
      using Suc.hyps(1) [OF n(1) N(2) p2 n(2) N(5)] by blast
    have "frame s s3 (insert pt (C i) \<union> insert pt (\<Union>j \<in> {Suc i..<512}. C j))"
      using s3(2) by (intro frame_trans [OF N(3)]) (simp add: released_def)
    moreover have "insert pt (C i) \<union> insert pt (\<Union>j \<in> {Suc i..<512}. C j) = insert pt (\<Union>j \<in> {i..<512}. C j)" unfolding U by blast
    ultimately have "released s s3 (insert pt (\<Union>j \<in> {i..<512}. C j))"
      using s3(2) N(4) k2 unfolding released_def U by auto
    moreover have "freewalk_from (Suc d) s pt i = Inr s3" using i l False sub(1) s1(1) N(1) s3(1) by (simp add: freewalk_from.simps [of _ _ _ i])
    ultimately show ?thesis by blast
  qed
qed

lemma freewalk_empty:
  assumes "kend_ok s" and "kpage s pt" and "\<forall>i < 512. ld64 (ram s) (pt + 8 * of_nat i) AND PTE_V = 0" and "i \<le> 512"
  shows "freewalk_from d s pt i = kfree s pt"
  using assms(4)
proof (induction "512 - i" arbitrary: i)
  case 0
  then show ?case by (simp add: freewalk_from.simps [of _ _ _ 512])
next
  case (Suc n)
  then have i: "i < 512" by simp
  then have "load64 s (pt + 8 * of_nat i) = Inr (ld64 (ram s) (pt + 8 * of_nat i))"
    using entry_ram_ok [OF assms(1,2) of_nat_512] by (simp add: load64_def)
  then show ?case using Suc.hyps(1) [of "Suc i"] Suc.hyps(2) i assms(3) by (simp add: freewalk_from.simps [of _ _ _ i])
qed

lemma freewalk_tree:
  fixes s :: "'a kmem_scheme"
  assumes "k \<le> d" and "kmem_inv s" and "tree_at k (ram s) pt P" and "held_once s P"
  shows "\<exists>s'. freewalk_from d s pt 0 = Inr s' \<and> released s s' P"
  using assms
proof (induction k arbitrary: d s pt P)
  case 0
  then have "kpage s pt" "refcnt s pt = 1" "P = {pt}" by (auto simp: held_once_def)
  then show ?case
    using freewalk_empty [OF kmem_inv_kend_ok [OF 0(2)], of pt 0 d] released_kfree [OF 0(2)] 0(3) by simp
next
  case (Suc k)
  obtain d' where d: "d = Suc d'" "k \<le> d'" using Suc.prems(1) by (cases d) auto
  from Suc.prems(3) obtain C where C: "P = insert pt (\<Union>i < 512. C i)" "\<forall>i < 512. pt \<notin> C i"
    "\<forall>i < 512. \<forall>j < 512. i \<noteq> j \<longrightarrow> C i \<inter> C j = {}"
    "\<forall>i < (512 :: nat). let e = ld64 (ram s) (pt + 8 * of_nat i) in
        if e AND PTE_V = 0 then C i = {} else e AND (PTE_R OR PTE_W OR PTE_X) = 0 \<and> tree_at k (ram s) (PTE2PA e) (C i)"
    by (simp only: tree_at.simps) blast
  have pt: "kpage s pt" "refcnt s pt = 1" using Suc.prems(4) C(1) by (simp_all add: held_once_def)
  have h: "held_once s (C i)" if "i < 512" for i using Suc.prems(4) that unfolding C(1) held_once_def by blast
  have "subtrees k s pt 0 C" using C(2,4) h by (simp add: subtrees_def)
  from freewalk_loop [OF Suc.IH [OF d(2)] Suc.prems(2) pt _ this C(3)] show ?case
    unfolding d(1) C(1) by (simp add: atLeast0LessThan)
qed

section \<open>The tree of a page table\<close>

text \<open>
  In the upper two levels every valid entry points to a table, and the half of the root for addresses from \<open>MAXVA\<close> on is
  not in use.
\<close>

definition tables_only :: "mem \<Rightarrow> u64 \<Rightarrow> bool" where
  "tables_only m root \<longleftrightarrow> (\<forall>is i e. idx_ok (is @ [i]) \<longrightarrow> inner m root is i = Some e \<longrightarrow> e AND PTE_V \<noteq> 0 \<longrightarrow>
     e AND (PTE_R OR PTE_W OR PTE_X) = 0 \<and> (is = [] \<longrightarrow> i < 256))"

lemma tables_only_same: "same_inner m m' root \<Longrightarrow> tables_only m root \<Longrightarrow> tables_only m' root"
  unfolding tables_only_def same_inner_def by metis

text \<open>The pages at most \<open>k\<close> levels below the table that a path leads to.\<close>

definition below :: "mem \<Rightarrow> u64 \<Rightarrow> nat \<Rightarrow> u64 list \<Rightarrow> u64 set" where
  "below m root k is = {p. \<exists>js. length js \<le> k \<and> (\<forall>j \<in> set js. j < 512) \<and> node m root (is @ js) = Some p}"

lemma below_0: "below m root 0 is = set_option (node m root is)"
  by (auto simp: below_def)

lemma below_Suc: "below m root (Suc k) is = set_option (node m root is) \<union> (\<Union>i < 512. below m root k (is @ [of_nat i]))"
proof (intro set_eqI iffI)
  fix p
  assume "p \<in> below m root (Suc k) is"
  then obtain js where js: "length js \<le> Suc k" "\<forall>j \<in> set js. j < 512" "node m root (is @ js) = Some p" by (auto simp: below_def)
  show "p \<in> set_option (node m root is) \<union> (\<Union>i < 512. below m root k (is @ [of_nat i]))"
  proof (cases js)
    case Nil
    then show ?thesis using js(3) by simp
  next
    case (Cons j js')
    then have "unat j < 512" using js(2) by (simp add: word_less_nat_alt)
    moreover have "p \<in> below m root k (is @ [of_nat (unat j)])" using js Cons by (auto simp: below_def intro!: exI [of _ js'])
    ultimately show ?thesis by blast
  qed
next
  fix p
  assume "p \<in> set_option (node m root is) \<union> (\<Union>i < 512. below m root k (is @ [of_nat i]))"
  then consider "node m root is = Some p" | i js where "i < 512" "length js \<le> k" "\<forall>j \<in> set js. j < 512" "node m root (is @ of_nat i # js) = Some p"
    by (auto simp: below_def)
  then show "p \<in> below m root (Suc k) is"
  proof cases
    case 1
    then show ?thesis by (auto simp: below_def intro!: exI [of _ "[]"])
  next
    case 2
    then show ?thesis using of_nat_512 [OF 2(1)] by (auto simp: below_def intro!: exI [of _ "of_nat i # js"])
  qed
qed

lemma below_root: "below m root 2 [] = tpages m root"
  by (auto simp: below_def tpages_def idx_ok_def)

text \<open>No entry of the last level is valid.\<close>

definition no_leaf :: "mem \<Rightarrow> u64 \<Rightarrow> bool" where
  "no_leaf m root \<longleftrightarrow> (\<forall>is i p. idx_ok is \<longrightarrow> length is = 2 \<longrightarrow> i < 512 \<longrightarrow> node m root is = Some p \<longrightarrow> ld64 m (p + 8 * i) AND PTE_V = 0)"

lemma address_of_indices:
  assumes "a < 256" and "b < 512" and "c < 512"
  obtains va where "va < MAXVA" "PX 2 va = a" "PX 1 va = b" "PX 0 va = c"
proof -
  define va :: u64 where "va = push_bit 30 a OR push_bit 21 b OR push_bit 12 c"
  have b: "bit a n \<Longrightarrow> n < 8" "bit b n \<Longrightarrow> n < 9" "bit c n \<Longrightarrow> n < 9" for n
    using less_exp_bit [of a 8 n] less_exp_bit [of b 9 n] less_exp_bit [of c 9 n] assms by auto
  have v: "bit va n \<longleftrightarrow> 30 \<le> n \<and> n < 38 \<and> bit a (n - 30) \<or> 21 \<le> n \<and> n < 30 \<and> bit b (n - 21) \<or> 12 \<le> n \<and> n < 21 \<and> bit c (n - 12)" for n
    using b(1) [of "n - 30"] b(2) [of "n - 21"] b(3) [of "n - 12"] by (auto simp: va_def bit_simps)
  have "va = take_bit 38 va" by (rule bit_word_eqI) (auto simp: v bit_take_bit_iff)
  also have "\<dots> < MAXVA" by (simp add: take_bit_eq_mod word_less_nat_alt unat_mod)
  finally have lt: "va < MAXVA" .
  have "bit a n \<Longrightarrow> n < 9" for n using b(1) [of n] by simp
  then have "PX 2 va = a" "PX 1 va = b" "PX 0 va = c" using b by (auto intro!: bit_word_eqI simp: bit_PX v)
  with lt show ?thesis by (rule that)
qed

lemma no_leafI:
  assumes "tables_only m root" and "\<And>va. va < MAXVA \<Longrightarrow> pte_at m root va AND PTE_V = 0"
  shows "no_leaf m root"
  unfolding no_leaf_def
proof (intro allI impI)
  fix "is" and i p :: u64
  assume a: "idx_ok is" "length is = 2" "i < 512" "node m root is = Some p"
  then obtain x y where "is": "is = [x, y]" by (auto simp: length_Suc_conv numeral_2_eq_2)
  have xy: "x < 512" "y < 512" using a(1) by (simp_all add: "is" idx_ok_def)
  have "ld64 m (root + 8 * x) AND PTE_V \<noteq> 0" using a(4) by (auto simp: "is" split: if_splits)
  then have "x < 256" using assms(1) xy(1) by (auto simp: tables_only_def inner_def idx_ok_def dest: spec [of _ "[]"])
  then obtain va where va: "va < MAXVA" "PX 2 va = x" "PX 1 va = y" "PX 0 va = i" using xy(2) a(3) by (rule address_of_indices)
  then have "pte_slot m root va = Some (p + 8 * i)" using a(4) by (simp add: pte_slot_def path_def "is")
  then show "ld64 m (p + 8 * i) AND PTE_V = 0" using assms(2) [OF va(1)] by (simp add: pte_at_def)
qed

lemma tree_of_table:
  assumes wf: "wf_pt s root" and "tables_only (ram s) root" and "no_leaf (ram s) root"
    and "node (ram s) root is = Some pt" and "length is + k = 2" and "idx_ok is"
  shows "tree_at k (ram s) pt (below (ram s) root k is)"
  using assms(4-6)
proof (induction k arbitrary: "is" pt)
  case 0
  then show ?case using assms(3) of_nat_512 by (auto simp: below_0 no_leaf_def)
next
  case (Suc k)
  let ?m = "ram s" and ?C = "\<lambda>i. below (ram s) root k (is @ [of_nat i])"
  have l: "length is \<le> 1" "length is + 1 + k = 2" using Suc.prems(2) by simp_all
  have ix: "idx_ok (is @ [of_nat i])" if "i < 512" for i using Suc.prems(3) l(1) of_nat_512 [OF that] by (simp add: idx_ok_snoc)
  have path: "\<exists>js. node ?m root (is @ of_nat i # js) = Some q \<and> idx_ok (is @ of_nat i # js)" if "q \<in> ?C i" "i < 512" for q i
    using that ix [OF that(2)] l by (auto simp: below_def idx_ok_def)
  have "pt \<notin> ?C i" if "i < 512" for i
  proof
    assume "pt \<in> ?C i"
    with path that obtain js where "node ?m root (is @ of_nat i # js) = Some pt" "idx_ok (is @ of_nat i # js)" by blast
    then show False using wf_pt_inj [OF wf _ Suc.prems(3) _ Suc.prems(1)] by fastforce
  qed
  moreover have "?C i \<inter> ?C j = {}" if "i < 512" "j < 512" "i \<noteq> j" for i j
  proof (rule ccontr)
    assume "?C i \<inter> ?C j \<noteq> {}"
    then obtain q where "q \<in> ?C i" "q \<in> ?C j" by blast
    with path that obtain js ks where "is @ (of_nat i :: u64) # js = is @ of_nat j # ks" using wf_pt_inj [OF wf] by metis
    then show False using that by (simp add: word_unat_eq_iff unat_of_nat)
  qed
  moreover have "let e = ld64 ?m (pt + 8 * of_nat i) in
      if e AND PTE_V = 0 then ?C i = {} else e AND (PTE_R OR PTE_W OR PTE_X) = 0 \<and> tree_at k ?m (PTE2PA e) (?C i)" if i: "i < 512" for i
  proof -
    let ?e = "ld64 ?m (pt + 8 * of_nat i)"
    have n: "node ?m root (is @ [of_nat i]) = (if ?e AND PTE_V \<noteq> 0 then Some (PTE2PA ?e) else None)"
      using Suc.prems(1) by (simp add: node_snoc)
    have "inner ?m root is (of_nat i) = Some ?e" using Suc.prems(1) by (simp add: inner_def)
    then have "?e AND PTE_V \<noteq> 0 \<Longrightarrow> ?e AND (PTE_R OR PTE_W OR PTE_X) = 0" using assms(2) ix [OF i] unfolding tables_only_def by blast
    moreover have "?e AND PTE_V = 0 \<Longrightarrow> ?C i = {}" using n node_append [of ?m root "is @ [of_nat i]"] by (simp add: below_def)
    moreover have "?e AND PTE_V \<noteq> 0 \<Longrightarrow> tree_at k ?m (PTE2PA ?e) (?C i)" using Suc.IH [of "is @ [of_nat i]"] n ix [OF i] l(2) by simp
    ultimately show ?thesis by (simp add: Let_def)
  qed
  moreover have "below ?m root (Suc k) is = insert pt (\<Union>i < 512. ?C i)" using Suc.prems(1) by (simp add: below_Suc)
  ultimately show ?case unfolding tree_at.simps by (intro exI [of _ ?C]) blast
qed

lemma freewalk_releases:
  assumes "kmem_inv s" and wf: "wf_pt s root" and "tables_only (ram s) root"
    and "\<And>va. va < MAXVA \<Longrightarrow> pte_at (ram s) root va AND PTE_V = 0" and "2 \<le> d"
  shows "\<exists>s'. freewalk d s root = Inr s' \<and> released s s' (tpages (ram s) root)"
proof -
  have "tree_at 2 (ram s) root (tpages (ram s) root)"
    using tree_of_table [OF wf assms(3) no_leafI [OF assms(3,4)], of "[]" root 2] by (simp add: below_root)
  moreover have "held_once s (tpages (ram s) root)" using wf by (simp add: held_once_def wf_pt_def)
  ultimately show ?thesis using freewalk_tree [OF assms(5,1)] by (simp add: freewalk_def)
qed

section \<open>uvmfree\<close>

text \<open>A table that maps exactly the first \<open>n\<close> pages, to pages it holds a reference to for each.\<close>

definition maps_below :: "'a kmem_scheme \<Rightarrow> u64 \<Rightarrow> nat \<Rightarrow> bool" where
  "maps_below s r n \<longleftrightarrow> page_range 0 n \<and> (\<forall>i < n. leaf (pte_at (ram s) r (nth_page 0 i))) \<and>
     (\<forall>va < MAXVA. pte_at (ram s) r va AND PTE_V \<noteq> 0 \<longrightarrow> (\<exists>i < n. same_page (nth_page 0 i) va))"

definition holds_frames :: "'a kmem_scheme \<Rightarrow> u64 \<Rightarrow> nat \<Rightarrow> bool" where
  "holds_frames s r n \<longleftrightarrow> (\<forall>p \<in> set (frames (ram s) r 0 n). kpage s p \<and> p \<notin> tpages (ram s) r \<and>
     count_list (frames (ram s) r 0 n) p \<le> refcnt s p)"

text \<open>Everything the table at \<open>r\<close> held has been given back.\<close>

definition given_back :: "'a kmem_scheme \<Rightarrow> 'a kmem_scheme \<Rightarrow> u64 \<Rightarrow> nat \<Rightarrow> bool" where
  "given_back s s' r n \<longleftrightarrow> kmem_inv s' \<and>
     frame s s' (tpages (ram s) r \<union> {p \<in> set (frames (ram s) r 0 n). refcnt s' p = 0}) \<and>
     (\<forall>p. kpage s p \<longrightarrow> refcnt s' p = (if p \<in> tpages (ram s) r then 0 else refcnt s p - count_list (frames (ram s) r 0 n) p))"

lemma uvmfree_pages:
  assumes "sz \<le> MAXVA"
  shows "PGROUNDUP sz div PGSIZE = of_nat (npages_of sz)" and "0 < sz \<longleftrightarrow> 0 < npages_of sz"
proof -
  have "unat (PGROUNDUP sz div PGSIZE) = npages_of sz" using PGROUNDUP_npages(1) [OF assms] by (simp add: unat_div)
  then show "PGROUNDUP sz div PGSIZE = of_nat (npages_of sz)" using of_nat_unat_eq by metis
  show "0 < sz \<longleftrightarrow> 0 < npages_of sz" by (auto simp: npages_of_def word_less_nat_alt div_greater_zero_iff)
qed

lemma uvmfree_ok:
  assumes inv: "kmem_inv s" and wf: "wf_pt s r" and sz: "sz \<le> MAXVA" and mp: "maps_below s r (npages_of sz)"
    and hf: "holds_frames s r (npages_of sz)" and to: "tables_only (ram s) r" and d: "2 \<le> d"
  shows "\<exists>s'. uvmfree d s r sz = Inr s' \<and> given_back s s' r (npages_of sz)"
proof -
  let ?n = "npages_of sz" and ?F = "frames (ram s) r 0 (npages_of sz)"
  have M: "page_range 0 ?n" "\<And>i. i < ?n \<Longrightarrow> leaf (pte_at (ram s) r (nth_page 0 i))" using mp by (simp_all add: maps_below_def)
  have fr: "kpage s p \<and> p \<notin> tpages (ram s) r \<and> count_list ?F p \<le> refcnt s p" if "p \<in> set ?F" for p
    using hf that by (simp add: holds_frames_def)
  obtain s1 where s1: "(if sz > 0 then uvmunmap s r 0 (PGROUNDUP sz div PGSIZE) True else Inr s) = Inr s1" "unmapped s s1 r 0 ?n True"
  proof (cases "0 < sz")
    case True
    then show thesis using that uvmunmap_pages [OF inv wf M(1) uvmfree_pages(1) [OF sz] M(2) fr] by auto
  next
    case False
    then have "?n = 0" using uvmfree_pages(2) [OF sz] by simp
    then show thesis using that [of s] False inv wf by (simp add: unmapped_def)
  qed
  have U: "kmem_inv s1" "wf_pt s1 r" "tpages (ram s1) r = tpages (ram s) r"
    "frame s s1 (tpages (ram s) r \<union> {p \<in> set ?F. refcnt s1 p = 0})" "same_inner (ram s) (ram s1) r"
    "\<And>p. kpage s p \<Longrightarrow> refcnt s1 p = refcnt s p - count_list ?F p"
    "\<And>va. va < MAXVA \<Longrightarrow> pte_at (ram s1) r va = (if \<exists>i < ?n. same_page (nth_page 0 i) va then 0 else pte_at (ram s) r va)"
    using s1(2) by (simp_all add: unmapped_def)
  have "pte_at (ram s1) r va AND PTE_V = 0" if "va < MAXVA" for va
    using mp U(7) [OF that] that by (auto simp: maps_below_def)
  from freewalk_releases [OF U(1,2) tables_only_same [OF U(5) to] this d]
  obtain s2 where s2: "freewalk d s1 r = Inr s2" "released s1 s2 (tpages (ram s1) r)" by blast
  have k: "kpage s1 p = kpage s p" for p using frame_kpage [OF U(4)] .
  have c: "refcnt s2 p = (if p \<in> tpages (ram s) r then 0 else refcnt s p - count_list ?F p)" if "kpage s p" for p
    using s2(2) that U(6) [OF that] by (simp add: released_def k U(3))
  have "frame s s2 ((tpages (ram s) r \<union> {p \<in> set ?F. refcnt s1 p = 0}) \<union> tpages (ram s) r)"
    using s2(2) by (intro frame_trans [OF U(4)]) (simp add: released_def U(3))
  then have "frame s s2 (tpages (ram s) r \<union> {p \<in> set ?F. refcnt s2 p = 0})"
    by (rule frame_mono) (use fr c U(6) in auto)
  then have "given_back s s2 r ?n" using s2(2) c by (simp add: given_back_def released_def)
  then show ?thesis using s1(1) s2(1) by (simp add: uvmfree_def)
qed

section \<open>The other address spaces\<close>

definition shares_frames :: "'a kmem_scheme \<Rightarrow> u64 set \<Rightarrow> u64 \<Rightarrow> nat \<Rightarrow> bool" where
  "shares_frames s R r n \<longleftrightarrow> (\<forall>p \<in> set (frames (ram s) r 0 n). kpage s p \<and> (\<forall>r' \<in> R. p \<notin> tpages (ram s) r') \<and>
     count_list (frames (ram s) r 0 n) p + card (mappers s (R - {r}) p) \<le> refcnt s p)"

lemma card_mappers_Diff: "card (mappers s (R - {r}) p) \<le> card (mappers s R p)"
  by (rule card_mono) (auto simp: mappers_def intro: finite_subset [OF subset_UNIV])

lemma given_back_others:
  assumes sp: "spaces s R" and r: "r \<in> R" and g: "given_back s s' r n" and sh: "shares_frames s R r n"
  shows "spaces s' (R - {r})" and "exclusive s R \<Longrightarrow> exclusive s' (R - {r})"
    and "r' \<in> R - {r} \<Longrightarrow> ubyte s' r' y = ubyte s r' y"
proof -
  let ?F = "frames (ram s) r 0 n" and ?Q = "R - {r}"
  define W where "W = tpages (ram s) r \<union> {p \<in> set ?F. refcnt s' p = 0}"
  have f: "frame s s' W" and inv: "kmem_inv s'" and c: "\<And>p. kpage s p \<Longrightarrow>
      refcnt s' p = (if p \<in> tpages (ram s) r then 0 else refcnt s p - count_list ?F p)"
    using g by (simp_all add: given_back_def W_def)
  have F: "kpage s p" "\<And>r'. r' \<in> R \<Longrightarrow> p \<notin> tpages (ram s) r'" "count_list ?F p + card (mappers s ?Q p) \<le> refcnt s p" if "p \<in> set ?F" for p
    using sh that by (auto simp: shares_frames_def)
  have o: "wf_pt s' q" "tpages (ram s') q = tpages (ram s) q" "\<And>va. pte_at (ram s') q va = pte_at (ram s) q va" if q: "q \<in> ?Q" for q
  proof -
    have dj: "tpages (ram s) q \<inter> tpages (ram s) r = {}" using q r spacesD(3) [OF sp, of q r] by simp
    have wf: "wf_pt s q" using q spacesD(2) [OF sp] by simp
    have "tpages (ram s) q \<inter> W = {}" using dj F(2) q by (auto simp: W_def)
    moreover have "refcnt s' p = refcnt s p" if p: "p \<in> tpages (ram s) q" for p
    proof -
      have "p \<notin> set ?F" using F(2) [of p q] p q by blast
      then show ?thesis using c [OF wf_pt_kpage [OF wf p]] p dj by (auto simp: count_list_0_iff)
    qed
    ultimately show "wf_pt s' q" "tpages (ram s') q = tpages (ram s) q" "\<And>va. pte_at (ram s') q va = pte_at (ram s) q va"
      using frame_other [OF f wf] by blast+
  qed
  have m: "mappers s' ?Q p = mappers s ?Q p" for p using o(3) by (auto simp: mappers_def)
  have mp: "kpage s p" "\<And>q. q \<in> R \<Longrightarrow> p \<notin> tpages (ram s) q" "0 < card (mappers s ?Q p)" if "x \<in> mappers s ?Q p" for x p
  proof -
    have "x \<in> mappers s R p" using that by (auto simp: mappers_def)
    then show "kpage s p" "\<And>q. q \<in> R \<Longrightarrow> p \<notin> tpages (ram s) q" using spacesD(4,5) [OF sp] by blast+
    show "0 < card (mappers s ?Q p)" using that by (auto simp: card_gt_0_iff intro: finite_subset [OF subset_UNIV])
  qed
  have cc: "card (mappers s ?Q p) \<le> refcnt s' p" "count_list ?F p = 0 \<Longrightarrow> refcnt s' p = refcnt s p" if x: "x \<in> mappers s ?Q p" for x p
  proof -
    have "refcnt s' p = refcnt s p - count_list ?F p" using c [OF mp(1) [OF x]] mp(2) [OF x r] by simp
    moreover have "count_list ?F p + card (mappers s ?Q p) \<le> refcnt s p"
      using F(3) [of p] card_mappers_Diff [of s R r p] spacesD(6) [OF sp, of p] by (cases "p \<in> set ?F") (simp_all add: count_list_0_iff)
    ultimately show "card (mappers s ?Q p) \<le> refcnt s' p" "count_list ?F p = 0 \<Longrightarrow> refcnt s' p = refcnt s p" by simp_all
  qed
  have k: "kpage s' p = kpage s p" for p using frame_kpage [OF f] .
  have "card (mappers s ?Q p) \<le> refcnt s' p" for p using cc(1) [of _ p] by (cases "mappers s ?Q p = {}") auto
  then show "spaces s' ?Q"
    unfolding spaces_def m k using inv o(1,2) mp(1,2) spacesD(3) [OF sp] by (metis (no_types, lifting) DiffE ex_in_conv)
  have nW: "p \<notin> W" if x: "x \<in> mappers s ?Q p" for x p using cc(1) [OF x] mp(2,3) [OF x] r by (auto simp: W_def)
  show "ubyte s' r' y = ubyte s r' y" if "r' \<in> ?Q"
  proof (rule ubyte_cong)
    show "user_pte (pte_at (ram s') r' y) = user_pte (pte_at (ram s) r' y)" using o(3) [OF that] by simp
    assume y: "y < MAXVA" "user_pte (pte_at (ram s) r' y)"
    let ?p = "PTE2PA (pte_at (ram s) r' y)"
    have "?p \<notin> W" using nW [OF ubyte_mapper [OF that y]] .
    then show "ram s' (PTE2PA (pte_at (ram s') r' y) + (y - PGROUNDDOWN y)) = ram s (?p + (y - PGROUNDDOWN y))"
      using o(3) [OF that] f page_offset [of ?p y] by (simp add: frame_def)
  qed
  show "exclusive s' ?Q" if ex: "exclusive s R"
    unfolding exclusive_def
  proof (intro ballI allI impI)
    fix q va
    assume q: "q \<in> ?Q" and va: "va < MAXVA" and e: "page_aligned va \<and> user_pte (pte_at (ram s') q va)" "pte_at (ram s') q va AND PTE_W \<noteq> 0"
    let ?p = "PTE2PA (pte_at (ram s) q va)"
    have "(q, va) \<in> mappers s ?Q ?p" using q va e(1) o(3) [OF q] by (simp add: mappers_def)
    note x = cc(1) [OF this] mp(1,3) [OF this]
    moreover have "refcnt s ?p = 1" using ex q va e o(3) [OF q] by (simp add: exclusive_def)
    moreover have "refcnt s' ?p \<le> refcnt s ?p" using c [OF x(2)] by simp
    ultimately show "refcnt s' (PTE2PA (pte_at (ram s') q va)) = 1" using o(3) [OF q] by simp
  qed
qed

section \<open>proc\_freepagetable\<close>

text \<open>
  The address space of a process with \<open>n\<close> pages of memory: these pages, the trampoline and the trapframe are mapped, and
  nothing else.
\<close>

definition proc_space :: "'a kmem_scheme \<Rightarrow> u64 \<Rightarrow> nat \<Rightarrow> bool" where
  "proc_space s r n \<longleftrightarrow> 4096 * n \<le> unat TRAPFRAME \<and> tables_only (ram s) r \<and>
     leaf (pte_at (ram s) r TRAMPOLINE) \<and> leaf (pte_at (ram s) r TRAPFRAME) \<and> (\<forall>i < n. leaf (pte_at (ram s) r (nth_page 0 i))) \<and>
     (\<forall>va < MAXVA. pte_at (ram s) r va AND PTE_V \<noteq> 0 \<longrightarrow>
        same_page TRAMPOLINE va \<or> same_page TRAPFRAME va \<or> (\<exists>i < n. same_page (nth_page 0 i) va))"

lemma unmap_kernel_page:
  assumes "kmem_inv s" and "wf_pt s r" and "va \<in> {TRAMPOLINE, TRAPFRAME}" and "leaf (pte_at (ram s) r va)"
  obtains s' where "uvmunmap s r va 1 False = Inr s'" "kmem_inv s'" "wf_pt s' r" "tpages (ram s') r = tpages (ram s) r"
    "frame s s' (tpages (ram s) r)" "same_inner (ram s) (ram s') r" "\<And>p. kpage s p \<Longrightarrow> refcnt s' p = refcnt s p"
    "\<And>x. x < MAXVA \<Longrightarrow> pte_at (ram s') r x = (if same_page va x then 0 else pte_at (ram s) r x)"
proof -
  have "page_range va 1" using assms(3) by (auto simp: page_range_def page_aligned_def)
  from uvmunmap_pages [OF assms(1,2) this, of 1 False] assms(4)
  obtain s' where "uvmunmap s r va 1 False = Inr s'" "unmapped s s' r va 1 False" by auto
  then show thesis by (intro that [of s']) (simp_all add: unmapped_def)
qed

lemma user_page_below:
  assumes "4096 * n \<le> unat TRAPFRAME" and "i < n"
  shows "nth_page 0 i < MAXVA" and "\<not> same_page TRAMPOLINE (nth_page 0 i)" and "\<not> same_page TRAPFRAME (nth_page 0 i)"
proof -
  have pr: "page_range 0 n" using assms(1) by (simp add: page_range_def)
  note R = nth_page_range [OF pr assms(2)] nth_page_unat [OF pr assms(2)]
  show "nth_page 0 i < MAXVA" by (rule R)
  have "unat (nth_page 0 i) < unat TRAPFRAME" using R(3) assms by simp
  then have "nth_page 0 i \<noteq> TRAPFRAME" "nth_page 0 i \<noteq> TRAMPOLINE" by auto
  moreover have "page_aligned TRAPFRAME" "page_aligned TRAMPOLINE" by (simp_all add: page_aligned_def)
  ultimately show "\<not> same_page TRAMPOLINE (nth_page 0 i)" "\<not> same_page TRAPFRAME (nth_page 0 i)"
    using R(2) by (auto simp: same_page_aligned)
qed

lemma proc_freepagetable_ok:
  fixes s :: "'a ktrap_scheme"
  assumes inv: "kmem_inv s" and wf: "wf_pt s r" and sz: "sz \<le> MAXVA" and ps: "proc_space s r (npages_of sz)"
    and hf: "holds_frames s r (npages_of sz)"
  shows "\<exists>s'. proc_freepagetable r sz s = Inr s' \<and> given_back s s' r (npages_of sz)"
proof -
  let ?n = "npages_of sz"
  have P: "4096 * ?n \<le> unat TRAPFRAME" "tables_only (ram s) r" "leaf (pte_at (ram s) r TRAMPOLINE)" "leaf (pte_at (ram s) r TRAPFRAME)"
    "\<And>i. i < ?n \<Longrightarrow> leaf (pte_at (ram s) r (nth_page 0 i))"
    "\<And>va. va < MAXVA \<Longrightarrow> pte_at (ram s) r va AND PTE_V \<noteq> 0 \<Longrightarrow>
        same_page TRAMPOLINE va \<or> same_page TRAPFRAME va \<or> (\<exists>i < ?n. same_page (nth_page 0 i) va)"
    using ps by (simp_all add: proc_space_def)
  obtain s1 where s1: "uvmunmap s r TRAMPOLINE 1 False = Inr s1" "kmem_inv s1" "wf_pt s1 r" "tpages (ram s1) r = tpages (ram s) r"
    "frame s s1 (tpages (ram s) r)" "same_inner (ram s) (ram s1) r" "\<And>p. kpage s p \<Longrightarrow> refcnt s1 p = refcnt s p"
    "\<And>x. x < MAXVA \<Longrightarrow> pte_at (ram s1) r x = (if same_page TRAMPOLINE x then 0 else pte_at (ram s) r x)"
    by (rule unmap_kernel_page [OF inv wf _ P(3)]) (simp, rule that)
  have lf: "leaf (pte_at (ram s1) r TRAPFRAME)" using s1(8) [of TRAPFRAME] P(4) by (simp add: same_page_def PGROUNDDOWN_def)
  obtain s2 where s2: "uvmunmap s1 r TRAPFRAME 1 False = Inr s2" "kmem_inv s2" "wf_pt s2 r" "tpages (ram s2) r = tpages (ram s1) r"
    "frame s1 s2 (tpages (ram s1) r)" "same_inner (ram s1) (ram s2) r" "\<And>p. kpage s1 p \<Longrightarrow> refcnt s2 p = refcnt s1 p"
    "\<And>x. x < MAXVA \<Longrightarrow> pte_at (ram s2) r x = (if same_page TRAPFRAME x then 0 else pte_at (ram s1) r x)"
    by (rule unmap_kernel_page [OF s1(2,3) _ lf]) (simp, rule that)
  have k1: "kpage s1 p = kpage s p" and k2: "kpage s2 p = kpage s1 p" for p using frame_kpage [OF s1(5)] frame_kpage [OF s2(5)] .
  have e: "pte_at (ram s2) r (nth_page 0 i) = pte_at (ram s) r (nth_page 0 i)" if "i < ?n" for i
    using user_page_below [OF P(1) that] s1(8) s2(8) by simp
  have fs: "frames (ram s2) r 0 ?n = frames (ram s) r 0 ?n" using e by (rule frames_cong)
  have "maps_below s2 r ?n" unfolding maps_below_def
  proof (intro conjI allI impI)
    show "page_range 0 ?n" using P(1) by (simp add: page_range_def)
    show "leaf (pte_at (ram s2) r (nth_page 0 i))" if "i < ?n" for i using P(5) [OF that] e [OF that] by simp
    show "\<exists>i < ?n. same_page (nth_page 0 i) va" if "va < MAXVA" "pte_at (ram s2) r va AND PTE_V \<noteq> 0" for va
      using P(6) [OF that(1)] that(2) s1(8) [OF that(1)] s2(8) [OF that(1)] by (auto split: if_splits)
  qed
  moreover have "holds_frames s2 r ?n" using hf s1(4,7) s2(4,7) by (simp add: holds_frames_def fs k1 k2)
  moreover have "tables_only (ram s2) r" using P(2) s1(6) s2(6) tables_only_same by blast
  ultimately obtain s3 where s3: "uvmfree FREEWALK_DEPTH s2 r sz = Inr s3" "given_back s2 s3 r ?n"
    using uvmfree_ok [OF s2(2,3) sz, of FREEWALK_DEPTH] by auto
  have t: "tpages (ram s2) r = tpages (ram s) r" using s1(4) s2(4) by simp
  have "frame s s2 (tpages (ram s) r)" using frame_trans [OF s1(5) s2(5)] s1(4) by simp
  moreover have "frame s2 s3 (tpages (ram s) r \<union> {p \<in> set (frames (ram s) r 0 ?n). refcnt s3 p = 0})"
    using s3(2) unfolding given_back_def t fs by blast
  ultimately have "frame s s3 (tpages (ram s) r \<union> (tpages (ram s) r \<union> {p \<in> set (frames (ram s) r 0 ?n). refcnt s3 p = 0}))"
    by (rule frame_trans)
  then have "given_back s s3 r ?n" using s3(2) s1(7) s2(7) unfolding given_back_def t fs k1 k2 by simp
  then show ?thesis using s1(1) s2(1) s3(1) by (simp add: proc_freepagetable_def)
qed

section \<open>A process about to be freed\<close>

text \<open>
  One process with a page of memory at address 0, its trampoline and its trapframe; five table pages. No page is free.
\<close>

definition exiting_entries :: "((u64 \<times> u64) \<times> u64) list" where
  "exiting_entries =
    [((0x87ff8000, 0), PA2PTE 0x87ff9000 OR PTE_V),
     ((0x87ff9000, 0), PA2PTE 0x87ffa000 OR PTE_V),
     ((0x87ffa000, 0), PA2PTE 0x87ffe000 OR PTE_V OR PTE_R OR PTE_W OR PTE_U),
     ((0x87ff8000, 255), PA2PTE 0x87ffb000 OR PTE_V),
     ((0x87ffb000, 511), PA2PTE 0x87ffc000 OR PTE_V),
     ((0x87ffc000, 511), PA2PTE 0x80007000 OR PTE_V OR PTE_R OR PTE_X),
     ((0x87ffc000, 510), PA2PTE 0x87fff000 OR PTE_V OR PTE_R OR PTE_W)]"

definition exiting :: ktrap where
  "exiting = kmem.extend \<lparr>ram = install exiting_entries, kend = 0x87ff7000, freelist = 0, refer_count = (\<lambda>_. 1)\<rparr> (kmem.more (trapped 0))"

lemma exiting_sel: "ram exiting = install exiting_entries" "kend exiting = 0x87ff7000" "freelist exiting = 0" "refer_count exiting = (\<lambda>_. 1)"
  by (simp_all add: exiting_def kmem.defs)

lemma exiting_ld64:
  assumes "i < 512"
  shows "ld64 (ram exiting) (0x87ff8000 + 8 * i) = (if i = 0 then 0x21FFE401 else if i = 255 then 0x21FFEC01 else 0)"
    and "ld64 (ram exiting) (0x87ff9000 + 8 * i) = (if i = 0 then 0x21FFE801 else 0)"
    and "ld64 (ram exiting) (0x87ffa000 + 8 * i) = (if i = 0 then 0x21FFF817 else 0)"
    and "ld64 (ram exiting) (0x87ffb000 + 8 * i) = (if i = 511 then 0x21FFF001 else 0)"
    and "ld64 (ram exiting) (0x87ffc000 + 8 * i) = (if i = 511 then 0x20001C0B else if i = 510 then 0x21FFFC07 else 0)"
proof -
  have e: "\<forall>((q, j), v) \<in> set exiting_entries. page_aligned q \<and> j < 512" by (simp add: exiting_entries_def page_aligned_def)
  show "ld64 (ram exiting) (0x87ff8000 + 8 * i) = (if i = 0 then 0x21FFE401 else if i = 255 then 0x21FFEC01 else 0)"
    "ld64 (ram exiting) (0x87ff9000 + 8 * i) = (if i = 0 then 0x21FFE801 else 0)"
    "ld64 (ram exiting) (0x87ffa000 + 8 * i) = (if i = 0 then 0x21FFF817 else 0)"
    "ld64 (ram exiting) (0x87ffb000 + 8 * i) = (if i = 511 then 0x21FFF001 else 0)"
    "ld64 (ram exiting) (0x87ffc000 + 8 * i) = (if i = 511 then 0x20001C0B else if i = 510 then 0x21FFFC07 else 0)"
    unfolding exiting_sel(1) by (subst ld64_install [OF e]; use assms in \<open>simp add: exiting_entries_def PA2PTE_def page_aligned_def\<close>)+
qed

lemma exiting_table:
  assumes "i < 512"
  shows "node (ram exiting) 0x87ff8000 (i # is) =
      (if i = 0 then node (ram exiting) 0x87ff9000 is else if i = 255 then node (ram exiting) 0x87ffb000 is else None)"
    and "node (ram exiting) 0x87ff9000 (i # is) = (if i = 0 then node (ram exiting) 0x87ffa000 is else None)"
    and "node (ram exiting) 0x87ffb000 (i # is) = (if i = 511 then node (ram exiting) 0x87ffc000 is else None)"
  unfolding node.simps exiting_ld64 [OF assms] by (simp_all add: PTE2PA_def)

lemma exiting_node:
  assumes "idx_ok is"
  shows "node (ram exiting) 0x87ff8000 is =
      (if is = [] then Some 0x87ff8000 else if is = [0] then Some 0x87ff9000 else if is = [0, 0] then Some 0x87ffa000
       else if is = [255] then Some 0x87ffb000 else if is = [255, 511] then Some 0x87ffc000 else None)"
  using assms by (cases rule: idx_ok_cases) (auto simp del: node.simps(2) simp: exiting_table)

lemma exiting_tpages: "tpages (ram exiting) 0x87ff8000 = {0x87ff8000, 0x87ff9000, 0x87ffa000, 0x87ffb000, 0x87ffc000}"
proof
  show "tpages (ram exiting) 0x87ff8000 \<subseteq> {0x87ff8000, 0x87ff9000, 0x87ffa000, 0x87ffb000, 0x87ffc000}"
    using exiting_node by (auto simp: tpages_def split: if_splits)
  have "idx_ok [0]" "idx_ok [0, 0]" "idx_ok [255]" "idx_ok [255, 511]" by (simp_all add: idx_ok_def)
  then have "0x87ff9000 \<in> tpages (ram exiting) 0x87ff8000" "0x87ffa000 \<in> tpages (ram exiting) 0x87ff8000"
    "0x87ffb000 \<in> tpages (ram exiting) 0x87ff8000" "0x87ffc000 \<in> tpages (ram exiting) 0x87ff8000"
    using node_tpages [of _ "ram exiting" "0x87ff8000"] exiting_node by fastforce+
  then show "{0x87ff8000, 0x87ff9000, 0x87ffa000, 0x87ffb000, 0x87ffc000} \<subseteq> tpages (ram exiting) 0x87ff8000" by simp
qed

lemma exiting_counts: "kpage exiting p \<longleftrightarrow> page_aligned p \<and> 0x87ff7000 \<le> p \<and> p < PHYSTOP" "refcnt exiting p = 1" "free_pages exiting = {}"
  by (auto simp: kpage_def refcnt_def free_pages_def exiting_sel)

lemma exiting_wf: "wf_pt exiting 0x87ff8000" "kmem_inv exiting"
proof -
  show "wf_pt exiting 0x87ff8000"
    unfolding wf_pt_def exiting_tpages using exiting_node by (auto simp: exiting_counts page_aligned_def split: if_splits)
  show "kmem_inv exiting" unfolding kmem_inv_def exiting_counts(3) by (auto simp: kend_ok_def exiting_sel intro!: exI [of _ "[]"])
qed

lemma exiting_pte:
  assumes "va < MAXVA"
  shows "pte_at (ram exiting) 0x87ff8000 va = (if same_page 0 va then 0x21FFF817 else if same_page TRAMPOLINE va then 0x20001C0B
    else if same_page TRAPFRAME va then 0x21FFFC07 else 0)"
proof -
  have P: "path 0 = [0, 0]" "PX 0 0 = 0" "path TRAMPOLINE = [255, 511]" "PX 0 TRAMPOLINE = 511" "path TRAPFRAME = [255, 511]" "PX 0 TRAPFRAME = 510"
    by (simp_all add: path_def PX_def)
  have *: "path va \<noteq> []" "path va \<noteq> [x]" for x by (simp_all add: path_def)
  show ?thesis
    using same_page_iff_PX [of 0 va] same_page_iff_PX [of TRAMPOLINE va] same_page_iff_PX [of TRAPFRAME va] assms * P
      exiting_ld64(3,5) [OF PX_less [of 0 va]]
    by (auto simp: pte_at_def pte_slot_def exiting_node eq_commute [of _ "path va"] eq_commute [of _ "PX 0 va"])
qed

lemma exiting_mappers: "mappers exiting {0x87ff8000} p = (if p = 0x87ffe000 then {(0x87ff8000, 0)} else {})"
proof -
  have "\<not> user_pte 0x20001C0B" "\<not> user_pte 0x21FFFC07" "\<not> user_pte 0" "user_pte 0x21FFF817" "PTE2PA 0x21FFF817 = 0x87ffe000"
    by (simp_all add: user_pte_def PTE2PA_def)
  then show ?thesis using exiting_pte two_user_pages(1) by (auto simp: mappers_def split: if_splits)
qed

lemma exiting_spaces: "spaces exiting {0x87ff8000}"
  unfolding spaces_def exiting_mappers using exiting_wf by (auto simp: exiting_tpages exiting_counts page_aligned_def)

lemma exiting_space: "proc_space exiting 0x87ff8000 1" "shares_frames exiting {0x87ff8000} 0x87ff8000 1"
  "frames (ram exiting) 0x87ff8000 0 1 = [0x87ffe000]"
proof -
  show f: "frames (ram exiting) 0x87ff8000 0 1 = [0x87ffe000]"
    using exiting_pte [of 0] by (simp add: frames_def nth_page_def PTE2PA_def same_page_def)
  have "tables_only (ram exiting) 0x87ff8000" unfolding tables_only_def
  proof (intro allI impI)
    fix "is" and i e :: u64
    assume a: "idx_ok (is @ [i])" "inner (ram exiting) 0x87ff8000 is i = Some e" "e AND PTE_V \<noteq> 0"
    then have i: "i < 512" "idx_ok is" "is \<noteq> [0, 0]" "is \<noteq> [255, 511]" by (auto simp: idx_ok_snoc)
    show "e AND (PTE_R OR PTE_W OR PTE_X) = 0 \<and> (is = [] \<longrightarrow> i < 256)"
      using a(2,3) i exiting_node [OF i(2)] exiting_ld64 [OF i(1)] by (auto simp: inner_def split: if_splits)
  qed
  moreover have "leaf 0x21FFF817" "leaf 0x20001C0B" "leaf 0x21FFFC07" by (simp_all add: leaf_def PTE_FLAGS_def)
  ultimately show "proc_space exiting 0x87ff8000 1"
    using exiting_pte [of TRAMPOLINE] exiting_pte [of TRAPFRAME] exiting_pte [of 0] exiting_pte
    unfolding proc_space_def by (auto simp: same_page_def PGROUNDDOWN_def nth_page_def split: if_splits)
  show "shares_frames exiting {0x87ff8000} 0x87ff8000 1"
    unfolding shares_frames_def f by (simp add: exiting_counts exiting_tpages page_aligned_def mappers_def)
qed

text \<open>
  C10. Giving back the page table of a process ends and gives everything back: \<open>proc_freepagetable\<close> unmaps the trampoline,
  the trapframe and the memory of the process, and \<open>freewalk\<close>, which recurses at most twice, frees the table. Afterwards
  the table pages are free, as is every page that no other process shares; the invariants of the other address spaces hold,
  and no other process sees a byte of its memory change.
\<close>

theorem proc_freepagetable_releases:
  assumes "spaces s R" and "r \<in> R" and "sz \<le> MAXVA" and "proc_space s r (npages_of sz)"
    and "shares_frames s R r (npages_of sz)"
  shows "\<exists>s'. proc_freepagetable r sz s = Inr s' \<and> spaces s' (R - {r}) \<and> (exclusive s R \<longrightarrow> exclusive s' (R - {r})) \<and>
    (\<forall>r' \<in> R - {r}. \<forall>y. ubyte s' r' y = ubyte s r' y) \<and>
    free_pages s' = free_pages s \<union> tpages (ram s) r \<union>
      {p \<in> set (frames (ram s) r 0 (npages_of sz)). refcnt s p = count_list (frames (ram s) r 0 (npages_of sz)) p}"
proof -
  let ?F = "frames (ram s) r 0 (npages_of sz)"
  have wf: "wf_pt s r" using spacesD(2) [OF assms(1,2)] .
  have "holds_frames s r (npages_of sz)" using assms(2,5) by (auto simp: holds_frames_def shares_frames_def intro: add_leD1)
  from proc_freepagetable_ok [OF spacesD(1) [OF assms(1)] wf assms(3,4) this]
  obtain s' where s': "proc_freepagetable r sz s = Inr s'" "given_back s s' r (npages_of sz)" by blast
  note O = given_back_others [OF assms(1,2) s'(2) assms(5)]
  have c: "refcnt s' p = (if p \<in> tpages (ram s) r then 0 else refcnt s p - count_list ?F p)" if "kpage s p" for p
    using s'(2) that by (simp add: given_back_def)
  have k: "kpage s' p = kpage s p" for p using s'(2) frame_kpage unfolding given_back_def by blast
  have F: "count_list ?F p \<le> refcnt s p" "kpage s p" if "p \<in> set ?F" for p using assms(5) that by (auto simp: shares_frames_def)
  have "p \<in> free_pages s' \<longleftrightarrow> p \<in> free_pages s \<union> tpages (ram s) r \<union> {p \<in> set ?F. refcnt s p = count_list ?F p}" for p
  proof (cases "kpage s p")
    case True
    have "count_list ?F p = 0" if "p \<notin> set ?F" using that by (simp add: count_list_0_iff)
    then show ?thesis using c [OF True] True F(1) [of p] by (cases "p \<in> set ?F") (auto simp: free_pages_def k)
  next
    case False
    then show ?thesis using F(2) wf_pt_kpage [OF wf] by (auto simp: free_pages_def k)
  qed
  then have "free_pages s' = free_pages s \<union> tpages (ram s) r \<union> {p \<in> set ?F. refcnt s p = count_list ?F p}" by blast
  then show ?thesis using s'(1) O by blast
qed

theorem proc_freepagetable_releases_witness:
  "\<exists>s'. proc_freepagetable 0x87ff8000 0x800 exiting = Inr s' \<and>
     free_pages s' = {0x87ff8000, 0x87ff9000, 0x87ffa000, 0x87ffb000, 0x87ffc000, 0x87ffe000}"
proof -
  have n: "npages_of 0x800 = 1" by (simp add: npages_of_def)
  from proc_freepagetable_releases [OF exiting_spaces, of "0x87ff8000" "0x800"] exiting_space
  obtain s' where "proc_freepagetable 0x87ff8000 0x800 exiting = Inr s'"
    "free_pages s' = free_pages exiting \<union> tpages (ram exiting) 0x87ff8000 \<union> {p \<in> set [0x87ffe000]. refcnt exiting p = count_list [0x87ffe000] p}"
    unfolding n exiting_space(3) by auto
  then show ?thesis by (intro exI [of _ s']) (auto simp: exiting_counts exiting_tpages)
qed

end
