(* ===== verification/Assembly.thy ===== *)
theory Assembly
  imports Ram
begin

text \<open>
  The assembly code of the kernel: entry to and return from the kernel (\<open>trampoline.S\<close>), traps in the kernel and timer
  interrupts (\<open>kernelvec.S\<close>), the context switch (\<open>swtch.S\<close>) and the first instructions (\<open>entry.S\<close>). Each routine is the list of
  its instructions, over a hart with its general registers, the control registers the code uses, and memory.

  Address translation is a parameter: \<open>vm satp va\<close> is the physical address of \<open>va\<close> under the page table in \<open>satp\<close>.
\<close>

section \<open>The hart\<close>

abbreviation (input) x_ra :: nat where "x_ra \<equiv> 1"
abbreviation (input) x_sp :: nat where "x_sp \<equiv> 2"
abbreviation (input) x_gp :: nat where "x_gp \<equiv> 3"
abbreviation (input) x_tp :: nat where "x_tp \<equiv> 4"
abbreviation (input) x_t0 :: nat where "x_t0 \<equiv> 5"
abbreviation (input) x_t1 :: nat where "x_t1 \<equiv> 6"
abbreviation (input) x_t2 :: nat where "x_t2 \<equiv> 7"
abbreviation (input) x_s0 :: nat where "x_s0 \<equiv> 8"
abbreviation (input) x_s1 :: nat where "x_s1 \<equiv> 9"
abbreviation (input) x_a0 :: nat where "x_a0 \<equiv> 10"
abbreviation (input) x_a1 :: nat where "x_a1 \<equiv> 11"
abbreviation (input) x_a2 :: nat where "x_a2 \<equiv> 12"
abbreviation (input) x_a3 :: nat where "x_a3 \<equiv> 13"
abbreviation (input) x_a4 :: nat where "x_a4 \<equiv> 14"
abbreviation (input) x_a5 :: nat where "x_a5 \<equiv> 15"
abbreviation (input) x_a6 :: nat where "x_a6 \<equiv> 16"
abbreviation (input) x_a7 :: nat where "x_a7 \<equiv> 17"
abbreviation (input) x_s2 :: nat where "x_s2 \<equiv> 18"
abbreviation (input) x_s3 :: nat where "x_s3 \<equiv> 19"
abbreviation (input) x_s4 :: nat where "x_s4 \<equiv> 20"
abbreviation (input) x_s5 :: nat where "x_s5 \<equiv> 21"
abbreviation (input) x_s6 :: nat where "x_s6 \<equiv> 22"
abbreviation (input) x_s7 :: nat where "x_s7 \<equiv> 23"
abbreviation (input) x_s8 :: nat where "x_s8 \<equiv> 24"
abbreviation (input) x_s9 :: nat where "x_s9 \<equiv> 25"
abbreviation (input) x_s10 :: nat where "x_s10 \<equiv> 26"
abbreviation (input) x_s11 :: nat where "x_s11 \<equiv> 27"
abbreviation (input) x_t3 :: nat where "x_t3 \<equiv> 28"
abbreviation (input) x_t4 :: nat where "x_t4 \<equiv> 29"
abbreviation (input) x_t5 :: nat where "x_t5 \<equiv> 30"
abbreviation (input) x_t6 :: nat where "x_t6 \<equiv> 31"

datatype csr_name = Satp | Sscratch | Sepc | Mscratch | Mepc | Sip | Mhartid

datatype instr = SD nat nat nat | LD nat nat nat | LI nat u64 | LA nat u64 | ADDI nat nat int | ADD nat nat nat | MUL nat nat nat
  | CSRW csr_name nat | CSRR nat csr_name | CSRRW nat csr_name nat | SFENCE_VMA | JR nat | SRET | MRET | RET

record hart =
  xreg :: "nat \<Rightarrow> u64"
  creg :: "csr_name \<Rightarrow> u64"
  hmem :: mem
  hpc :: u64

fun instr_step :: "(u64 \<Rightarrow> u64 \<Rightarrow> u64) \<Rightarrow> instr \<Rightarrow> hart \<Rightarrow> hart" where
  "instr_step vm (SD r k b) h = h\<lparr>hmem := st64 (hmem h) (vm (creg h Satp) (xreg h b + of_nat k)) (xreg h r)\<rparr>"
| "instr_step vm (LD r k b) h = h\<lparr>xreg := (xreg h)(r := ld64 (hmem h) (vm (creg h Satp) (xreg h b + of_nat k)))\<rparr>"
| "instr_step vm (LI r v) h = h\<lparr>xreg := (xreg h)(r := v)\<rparr>"
| "instr_step vm (LA r v) h = h\<lparr>xreg := (xreg h)(r := v)\<rparr>"
| "instr_step vm (ADDI r q i) h = h\<lparr>xreg := (xreg h)(r := xreg h q + word_of_int i)\<rparr>"
| "instr_step vm (ADD r p q) h = h\<lparr>xreg := (xreg h)(r := xreg h p + xreg h q)\<rparr>"
| "instr_step vm (MUL r p q) h = h\<lparr>xreg := (xreg h)(r := xreg h p * xreg h q)\<rparr>"
| "instr_step vm (CSRW c r) h = h\<lparr>creg := (creg h)(c := xreg h r)\<rparr>"
| "instr_step vm (CSRR r c) h = h\<lparr>xreg := (xreg h)(r := creg h c)\<rparr>"
| "instr_step vm (CSRRW r c q) h = h\<lparr>xreg := (xreg h)(r := creg h c), creg := (creg h)(c := xreg h q)\<rparr>"
| "instr_step vm SFENCE_VMA h = h"
| "instr_step vm (JR r) h = h\<lparr>hpc := xreg h r\<rparr>"
| "instr_step vm SRET h = h\<lparr>hpc := creg h Sepc\<rparr>"
| "instr_step vm MRET h = h\<lparr>hpc := creg h Mepc\<rparr>"
| "instr_step vm RET h = h\<lparr>hpc := xreg h x_ra\<rparr>"

fun run :: "(u64 \<Rightarrow> u64 \<Rightarrow> u64) \<Rightarrow> instr list \<Rightarrow> hart \<Rightarrow> hart" where
  "run vm [] h = h"
| "run vm (i # is) h = run vm is (instr_step vm i h)"

section \<open>The code\<close>

abbreviation (input) TRAPFRAME_VA :: u64 where "TRAPFRAME_VA \<equiv> 0x3FFFFFE000"

definition uservec_code :: "instr list" where
  "uservec_code =
     [CSRW Sscratch x_a0, LI x_a0 TRAPFRAME_VA, SD x_ra 40 x_a0, SD x_sp 48 x_a0, SD x_gp 56 x_a0, SD x_tp 64 x_a0,
      SD x_t0 72 x_a0, SD x_t1 80 x_a0, SD x_t2 88 x_a0, SD x_s0 96 x_a0, SD x_s1 104 x_a0, SD x_a1 120 x_a0,
      SD x_a2 128 x_a0, SD x_a3 136 x_a0, SD x_a4 144 x_a0, SD x_a5 152 x_a0, SD x_a6 160 x_a0, SD x_a7 168 x_a0,
      SD x_s2 176 x_a0, SD x_s3 184 x_a0, SD x_s4 192 x_a0, SD x_s5 200 x_a0, SD x_s6 208 x_a0, SD x_s7 216 x_a0,
      SD x_s8 224 x_a0, SD x_s9 232 x_a0, SD x_s10 240 x_a0, SD x_s11 248 x_a0, SD x_t3 256 x_a0, SD x_t4 264 x_a0,
      SD x_t5 272 x_a0, SD x_t6 280 x_a0, CSRR x_t0 Sscratch, SD x_t0 112 x_a0, LD x_sp 8 x_a0, LD x_tp 32 x_a0,
      LD x_t0 16 x_a0, LD x_t1 0 x_a0, SFENCE_VMA, CSRW Satp x_t1, SFENCE_VMA, JR x_t0]"

definition userret_code :: "instr list" where
  "userret_code =
     [SFENCE_VMA, CSRW Satp x_a0, SFENCE_VMA, LI x_a0 TRAPFRAME_VA, LD x_ra 40 x_a0, LD x_sp 48 x_a0,
      LD x_gp 56 x_a0, LD x_tp 64 x_a0, LD x_t0 72 x_a0, LD x_t1 80 x_a0, LD x_t2 88 x_a0, LD x_s0 96 x_a0,
      LD x_s1 104 x_a0, LD x_a1 120 x_a0, LD x_a2 128 x_a0, LD x_a3 136 x_a0, LD x_a4 144 x_a0, LD x_a5 152 x_a0,
      LD x_a6 160 x_a0, LD x_a7 168 x_a0, LD x_s2 176 x_a0, LD x_s3 184 x_a0, LD x_s4 192 x_a0, LD x_s5 200 x_a0,
      LD x_s6 208 x_a0, LD x_s7 216 x_a0, LD x_s8 224 x_a0, LD x_s9 232 x_a0, LD x_s10 240 x_a0, LD x_s11 248 x_a0,
      LD x_t3 256 x_a0, LD x_t4 264 x_a0, LD x_t5 272 x_a0, LD x_t6 280 x_a0, LD x_a0 112 x_a0, SRET]"

text \<open>\<open>kernelvec\<close> before and after its call of \<open>kerneltrap\<close>.\<close>

definition kernelvec_save :: "instr list" where
  "kernelvec_save =
     [ADDI x_sp x_sp (-256), SD x_ra 0 x_sp, SD x_sp 8 x_sp, SD x_gp 16 x_sp, SD x_tp 24 x_sp, SD x_t0 32 x_sp,
      SD x_t1 40 x_sp, SD x_t2 48 x_sp, SD x_s0 56 x_sp, SD x_s1 64 x_sp, SD x_a0 72 x_sp, SD x_a1 80 x_sp,
      SD x_a2 88 x_sp, SD x_a3 96 x_sp, SD x_a4 104 x_sp, SD x_a5 112 x_sp, SD x_a6 120 x_sp, SD x_a7 128 x_sp,
      SD x_s2 136 x_sp, SD x_s3 144 x_sp, SD x_s4 152 x_sp, SD x_s5 160 x_sp, SD x_s6 168 x_sp, SD x_s7 176 x_sp,
      SD x_s8 184 x_sp, SD x_s9 192 x_sp, SD x_s10 200 x_sp, SD x_s11 208 x_sp, SD x_t3 216 x_sp, SD x_t4 224 x_sp,
      SD x_t5 232 x_sp, SD x_t6 240 x_sp]"

definition kernelvec_restore :: "instr list" where
  "kernelvec_restore =
     [LD x_ra 0 x_sp, LD x_sp 8 x_sp, LD x_gp 16 x_sp, LD x_t0 32 x_sp, LD x_t1 40 x_sp, LD x_t2 48 x_sp,
      LD x_s0 56 x_sp, LD x_s1 64 x_sp, LD x_a0 72 x_sp, LD x_a1 80 x_sp, LD x_a2 88 x_sp, LD x_a3 96 x_sp,
      LD x_a4 104 x_sp, LD x_a5 112 x_sp, LD x_a6 120 x_sp, LD x_a7 128 x_sp, LD x_s2 136 x_sp, LD x_s3 144 x_sp,
      LD x_s4 152 x_sp, LD x_s5 160 x_sp, LD x_s6 168 x_sp, LD x_s7 176 x_sp, LD x_s8 184 x_sp, LD x_s9 192 x_sp,
      LD x_s10 200 x_sp, LD x_s11 208 x_sp, LD x_t3 216 x_sp, LD x_t4 224 x_sp, LD x_t5 232 x_sp, LD x_t6 240 x_sp,
      ADDI x_sp x_sp 256, SRET]"

definition timervec_code :: "instr list" where
  "timervec_code =
     [CSRRW x_a0 Mscratch x_a0, SD x_a1 0 x_a0, SD x_a2 8 x_a0, SD x_a3 16 x_a0, LD x_a1 24 x_a0, LD x_a2 32 x_a0,
      LD x_a3 0 x_a1, ADD x_a3 x_a3 x_a2, SD x_a3 0 x_a1, LI x_a1 2, CSRW Sip x_a1, LD x_a3 16 x_a0,
      LD x_a2 8 x_a0, LD x_a1 0 x_a0, CSRRW x_a0 Mscratch x_a0, MRET]"

definition swtch_code :: "instr list" where
  "swtch_code =
     [SD x_ra 0 x_a0, SD x_sp 8 x_a0, SD x_s0 16 x_a0, SD x_s1 24 x_a0, SD x_s2 32 x_a0, SD x_s3 40 x_a0,
      SD x_s4 48 x_a0, SD x_s5 56 x_a0, SD x_s6 64 x_a0, SD x_s7 72 x_a0, SD x_s8 80 x_a0, SD x_s9 88 x_a0,
      SD x_s10 96 x_a0, SD x_s11 104 x_a0, LD x_ra 0 x_a1, LD x_sp 8 x_a1, LD x_s0 16 x_a1, LD x_s1 24 x_a1,
      LD x_s2 32 x_a1, LD x_s3 40 x_a1, LD x_s4 48 x_a1, LD x_s5 56 x_a1, LD x_s6 64 x_a1, LD x_s7 72 x_a1,
      LD x_s8 80 x_a1, LD x_s9 88 x_a1, LD x_s10 96 x_a1, LD x_s11 104 x_a1, RET]"

text \<open>Up to the call of \<open>start\<close>; the address of \<open>stack0\<close> is the linker's.\<close>

definition entry_code :: "u64 \<Rightarrow> instr list" where
  "entry_code stack0 =
     [LA x_sp stack0, LI x_a0 (1024 * 4), CSRR x_a1 Mhartid, ADDI x_a1 x_a1 1, MUL x_a0 x_a0 x_a1,
      ADD x_sp x_sp x_a0]"

section \<open>Saving and restoring registers\<close>

lemma run_append: "run vm (is @ js) h = run vm js (run vm is h)"
  by (induction "is" arbitrary: h) simp_all

text \<open>The memory that the offsets from a base register lead to.\<close>

definition at_page :: "(u64 \<Rightarrow> u64 \<Rightarrow> u64) \<Rightarrow> u64 \<Rightarrow> u64 \<Rightarrow> u64 \<Rightarrow> bool" where
  "at_page vm pt va pa \<longleftrightarrow> pa mod 8 = 0 \<and> (\<forall>k < 512. vm pt (va + of_nat k) = pa + of_nat k)"

text \<open>Registers and the offsets where they are kept.\<close>

definition slots_ok :: "(nat \<times> nat) list \<Rightarrow> bool" where
  "slots_ok ps \<longleftrightarrow> distinct (map fst ps) \<and> distinct (map snd ps) \<and> (\<forall>k \<in> set (map snd ps). k < 512 \<and> k mod 8 = 0)"

lemma slots_okD:
  assumes "slots_ok ps" "(r, k) \<in> set ps"
  shows "map_of ps r = Some k" "map_of (map prod.swap ps) k = Some r" "k < 512" "k mod 8 = 0"
proof -
  have "distinct (map fst (map prod.swap ps))" using assms(1) by (simp add: slots_ok_def comp_def)
  moreover have "(k, r) \<in> set (map prod.swap ps)" using assms(2) by force
  ultimately show "map_of (map prod.swap ps) k = Some r" by (simp only: map_of_is_SomeI)
  show "map_of ps r = Some k" using assms by (simp add: slots_ok_def)
  show "k < 512" "k mod 8 = 0" using assms by (force simp: slots_ok_def)+
qed

abbreviation slot_adr :: "u64 \<Rightarrow> nat \<Rightarrow> u64" where
  "slot_adr pa k \<equiv> pa + of_nat k"

lemma slot_aligned:
  assumes "pa mod 8 = 0" "k mod 8 = 0"
  shows "slot_adr pa k mod 8 = 0"
proof -
  have "unat pa mod 8 = 0" using arg_cong [OF assms(1), of unat] by (simp add: unat_mod)
  then have "(unat pa + k) mod 8 = 0" using assms(2) by (metis mod_add_eq add_0 mod_0)
  then have "unat (slot_adr pa k mod 8) = 0"
    by (simp add: unat_mod unat_word_ariths unat_of_nat mod_mod_cancel mod_simps)
  then show ?thesis by (simp add: unat_eq_zero)
qed

lemma slot_adr_inj: "j < 512 \<Longrightarrow> k < 512 \<Longrightarrow> slot_adr pa j = slot_adr pa k \<longleftrightarrow> j = k"
proof -
  assume "j < 512" "k < 512"
  then have "unat (of_nat j :: u64) = j" "unat (of_nat k :: u64) = k" by (simp_all add: unat_of_nat)
  then show ?thesis by (metis add_left_cancel)
qed

definition saved :: "u64 \<Rightarrow> (nat \<Rightarrow> u64) \<Rightarrow> (nat \<times> nat) list \<Rightarrow> mem \<Rightarrow> mem" where
  "saved pa x ps m = fold (\<lambda>(r, k) m. st64 m (slot_adr pa k) (x r)) ps m"

lemma run_saves:
  assumes "at_page vm (creg h Satp) (xreg h b) pa" "\<forall>k \<in> set (map snd ps). k < 512"
  shows "run vm (map (\<lambda>(r, k). SD r k b) ps) h = h\<lparr>hmem := saved pa (xreg h) ps (hmem h)\<rparr>"
  using assms
proof (induction ps arbitrary: h)
  case (Cons p ps)
  obtain r k where p: "p = (r, k)" by force
  let ?h = "instr_step vm (SD r k b) h"
  have "?h = h\<lparr>hmem := st64 (hmem h) (slot_adr pa k) (xreg h r)\<rparr>" using Cons.prems p by (simp add: at_page_def)
  then show ?case using Cons.IH [of ?h] Cons.prems p by (simp add: saved_def)
qed (simp add: saved_def)

lemma ld64_saved:
  assumes "pa mod 8 = 0" "slots_ok ps" "k < 512" "k mod 8 = 0"
  shows "ld64 (saved pa x ps m) (slot_adr pa k) =
    (case map_of (map prod.swap ps) k of None \<Rightarrow> ld64 m (slot_adr pa k) | Some r \<Rightarrow> x r)"
  using assms(2)
proof (induction ps arbitrary: m)
  case (Cons p ps)
  obtain r j where p: "p = (r, j)" by force
  have ok: "slots_ok ps" and j: "j < 512" "j mod 8 = 0" "j \<notin> snd ` set ps" using Cons.prems p by (auto simp: slots_ok_def)
  have ih: "ld64 (saved pa x (p # ps) m) (slot_adr pa k) =
      (case map_of (map prod.swap ps) k of None \<Rightarrow> ld64 (st64 m (slot_adr pa j) (x r)) (slot_adr pa k) | Some r \<Rightarrow> x r)"
    using Cons.IH [OF ok, of "st64 m (slot_adr pa j) (x r)"] by (simp add: saved_def p)
  show ?case
  proof (cases "j = k")
    case True
    then have "map_of (map prod.swap ps) k = None" using j(3) by (force simp: map_of_eq_None_iff)
    then show ?thesis using ih True p by simp
  next
    case False
    then have "ld64 (st64 m (slot_adr pa j) (x r)) (slot_adr pa k) = ld64 m (slot_adr pa k)"
      using slot_adr_inj [OF j(1) assms(3)] slot_aligned [OF assms(1) j(2)] slot_aligned [OF assms(1,4)] by (intro ld64_st64_other) auto
    then show ?thesis using ih False p by (simp split: option.splits)
  qed
qed (simp add: saved_def)

lemma ld64_saved_other:
  assumes "pa mod 8 = 0" "a mod 8 = 0" "\<forall>k \<in> set (map snd ps). k mod 8 = 0 \<and> slot_adr pa k \<noteq> a"
  shows "ld64 (saved pa x ps m) a = ld64 m a"
  using assms(3)
proof (induction ps arbitrary: m)
  case (Cons p ps)
  then show ?case using ld64_st64_other [OF slot_aligned [OF assms(1)] assms(2)] by (cases p) (simp add: saved_def)
qed (simp add: saved_def)

definition loaded :: "u64 \<Rightarrow> mem \<Rightarrow> (nat \<times> nat) list \<Rightarrow> (nat \<Rightarrow> u64) \<Rightarrow> nat \<Rightarrow> u64" where
  "loaded pa m ps x r = (case map_of ps r of None \<Rightarrow> x r | Some k \<Rightarrow> ld64 m (slot_adr pa k))"

lemma run_loads:
  assumes "at_page vm (creg h Satp) (xreg h b) pa" "slots_ok ps" "b \<notin> fst ` set ps"
  shows "run vm (map (\<lambda>(r, k). LD r k b) ps) h = h\<lparr>xreg := loaded pa (hmem h) ps (xreg h)\<rparr>"
  using assms
proof (induction ps arbitrary: h)
  case Nil
  have "loaded pa (hmem h) [] (xreg h) = xreg h" by (simp add: loaded_def fun_eq_iff)
  then show ?case by simp
next
  case (Cons p ps)
  obtain r k where p: "p = (r, k)" by force
  let ?h = "instr_step vm (LD r k b) h"
  have k: "k < 512" "slots_ok ps" "b \<noteq> r" "r \<notin> fst ` set ps" using Cons.prems p by (auto simp: slots_ok_def)
  have e: "?h = h\<lparr>xreg := (xreg h)(r := ld64 (hmem h) (slot_adr pa k))\<rparr>" using Cons.prems k p by (simp add: at_page_def)
  have "run vm (map (\<lambda>(r, k). LD r k b) (p # ps)) h = run vm (map (\<lambda>(r, k). LD r k b) ps) ?h" by (simp add: p)
  also have "\<dots> = h\<lparr>xreg := loaded pa (hmem h) ps ((xreg h)(r := ld64 (hmem h) (slot_adr pa k)))\<rparr>"
    using Cons.IH [of ?h] Cons.prems k unfolding e by (simp add: fun_upd_other del: fun_upd_apply)
  also have "loaded pa (hmem h) ps ((xreg h)(r := ld64 (hmem h) (slot_adr pa k))) = loaded pa (hmem h) (p # ps) (xreg h)"
  proof (rule ext)
    fix q show "loaded pa (hmem h) ps ((xreg h)(r := ld64 (hmem h) (slot_adr pa k))) q = loaded pa (hmem h) (p # ps) (xreg h) q"
      using k(4) by (cases "map_of ps q") (auto simp: loaded_def p dest: map_of_SomeD intro: rev_image_eqI)
  qed
  finally show ?case .
qed

section \<open>Trap entry and return\<close>

text \<open>The registers that \<open>uservec\<close> saves with one instruction each: all of them but \<open>a0\<close>.\<close>

definition user_slots :: "(nat \<times> nat) list" where
  "user_slots = map (\<lambda>r. (r, 32 + 8 * r)) ([1..<10] @ [11..<32])"

lemma user_slots_eq:
  "user_slots = [(1, 40), (2, 48), (3, 56), (4, 64), (5, 72), (6, 80), (7, 88), (8, 96), (9, 104), (11, 120), (12, 128), (13, 136),
     (14, 144), (15, 152), (16, 160), (17, 168), (18, 176), (19, 184), (20, 192), (21, 200), (22, 208), (23, 216), (24, 224), (25, 232),
     (26, 240), (27, 248), (28, 256), (29, 264), (30, 272), (31, 280)]"
  by (simp add: user_slots_def upt_rec)

lemma user_slots_ok: "slots_ok user_slots" "x_a0 \<notin> fst ` set user_slots"
  by (simp_all add: slots_ok_def user_slots_eq)

lemma user_regs: "r \<in> set ([1..<10] @ [11..<32]) \<longleftrightarrow> 1 \<le> r \<and> r < 32 \<and> r \<noteq> 10"
  by (simp only: set_append set_upt Un_iff atLeastLessThan_iff) arith

lemma user_slots_lookup: "map_of user_slots r = (if 1 \<le> r \<and> r < 32 \<and> r \<noteq> 10 then Some (32 + 8 * r) else None)"
proof -
  have "map_of (map (\<lambda>r. (r, 32 + 8 * r)) xs) r = (if r \<in> set xs then Some (32 + 8 * r) else None)" for xs :: "nat list"
    by (induction xs) auto
  then show ?thesis unfolding user_slots_def user_regs [symmetric] .
qed

lemma uservec_eq:
  "uservec_code = [CSRW Sscratch x_a0, LI x_a0 TRAPFRAME_VA] @ map (\<lambda>(r, k). SD r k x_a0) user_slots @
     [CSRR x_t0 Sscratch, SD x_t0 112 x_a0, LD x_sp 8 x_a0, LD x_tp 32 x_a0, LD x_t0 16 x_a0, LD x_t1 0 x_a0, SFENCE_VMA, CSRW Satp x_t1,
      SFENCE_VMA, JR x_t0]"
  by (simp add: uservec_code_def user_slots_eq)

lemma userret_eq:
  "userret_code = [SFENCE_VMA, CSRW Satp x_a0, SFENCE_VMA, LI x_a0 TRAPFRAME_VA] @ map (\<lambda>(r, k). LD r k x_a0) user_slots @
     [LD x_a0 112 x_a0, SRET]"
  by (simp add: userret_code_def user_slots_eq)

lemma user_slots_swap: "map_of (map prod.swap user_slots) k = (if 40 \<le> k \<and> k < 288 \<and> k mod 8 = 0 \<and> k \<noteq> 112 then Some (k div 8 - 4) else None)"
proof -
  have "map_of (map prod.swap (map (\<lambda>r. (r, 32 + 8 * r)) xs)) k = (if \<exists>r \<in> set xs. k = 32 + 8 * r then Some (k div 8 - 4) else None)" for xs :: "nat list"
    by (induction xs) auto
  moreover have "(\<exists>r \<in> set ([1..<10] @ [11..<32]). k = 32 + 8 * r) \<longleftrightarrow> 40 \<le> k \<and> k < 288 \<and> k mod 8 = 0 \<and> k \<noteq> 112"
  proof
    assume "40 \<le> k \<and> k < 288 \<and> k mod 8 = 0 \<and> k \<noteq> 112"
    moreover from this obtain j where "k = 8 * j" by (metis dvd_def mod_0_imp_dvd)
    ultimately have "k = 32 + 8 * (k div 8 - 4)" "1 \<le> k div 8 - 4 \<and> k div 8 - 4 < 32 \<and> k div 8 - 4 \<noteq> 10" by auto
    then show "\<exists>r \<in> set ([1..<10] @ [11..<32]). k = 32 + 8 * r" unfolding user_regs [symmetric] by blast
  next
    assume "\<exists>r \<in> set ([1..<10] @ [11..<32]). k = 32 + 8 * r"
    then obtain r where "1 \<le> r \<and> r < 32 \<and> r \<noteq> 10" "k = 32 + 8 * r" unfolding user_regs [symmetric] by blast
    then show "40 \<le> k \<and> k < 288 \<and> k mod 8 = 0 \<and> k \<noteq> 112" by auto
  qed
  ultimately show ?thesis unfolding user_slots_def by (simp only:)
qed

lemma uservec_run:
  assumes "at_page vm (creg h Satp) TRAPFRAME_VA tf"
  defines "h1 \<equiv> run vm uservec_code h"
  shows "1 \<le> r \<Longrightarrow> r < 32 \<Longrightarrow> ld64 (hmem h1) (slot_adr tf (32 + 8 * r)) = xreg h r"
    "k < 40 \<Longrightarrow> k mod 8 = 0 \<Longrightarrow> ld64 (hmem h1) (slot_adr tf k) = ld64 (hmem h) (slot_adr tf k)"
    "hpc h1 = ld64 (hmem h) (slot_adr tf 16)" "xreg h1 x_sp = ld64 (hmem h) (slot_adr tf 8)"
    "xreg h1 x_tp = ld64 (hmem h) (slot_adr tf 32)" "creg h1 Satp = ld64 (hmem h) (slot_adr tf 0)"
proof -
  let ?h = "h\<lparr>creg := (creg h)(Sscratch := xreg h 10), xreg := (xreg h)(10 := TRAPFRAME_VA)\<rparr>"
  let ?m = "saved tf ((xreg h)(10 := TRAPFRAME_VA)) user_slots (hmem h)"
  let ?m2 = "st64 ?m (slot_adr tf 112) (xreg h 10)"
  have al: "tf mod 8 = 0" and vm: "\<And>k. k < 512 \<Longrightarrow> vm (creg h Satp) (TRAPFRAME_VA + of_nat k) = slot_adr tf k"
    using assms(1) by (auto simp: at_page_def)
  have "run vm (map (\<lambda>(r, k). SD r k x_a0) user_slots) ?h = ?h\<lparr>hmem := saved tf (xreg ?h) user_slots (hmem ?h)\<rparr>"
    using assms(1) user_slots_ok(1) by (intro run_saves) (simp_all add: slots_ok_def)
  then have h1: "h1 = run vm [CSRR x_t0 Sscratch, SD x_t0 112 x_a0, LD x_sp 8 x_a0, LD x_tp 32 x_a0, LD x_t0 16 x_a0, LD x_t1 0 x_a0,
      SFENCE_VMA, CSRW Satp x_t1, SFENCE_VMA, JR x_t0] (?h\<lparr>hmem := ?m\<rparr>)"
    unfolding h1_def uservec_eq run_append by simp
  have v: "vm (creg h Satp) 0x3FFFFFE070 = slot_adr tf 112" "vm (creg h Satp) 0x3FFFFFE008 = slot_adr tf 8"
    "vm (creg h Satp) 0x3FFFFFE020 = slot_adr tf 32" "vm (creg h Satp) 0x3FFFFFE010 = slot_adr tf 16"
    "vm (creg h Satp) TRAPFRAME_VA = slot_adr tf 0"
    using vm [of 112] vm [of 8] vm [of 32] vm [of 16] vm [of 0] by simp_all
  have m: "hmem h1 = ?m2" unfolding h1 by (simp add: vm v del: of_nat_numeral)
  have ld: "ld64 ?m (slot_adr tf k) = (if 40 \<le> k \<and> k < 288 \<and> k \<noteq> 112 then xreg h (k div 8 - 4) else ld64 (hmem h) (slot_adr tf k))"
    if "k < 512" "k mod 8 = 0" for k
    using ld64_saved [OF al user_slots_ok(1) that, of "(xreg h)(10 := TRAPFRAME_VA)" "hmem h"] that
    by (auto simp: user_slots_swap)
  have ld2: "ld64 ?m2 (slot_adr tf k) = (if k = 112 then xreg h 10 else ld64 ?m (slot_adr tf k))" if "k < 512" "k mod 8 = 0" for k
  proof (cases "k = 112")
    case False
    then have "slot_adr tf 112 \<noteq> slot_adr tf k" using slot_adr_inj [of 112 k tf] that by simp
    then show ?thesis using False slot_aligned [OF al, of 112] slot_aligned [OF al that(2)] by (simp del: of_nat_numeral)
  qed (simp del: of_nat_numeral)
  show "ld64 (hmem h1) (slot_adr tf (32 + 8 * r)) = xreg h r" if "1 \<le> r" "r < 32"
    using that by (simp only: m, subst ld2) (auto simp: ld simp del: of_nat_add of_nat_numeral of_nat_mult)
  show "ld64 (hmem h1) (slot_adr tf k) = ld64 (hmem h) (slot_adr tf k)" if "k < 40" "k mod 8 = 0" for k
    using that by (simp add: m ld ld2 del: of_nat_numeral)
  show "hpc h1 = ld64 (hmem h) (slot_adr tf 16)" "xreg h1 x_sp = ld64 (hmem h) (slot_adr tf 8)"
    "xreg h1 x_tp = ld64 (hmem h) (slot_adr tf 32)" "creg h1 Satp = ld64 (hmem h) (slot_adr tf 0)"
    using ld2 [of 16] ld2 [of 8] ld2 [of 32] ld2 [of 0] ld [of 16] ld [of 8] ld [of 32] ld [of 0]
    unfolding h1 by (simp_all add: vm v del: of_nat_numeral)
qed

lemma userret_run:
  assumes "at_page vm (xreg h x_a0) TRAPFRAME_VA tf"
  defines "h1 \<equiv> run vm userret_code h"
  shows "1 \<le> r \<Longrightarrow> r < 32 \<Longrightarrow> xreg h1 r = ld64 (hmem h) (slot_adr tf (32 + 8 * r))"
    "creg h1 Satp = xreg h x_a0" "hpc h1 = creg h Sepc" "hmem h1 = hmem h"
proof -
  let ?h = "h\<lparr>creg := (creg h)(Satp := xreg h 10), xreg := (xreg h)(10 := TRAPFRAME_VA)\<rparr>"
  have "run vm (map (\<lambda>(r, k). LD r k x_a0) user_slots) ?h = ?h\<lparr>xreg := loaded tf (hmem ?h) user_slots (xreg ?h)\<rparr>"
    using assms(1) user_slots_ok by (intro run_loads) simp_all
  then have h1: "h1 = run vm [LD x_a0 112 x_a0, SRET] (?h\<lparr>xreg := loaded tf (hmem h) user_slots ((xreg h)(10 := TRAPFRAME_VA))\<rparr>)"
    unfolding h1_def userret_eq run_append by simp
  have a0: "loaded tf (hmem h) user_slots ((xreg h)(10 := TRAPFRAME_VA)) 10 = TRAPFRAME_VA" by (simp add: loaded_def user_slots_lookup)
  have vm: "\<And>k. k < 512 \<Longrightarrow> vm (xreg h 10) (slot_adr TRAPFRAME_VA k) = slot_adr tf k" using assms(1) by (auto simp: at_page_def)
  have x: "xreg h1 = (loaded tf (hmem h) user_slots ((xreg h)(10 := TRAPFRAME_VA)))(10 := ld64 (hmem h) (slot_adr tf 112))"
    unfolding h1 by (simp add: a0 vm del: of_nat_numeral)
  show "xreg h1 r = ld64 (hmem h) (slot_adr tf (32 + 8 * r))" if "1 \<le> r" "r < 32"
    using that unfolding x by (simp add: loaded_def user_slots_lookup)
  show "creg h1 Satp = xreg h x_a0" "hpc h1 = creg h Sepc" "hmem h1 = hmem h" unfolding h1 by simp_all
qed


text \<open>A hart in user mode, with the trap frame at a physical page.\<close>

definition demo_hart :: hart where
  "demo_hart = \<lparr>xreg = (\<lambda>r. of_nat (1000 + r)), creg = (\<lambda>c. 0), hmem = (\<lambda>_. 0), hpc = 0\<rparr>"


section \<open>Context switch\<close>

text \<open>The registers of a \<open>struct context\<close>.\<close>

definition context_slots :: "(nat \<times> nat) list" where
  "context_slots = [(1, 0), (2, 8), (8, 16), (9, 24), (18, 32), (19, 40), (20, 48), (21, 56), (22, 64), (23, 72), (24, 80), (25, 88),
     (26, 96), (27, 104)]"

lemma context_slots_ok: "slots_ok context_slots" "x_a0 \<notin> fst ` set context_slots" "x_a1 \<notin> fst ` set context_slots"
  by (simp_all add: slots_ok_def context_slots_def)

lemma swtch_eq: "swtch_code = map (\<lambda>(r, k). SD r k x_a0) context_slots @ map (\<lambda>(r, k). LD r k x_a1) context_slots @ [RET]"
  by (simp add: swtch_code_def context_slots_def)

lemma swtch_run:
  assumes "at_page vm (creg h Satp) (xreg h x_a0) old" and "at_page vm (creg h Satp) (xreg h x_a1) new"
  defines "h1 \<equiv> run vm swtch_code h"
  shows "hmem h1 = saved old (xreg h) context_slots (hmem h)"
    "xreg h1 = loaded new (hmem h1) context_slots (xreg h)" "hpc h1 = xreg h1 x_ra" "creg h1 = creg h"
proof -
  let ?m = "saved old (xreg h) context_slots (hmem h)"
  have s: "run vm (map (\<lambda>(r, k). SD r k x_a0) context_slots) h = h\<lparr>hmem := ?m\<rparr>"
    using assms(1) context_slots_ok(1) by (intro run_saves) (simp_all add: slots_ok_def)
  have l: "run vm (map (\<lambda>(r, k). LD r k x_a1) context_slots) (h\<lparr>hmem := ?m\<rparr>) = h\<lparr>hmem := ?m, xreg := loaded new ?m context_slots (xreg h)\<rparr>"
    using assms(2) context_slots_ok by (subst run_loads [of vm _ _ new]) simp_all
  show "hmem h1 = ?m" "xreg h1 = loaded new (hmem h1) context_slots (xreg h)" "hpc h1 = xreg h1 x_ra" "creg h1 = creg h"
    unfolding h1_def swtch_eq run_append s l by simp_all
qed

text \<open>
  C37. Switching away from a thread and, later, back to it: if its saved context has not been touched in between, the thread goes on
  after its call of \<open>swtch\<close>, with its stack pointer and its callee-saved registers as they were.
\<close>

theorem swtch_resumes:
  assumes "at_page vm (creg h Satp) (xreg h x_a0) old" and "at_page vm (creg h Satp) (xreg h x_a1) new"
    and "at_page vm (creg h2 Satp) (xreg h2 x_a0) new'" and "at_page vm (creg h2 Satp) (xreg h2 x_a1) old"
    and "\<forall>k \<in> set (map snd context_slots). ld64 (saved new' (xreg h2) context_slots (hmem h2)) (slot_adr old k) =
      ld64 (hmem (run vm swtch_code h)) (slot_adr old k)"
  shows "hpc (run vm swtch_code h2) = xreg h x_ra \<and> xreg (run vm swtch_code h2) x_sp = xreg h x_sp \<and>
    (\<forall>r \<in> {8, 9} \<union> {18..27}. xreg (run vm swtch_code h2) r = xreg h r)"
proof -
  note a = swtch_run [OF assms(1,2)] and b = swtch_run [OF assms(3,4)]
  have old: "old mod 8 = 0" using assms(1) by (simp add: at_page_def)
  have k: "ld64 (hmem (run vm swtch_code h)) (slot_adr old k) = xreg h r" if "(r, k) \<in> set context_slots" for r k
  proof -
    note slots_okD [OF context_slots_ok(1) that]
    then show ?thesis unfolding a(1) using ld64_saved [OF old context_slots_ok(1)] by simp
  qed
  have r: "xreg (run vm swtch_code h2) r = xreg h r" if "(r, k) \<in> set context_slots" for r k
  proof -
    have "map_of context_slots r = Some k" by (rule slots_okD [OF context_slots_ok(1) that])
    then have "xreg (run vm swtch_code h2) r = ld64 (hmem (run vm swtch_code h2)) (slot_adr old k)"
      unfolding b(2) by (simp add: loaded_def)
    then show ?thesis using k [OF that] assms(5) that unfolding b(1) by (metis in_set_zipE zip_map_fst_snd)
  qed
  have "\<exists>k. (r, k) \<in> set context_slots" if "r \<in> {1, 2} \<union> {8, 9} \<union> {18..27}" for r
  proof -
    have "r = 1 \<or> r = 2 \<or> r = 8 \<or> r = 9 \<or> r = 18 \<or> r = 19 \<or> r = 20 \<or> r = 21 \<or> r = 22 \<or> r = 23 \<or> r = 24 \<or> r = 25 \<or> r = 26 \<or> r = 27"
      using that by (simp only: Un_iff insert_iff empty_iff atLeastAtMost_iff) presburger
    then show ?thesis unfolding context_slots_def by auto
  qed
  then have "\<forall>r \<in> {1, 2} \<union> {8, 9} \<union> {18..27}. xreg (run vm swtch_code h2) r = xreg h r" using r by blast
  then show ?thesis unfolding b(3) by blast
qed

theorem swtch_resumes_witness:
  "hpc (run (\<lambda>pt a. a) swtch_code ((run (\<lambda>pt a. a) swtch_code (demo_hart\<lparr>xreg := (\<lambda>r. 4096 * of_nat r)\<rparr>))\<lparr>xreg := (\<lambda>r. 4096 * (21 - of_nat r))\<rparr>)) = 4096"
proof -
  let ?h = "demo_hart\<lparr>xreg := (\<lambda>r. 4096 * of_nat r)\<rparr>"
  let ?h2 = "(run (\<lambda>pt a. a) swtch_code ?h)\<lparr>xreg := (\<lambda>r. 4096 * (21 - of_nat r))\<rparr>"
  have p: "at_page (\<lambda>pt a. a) s a a" if "a mod 8 = 0" for s a :: u64 using that by (simp add: at_page_def)
  have "ld64 (saved 45056 (xreg ?h2) context_slots m) (40960 + of_nat k) = ld64 m (40960 + of_nat k)" if "k \<in> set (map snd context_slots)" for k m
  proof (rule ld64_saved_other)
    have k: "k < 512" "k mod 8 = 0" using that by (auto simp: context_slots_def)
    show "(40960 + of_nat k :: u64) mod 8 = 0" using k by (intro slot_aligned) simp_all
    have "45056 + of_nat j \<noteq> (40960 + of_nat k :: u64)" if "j < 512" for j
    proof
      assume "45056 + of_nat j = (40960 + of_nat k :: u64)"
      from arg_cong [OF this, of unat] have "unat (45056 + of_nat j :: u64) = unat (40960 + of_nat k :: u64)" .
      then show False using k that by (simp add: unat_word_ariths unat_of_nat)
    qed
    then show "\<forall>j \<in> set (map snd context_slots). j mod 8 = 0 \<and> slot_adr 45056 j \<noteq> 40960 + of_nat k"
      using context_slots_ok(1) by (auto simp: slots_ok_def)
  qed simp
  then show ?thesis
    using swtch_resumes [of "\<lambda>pt a. a" ?h 40960 45056 ?h2 45056] p by simp
qed

section \<open>Traps in the kernel\<close>

definition kernel_slots :: "(nat \<times> nat) list" where
  "kernel_slots = map (\<lambda>r. (r, 8 * r - 8)) (3 # [5..<32])"

lemma kernel_slots_eq:
  "kernel_slots = [(3, 16), (5, 32), (6, 40), (7, 48), (8, 56), (9, 64), (10, 72), (11, 80), (12, 88), (13, 96), (14, 104), (15, 112),
     (16, 120), (17, 128), (18, 136), (19, 144), (20, 152), (21, 160), (22, 168), (23, 176), (24, 184), (25, 192), (26, 200), (27, 208),
     (28, 216), (29, 224), (30, 232), (31, 240)]"
  by (simp add: kernel_slots_def upt_rec)

lemma kernel_slots_ok: "slots_ok kernel_slots" "slots_ok ([(1, 0), (2, 8), (4, 24)] @ kernel_slots)" "x_sp \<notin> fst ` set kernel_slots"
  by (simp_all add: slots_ok_def kernel_slots_eq)

lemma kernelvec_save_eq:
  "kernelvec_save = ADDI x_sp x_sp (-256) # map (\<lambda>(r, k). SD r k x_sp) ([(1, 0), (2, 8), (3, 16), (4, 24)] @ tl kernel_slots)"
  by (simp add: kernelvec_save_def kernel_slots_eq)

lemma kernelvec_restore_eq:
  "kernelvec_restore = [LD x_ra 0 x_sp, LD x_sp 8 x_sp] @ map (\<lambda>(r, k). LD r k x_sp) kernel_slots @ [ADDI x_sp x_sp 256, SRET]"
  by (simp add: kernelvec_restore_def kernel_slots_eq)

text \<open>
  C38. An interrupt of kernel code is transparent to it: if \<open>kerneltrap\<close> returns with the stack pointer it was given and has left the
  frame that \<open>kernelvec\<close> built alone, then all registers of the interrupted code have their values back, with the exception of
  \<open>tp\<close>, which names the hart the code now runs on.
\<close>

theorem kernelvec_transparent:
  assumes "at_page vm (creg h Satp) (xreg h x_sp - 256) frame" and "at_page vm (creg h2 Satp) (xreg h x_sp - 256) frame"
    and "xreg h2 x_sp = xreg h x_sp - 256"
    and "\<forall>k < 256. k mod 8 = 0 \<longrightarrow> ld64 (hmem h2) (slot_adr frame k) = ld64 (hmem (run vm kernelvec_save h)) (slot_adr frame k)"
  shows "(\<forall>r. 1 \<le> r \<and> r < 32 \<longrightarrow> xreg (run vm kernelvec_restore h2) r = (if r = x_tp then xreg h2 r else xreg h r)) \<and>
    hpc (run vm kernelvec_restore h2) = creg h2 Sepc"
proof -
  let ?ps = "[(1, 0), (2, 8), (3, 16), (4, 24)] @ tl kernel_slots" and ?x = "(xreg h)(2 := xreg h 2 - 256)"
  have ok: "slots_ok ?ps" by (simp add: slots_ok_def kernel_slots_eq)
  have al: "frame mod 8 = 0" and vm: "\<And>k. k < 512 \<Longrightarrow> vm (creg h2 Satp) (xreg h 2 - 256 + of_nat k) = slot_adr frame k"
    using assms(2) by (auto simp: at_page_def)
  have "run vm kernelvec_save h = run vm (map (\<lambda>(r, k). SD r k x_sp) ?ps) (h\<lparr>xreg := ?x\<rparr>)"
    by (simp only: kernelvec_save_eq run.simps instr_step.simps) simp
  also have "\<dots> = h\<lparr>xreg := ?x, hmem := saved frame ?x ?ps (hmem h)\<rparr>"
    using assms(1) ok by (subst run_saves [of _ _ _ frame]) (simp_all add: slots_ok_def)
  finally have m: "hmem (run vm kernelvec_save h) = saved frame ?x ?ps (hmem h)" by simp
  have f: "ld64 (hmem h2) (slot_adr frame k) = ?x r" if "(r, k) \<in> set ?ps" for r k
  proof -
    have "\<forall>k \<in> set (map snd ?ps). k < 256" by (simp add: kernel_slots_eq)
    then have "k < 256" using that by force
    then show ?thesis using slots_okD [OF ok that] assms(4) m ld64_saved [OF al ok, of k ?x "hmem h"] by simp
  qed
  let ?h = "h2\<lparr>xreg := (xreg h2)(1 := xreg h 1)\<rparr>"
  have "run vm [LD x_ra 0 x_sp, LD x_sp 8 x_sp] h2 = ?h"
    using vm [of 0] vm [of 8] f [of 1 0] f [of 2 8] assms(3) by (simp add: fun_upd_idem)
  moreover have "run vm (map (\<lambda>(r, k). LD r k x_sp) kernel_slots) ?h = ?h\<lparr>xreg := loaded frame (hmem h2) kernel_slots (xreg ?h)\<rparr>"
    using assms(2,3) kernel_slots_ok by (subst run_loads [of _ _ _ frame]) simp_all
  ultimately have e: "run vm kernelvec_restore h2 = run vm [ADDI x_sp x_sp 256, SRET] (?h\<lparr>xreg := loaded frame (hmem h2) kernel_slots (xreg ?h)\<rparr>)"
    unfolding kernelvec_restore_eq run_append by simp
  have l: "loaded frame (hmem h2) kernel_slots (xreg ?h) r = xreg h r" if "(r, k) \<in> set kernel_slots" for r k
  proof -
    have "set kernel_slots \<subseteq> set ?ps" by (simp add: kernel_slots_eq)
    then show ?thesis
      using slots_okD [OF kernel_slots_ok(1) that] f [of r k] that kernel_slots_ok(3) by (force simp: loaded_def)
  qed
  have n: "map_of kernel_slots 1 = None" "map_of kernel_slots 2 = None" "map_of kernel_slots 4 = None" by (simp_all add: kernel_slots_eq)
  have "xreg (run vm kernelvec_restore h2) r = (if r = x_tp then xreg h2 r else xreg h r)" if "1 \<le> r" "r < 32" for r
  proof -
    consider "r = 1" | "r = 2" | "r = 4" | k where "(r, k) \<in> set kernel_slots"
    proof -
      have "r = 1 \<or> r = 2 \<or> r = 4 \<or> r \<in> set (3 # [5..<32])" using \<open>1 \<le> r\<close> \<open>r < 32\<close>
        by (simp only: set_simps set_upt insert_iff atLeastLessThan_iff) presburger
      then show ?thesis using that by (auto simp only: kernel_slots_def set_map)
    qed
    then show ?thesis
    proof cases
      case 4
      moreover have "2 \<notin> fst ` set kernel_slots" "4 \<notin> fst ` set kernel_slots" by (simp_all add: kernel_slots_eq)
      ultimately have "r \<noteq> 2" "r \<noteq> 4" by force+
      then show ?thesis unfolding e using l [OF 4] by simp
    qed (use n assms(3) in \<open>simp_all add: e loaded_def\<close>)
  qed
  then show ?thesis unfolding e by simp
qed

theorem kernelvec_transparent_witness:
  "xreg (run (\<lambda>pt a. a) kernelvec_restore ((run (\<lambda>pt a. a) kernelvec_save (demo_hart\<lparr>xreg := (\<lambda>r. 4096 * of_nat r)\<rparr>))\<lparr>xreg := (\<lambda>r. 7936)\<rparr>)) x_t6 = 126976"
proof -
  let ?h = "demo_hart\<lparr>xreg := (\<lambda>r. 4096 * of_nat r)\<rparr>"
  let ?h2 = "(run (\<lambda>pt a. a) kernelvec_save ?h)\<lparr>xreg := (\<lambda>r. 7936)\<rparr>"
  have "at_page (\<lambda>pt a. a) s 7936 7936" for s by (simp add: at_page_def)
  then show ?thesis using kernelvec_transparent [of "\<lambda>pt a. a" ?h 7936 ?h2] by simp
qed

end
