(* ===== verification/Falloc.thy ===== *)
theory Falloc
  imports Fs
begin

text \<open>
  What the block allocator of \<open>fs.c\<close> promises inside a transaction, on top of the contract of the log: \<open>balloc\<close> gives
  out a block whose bit was clear, zeroed and marked as used, or reports that every block is in use; \<open>bfree\<close> clears
  the mark again.
\<close>

section \<open>Steps of a transaction\<close>

text \<open>
  The caller is inside a transaction, can log \<open>k\<close> more blocks and lock \<open>h\<close> more buffers; blocks that are changed and
  not logged yet belong to others.
\<close>

definition txn :: "int \<Rightarrow> nat \<Rightarrow> nat \<Rightarrow> 'a klog_scheme \<Rightarrow> bool" where
  "txn q k h s \<longleftrightarrow> j_ok q s \<and> dirty s \<subseteq> jheld (jabs q s) - ran (jat (jabs q s)) \<and> budget k h (jabs q s)"

lemma txn_mono: "txn q k h s \<Longrightarrow> k' \<le> k \<Longrightarrow> h' \<le> h \<Longrightarrow> txn q k' h' s"
  by (auto simp: txn_def intro: budget_mono)

text \<open>The two states differ in the contents of blocks and in the log only.\<close>

definition stays :: "int \<Rightarrow> 'a klog_scheme \<Rightarrow> 'a klog_scheme \<Rightarrow> bool" where
  "stays q s s' \<longleftrightarrow> jat (jabs q s') = jat (jabs q s) \<and> jheld (jabs q s') = jheld (jabs q s) \<and>
     jhome (jabs q s') = jhome (jabs q s) \<and> fs_env s' = fs_env s"

lemma stays_refl: "stays q s s"
  by (simp add: stays_def)

lemma stays_trans: "stays q s s' \<Longrightarrow> stays q s' s'' \<Longrightarrow> stays q s s''"
  by (simp add: stays_def)

lemma txn_read:
  assumes "txn q k (Suc h) s" and n: "n \<notin> jheld (jabs q s)"
  obtains i s1 s2 where "bread ROOTDEV n s = Inr (i, s1)" "bdata (bufs s1 i) = jview (jabs q s) n" "txn q k h s1"
    "jabs q s1 = (jabs q s)\<lparr>jat := (jat (jabs q s))(i \<mapsto> n), jheld := insert n (jheld (jabs q s))\<rparr>"
    "jat (jabs q s) i = None" "brelse i s1 = Inr s2" "txn q k (Suc h) s2" "jabs q s2 = jabs q s"
proof -
  have ok: "j_ok q s" and d: "dirty s \<subseteq> jheld (jabs q s) - ran (jat (jabs q s))" and b: "budget k (Suc h) (jabs q s)"
    using assms(1) by (simp_all only: txn_def)
  have nd: "n \<notin> dirty s" using d n by blast
  have "budget 0 1 (jabs q s)" using b by (rule budget_mono) simp_all
  from jl.read_block [OF ok n this] obtain i s1 s2 where r: "bread ROOTDEV n s = Inr (i, s1)" "bdata (bufs s1 i) = jview (jabs q s) n"
    "j_ok q s1" "jat (jabs q s) i = None" "dirty s1 = dirty s"
    "jabs q s1 = (jabs q s)\<lparr>jat := (jat (jabs q s))(i \<mapsto> n), jheld := insert n (jheld (jabs q s))\<rparr>"
    "n \<notin> dirty s \<longrightarrow> brelse i s1 = Inr s2 \<and> j_ok q s2 \<and> jabs q s2 = jabs q s \<and> dirty s2 = dirty s" .
  have s2: "brelse i s1 = Inr s2" "txn q k (Suc h) s2" "jabs q s2 = jabs q s" using mp [OF r(7) nd] d b by (simp_all add: txn_def del: jabs_sel)
  have "card (dom ((jat (jabs q s))(i \<mapsto> n))) = Suc (card (dom (jat (jabs q s))))"
    using jl.at_finite [OF ok] r(4) by (simp add: card_insert_if domIff)
  then have "budget k h (jabs q s1)" using b unfolding budget_def r(6) by simp
  moreover have "dirty s1 \<subseteq> jheld (jabs q s1) - ran (jat (jabs q s1))"
    unfolding r(5,6) using d nd r(4) by (auto simp: ran_map_upd simp del: jabs_sel)
  ultimately have "txn q k h s1" using r(3) by (simp only: txn_def)
  then show thesis using that r(1,2,4,6) s2 by blast
qed

lemma txn_write:
  assumes "txn q (Suc k) h s" and a: "jat (jabs q s) i = Some n" "n \<in> jhome (jabs q s)"
  obtains s' where "log_write i (set_data i x s) = Inr s'" "txn q k h s'" "stays q s s'"
    "jview (jabs q s') = (jview (jabs q s))(n := x)"
proof -
  have ok: "j_ok q s" and d: "dirty s \<subseteq> jheld (jabs q s) - ran (jat (jabs q s))" and b: "budget (Suc k) h (jabs q s)"
    using assms(1) by (simp_all only: txn_def)
  from jl.change_block [OF ok a b, of x] obtain s' r where s': "log_write i (set_data i x s) = Inr s'" "j_ok q s'" "dirty s' \<subseteq> dirty s"
    "jabs q s' = j_log n r ((jabs q s)\<lparr>jview := (jview (jabs q s))(n := x)\<rparr>)" "budget k h (jabs q s')" by blast
  note f = arg_cong [OF s'(4)]
  have e: "jat (jabs q s') = jat (jabs q s)" "jheld (jabs q s') = jheld (jabs q s)" "jhome (jabs q s') = jhome (jabs q s)"
    "jenv (jabs q s') = jenv (jabs q s)" "jview (jabs q s') = (jview (jabs q s))(n := x)"
    unfolding s'(4) by (simp_all del: jabs_sel)
  have "dirty s' \<subseteq> jheld (jabs q s') - ran (jat (jabs q s'))" unfolding e using s'(3) d by blast
  then have "txn q k h s'" using s'(2,5) by (simp only: txn_def)
  moreover have "stays q s s'" using e(1-4) by (simp add: stays_def)
  ultimately show thesis using that s'(1) e(5) by blast
qed

lemma txn_release:
  assumes "txn q k h s" and a: "jat (jabs q s) i = Some n"
  obtains s' where "brelse i s = Inr s'" "txn q k (Suc h) s'"
    "jabs q s' = (jabs q s)\<lparr>jat := (jat (jabs q s))(i := None), jheld := jheld (jabs q s) - {n}\<rparr>"
proof -
  have ok: "j_ok q s" and d: "dirty s \<subseteq> jheld (jabs q s) - ran (jat (jabs q s))" and b: "budget k h (jabs q s)"
    using assms(1) by (simp_all only: txn_def)
  have nd: "n \<notin> dirty s" using d a by (auto simp: ran_def simp del: jabs_sel)
  from jl.brelse_ok [OF ok a nd] obtain s' where s': "brelse i s = Inr s'" "j_ok q s'" "dirty s' = dirty s"
    "jabs q s' = (jabs q s)\<lparr>jat := (jat (jabs q s))(i := None), jheld := jheld (jabs q s) - {n}\<rparr>" by blast
  have "0 < card (dom (jat (jabs q s)))" using jl.at_finite [OF ok] a by (auto simp: card_gt_0_iff simp del: jabs_sel)
  moreover have "card (dom ((jat (jabs q s))(i := None))) = card (dom (jat (jabs q s))) - 1"
    using jl.at_finite [OF ok] a by (simp add: card_Diff_singleton domIff)
  ultimately have "budget k (Suc h) (jabs q s')" using b unfolding budget_def s'(4) by simp
  moreover have "dirty s' \<subseteq> jheld (jabs q s') - ran (jat (jabs q s'))"
    unfolding s'(3,4) using d nd by (auto simp: ran_def simp del: jabs_sel)
  ultimately have "txn q k (Suc h) s'" using s'(2) by (simp only: txn_def)
  then show thesis using that s'(1,4) by blast
qed

lemma txn_update:
  assumes "txn q (Suc k) (Suc h) s" and n: "n \<notin> jheld (jabs q s)" "n \<in> jhome (jabs q s)"
  obtains i s1 s2 s' where "bread ROOTDEV n s = Inr (i, s1)" "bdata (bufs s1 i) = jview (jabs q s) n"
    "fs_env s1 = fs_env s" "log_write i (set_data i x s1) = Inr s2" "brelse i s2 = Inr s'" "txn q k (Suc h) s'" "stays q s s'"
    "jview (jabs q s') = (jview (jabs q s))(n := x)"
proof -
  obtain i s1 where r: "bread ROOTDEV n s = Inr (i, s1)" "bdata (bufs s1 i) = jview (jabs q s) n" "txn q (Suc k) h s1"
    "jabs q s1 = (jabs q s)\<lparr>jat := (jat (jabs q s))(i \<mapsto> n), jheld := insert n (jheld (jabs q s))\<rparr>" "jat (jabs q s) i = None"
    by (rule txn_read [OF assms(1,2)])
  have a: "jat (jabs q s1) i = Some n" "n \<in> jhome (jabs q s1)" using n(2) unfolding r(4) by (simp_all del: jabs_sel)
  obtain s2 where s2: "log_write i (set_data i x s1) = Inr s2" "txn q k h s2" "stays q s1 s2"
    "jview (jabs q s2) = (jview (jabs q s1))(n := x)"
    by (rule txn_write [OF r(3) a])
  have a2: "jat (jabs q s2) i = Some n" using s2(3) a(1) by (simp only: stays_def)
  obtain s' where s': "brelse i s2 = Inr s'" "txn q k (Suc h) s'"
    "jabs q s' = (jabs q s2)\<lparr>jat := (jat (jabs q s2))(i := None), jheld := jheld (jabs q s2) - {n}\<rparr>"
    by (rule txn_release [OF s2(2) a2])
  have e: "jenv (jabs q s1) = jenv (jabs q s)" unfolding r(4) by (simp del: jabs_sel)
  have "jenv (jabs q s') = jenv (jabs q s2)" unfolding s'(3) by (simp del: jabs_sel)
  then have env: "fs_env s' = fs_env s" "fs_env s1 = fs_env s" using e s2(3) by (simp_all add: stays_def)
  have "(jat (jabs q s1))(i := None) = jat (jabs q s)" "jheld (jabs q s1) - {n} = jheld (jabs q s)"
    unfolding r(4) using r(5) n(1) by (simp_all add: fun_upd_idem del: jabs_sel)
  moreover have "jhome (jabs q s1) = jhome (jabs q s)" "jview (jabs q s1) = jview (jabs q s)" unfolding r(4) by (simp_all del: jabs_sel)
  ultimately have "stays q s s'" "jview (jabs q s') = (jview (jabs q s))(n := x)"
    using s2(3,4) env(1) unfolding stays_def s'(3) by (simp_all del: jabs_sel)
  then show thesis using that r(1,2) env(2) s2(1) s'(1,2) by blast
qed


lemma fs_env_kfs:
  fixes s s' :: "'a kfs_scheme"
  assumes "fs_env s' = fs_env s"
  shows "fsb s' = fsb s" "itable s' = itable s" "kfs.more s' = kfs.more s" "ram s' = ram s" "curproc s' = curproc s"
proof -
  have m: "klog.more s' = klog.more s" "kmem.truncate s' = kmem.truncate s" and l: "length (procs s') = length (procs s)"
    "cpus s' = cpus s" "hartid s' = hartid s" using assms by (auto simp: fs_env_def dest: map_eq_imp_length_eq)
  show "fsb s' = fsb s" "itable s' = itable s" "kfs.more s' = kfs.more s" using m(1) by (cases s; cases s'; simp)+
  show "ram s' = ram s" using m(2) by (cases s; cases s'; simp add: kmem.defs)
  show "curproc s' = curproc s" using l by (simp add: curproc_def myproc_def cpuid_def)
qed

section \<open>The bitmap\<close>

lemma bit_clear_iff: "bit_clear d bi \<longleftrightarrow> \<not> bit (d (bi div 8)) (bi mod 8)"
  by (simp add: bit_clear_def bit_mask_def bit_iff_and_push_bit_not_eq_0)

lemma bit_bit_mask: "m < 8 \<Longrightarrow> bit (bit_mask bi) m \<longleftrightarrow> m = bi mod 8"
  by (auto simp: bit_mask_def bit_exp_iff)

lemma div_mod_8_eq: "bi div 8 = bj div 8 \<Longrightarrow> bi mod 8 = bj mod 8 \<longleftrightarrow> bi = (bj :: nat)"
  by (metis mod_div_mult_eq)

lemma bit_clear_set [simp]: "bit_clear (bit_set d bi) bj \<longleftrightarrow> bj \<noteq> bi \<and> bit_clear d bj"
  using div_mod_8_eq [of bj bi] by (auto simp: bit_clear_iff bit_set_def bit_bit_mask bit_or_iff)

lemma bit_clear_unset [simp]: "bit_clear (bit_unset d bi) bj \<longleftrightarrow> bj = bi \<or> bit_clear d bj"
  using div_mod_8_eq [of bj bi]
  by (auto simp: bit_clear_iff bit_unset_def bit_bit_mask bit_and_iff bit_not_iff)

lemma free_bit_Some:
  "free_bit d sz b bi k = Some x \<Longrightarrow> bi \<le> x \<and> x < bi + k \<and> b + x < sz \<and> bit_clear d x"
  by (induction d sz b bi k rule: free_bit.induct) (fastforce split: if_splits)+

lemma free_bit_None:
  "free_bit d sz b bi k = None \<Longrightarrow> bi \<le> x \<Longrightarrow> x < bi + k \<Longrightarrow> b + x < sz \<Longrightarrow> \<not> bit_clear d x"
proof (induction d sz b bi k rule: free_bit.induct)
  case (2 d sz b bi k)
  then have "bi = x \<or> Suc bi \<le> x" by auto
  then show ?case using 2 by (auto split: if_splits)
qed simp

text \<open>Where the parts of the disk are, and whether a block is marked as used.\<close>

definition datastart :: "superblock \<Rightarrow> nat" where
  "datastart sb = sbsize sb - nblocks sb"

definition data_block :: "superblock \<Rightarrow> nat \<Rightarrow> bool" where
  "data_block sb b \<longleftrightarrow> datastart sb \<le> b \<and> b < sbsize sb"

definition disk_layout :: "superblock \<Rightarrow> nat set \<Rightarrow> bool" where
  "disk_layout sb home \<longleftrightarrow> sbsize sb < 4294967296 \<and> inodestart sb + ninodes sb div IPB < bmapstart sb \<and>
     bmapstart sb + sbsize sb div BPB < datastart sb \<and> {inodestart sb..<sbsize sb} \<subseteq> home"

definition marked :: "superblock \<Rightarrow> (nat \<Rightarrow> blk) \<Rightarrow> nat \<Rightarrow> bool" where
  "marked sb V b \<longleftrightarrow> \<not> bit_clear (V (BBLOCK b sb)) (b mod BPB)"

text \<open>A block is taken: its bit is set and its contents are cleared.\<close>

definition take_block :: "superblock \<Rightarrow> nat \<Rightarrow> (nat \<Rightarrow> blk) \<Rightarrow> nat \<Rightarrow> blk" where
  "take_block sb b V = V(BBLOCK b sb := bit_set (V (BBLOCK b sb)) (b mod BPB), b := (\<lambda>_. 0))"

lemma layoutD:
  assumes "disk_layout sb home" and "b < sbsize sb"
  shows "BBLOCK b sb < datastart sb" "BBLOCK b sb \<in> home" "inodestart sb < BBLOCK b sb" "data_block sb b \<Longrightarrow> b \<in> home" "0 < datastart sb"
proof -
  have "b div BPB \<le> sbsize sb div BPB" using assms(2) by (simp add: div_le_mono)
  then show l: "BBLOCK b sb < datastart sb" "inodestart sb < BBLOCK b sb" using assms(1) by (simp_all add: disk_layout_def BBLOCK_def)
  then show "0 < datastart sb" by simp
  have "BBLOCK b sb < sbsize sb" using l(1) by (simp add: datastart_def)
  then show "BBLOCK b sb \<in> home" using assms(1) l(2) by (auto simp: disk_layout_def)
  show "b \<in> home" if "data_block sb b" using that assms(1) l by (auto simp: disk_layout_def data_block_def)
qed

lemma BBLOCK_eq: "BBLOCK b sb = BBLOCK c sb \<Longrightarrow> b mod BPB = c mod BPB \<longleftrightarrow> b = c"
  by (metis BBLOCK_def add_right_cancel mod_div_mult_eq)

lemma marked_take:
  assumes "disk_layout sb home" and "data_block sb b" and "c < sbsize sb"
  shows "marked sb (take_block sb b V) c \<longleftrightarrow> c = b \<or> marked sb V c"
proof -
  have "b < sbsize sb" using assms(2) by (simp add: data_block_def)
  moreover have "BBLOCK c sb \<noteq> b" using layoutD(1) [OF assms(1,3)] assms(2) by (auto simp: data_block_def)
  ultimately show ?thesis using BBLOCK_eq [of c sb b] by (auto simp: marked_def take_block_def)
qed

lemma take_block_other:
  assumes "disk_layout sb home" and "data_block sb b" and "data_block sb c" "c \<noteq> b"
  shows "take_block sb b V c = V c"
  using layoutD(1) [OF assms(1), of b] assms(2-4) by (auto simp: take_block_def data_block_def)

text \<open>
  What the allocator needs of the disk: the blocks before the data are marked, and no free block and no block of the
  bitmap is locked.
\<close>

definition alloc_ok :: "int \<Rightarrow> 'a kfs_scheme \<Rightarrow> bool" where
  "alloc_ok q s \<longleftrightarrow> disk_layout (fsb s) (jhome (jabs q s)) \<and>
     (\<forall>b < datastart (fsb s). marked (fsb s) (jview (jabs q s)) b) \<and>
     (\<forall>b < sbsize (fsb s). BBLOCK b (fsb s) \<notin> jheld (jabs q s) \<and> (\<not> marked (fsb s) (jview (jabs q s)) b \<longrightarrow> b \<notin> jheld (jabs q s)))"

lemma bzero_ok:
  assumes "txn q (Suc k) (Suc h) s" and "n \<notin> jheld (jabs q s)" "n \<in> jhome (jabs q s)"
  shows "\<exists>s'. bzero ROOTDEV n s = Inr s' \<and> txn q k (Suc h) s' \<and> stays q s s' \<and> jview (jabs q s') = (jview (jabs q s))(n := (\<lambda>_. 0))"
proof -
  obtain i s1 s2 s' where r: "bread ROOTDEV n s = Inr (i, s1)" "log_write i (set_data i (\<lambda>_. 0) s1) = Inr s2" "brelse i s2 = Inr s'"
    "txn q k (Suc h) s'" "stays q s s'" "jview (jabs q s') = (jview (jabs q s))(n := (\<lambda>_. 0))"
    by (rule txn_update [OF assms])
  then show ?thesis by (simp add: bzero_def del: jabs_sel)
qed

lemma stays_kfs:
  fixes s s' :: "'a kfs_scheme"
  assumes "stays q s s'"
  shows "fsb s' = fsb s" "itable s' = itable s" "curproc s' = curproc s" "jheld (jabs q s') = jheld (jabs q s)"
    "jhome (jabs q s') = jhome (jabs q s)" "jat (jabs q s') = jat (jabs q s)" "ram s' = ram s" "kfs.more s' = kfs.more s"
  using fs_env_kfs [of s' s] assms unfolding stays_def by blast+

lemma jabs_stays: "jabs q s' = jabs q s \<Longrightarrow> stays q s s'"
  unfolding stays_def by (metis jabs_sel(8))

text \<open>The outcome of \<open>balloc\<close>: the disk is full, or a block has been taken.\<close>

definition balloc_post :: "int \<Rightarrow> nat \<Rightarrow> nat \<Rightarrow> 'a kfs_scheme \<Rightarrow> nat \<Rightarrow> 'a kfs_scheme \<Rightarrow> bool" where
  "balloc_post q k h s r s' \<longleftrightarrow> stays q s s' \<and>
     (if r = 0 then txn q (Suc (Suc k)) h s' \<and> jview (jabs q s') = jview (jabs q s) \<and>
        (\<forall>c < sbsize (fsb s). marked (fsb s) (jview (jabs q s)) c)
      else txn q k h s' \<and> data_block (fsb s) r \<and> \<not> marked (fsb s) (jview (jabs q s)) r \<and>
        jview (jabs q s') = take_block (fsb s) r (jview (jabs q s)))"

lemma balloc_found:
  fixes s :: "'a kfs_scheme"
  assumes t: "txn q (Suc (Suc k)) (Suc h) s" and ok: "alloc_ok q s"
    and r: "r < sbsize (fsb s)" "\<not> marked (fsb s) (jview (jabs q s)) r"
  obtains i s1 s2 s3 s4 where "bread ROOTDEV (BBLOCK r (fsb s)) s = Inr (i, s1)"
    "bufdata i s1 = jview (jabs q s) (BBLOCK r (fsb s))" "fsb s1 = fsb s"
    "log_write i (set_data i (bit_set (bufdata i s1) (r mod BPB)) s1) = Inr s2" "brelse i s2 = Inr s3"
    "bzero ROOTDEV r s3 = Inr s4" "balloc_post q k (Suc h) s r s4"
proof -
  let ?sb = "fsb s" and ?V = "jview (jabs q s)"
  have lay: "disk_layout ?sb (jhome (jabs q s))" and m: "\<And>b. b < datastart ?sb \<Longrightarrow> marked ?sb ?V b"
    and free: "BBLOCK r ?sb \<notin> jheld (jabs q s)" "r \<notin> jheld (jabs q s)"
    using ok r unfolding alloc_ok_def by blast+
  have d: "data_block ?sb r" using m [of r] r by (force simp: data_block_def not_less simp del: jabs_sel)
  have n0: "r \<noteq> 0" using d layoutD(5) [OF lay r(1)] by (auto simp: data_block_def)
  obtain i s1 s2 s3 where s: "bread ROOTDEV (BBLOCK r ?sb) s = Inr (i, s1)" "bdata (bufs s1 i) = ?V (BBLOCK r ?sb)" "fs_env s1 = fs_env s"
    "log_write i (set_data i (bit_set (?V (BBLOCK r ?sb)) (r mod BPB)) s1) = Inr s2" "brelse i s2 = Inr s3"
    "txn q (Suc k) (Suc h) s3" "stays q s s3" "jview (jabs q s3) = ?V(BBLOCK r ?sb := bit_set (?V (BBLOCK r ?sb)) (r mod BPB))"
    by (rule txn_update [OF t free(1) layoutD(2) [OF lay r(1)]])
  have "r \<notin> jheld (jabs q s3)" "r \<in> jhome (jabs q s3)"
    using free(2) layoutD(4) [OF lay r(1) d] stays_kfs(4,5) [OF s(7)] by simp_all
  from bzero_ok [OF s(6) this] obtain s4 where s4: "bzero ROOTDEV r s3 = Inr s4" "txn q k (Suc h) s4" "stays q s3 s4"
    "jview (jabs q s4) = (jview (jabs q s3))(r := (\<lambda>_. 0))" by blast
  have "jview (jabs q s4) = take_block ?sb r ?V" unfolding s4(4) s(8) by (simp add: take_block_def)
  then have "balloc_post q k (Suc h) s r s4"
    using stays_trans [OF s(7) s4(3)] s4(2) d r(2) n0 unfolding balloc_post_def by simp
  moreover have "log_write i (set_data i (bit_set (bufdata i s1) (r mod BPB)) s1) = Inr s2" using s(4) unfolding s(2) .
  ultimately show thesis using that s(1,2,5) s4(1) fs_env_kfs(1) [OF s(3)] by blast
qed

lemma balloc_loop_ok:
  fixes s :: "'a kfs_scheme"
  assumes "txn q (Suc (Suc k)) (Suc h) s" and "alloc_ok q s" and "b mod BPB = 0"
    and "\<And>c. c < b \<Longrightarrow> c < sbsize (fsb s) \<Longrightarrow> marked (fsb s) (jview (jabs q s)) c" and "sbsize (fsb s) \<le> b + j * BPB"
  shows "\<exists>r s'. balloc_loop ROOTDEV b j s = Inr (r, s') \<and> balloc_post q k (Suc h) s r s'"
  using assms
proof (induction j arbitrary: b s)
  case 0
  then show ?case by (simp add: balloc_post_def stays_refl del: jabs_sel)
next
  case (Suc j)
  let ?sb = "fsb s" and ?V = "jview (jabs q s)"
  show ?case
  proof (cases "b < sbsize ?sb")
    case False
    then show ?thesis using Suc.prems by (simp add: balloc_post_def stays_refl del: jabs_sel)
  next
    case True
    have nh: "BBLOCK b ?sb \<notin> jheld (jabs q s)" using Suc.prems(2) True unfolding alloc_ok_def by blast
    have bb: "BBLOCK (b + x) ?sb = BBLOCK b ?sb" "(b + x) mod BPB = x" if "x < BPB" for x
      using that Suc.prems(3) by (auto simp: BBLOCK_def div_add1_eq mod_add_eq mod_add_left_eq [symmetric, of b])
    obtain i s1 s2 where r: "bread ROOTDEV (BBLOCK b ?sb) s = Inr (i, s1)" "bdata (bufs s1 i) = ?V (BBLOCK b ?sb)"
      "jabs q s1 = (jabs q s)\<lparr>jat := (jat (jabs q s))(i \<mapsto> BBLOCK b ?sb), jheld := insert (BBLOCK b ?sb) (jheld (jabs q s))\<rparr>"
      "brelse i s1 = Inr s2" "txn q (Suc (Suc k)) (Suc h) s2" "jabs q s2 = jabs q s"
      by (rule txn_read [OF Suc.prems(1) nh]) blast
    have "jenv (jabs q s1) = jenv (jabs q s)" unfolding r(3) by (simp del: jabs_sel)
    then have f1: "fsb s1 = fsb s" using fs_env_kfs(1) [of s1 s] by simp
    show ?thesis
    proof (cases "free_bit (?V (BBLOCK b ?sb)) (sbsize ?sb) b 0 BPB")
      case None
      have f2: "fsb s2 = fsb s" using stays_kfs(1) [OF jabs_stays [OF r(6)]] .
      have ok2: "alloc_ok q s2" using Suc.prems(2) unfolding alloc_ok_def r(6) f2 .
      have mk: "marked ?sb ?V c" if "c < b + BPB" "c < sbsize ?sb" for c
      proof (cases "c < b")
        case False
        define x where "x = c - b"
        have c: "c = b + x" "x < BPB" using False that(1) by (simp_all add: x_def)
        have "\<not> bit_clear (?V (BBLOCK b ?sb)) x" using free_bit_None [OF None, of x] that(2) c by simp
        then show ?thesis using bb [OF c(2)] by (simp add: marked_def c(1))
      qed (use Suc.prems(4) that in blast)
      have "\<exists>r s'. balloc_loop ROOTDEV (b + BPB) j s2 = Inr (r, s') \<and> balloc_post q k (Suc h) s2 r s'"
        using Suc.IH [OF r(5) ok2] Suc.prems(3,5) mk unfolding r(6) f2 by (simp add: algebra_simps)
      moreover have "balloc_post q k (Suc h) s2 r s' \<longleftrightarrow> balloc_post q k (Suc h) s r s'" for r s'
        unfolding balloc_post_def r(6) f2 stays_def using arg_cong [OF r(6), of jenv] by simp
      ultimately show ?thesis using True None r(1,2,4) f1 by simp
    next
      case (Some bi)
      then have bi: "bi < BPB" "b + bi < sbsize ?sb" "bit_clear (?V (BBLOCK b ?sb)) bi" using free_bit_Some [OF Some] by simp_all
      have "\<not> marked ?sb ?V (b + bi)" using bi by (simp add: marked_def bb)
      then obtain i' t1 t2 t3 t4 where t: "bread ROOTDEV (BBLOCK (b + bi) ?sb) s = Inr (i', t1)"
        "log_write i' (set_data i' (bit_set (bufdata i' t1) ((b + bi) mod BPB)) t1) = Inr t2" "brelse i' t2 = Inr t3"
        "bzero ROOTDEV (b + bi) t3 = Inr t4" "balloc_post q k (Suc h) s (b + bi) t4"
        by (rule balloc_found [OF Suc.prems(1,2) bi(2)])
      have e: "i' = i" "t1 = s1" using t(1) r(1) by (simp_all add: bb bi)
      have "balloc_loop ROOTDEV b (Suc j) s = Inr (b + bi, t4)"
        using True Some r(1,2) f1 t(2-4) by (simp add: e bb bi)
      then show ?thesis using t(5) by blast
    qed
  qed
qed

lemma balloc_ok:
  fixes s :: "'a kfs_scheme"
  assumes "txn q (Suc (Suc k)) (Suc h) s" and "alloc_ok q s"
  shows "\<exists>r s'. balloc ROOTDEV s = Inr (r, s') \<and> balloc_post q k (Suc h) s r s'"
proof -
  have "sbsize (fsb s) < Suc (sbsize (fsb s) div BPB) * BPB" using dividend_less_div_times [of BPB "sbsize (fsb s)"] by simp
  then show ?thesis unfolding balloc_def using balloc_loop_ok [OF assms, of 0] by (simp del: balloc_loop.simps)
qed

end
