(* ===== verification/Content.thy ===== *)
theory Content
  imports Falloc Crash
begin

text \<open>
  A file as a sequence of bytes: the blocks that the addresses of an inode and its indirect block name, what \<open>bmap\<close>,
  \<open>readi\<close> and \<open>writei\<close> do to them, and that the blocks of other files stay as they are.
\<close>

section \<open>The blocks of a file\<close>

text \<open>The address of block \<open>n\<close> of a file, \<open>0\<close> if it has none; \<open>V\<close> is the contents of the disk, \<open>A\<close> the addresses in the inode.\<close>

definition baddr :: "(nat \<Rightarrow> blk) \<Rightarrow> (nat \<Rightarrow> nat) \<Rightarrow> nat \<Rightarrow> nat" where
  "baddr V A n = (if n < NDIRECT then A n else if A NDIRECT = 0 then 0 else ld32 (V (A NDIRECT)) (4 * (n - NDIRECT)))"

definition used :: "(nat \<Rightarrow> blk) \<Rightarrow> (nat \<Rightarrow> nat) \<Rightarrow> nat set" where
  "used V A = {a. a \<noteq> 0 \<and> (a = A NDIRECT \<or> (\<exists>n < MAXFILE. a = baddr V A n))}"

definition file_ok :: "superblock \<Rightarrow> (nat \<Rightarrow> blk) \<Rightarrow> (nat \<Rightarrow> nat) \<Rightarrow> bool" where
  "file_ok sb V A \<longleftrightarrow> (\<forall>a \<in> used V A. data_block sb a \<and> marked sb V a) \<and>
     (\<forall>n < MAXFILE. baddr V A n \<noteq> 0 \<longrightarrow> baddr V A n \<noteq> A NDIRECT) \<and>
     (\<forall>m < MAXFILE. \<forall>n < MAXFILE. baddr V A m = baddr V A n \<and> baddr V A m \<noteq> 0 \<longrightarrow> m = n)"

text \<open>The byte at offset \<open>x\<close>; a block that is missing reads as zeros.\<close>

definition fbyte :: "(nat \<Rightarrow> blk) \<Rightarrow> (nat \<Rightarrow> nat) \<Rightarrow> nat \<Rightarrow> u8" where
  "fbyte V A x = (let a = baddr V A (x div BSIZE) in if a = 0 then 0 else V a (x mod BSIZE))"

abbreviation in_file :: "nat \<Rightarrow> bool" where
  "in_file x \<equiv> x div BSIZE < MAXFILE"

text \<open>What the file does not use stays as it is.\<close>

definition others_kept :: "superblock \<Rightarrow> (nat \<Rightarrow> blk) \<Rightarrow> (nat \<Rightarrow> nat) \<Rightarrow> (nat \<Rightarrow> blk) \<Rightarrow> (nat \<Rightarrow> nat) \<Rightarrow> bool" where
  "others_kept sb V A V' A' \<longleftrightarrow>
     (\<forall>b. data_block sb b \<and> marked sb V b \<and> b \<notin> used V A \<longrightarrow> V' b = V b \<and> marked sb V' b \<and> b \<notin> used V' A')"

lemma others_kept_refl: "others_kept sb V A V A"
  by (simp add: others_kept_def)

lemma others_kept_trans: "others_kept sb V A V' A' \<Longrightarrow> others_kept sb V' A' V'' A'' \<Longrightarrow> others_kept sb V A V'' A''"
  unfolding others_kept_def by metis

lemma file_okD:
  assumes "file_ok sb V A"
  shows "a \<in> used V A \<Longrightarrow> data_block sb a" "a \<in> used V A \<Longrightarrow> marked sb V a"
    "n < MAXFILE \<Longrightarrow> baddr V A n \<noteq> 0 \<Longrightarrow> baddr V A n \<noteq> A NDIRECT"
    "m < MAXFILE \<Longrightarrow> n < MAXFILE \<Longrightarrow> baddr V A m = baddr V A n \<Longrightarrow> baddr V A m \<noteq> 0 \<Longrightarrow> m = n"
  using assms unfolding file_ok_def by blast+

lemma used_baddr: "n < MAXFILE \<Longrightarrow> baddr V A n \<noteq> 0 \<Longrightarrow> baddr V A n \<in> used V A"
  by (auto simp: used_def)

lemma used_indirect: "A NDIRECT \<noteq> 0 \<Longrightarrow> A NDIRECT \<in> used V A"
  by (simp add: used_def)

lemma marked_cong:
  assumes "disk_layout sb home" and "\<And>b. \<not> data_block sb b \<Longrightarrow> V' b = V b" and "c < sbsize sb"
  shows "marked sb V' c \<longleftrightarrow> marked sb V c"
proof -
  have "\<not> data_block sb (BBLOCK c sb)" using layoutD(1) [OF assms(1,3)] by (simp add: data_block_def)
  then show ?thesis using assms(2) by (simp add: marked_def)
qed

text \<open>A file keeps its shape when its blocks stay, and when one more is added.\<close>

lemma file_ok_same:
  assumes "file_ok sb V A" and "\<And>n. n < MAXFILE \<Longrightarrow> baddr V' A' n = baddr V A n" and "A' NDIRECT = A NDIRECT"
    and "\<And>b. data_block sb b \<Longrightarrow> marked sb V b \<Longrightarrow> marked sb V' b"
  shows "file_ok sb V' A'" "used V' A' = used V A"
proof -
  show u: "used V' A' = used V A" unfolding used_def using assms(2,3) by auto
  show "file_ok sb V' A'" using assms(1,4) unfolding file_ok_def u by (simp add: assms(2,3))
qed

lemma file_ok_add:
  assumes ok: "file_ok sb V A" and "m < MAXFILE" and b: "\<And>n. n < MAXFILE \<Longrightarrow> baddr V' A' n = (if n = m then r else baddr V A n)"
    and "A' NDIRECT = A NDIRECT" and mk: "\<And>b. data_block sb b \<Longrightarrow> marked sb V b \<Longrightarrow> marked sb V' b"
    and r: "data_block sb r" "marked sb V' r" "r \<notin> used V A" "r \<noteq> 0"
  shows "file_ok sb V' A'" "used V' A' \<subseteq> insert r (used V A)"
proof -
  show u: "used V' A' \<subseteq> insert r (used V A)" unfolding used_def using b assms(4) by (auto split: if_splits)
  have "data_block sb a \<and> marked sb V' a" if "a \<in> used V' A'" for a using that u file_okD(1,2) [OF ok, of a] mk r(1,2) by blast
  moreover have "baddr V' A' n \<noteq> A' NDIRECT" if "n < MAXFILE" "baddr V' A' n \<noteq> 0" for n
    using that b [OF that(1)] file_okD(3) [OF ok] r(3,4) assms(4) used_indirect [of A V] by (auto split: if_splits)
  moreover have "i = j" if "i < MAXFILE" "j < MAXFILE" "baddr V' A' i = baddr V' A' j" "baddr V' A' i \<noteq> 0" for i j
    using that b [OF that(1)] b [OF that(2)] file_okD(4) [OF ok that(1,2)] used_baddr [of i V A] used_baddr [of j V A] r(3,4)
    by (auto split: if_splits)
  ultimately show "file_ok sb V' A'" unfolding file_ok_def by blast
qed

text \<open>A file grows: its contents stay, its blocks keep their places, marks are only added.\<close>

definition grows :: "superblock \<Rightarrow> (nat \<Rightarrow> blk) \<Rightarrow> (nat \<Rightarrow> nat) \<Rightarrow> (nat \<Rightarrow> blk) \<Rightarrow> (nat \<Rightarrow> nat) \<Rightarrow> bool" where
  "grows sb V A V' A' \<longleftrightarrow> file_ok sb V' A' \<and> (\<forall>x. in_file x \<longrightarrow> fbyte V' A' x = fbyte V A x) \<and> others_kept sb V A V' A' \<and>
     (\<forall>n < MAXFILE. baddr V A n \<noteq> 0 \<longrightarrow> baddr V' A' n = baddr V A n) \<and> (\<forall>c < sbsize sb. marked sb V c \<longrightarrow> marked sb V' c) \<and>
     (\<forall>a \<in> used V' A'. a \<in> used V A \<or> \<not> marked sb V a)"

lemma grows_refl: "file_ok sb V A \<Longrightarrow> grows sb V A V A"
  by (simp add: grows_def others_kept_refl)

lemma growsD:
  assumes "grows sb V A V' A'"
  shows "file_ok sb V' A'" "in_file x \<Longrightarrow> fbyte V' A' x = fbyte V A x" "others_kept sb V A V' A'"
    "n < MAXFILE \<Longrightarrow> baddr V A n \<noteq> 0 \<Longrightarrow> baddr V' A' n = baddr V A n" "c < sbsize sb \<Longrightarrow> marked sb V c \<Longrightarrow> marked sb V' c"
    "a \<in> used V' A' \<Longrightarrow> a \<in> used V A \<or> \<not> marked sb V a"
  using assms unfolding grows_def by blast+

lemma grows_trans:
  assumes a: "grows sb V A V' A'" and b: "grows sb V' A' V'' A''"
  shows "grows sb V A V'' A''"
proof -
  have "a \<in> used V A \<or> \<not> marked sb V a" if u: "a \<in> used V'' A''" for a
  proof -
    have "a < sbsize sb" using file_okD(1) [OF growsD(1) [OF b] u] by (simp add: data_block_def)
    then show ?thesis using growsD(6) [OF b u] growsD(6) [OF a] growsD(5) [OF a] by blast
  qed
  moreover have "fbyte V'' A'' x = fbyte V A x" if "in_file x" for x using growsD(2) [OF a that] growsD(2) [OF b that] by simp
  moreover have "baddr V'' A'' n = baddr V A n" if "n < MAXFILE" "baddr V A n \<noteq> 0" for n
    using growsD(4) [OF a that] growsD(4) [OF b that(1)] that(2) by simp
  ultimately show ?thesis
    unfolding grows_def using growsD(1) [OF b] others_kept_trans [OF growsD(3) [OF a] growsD(3) [OF b]] growsD(5) [OF a] growsD(5) [OF b]
    by blast
qed

lemma data_block_pos: "disk_layout sb home \<Longrightarrow> data_block sb b \<Longrightarrow> 0 < b"
  using layoutD(5) [of sb home b] by (auto simp: data_block_def)

lemma others_kept_add:
  assumes lay: "disk_layout sb home" and ok: "file_ok sb V A" and r: "data_block sb r" "\<not> marked sb V r"
    and u: "used V' A' \<subseteq> insert r (used V A)"
    and V': "\<And>b. data_block sb b \<Longrightarrow> b \<noteq> r \<Longrightarrow> b \<noteq> A NDIRECT \<Longrightarrow> V' b = V b"
    and mk: "\<And>c. c < sbsize sb \<Longrightarrow> marked sb V' c \<longleftrightarrow> c = r \<or> marked sb V c"
  shows "others_kept sb V A V' A'"
  unfolding others_kept_def
proof (intro allI impI)
  fix b
  assume b: "data_block sb b \<and> marked sb V b \<and> b \<notin> used V A"
  then have "b \<noteq> r" "b \<noteq> A NDIRECT" using r(2) data_block_pos [OF lay, of b] used_indirect [of A V] by auto
  then show "V' b = V b \<and> marked sb V' b \<and> b \<notin> used V' A'" using b V' mk u by (auto simp: data_block_def)
qed

lemma grows_add:
  assumes lay: "disk_layout sb home" and ok: "file_ok sb V A" and r: "data_block sb r" "\<not> marked sb V r"
    and m: "m < MAXFILE" "baddr V A m = 0" and b: "\<And>n. n < MAXFILE \<Longrightarrow> baddr V' A' n = (if n = m then r else baddr V A n)"
    and A': "A' NDIRECT = A NDIRECT" and zero: "V' r = (\<lambda>_. 0)"
    and V': "\<And>b. data_block sb b \<Longrightarrow> b \<noteq> r \<Longrightarrow> b \<noteq> A NDIRECT \<Longrightarrow> V' b = V b"
    and mk: "\<And>c. c < sbsize sb \<Longrightarrow> marked sb V' c \<longleftrightarrow> c = r \<or> marked sb V c"
  shows "grows sb V A V' A'"
proof -
  have rs: "r < sbsize sb" "0 < r" using r(1) data_block_pos [OF lay r(1)] by (simp_all add: data_block_def)
  have ru: "r \<notin> used V A" using file_okD(2) [OF ok] r(2) by blast
  have mono: "marked sb V' c" if "c < sbsize sb" "marked sb V c" for c using that mk by blast
  have add: "file_ok sb V' A'" "used V' A' \<subseteq> insert r (used V A)"
    by (rule file_ok_add [OF ok m(1) b A' _ r(1)]; use mono mk rs ru in \<open>auto simp: data_block_def\<close>)+
  have "fbyte V' A' x = fbyte V A x" if "in_file x" for x
  proof (cases "x div BSIZE = m \<or> baddr V A (x div BSIZE) = 0")
    case False
    then have u: "baddr V A (x div BSIZE) \<in> used V A" using used_baddr that by blast
    have "V' (baddr V A (x div BSIZE)) = V (baddr V A (x div BSIZE))"
      using V' [OF file_okD(1) [OF ok u]] u ru file_okD(3) [OF ok that] False by metis
    then show ?thesis using b [OF that] False by (simp add: fbyte_def)
  qed (use b [OF that] m zero in \<open>auto simp: fbyte_def Let_def\<close>)
  moreover have "baddr V' A' n = baddr V A n" if "n < MAXFILE" "baddr V A n \<noteq> 0" for n using b that m(2) by auto
  ultimately show ?thesis
    unfolding grows_def using add others_kept_add [OF lay ok r add(2) V' mk] mono r(2) by blast
qed

lemma marked_take_block:
  assumes "disk_layout sb home" and "data_block sb r" and "c < sbsize sb" and "\<And>b. \<not> data_block sb b \<Longrightarrow> V' b = take_block sb r V b"
  shows "marked sb V' c \<longleftrightarrow> c = r \<or> marked sb V c"
  using marked_cong [OF assms(1,4,3)] marked_take [OF assms(1-3)] by simp

lemma grows_direct:
  assumes lay: "disk_layout sb home" and ok: "file_ok sb V A" and r: "data_block sb r" "\<not> marked sb V r"
    and n: "n < NDIRECT" "A n = 0"
  shows "grows sb V A (take_block sb r V) (A(n := r))" "baddr (take_block sb r V) (A(n := r)) n = r"
proof -
  have "A NDIRECT \<noteq> r" using file_okD(2) [OF ok] used_indirect [of A V] r data_block_pos [OF lay r(1)] by fastforce
  then have i: "A NDIRECT \<noteq> 0 \<Longrightarrow> take_block sb r V (A NDIRECT) = V (A NDIRECT)"
    using take_block_other [OF lay r(1)] file_okD(1) [OF ok used_indirect] by blast
  show "grows sb V A (take_block sb r V) (A(n := r))"
  proof (rule grows_add [OF lay ok r])
    show "n < MAXFILE" "baddr V A n = 0" using n by (simp_all add: baddr_def)
    show "baddr (take_block sb r V) (A(n := r)) m = (if m = n then r else baddr V A m)" for m
      using n i by (auto simp: baddr_def)
  qed (use n(1) take_block_other [OF lay r(1)] marked_take [OF lay r(1)] in \<open>auto simp: take_block_def\<close>)
  show "baddr (take_block sb r V) (A(n := r)) n = r" using n by (simp add: baddr_def)
qed

lemma grows_entry:
  assumes lay: "disk_layout sb home" and ok: "file_ok sb V A" and r: "data_block sb r" "\<not> marked sb V r"
    and j: "j < NINDIRECT" "A NDIRECT \<noteq> 0" "ld32 (V (A NDIRECT)) (4 * j) = 0"
  defines "V' \<equiv> (take_block sb r V)(A NDIRECT := st32 (V (A NDIRECT)) (4 * j) r)"
  shows "grows sb V A V' A" "baddr V' A (NDIRECT + j) = r"
proof -
  note u = used_indirect [of A V, OF j(2)]
  have d: "data_block sb (A NDIRECT)" and ne: "A NDIRECT \<noteq> r" using file_okD(1,2) [OF ok u] r(2) by auto
  have "r < 4294967296" using r(1) lay by (auto simp: data_block_def disk_layout_def)
  then have ld: "ld32 (st32 (V (A NDIRECT)) (4 * j) r) (4 * i) = (if i = j then r else ld32 (V (A NDIRECT)) (4 * i))" for i
    using b32.ld_st_array [of "V (A NDIRECT)" 0 j r i] by auto
  have b: "baddr V' A m = (if m = NDIRECT + j then r else baddr V A m)" for m
    using ld [of "m - NDIRECT"] j by (auto simp: baddr_def V'_def)
  show "grows sb V A V' A"
  proof (rule grows_add [OF lay ok r])
    show "NDIRECT + j < MAXFILE" using j(1) by simp
    show "baddr V A (NDIRECT + j) = 0" using j by (simp add: baddr_def)
    show "V' r = (\<lambda>_. 0)" using ne by (simp add: V'_def take_block_def)
    show "marked sb V' c \<longleftrightarrow> c = r \<or> marked sb V c" if "c < sbsize sb" for c
      by (rule marked_take_block [OF lay r(1) that]) (use d in \<open>auto simp: V'_def\<close>)
    show "V' b = V b" if "data_block sb b" "b \<noteq> r" "b \<noteq> A NDIRECT" for b
      using that take_block_other [OF lay r(1)] by (simp add: V'_def)
  qed (use b in simp_all)
  show "baddr V' A (NDIRECT + j) = r" by (simp add: b)
qed

lemma grows_indirect:
  assumes lay: "disk_layout sb home" and ok: "file_ok sb V A" and r: "data_block sb r" "\<not> marked sb V r" and a: "A NDIRECT = 0"
  shows "grows sb V A (take_block sb r V) (A(NDIRECT := r))" "ld32 (take_block sb r V r) x = 0"
proof -
  let ?V' = "take_block sb r V" and ?A' = "A(NDIRECT := r)"
  have r0: "0 < r" "r < sbsize sb" using data_block_pos [OF lay r(1)] r(1) by (simp_all add: data_block_def)
  have z: "ld32 (take_block sb r V r) y = 0" for y by (simp add: take_block_def ld32_def ld16_def)
  show "ld32 (take_block sb r V r) x = 0" by (rule z)
  have b: "baddr ?V' ?A' n = baddr V A n" for n using a r0(1) z by (simp add: baddr_def)
  have ru: "r \<notin> used V A" using file_okD(2) [OF ok] r(2) by blast
  have u: "used ?V' ?A' \<subseteq> insert r (used V A)" unfolding used_def b using a by auto
  have mk: "marked sb ?V' c \<longleftrightarrow> c = r \<or> marked sb V c" if "c < sbsize sb" for c using marked_take [OF lay r(1) that] .
  have o: "?V' a = V a" if "data_block sb a" "a \<noteq> r" for a using take_block_other [OF lay r(1) that] .
  have "data_block sb a \<and> marked sb ?V' a" if "a \<in> used ?V' ?A'" for a
    using that u mk [of a] r(1) file_okD(1,2) [OF ok, of a] by (auto simp: data_block_def)
  moreover have "baddr V A n \<noteq> ?A' NDIRECT" if "n < MAXFILE" "baddr V A n \<noteq> 0" for n using used_baddr [OF that] ru by auto
  ultimately have "file_ok sb ?V' ?A'" unfolding file_ok_def b using file_okD(4) [OF ok] by blast
  moreover have "fbyte ?V' ?A' x = fbyte V A x" if "in_file x" for x
  proof (cases "baddr V A (x div BSIZE) = 0")
    case False
    note v = used_baddr [OF that False]
    have "?V' (baddr V A (x div BSIZE)) = V (baddr V A (x div BSIZE))" using o [OF file_okD(1) [OF ok v]] v ru by metis
    then show ?thesis by (simp add: fbyte_def b Let_def)
  qed (simp add: fbyte_def b)
  moreover have "others_kept sb V A ?V' ?A'" by (rule others_kept_add [OF lay ok r u]) (use o mk in auto)
  ultimately show "grows sb V A ?V' ?A'" unfolding grows_def b using mk u r(2) by blast
qed

text \<open>Writing to a block of the file.\<close>

lemma write_file_block:
  fixes d :: blk
  assumes lay: "disk_layout sb home" and ok: "file_ok sb V A" and n: "n < MAXFILE" "baddr V A n \<noteq> 0"
  defines "V' \<equiv> V(baddr V A n := d)"
  shows "file_ok sb V' A" "\<And>m. m < MAXFILE \<Longrightarrow> baddr V' A m = baddr V A m" "others_kept sb V A V' A"
    "in_file x \<Longrightarrow> fbyte V' A x = (if x div BSIZE = n then d (x mod BSIZE) else fbyte V A x)"
    "\<And>c. c < sbsize sb \<Longrightarrow> marked sb V' c = marked sb V c"
proof -
  note u = used_baddr [OF n]
  have "baddr V A n \<noteq> A NDIRECT" by (rule file_okD(3) [OF ok n])
  then show b: "\<And>m. m < MAXFILE \<Longrightarrow> baddr V' A m = baddr V A m" by (auto simp: baddr_def V'_def)
  show mk: "\<And>c. c < sbsize sb \<Longrightarrow> marked sb V' c = marked sb V c"
    by (rule marked_cong [OF lay]) (use file_okD(1) [OF ok u] in \<open>auto simp: V'_def\<close>)
  show "file_ok sb V' A" by (rule file_ok_same(1) [OF ok b]) (use mk in \<open>auto simp: data_block_def\<close>)
  have "used V' A = used V A" by (rule file_ok_same(2) [OF ok b]) (use mk in \<open>auto simp: data_block_def\<close>)
  then show "others_kept sb V A V' A" unfolding others_kept_def using u mk by (auto simp: V'_def data_block_def)
  show "fbyte V' A x = (if x div BSIZE = n then d (x mod BSIZE) else fbyte V A x)" if x: "in_file x"
  proof (cases "x div BSIZE = n \<or> baddr V A (x div BSIZE) = 0")
    case False
    then have "baddr V A (x div BSIZE) \<noteq> baddr V A n" using file_okD(4) [OF ok x n(1)] by blast
    then show ?thesis using False b [OF x] by (simp add: fbyte_def V'_def Let_def)
  qed (use b [OF x] n(2) in \<open>auto simp: fbyte_def V'_def Let_def\<close>)
qed

section \<open>\<open>bmap\<close>\<close>

declare jabs_sel [simp del] readi_loop.simps [simp del] writei_loop.simps [simp del]

lemma upd_inode_sel [simp]:
  "itable (upd_inode ip f s) = (itable s)(ip := f (itable s ip))" "fsb (upd_inode ip f s) = fsb s" "bufs (upd_inode ip f s) = bufs s"
  "kfs.more (upd_inode ip f s) = kfs.more s" "ram (upd_inode ip f s) = ram s" "log (upd_inode ip f s) = log s"
  "curproc (upd_inode ip f s) = curproc s" "bio_ok q (upd_inode ip f s) = bio_ok q s" "disk (upd_inode ip f s) = disk s"
  by (simp_all add: upd_inode_def curproc_def myproc_def cpuid_def bio_ok_def cache_inv_def lru_def running_def)

lemma cache_upd_inode:
  "spare (upd_inode ip f s) = spare s" "at_buf q (upd_inode ip f s) = at_buf q s"
  "view (upd_inode ip f s) = view s" "refs (upd_inode ip f s) = refs s" "locked_by (upd_inode ip f s) = locked_by s"
proof -
  have sl: "slot (upd_inode ip f s) = slot s" by (simp add: slot_def [abs_def] holds_def [abs_def] cong: if_cong)
  show "spare (upd_inode ip f s) = spare s" "at_buf q (upd_inode ip f s) = at_buf q s"
    by (simp_all add: spare_def at_buf_def [abs_def] cong: if_cong)
  show "view (upd_inode ip f s) = view s" "refs (upd_inode ip f s) = refs s" "locked_by (upd_inode ip f s) = locked_by s"
    by (simp_all add: view_def [abs_def] refs_def [abs_def] locked_by_def [abs_def] sl cong: option.case_cong if_cong)
qed

lemma jabs_upd_inode [simp]:
  "jview (jabs q (upd_inode ip f s)) = jview (jabs q s)" "jat (jabs q (upd_inode ip f s)) = jat (jabs q s)"
  "jheld (jabs q (upd_inode ip f s)) = jheld (jabs q s)" "jhome (jabs q (upd_inode ip f s)) = jhome (jabs q s)"
  "txn q k h (upd_inode ip f s) = txn q k h s"
proof -
  note c = cache_upd_inode
  show v: "jview (jabs q (upd_inode ip f s)) = jview (jabs q s)" "jat (jabs q (upd_inode ip f s)) = jat (jabs q s)"
    "jheld (jabs q (upd_inode ip f s)) = jheld (jabs q s)" "jhome (jabs q (upd_inode ip f s)) = jhome (jabs q s)"
    by (simp_all add: jabs_sel c log_area_def)
  have "sole (vabs q (upd_inode ip f s)) = sole (vabs q s)" by (simp add: sole_def c)
  then have "budget k h (jabs q (upd_inode ip f s)) = budget k h (jabs q s)" by (simp add: budget_def jabs_sel c)
  moreover have "dirty (upd_inode ip f s) = dirty s" by (simp add: dirty_def c logged_def)
  moreover have "j_ok q (upd_inode ip f s) = j_ok q s"
    using calculation(2) by (simp add: j_ok_def log_ok_def c logged_def log_area_def)
  ultimately show "txn q k h (upd_inode ip f s) = txn q k h s" by (simp add: txn_def v)
qed

text \<open>The inode \<open>ip\<close> and its blocks are in order, and none of them is locked.\<close>

definition inode_ok :: "int \<Rightarrow> nat \<Rightarrow> 'a kfs_scheme \<Rightarrow> bool" where
  "inode_ok q ip s \<longleftrightarrow> alloc_ok q s \<and> idev (itable s ip) = ROOTDEV \<and>
     file_ok (fsb s) (jview (jabs q s)) (iaddrs (itable s ip)) \<and> used (jview (jabs q s)) (iaddrs (itable s ip)) \<inter> jheld (jabs q s) = {}"

text \<open>The two states differ in the contents of blocks, the log, and the addresses of the inode.\<close>

definition imoves :: "int \<Rightarrow> nat \<Rightarrow> 'a kfs_scheme \<Rightarrow> 'a kfs_scheme \<Rightarrow> bool" where
  "imoves q ip s s' \<longleftrightarrow> jat (jabs q s') = jat (jabs q s) \<and> jheld (jabs q s') = jheld (jabs q s) \<and> jhome (jabs q s') = jhome (jabs q s) \<and>
     fsb s' = fsb s \<and> ram s' = ram s \<and> curproc s' = curproc s \<and>
     (\<exists>A. itable s' = (itable s)(ip := (itable s ip)\<lparr>iaddrs := A\<rparr>))"

lemma imoves_trans: "imoves q ip s s' \<Longrightarrow> imoves q ip s' s'' \<Longrightarrow> imoves q ip s s''"
  unfolding imoves_def by auto

lemma stays_imoves: "stays q s s' \<Longrightarrow> imoves q ip s s'"
  using stays_kfs [of q s s'] unfolding imoves_def by (auto intro!: exI [of _ "iaddrs (itable s ip)"])

lemma imoves_addrs: "imoves q ip s s \<and> imoves q ip s (upd_inode ip (\<lambda>i. i\<lparr>iaddrs := A\<rparr>) s)"
  unfolding imoves_def by (auto intro: exI [of _ "iaddrs (itable s ip)"])

abbreviation ifile :: "int \<Rightarrow> nat \<Rightarrow> 'a kfs_scheme \<Rightarrow> nat \<Rightarrow> u8" where
  "ifile q ip s \<equiv> fbyte (jview (jabs q s)) (iaddrs (itable s ip))"

definition igrows :: "int \<Rightarrow> nat \<Rightarrow> 'a kfs_scheme \<Rightarrow> 'a kfs_scheme \<Rightarrow> bool" where
  "igrows q ip s s' \<longleftrightarrow> imoves q ip s s' \<and> inode_ok q ip s' \<and>
     grows (fsb s) (jview (jabs q s)) (iaddrs (itable s ip)) (jview (jabs q s')) (iaddrs (itable s' ip))"

lemma igrows_refl: "inode_ok q ip s \<Longrightarrow> igrows q ip s s"
  by (simp add: igrows_def imoves_addrs inode_ok_def grows_refl)

lemma imoves_fsb: "imoves q ip s s' \<Longrightarrow> fsb s' = fsb s"
  by (simp add: imoves_def)

lemma igrows_trans: "igrows q ip s s' \<Longrightarrow> igrows q ip s' s'' \<Longrightarrow> igrows q ip s s''"
  unfolding igrows_def using imoves_trans [of q ip s s' s''] grows_trans imoves_fsb [of q ip s s'] by fastforce

lemma alloc_ok_mono:
  assumes "alloc_ok q s" and "fsb s' = fsb s" "jhome (jabs q s') = jhome (jabs q s)" "jheld (jabs q s') = jheld (jabs q s)"
    and "\<And>c. c < sbsize (fsb s) \<Longrightarrow> marked (fsb s) (jview (jabs q s)) c \<Longrightarrow> marked (fsb s) (jview (jabs q s')) c"
  shows "alloc_ok q s'"
proof -
  have "datastart (fsb s) \<le> sbsize (fsb s)" by (simp add: datastart_def)
  then show ?thesis using assms(1,5) unfolding alloc_ok_def assms(2-4) by (meson less_le_trans)
qed

lemma igrowsI:
  assumes ok: "inode_ok q ip s" and "imoves q ip s s'"
    and g: "grows (fsb s) (jview (jabs q s)) (iaddrs (itable s ip)) (jview (jabs q s')) (iaddrs (itable s' ip))"
  shows "igrows q ip s s'"
proof -
  have e: "fsb s' = fsb s" "jhome (jabs q s') = jhome (jabs q s)" "jheld (jabs q s') = jheld (jabs q s)" "idev (itable s' ip) = idev (itable s ip)"
    using assms(2) by (auto simp: imoves_def)
  have "alloc_ok q s'" using ok growsD(5) [OF g] by (intro alloc_ok_mono [of q s s'] e) (auto simp: inode_ok_def)
  moreover have "a \<notin> jheld (jabs q s)" if a: "a \<in> used (jview (jabs q s')) (iaddrs (itable s' ip))" for a
  proof -
    have "a < sbsize (fsb s)" using file_okD(1) [OF growsD(1) [OF g] a] by (simp add: data_block_def)
    then show ?thesis using growsD(6) [OF g a] ok unfolding inode_ok_def alloc_ok_def by blast
  qed
  ultimately have "inode_ok q ip s'" using ok growsD(1) [OF g] unfolding inode_ok_def e by blast
  then show ?thesis using assms by (simp add: igrows_def)
qed

definition disk_full :: "int \<Rightarrow> 'a kfs_scheme \<Rightarrow> bool" where
  "disk_full q s \<longleftrightarrow> (\<forall>c < sbsize (fsb s). marked (fsb s) (jview (jabs q s)) c)"

abbreviation iblock :: "int \<Rightarrow> nat \<Rightarrow> 'a kfs_scheme \<Rightarrow> nat \<Rightarrow> nat" where
  "iblock q ip s \<equiv> baddr (jview (jabs q s)) (iaddrs (itable s ip))"

lemma inode_okD:
  assumes "inode_ok q ip s"
  shows "alloc_ok q s" "idev (itable s ip) = ROOTDEV" "file_ok (fsb s) (jview (jabs q s)) (iaddrs (itable s ip))"
    "a \<in> used (jview (jabs q s)) (iaddrs (itable s ip)) \<Longrightarrow> a \<notin> jheld (jabs q s)" "disk_layout (fsb s) (jhome (jabs q s))"
  using assms unfolding inode_ok_def alloc_ok_def by blast+

lemma balloc_full:
  fixes s :: "'a kfs_scheme"
  assumes "balloc_post q k h s 0 s'" and "inode_ok q ip s"
  shows "txn q k h s'" "igrows q ip s s'" "disk_full q s'" "itable s' = itable s" "jview (jabs q s') = jview (jabs q s)"
proof -
  have p: "stays q s s'" "txn q (Suc (Suc k)) h s'" "\<forall>c < sbsize (fsb s). marked (fsb s) (jview (jabs q s)) c"
    and v: "jview (jabs q s') = jview (jabs q s)"
    using assms(1) by (auto simp: balloc_post_def)
  show "txn q k h s'" by (rule txn_mono [OF p(2)]) simp_all
  show "jview (jabs q s') = jview (jabs q s)" by (rule v)
  show e: "itable s' = itable s" by (rule stays_kfs [OF p(1)])
  show "disk_full q s'" using p(3) by (simp add: disk_full_def v stays_kfs(1) [OF p(1)])
  show "igrows q ip s s'"
    by (rule igrowsI [OF assms(2) stays_imoves [OF p(1)]]) (simp add: v e grows_refl inode_okD(3) [OF assms(2)])
qed

lemma bmap_direct:
  fixes s :: "'a kfs_scheme"
  assumes t: "txn q (Suc (Suc k)) (Suc h) s" and ok: "inode_ok q ip s" and n: "bn < NDIRECT"
  shows "\<exists>r s'. bmap ip bn s = Inr (r, s') \<and> txn q k (Suc h) s' \<and> igrows q ip s s' \<and> r = iblock q ip s' bn \<and> (r = 0 \<longrightarrow> disk_full q s')"
proof (cases "iaddrs (itable s ip) bn = 0")
  case False
  then show ?thesis using n txn_mono [OF t] igrows_refl [OF ok] by (simp add: bmap_def Let_def baddr_def)
next
  case True
  obtain r s1 where b: "balloc ROOTDEV s = Inr (r, s1)" "balloc_post q k (Suc h) s r s1" using balloc_ok [OF t inode_okD(1) [OF ok]] by blast
  show ?thesis
  proof (cases "r = 0")
    case r0: True
    note f = balloc_full [OF b(2) [unfolded r0] ok]
    have "iblock q ip s1 bn = 0" using True n by (simp add: f(4,5) baddr_def)
    then show ?thesis using f(1-3) b(1) r0 n True inode_okD(2) [OF ok] by (simp add: bmap_def Let_def)
  next
    case False
    let ?A = "iaddrs (itable s ip)" and ?s' = "upd_inode ip (\<lambda>i. i\<lparr>iaddrs := (iaddrs i)(bn := r)\<rparr>) s1"
    have p: "stays q s s1" "txn q k (Suc h) s1" "data_block (fsb s) r" "\<not> marked (fsb s) (jview (jabs q s)) r"
      "jview (jabs q s1) = take_block (fsb s) r (jview (jabs q s))" using b(2) False by (auto simp: balloc_post_def)
    note e = stays_kfs [OF p(1)]
    note g = grows_direct [OF inode_okD(5,3) [OF ok] p(3,4) n True]
    have u: "?s' = upd_inode ip (\<lambda>i. i\<lparr>iaddrs := ?A(bn := r)\<rparr>) s1" by (simp add: upd_inode_def e(2))
    have "igrows q ip s ?s'"
    proof (rule igrowsI [OF ok])
      show "imoves q ip s ?s'" unfolding u using imoves_trans [OF stays_imoves [OF p(1)]] imoves_addrs by blast
    qed (use g(1) in \<open>simp add: p(5) e(2)\<close>)
    moreover have "iblock q ip ?s' bn = r" using g(2) by (simp add: p(5) e(2))
    ultimately show ?thesis using p(2) b(1) n True False inode_okD(2) [OF ok] by (simp add: bmap_def Let_def)
  qed
qed

text \<open>The indirect block, allocated if there is none.\<close>

definition indirect_block :: "nat \<Rightarrow> 'a kfs_scheme \<Rightarrow> (nat \<times> 'a kfs_scheme) kres" where
  "indirect_block ip s =
     (let i = itable s ip in
      if iaddrs i NDIRECT = 0 then
        kbind (balloc (idev i) s) (\<lambda>(addr, s).
        if addr = 0 then Inr (0, s)
        else Inr (addr, upd_inode ip (\<lambda>i. i\<lparr>iaddrs := (iaddrs i)(NDIRECT := addr)\<rparr>) s))
      else Inr (iaddrs i NDIRECT, s))"

lemma indirect_block_ok:
  fixes s :: "'a kfs_scheme"
  assumes t: "txn q (Suc (Suc k)) (Suc h) s" and ok: "inode_ok q ip s"
  shows "\<exists>r s'. indirect_block ip s = Inr (r, s') \<and> txn q k (Suc h) s' \<and> igrows q ip s s' \<and>
    r = iaddrs (itable s' ip) NDIRECT \<and> (r = 0 \<longrightarrow> disk_full q s')"
proof (cases "iaddrs (itable s ip) NDIRECT = 0")
  case False
  then show ?thesis using txn_mono [OF t] igrows_refl [OF ok] by (simp add: indirect_block_def Let_def)
next
  case True
  obtain r s1 where b: "balloc ROOTDEV s = Inr (r, s1)" "balloc_post q k (Suc h) s r s1" using balloc_ok [OF t inode_okD(1) [OF ok]] by blast
  show ?thesis
  proof (cases "r = 0")
    case r0: True
    note f = balloc_full [OF b(2) [unfolded r0] ok]
    then show ?thesis using b(1) r0 True inode_okD(2) [OF ok] by (simp add: indirect_block_def Let_def)
  next
    case False
    let ?A = "iaddrs (itable s ip)" and ?s' = "upd_inode ip (\<lambda>i. i\<lparr>iaddrs := (iaddrs i)(NDIRECT := r)\<rparr>) s1"
    have p: "stays q s s1" "txn q k (Suc h) s1" "data_block (fsb s) r" "\<not> marked (fsb s) (jview (jabs q s)) r"
      "jview (jabs q s1) = take_block (fsb s) r (jview (jabs q s))" using b(2) False by (auto simp: balloc_post_def)
    note e = stays_kfs [OF p(1)]
    have u: "?s' = upd_inode ip (\<lambda>i. i\<lparr>iaddrs := ?A(NDIRECT := r)\<rparr>) s1" by (simp add: upd_inode_def e(2))
    have "igrows q ip s ?s'"
    proof (rule igrowsI [OF ok])
      show "imoves q ip s ?s'" unfolding u using imoves_trans [OF stays_imoves [OF p(1)]] imoves_addrs by blast
    qed (use grows_indirect(1) [OF inode_okD(5,3) [OF ok] p(3,4) True] in \<open>simp add: p(5) e(2)\<close>)
    then show ?thesis using p(2) b(1) True False inode_okD(2) [OF ok] by (simp add: indirect_block_def Let_def)
  qed
qed

text \<open>The entry \<open>j\<close> of the indirect block at \<open>a\<close>, filled if it is empty.\<close>

definition indirect_entry :: "nat \<Rightarrow> nat \<Rightarrow> nat \<Rightarrow> 'a kfs_scheme \<Rightarrow> (nat \<times> 'a kfs_scheme) kres" where
  "indirect_entry dev a j s =
     kbind (bread dev a s) (\<lambda>(bp, s).
     let k = 4 * j; addr = ld32 (bufdata bp s) k in
     kbind (if addr = 0 then
              kbind (balloc dev s) (\<lambda>(addr, s).
              if addr \<noteq> 0
              then kbind (log_write bp (set_data bp (st32 (bufdata bp s) k addr) s)) (\<lambda>s. Inr (addr, s))
              else Inr (0, s))
            else Inr (addr, s)) (\<lambda>(addr, s).
     kbind (brelse bp s) (\<lambda>s.
     Inr (addr, s))))"

lemma bmap_indirect:
  assumes "NDIRECT \<le> bn" "bn < MAXFILE"
  shows "bmap ip bn s = kbind (indirect_block ip s) (\<lambda>(addr, s').
    if addr = 0 then Inr (0, s') else indirect_entry (idev (itable s ip)) addr (bn - NDIRECT) s')"
proof -
  have "\<not> bn < NDIRECT" "bn - NDIRECT < NINDIRECT" using assms by simp_all
  then show ?thesis unfolding bmap_def indirect_block_def indirect_entry_def Let_def by (simp only: if_False if_True)
qed

text \<open>While the indirect block is locked.\<close>

lemma held_indirect:
  fixes s s1 :: "'a kfs_scheme"
  assumes ok: "inode_ok q ip s" and a: "a \<in> used (jview (jabs q s)) (iaddrs (itable s ip))"
    and j: "jabs q s1 = (jabs q s)\<lparr>jat := (jat (jabs q s))(i \<mapsto> a), jheld := insert a (jheld (jabs q s))\<rparr>"
  shows "fs_env s1 = fs_env s" "jview (jabs q s1) = jview (jabs q s)" "jat (jabs q s1) i = Some a" "a \<in> jhome (jabs q s1)" "alloc_ok q s1"
proof -
  have "jenv (jabs q s1) = jenv (jabs q s)" unfolding j by simp
  then show e: "fs_env s1 = fs_env s" by (simp add: jabs_sel)
  show v: "jview (jabs q s1) = jview (jabs q s)" "jat (jabs q s1) i = Some a" unfolding j by simp_all
  note d = file_okD(1,2) [OF inode_okD(3) [OF ok] a]
  have as: "a < sbsize (fsb s)" using d(1) by (simp add: data_block_def)
  show "a \<in> jhome (jabs q s1)" using layoutD(4) [OF inode_okD(5) [OF ok] as d(1)] unfolding j by simp
  have "BBLOCK b (fsb s) \<noteq> a" if "b < sbsize (fsb s)" for b using layoutD(1) [OF inode_okD(5) [OF ok] that] d(1) by (simp add: data_block_def)
  then show "alloc_ok q s1" using inode_okD(1) [OF ok] d(2) unfolding alloc_ok_def v fs_env_kfs(1) [OF e] by (auto simp: j)
qed

lemma release_indirect:
  fixes s s1 s3 :: "'a kfs_scheme"
  assumes j: "jabs q s1 = (jabs q s)\<lparr>jat := (jat (jabs q s))(i \<mapsto> a), jheld := insert a (jheld (jabs q s))\<rparr>"
    and fresh: "jat (jabs q s) i = None" "a \<notin> jheld (jabs q s)" and st: "stays q s1 s3" and t: "txn q k h s3"
  obtains s4 where "brelse i s3 = Inr s4" "txn q k (Suc h) s4" "stays q s s4" "jview (jabs q s4) = jview (jabs q s3)"
proof -
  have e1: "jenv (jabs q s1) = jenv (jabs q s)" "jhome (jabs q s1) = jhome (jabs q s)" unfolding j by simp_all
  have at: "jat (jabs q s3) = (jat (jabs q s))(i \<mapsto> a)" "jheld (jabs q s3) = insert a (jheld (jabs q s))"
    using st unfolding stays_def by (simp_all add: j)
  then obtain s4 where s4: "brelse i s3 = Inr s4" "txn q k (Suc h) s4"
    "jabs q s4 = (jabs q s3)\<lparr>jat := (jat (jabs q s3))(i := None), jheld := jheld (jabs q s3) - {a}\<rparr>"
    using txn_release [OF t, of i a] by (auto simp del: fun_upd_apply simp: fun_upd_same)
  have "jenv (jabs q s4) = jenv (jabs q s3)" "jhome (jabs q s4) = jhome (jabs q s3)" "jview (jabs q s4) = jview (jabs q s3)"
    "jat (jabs q s4) = jat (jabs q s)" "jheld (jabs q s4) = jheld (jabs q s)"
    unfolding s4(3) using at fresh by (simp_all add: fun_upd_idem)
  then show thesis using that [OF s4(1,2)] st e1 unfolding stays_def by (simp add: jabs_sel(8))
qed

lemma indirect_entry_ok:
  fixes s :: "'a kfs_scheme"
  assumes t: "txn q (Suc (Suc (Suc k))) (Suc (Suc h)) s" and ok: "inode_ok q ip s" and a: "iaddrs (itable s ip) NDIRECT = a" "a \<noteq> 0"
    and j: "j < NINDIRECT"
  shows "\<exists>r s'. indirect_entry ROOTDEV a j s = Inr (r, s') \<and> txn q k (Suc (Suc h)) s' \<and> igrows q ip s s' \<and>
    r = iblock q ip s' (NDIRECT + j) \<and> (r = 0 \<longrightarrow> disk_full q s')"
proof -
  let ?V = "jview (jabs q s)" and ?A = "iaddrs (itable s ip)"
  have u: "a \<in> used ?V ?A" using used_indirect [of ?A ?V] a by simp
  note nh = inode_okD(4) [OF ok u]
  obtain i s1 where r: "bread ROOTDEV a s = Inr (i, s1)" "bdata (bufs s1 i) = ?V a" "txn q (Suc (Suc (Suc k))) (Suc h) s1"
    "jabs q s1 = (jabs q s)\<lparr>jat := (jat (jabs q s))(i \<mapsto> a), jheld := insert a (jheld (jabs q s))\<rparr>" "jat (jabs q s) i = None"
    by (rule txn_read [OF t nh])
  note h = held_indirect [OF ok u r(4)] and rel = release_indirect [OF r(4,5) nh]
  note e1 = fs_env_kfs [OF h(1)]
  have ib: "iblock q ip s (NDIRECT + j) = ld32 (?V a) (4 * j)" using a by (simp add: baddr_def)
  show ?thesis
  proof (cases "ld32 (?V a) (4 * j) = 0")
    case False
    obtain s4 where s4: "brelse i s1 = Inr s4" "txn q (Suc (Suc (Suc k))) (Suc (Suc h)) s4" "stays q s s4" "jview (jabs q s4) = jview (jabs q s1)"
      by (rule rel [OF stays_refl r(3)])
    have v4: "jview (jabs q s4) = ?V" "itable s4 = itable s" using s4(4) h(2) stays_kfs [OF s4(3)] by simp_all
    have "igrows q ip s s4" by (rule igrowsI [OF ok stays_imoves [OF s4(3)]]) (simp add: v4 grows_refl inode_okD(3) [OF ok])
    then show ?thesis using r(1,2) s4(1) False ib txn_mono [OF s4(2)] by (simp add: indirect_entry_def Let_def v4)
  next
    case True
    obtain x s3 where b: "balloc ROOTDEV s1 = Inr (x, s3)" "balloc_post q (Suc k) (Suc h) s1 x s3" using balloc_ok [OF r(3) h(5)] by blast
    show ?thesis
    proof (cases "x = 0")
      case x0: True
      have p: "stays q s1 s3" "txn q (Suc (Suc (Suc k))) (Suc h) s3" "jview (jabs q s3) = jview (jabs q s1)"
        "\<forall>c < sbsize (fsb s1). marked (fsb s1) (jview (jabs q s1)) c" using b(2) x0 by (auto simp: balloc_post_def)
      obtain s4 where s4: "brelse i s3 = Inr s4" "txn q (Suc (Suc (Suc k))) (Suc (Suc h)) s4" "stays q s s4" "jview (jabs q s4) = jview (jabs q s3)"
        by (rule rel [OF p(1,2)])
      have v4: "jview (jabs q s4) = ?V" "itable s4 = itable s" "fsb s4 = fsb s" using s4(4) p(3) h(2) stays_kfs [OF s4(3)] by simp_all
      have "igrows q ip s s4" by (rule igrowsI [OF ok stays_imoves [OF s4(3)]]) (simp add: v4 grows_refl inode_okD(3) [OF ok])
      moreover have "disk_full q s4" using p(4) by (simp add: disk_full_def v4 e1 h(2))
      ultimately show ?thesis using r(1,2) b(1) x0 s4(1) True ib txn_mono [OF s4(2)] by (simp add: indirect_entry_def Let_def v4)
    next
      case False
      have p: "stays q s1 s3" "txn q (Suc k) (Suc h) s3" "data_block (fsb s) x" "\<not> marked (fsb s) ?V x"
        "jview (jabs q s3) = take_block (fsb s) x ?V" using b(2) False by (auto simp: balloc_post_def h(2) e1)
      note e3 = stays_kfs [OF p(1)]
      have at3: "jat (jabs q s3) i = Some a" "a \<in> jhome (jabs q s3)" using h(3,4) e3 by simp_all
      have "a \<noteq> x" using file_okD(2) [OF inode_okD(3) [OF ok] u] p(4) by blast
      then have va: "jview (jabs q s3) a = ?V a"
        using take_block_other [OF inode_okD(5) [OF ok] p(3) file_okD(1) [OF inode_okD(3) [OF ok] u]] by (simp add: p(5))
      have "j_ok q s3" using p(2) by (simp add: txn_def)
      then have bd: "bdata (bufs s3 i) = ?V a" using jl.data_at [OF _ at3(1)] va by simp
      obtain s4 where s4: "log_write i (set_data i (st32 (?V a) (4 * j) x) s3) = Inr s4" "txn q k (Suc h) s4" "stays q s3 s4"
        "jview (jabs q s4) = (jview (jabs q s3))(a := st32 (?V a) (4 * j) x)"
        by (rule txn_write [OF p(2) at3])
      obtain s5 where s5: "brelse i s4 = Inr s5" "txn q k (Suc (Suc h)) s5" "stays q s s5" "jview (jabs q s5) = jview (jabs q s4)"
        by (rule rel [OF stays_trans [OF p(1) s4(3)] s4(2)])
      have v5: "jview (jabs q s5) = (take_block (fsb s) x ?V)(a := st32 (?V a) (4 * j) x)" "itable s5 = itable s"
        using s5(4) s4(4) p(5) stays_kfs [OF s5(3)] by simp_all
      note g = grows_entry [OF inode_okD(5,3) [OF ok] p(3,4) j, unfolded a(1), OF a(2) True]
      have "igrows q ip s s5" by (rule igrowsI [OF ok stays_imoves [OF s5(3)]]) (simp add: v5 g(1))
      moreover have "iblock q ip s5 (NDIRECT + j) = x" using g(2) by (simp add: v5)
      ultimately show ?thesis using r(1,2) b(1) False s4(1) s5(1,2) True bd by (simp add: indirect_entry_def Let_def)
    qed
  qed
qed

lemma bmap_ok:
  fixes s :: "'a kfs_scheme"
  assumes t: "txn q (k + 5) (Suc (Suc h)) s" and ok: "inode_ok q ip s" and n: "bn < MAXFILE"
  shows "\<exists>r s'. bmap ip bn s = Inr (r, s') \<and> txn q k (Suc (Suc h)) s' \<and> igrows q ip s s' \<and> r = iblock q ip s' bn \<and>
    (r = 0 \<longrightarrow> disk_full q s')"
proof (cases "bn < NDIRECT")
  case True
  have "txn q (Suc (Suc k)) (Suc (Suc h)) s" by (rule txn_mono [OF t]) simp_all
  from bmap_direct [OF this ok True] show ?thesis by blast
next
  case False
  have "txn q (Suc (Suc (Suc (Suc (Suc k))))) (Suc (Suc h)) s" by (rule txn_mono [OF t]) simp_all
  then obtain a s1 where a: "indirect_block ip s = Inr (a, s1)" "txn q (Suc (Suc (Suc k))) (Suc (Suc h)) s1"
    "igrows q ip s s1" "a = iaddrs (itable s1 ip) NDIRECT" "a = 0 \<longrightarrow> disk_full q s1"
    using indirect_block_ok [OF _ ok] by metis
  have ok1: "inode_ok q ip s1" using a(3) by (simp add: igrows_def)
  have bn: "NDIRECT + (bn - NDIRECT) = bn" "bn - NDIRECT < NINDIRECT" using False n by simp_all
  note b = bmap_indirect [of bn ip s] 
  show ?thesis
  proof (cases "a = 0")
    case True
    then have "iblock q ip s1 bn = 0" using a(4) False by (simp add: baddr_def)
    then show ?thesis using b False n a(1,3,5) True txn_mono [OF a(2)] by simp
  next
    case a0: False
    obtain r s2 where r: "indirect_entry ROOTDEV a (bn - NDIRECT) s1 = Inr (r, s2)"
      "txn q k (Suc (Suc h)) s2" "igrows q ip s1 s2" "r = iblock q ip s2 bn" "r = 0 \<longrightarrow> disk_full q s2" using indirect_entry_ok [OF a(2) ok1 a(4) [symmetric] a0 bn(2)] unfolding bn(1) by metis
    then show ?thesis using b False n a(1) a0 igrows_trans [OF a(3)] inode_okD(2) [OF ok] by simp
  qed
qed

section \<open>Reading\<close>

lemma txn_curproc: "txn q k h s \<Longrightarrow> \<exists>p. curproc s = Inr p"
  by (auto simp: txn_def j_ok_def bio_ok_def running_def curproc_def)

lemma bmap_present:
  fixes s :: "'a kfs_scheme"
  assumes t: "txn q k (Suc h) s" and ok: "inode_ok q ip s" and n: "bn < MAXFILE" "iblock q ip s bn \<noteq> 0"
  shows "\<exists>s'. bmap ip bn s = Inr (iblock q ip s bn, s') \<and> txn q k (Suc h) s' \<and> jabs q s' = jabs q s"
proof (cases "bn < NDIRECT")
  case True
  then show ?thesis using t n by (simp add: bmap_def Let_def baddr_def)
next
  case False
  let ?a = "iaddrs (itable s ip) NDIRECT"
  have a: "?a \<noteq> 0" and b: "iblock q ip s bn = ld32 (jview (jabs q s) ?a) (4 * (bn - NDIRECT))"
    using n(2) False by (auto simp: baddr_def split: if_splits)
  note nh = inode_okD(4) [OF ok used_indirect [of "iaddrs (itable s ip)", OF a]]
  obtain i s1 s2 where r: "bread ROOTDEV ?a s = Inr (i, s1)" "bdata (bufs s1 i) = jview (jabs q s) ?a" "brelse i s1 = Inr s2"
    "txn q k (Suc h) s2" "jabs q s2 = jabs q s" by (rule txn_read [OF t nh])
  have "bmap ip bn s = indirect_entry ROOTDEV ?a (bn - NDIRECT) s"
    using bmap_indirect [of bn ip s] False n(1) a inode_okD(2) [OF ok] by (simp add: indirect_block_def Let_def)
  then show ?thesis using r n(2) unfolding b by (simp add: indirect_entry_def Let_def)
qed

lemma add_in_block:
  assumes "off mod b + y < (b :: nat)"
  shows "(off + y) div b = off div b" "(off + y) mod b = off mod b + y"
proof -
  have e: "off + y = (off mod b + y) + b * (off div b)" by simp
  show "(off + y) div b = off div b" using assms by (subst e, subst div_mult_self2) auto
  show "(off + y) mod b = off mod b + y" using assms by (subst e, subst mod_mult_self2) auto
qed

lemma ifile_chunk:
  assumes "off mod BSIZE + m \<le> BSIZE" and "0 < m" and "iblock q ip s (off div BSIZE) \<noteq> 0"
  shows "map (ifile q ip s) [off..<off + m] = blk_get (jview (jabs q s) (iblock q ip s (off div BSIZE))) (off mod BSIZE) m"
proof (rule nth_equalityI)
  fix y
  assume "y < length (map (ifile q ip s) [off..<off + m])"
  then have y: "off mod BSIZE + y < BSIZE" "y < m" using assms(1) by simp_all
  have "(off + y) div BSIZE = off div BSIZE" "(off + y) mod BSIZE = off mod BSIZE + y"
    using add_in_block [OF y(1)] .
  then show "map (ifile q ip s) [off..<off + m] ! y = blk_get (jview (jabs q s) (iblock q ip s (off div BSIZE))) (off mod BSIZE) m ! y"
    using y(2) assms(3) by (simp add: blk_get_def fbyte_def)
qed (simp add: blk_get_def)

lemma chunk_ok: "off mod BSIZE + chunk n tot off \<le> BSIZE" "chunk n tot off \<le> n - tot"
  by (simp_all add: chunk_def min_def) (metis add.commute le_diff_conv2 less_imp_le_nat mod_less_divisor zero_less_numeral)

lemma readi_loop_ok:
  fixes s :: "'a kfs_scheme"
  assumes "txn q k (Suc h) s" and "inode_ok q ip s" and "tot \<le> n" and "off + (n - tot) \<le> MAXFILE * BSIZE"
    and "\<And>x. off \<le> x \<Longrightarrow> x < off + (n - tot) \<Longrightarrow> iblock q ip s (x div BSIZE) \<noteq> 0"
  shows "\<exists>s'. readi_loop ip (Kern dst) off n tot s = Inr (int n, Kern (dst @ map (ifile q ip s) [off..<off + (n - tot)]), s') \<and>
    txn q k (Suc h) s' \<and> jabs q s' = jabs q s"
  using assms
proof (induction "n - tot" arbitrary: tot off dst s rule: less_induct)
  case less
  show ?case
  proof (cases "tot < n")
    case False
    then show ?thesis using less.prems by (simp add: readi_loop.simps [of ip _ off n])
  next
    case True
    let ?bn = "off div BSIZE" and ?m = "chunk n tot off"
    have m: "0 < ?m" "off mod BSIZE + ?m \<le> BSIZE" "?m \<le> n - tot" using chunk_pos [OF True] chunk_ok by blast+
    have bn: "?bn < MAXFILE" "iblock q ip s ?bn \<noteq> 0" using less.prems(4) less.prems(5) [of off] True by (simp_all add: less_mult_imp_div_less)
    obtain s1 where s1: "bmap ip ?bn s = Inr (iblock q ip s ?bn, s1)" "txn q k (Suc h) s1" "jabs q s1 = jabs q s"
      using bmap_present [OF less.prems(1,2) bn] by blast
    note e1 = stays_kfs [OF jabs_stays [OF s1(3)]]
    have nh: "iblock q ip s ?bn \<notin> jheld (jabs q s1)" using inode_okD(4) [OF less.prems(2) used_baddr [OF bn]] by (simp add: s1(3))
    obtain i s2 s3 where r: "bread ROOTDEV (iblock q ip s ?bn) s1 = Inr (i, s2)" "bdata (bufs s2 i) = jview (jabs q s1) (iblock q ip s ?bn)"
      "txn q k h s2" "brelse i s2 = Inr s3" "txn q k (Suc h) s3" "jabs q s3 = jabs q s1" by (rule txn_read [OF s1(2) nh])
    note e3 = stays_kfs [OF jabs_stays [OF r(6)]]
    have j3: "jabs q s3 = jabs q s" "itable s3 = itable s" using r(6) s1(3) e3 e1 by simp_all
    have ok3: "inode_ok q ip s3"
      using less.prems(2) unfolding inode_ok_def alloc_ok_def j3 e3(1) e1(1) .
    have "\<exists>s'. readi_loop ip (Kern (dst @ map (ifile q ip s) [off..<off + ?m])) (off + ?m) n (tot + ?m) s3 =
        Inr (int n, Kern ((dst @ map (ifile q ip s) [off..<off + ?m]) @ map (ifile q ip s3) [off + ?m..<off + ?m + (n - (tot + ?m))]), s') \<and>
      txn q k (Suc h) s' \<and> jabs q s' = jabs q s3"
      by (rule less.hyps [OF _ r(5) ok3]) (use less.prems m in \<open>auto simp: j3\<close>)
    moreover have "map (ifile q ip s) [off..<off + ?m] @ map (ifile q ip s) [off + ?m..<off + ?m + (n - (tot + ?m))] =
        map (ifile q ip s) [off..<off + (n - tot)]"
    proof -
      have e: "off + ?m + (n - (tot + ?m)) = off + (n - tot)" using m(3) by simp
      show ?thesis unfolding map_append [symmetric] using upt_add_eq_append [of off "off + ?m" "n - (tot + ?m)"] unfolding e by simp
    qed
    ultimately obtain s' where s': "readi_loop ip (Kern (dst @ map (ifile q ip s) [off..<off + ?m])) (off + ?m) n (tot + ?m) s3 =
        Inr (int n, Kern (dst @ map (ifile q ip s) [off..<off + (n - tot)]), s')" "txn q k (Suc h) s'" "jabs q s' = jabs q s"
      by (auto simp: j3)
    obtain p where p: "curproc s2 = Inr p" using txn_curproc [OF r(3)] by blast
    have "readi_loop ip (Kern dst) off n tot s = Inr (int n, Kern (dst @ map (ifile q ip s) [off..<off + (n - tot)]), s')"
      using True s1(1) bn(2) r(1,2,4) p s'(1) inode_okD(2) [OF less.prems(2)] ifile_chunk [OF m(2,1) bn(2)]
      by (simp add: readi_loop.simps [of ip _ off n] Let_def e1(2) s1(3))
    then show ?thesis using s'(2,3) by blast
  qed
qed

section \<open>Writing\<close>

text \<open>The bytes \<open>bs\<close> have been written at offset \<open>off\<close>, and nothing else has changed.\<close>

definition iwrote :: "int \<Rightarrow> nat \<Rightarrow> nat \<Rightarrow> u8 list \<Rightarrow> 'a kfs_scheme \<Rightarrow> 'a kfs_scheme \<Rightarrow> bool" where
  "iwrote q ip off bs s s' \<longleftrightarrow> imoves q ip s s' \<and> inode_ok q ip s' \<and>
     others_kept (fsb s) (jview (jabs q s)) (iaddrs (itable s ip)) (jview (jabs q s')) (iaddrs (itable s' ip)) \<and>
     (\<forall>x. in_file x \<longrightarrow> ifile q ip s' x = (if off \<le> x \<and> x < off + length bs then bs ! (x - off) else ifile q ip s x)) \<and>
     (\<forall>n < MAXFILE. iblock q ip s n \<noteq> 0 \<longrightarrow> iblock q ip s' n \<noteq> 0) \<and>
     (\<forall>x. off \<le> x \<and> x < off + length bs \<longrightarrow> iblock q ip s' (x div BSIZE) \<noteq> 0)"

lemma iwrote_Nil: "igrows q ip s s' \<Longrightarrow> iwrote q ip off [] s s'"
  unfolding igrows_def iwrote_def using growsD [of "fsb s" "jview (jabs q s)" "iaddrs (itable s ip)"] by auto

lemma iwroteD:
  assumes "iwrote q ip off bs s s'"
  shows "imoves q ip s s'" "inode_ok q ip s'"
    "others_kept (fsb s) (jview (jabs q s)) (iaddrs (itable s ip)) (jview (jabs q s')) (iaddrs (itable s' ip))"
    "in_file x \<Longrightarrow> ifile q ip s' x = (if off \<le> x \<and> x < off + length bs then bs ! (x - off) else ifile q ip s x)"
    "n < MAXFILE \<Longrightarrow> iblock q ip s n \<noteq> 0 \<Longrightarrow> iblock q ip s' n \<noteq> 0"
    "off \<le> x \<Longrightarrow> x < off + length bs \<Longrightarrow> iblock q ip s' (x div BSIZE) \<noteq> 0"
  using assms unfolding iwrote_def by blast+

lemma iwrote_trans:
  assumes a: "iwrote q ip off bs s s'" and b: "iwrote q ip (off + length bs) bs' s' s''" and m: "off + length bs \<le> MAXFILE * BSIZE"
  shows "iwrote q ip off (bs @ bs') s s''"
proof -
  have f: "fsb s' = fsb s" by (rule imoves_fsb [OF iwroteD(1) [OF a]])
  have "ifile q ip s'' x = (if off \<le> x \<and> x < off + length (bs @ bs') then (bs @ bs') ! (x - off) else ifile q ip s x)" if "in_file x" for x
    using iwroteD(4) [OF b that] iwroteD(4) [OF a that] by (auto simp: nth_append)
  moreover have "iblock q ip s'' (x div BSIZE) \<noteq> 0" if "off \<le> x" "x < off + length (bs @ bs')" for x
  proof (cases "x < off + length bs")
    case True
    then have "x div BSIZE < MAXFILE" using m by (simp add: less_mult_imp_div_less)
    then show ?thesis using iwroteD(6) [OF a that(1) True] iwroteD(5) [OF b] by blast
  qed (use iwroteD(6) [OF b] that in simp)
  ultimately show ?thesis
    unfolding iwrote_def using imoves_trans [OF iwroteD(1) [OF a] iwroteD(1) [OF b]] iwroteD(2) [OF b]
      others_kept_trans [OF iwroteD(3) [OF a] iwroteD(3) [OF b, unfolded f]] iwroteD(5) [OF a] iwroteD(5) [OF b] by blast
qed

text \<open>One block: the bytes go to a block of the file that is read, changed, logged and released.\<close>

lemma write_chunk:
  fixes s :: "'a kfs_scheme"
  assumes t: "txn q (Suc k) (Suc h) s" and ok: "inode_ok q ip s" and n: "off div BSIZE < MAXFILE" "iblock q ip s (off div BSIZE) \<noteq> 0"
    and m: "off mod BSIZE + length bs \<le> BSIZE"
  obtains i s1 s2 s' where "bread ROOTDEV (iblock q ip s (off div BSIZE)) s = Inr (i, s1)" "fs_env s1 = fs_env s"
    "log_write i (set_data i (blk_put (bufdata i s1) (off mod BSIZE) bs) s1) = Inr s2" "brelse i s2 = Inr s'"
    "txn q k (Suc h) s'" "iwrote q ip off bs s s'"
proof -
  let ?bn = "off div BSIZE" and ?V = "jview (jabs q s)" and ?A = "iaddrs (itable s ip)"
  let ?a = "iblock q ip s ?bn"
  let ?d = "blk_put (?V ?a) (off mod BSIZE) bs"
  note u = used_baddr [OF n]
  have d: "data_block (fsb s) ?a" by (rule file_okD(1) [OF inode_okD(3) [OF ok] u])
  have home: "?a \<in> jhome (jabs q s)" using layoutD(4) [OF inode_okD(5) [OF ok] _ d] d by (simp add: data_block_def)
  obtain i s1 s2 s' where r: "bread ROOTDEV ?a s = Inr (i, s1)" "bdata (bufs s1 i) = ?V ?a" "fs_env s1 = fs_env s"
    "log_write i (set_data i ?d s1) = Inr s2" "brelse i s2 = Inr s'" "txn q k (Suc h) s'" "stays q s s'"
    "jview (jabs q s') = ?V(?a := ?d)"
    by (rule txn_update [OF t inode_okD(4) [OF ok u] home])
  note e = stays_kfs [OF r(7)] and w = write_file_block [OF inode_okD(5,3) [OF ok] n, where d = "?d", folded r(8)]
  have "alloc_ok q s'" by (rule alloc_ok_mono [OF inode_okD(1) [OF ok] e(1,5,4)]) (use w(5) in blast)
  moreover have "used (jview (jabs q s')) ?A = used ?V ?A"
    by (rule file_ok_same(2) [OF inode_okD(3) [OF ok] w(2)]) (use w(5) in \<open>auto simp: data_block_def\<close>)
  ultimately have ok': "inode_ok q ip s'" using ok w(1) unfolding inode_ok_def e(1,2,4) by simp
  have "fbyte (jview (jabs q s')) ?A x = (if off \<le> x \<and> x < off + length bs then bs ! (x - off) else fbyte ?V ?A x)" if x: "in_file x" for x
  proof (cases "x div BSIZE = ?bn")
    case True
    have c: "off \<le> x \<and> x < off + length bs \<longleftrightarrow> off mod BSIZE \<le> x mod BSIZE \<and> x mod BSIZE < off mod BSIZE + length bs"
      "x - off = x mod BSIZE - off mod BSIZE"
      using div_mult_mod_eq [of x BSIZE] div_mult_mod_eq [of off BSIZE] unfolding True by linarith+
    show ?thesis using w(4) [OF x] n(2) unfolding True c by (simp add: blk_put_def fbyte_def True)
  next
    case False
    have "\<not> (off \<le> x \<and> x < off + length bs)"
    proof
      assume r: "off \<le> x \<and> x < off + length bs"
      then have "off mod BSIZE + (x - off) < BSIZE" using m by linarith
      then show False using add_in_block(1) [of off BSIZE "x - off"] r False by simp
    qed
    then show ?thesis using w(4) [OF x] False by auto
  qed
  moreover have "baddr (jview (jabs q s')) ?A (x div BSIZE) \<noteq> 0" if "off \<le> x" "x < off + length bs" for x
  proof -
    have "off mod BSIZE + (x - off) < BSIZE" using m that by linarith
    then show ?thesis using add_in_block(1) [of off BSIZE "x - off"] that n(2) w(2) [OF n(1)] by simp
  qed
  ultimately have "iwrote q ip off bs s s'"
    unfolding iwrote_def e(2) using stays_imoves [OF r(7)] ok' w(2,3) by auto
  then show thesis using that r(1-6) unfolding r(2) [symmetric] by blast
qed

lemma writei_loop_ok:
  fixes s :: "'a kfs_scheme"
  assumes "txn q (k + 6 * c) (Suc (Suc h)) s" and "inode_ok q ip s" and "tot \<le> n" and "length bs = n - tot"
    and "off + (n - tot) \<le> MAXFILE * BSIZE" and "tot < n \<longrightarrow> off mod BSIZE + (n - tot) \<le> c * BSIZE"
  shows "\<exists>j s'. writei_loop ip (Kern bs) off n tot s = Inr (tot + j, off + j, s') \<and> j \<le> n - tot \<and> txn q k (Suc (Suc h)) s' \<and>
    iwrote q ip off (take j bs) s s' \<and> (j < n - tot \<longrightarrow> disk_full q s')"
  using assms
proof (induction c arbitrary: tot off bs s)
  case 0
  then have "\<not> tot < n" by auto
  then show ?case using 0 iwrote_Nil [OF igrows_refl [OF 0(2)]] by (simp add: writei_loop.simps [of ip _ off n])
next
  case (Suc c)
  show ?case
  proof (cases "tot < n")
    case False
    then show ?thesis using Suc.prems iwrote_Nil [OF igrows_refl [OF Suc.prems(2)]] txn_mono [OF Suc.prems(1)]
      by (simp add: writei_loop.simps [of ip _ off n])
  next
    case True
    let ?bn = "off div BSIZE" and ?m = "chunk n tot off"
    have m: "0 < ?m" "off mod BSIZE + ?m \<le> BSIZE" "?m \<le> n - tot" using chunk_pos [OF True] chunk_ok by blast+
    have bn: "?bn < MAXFILE" using Suc.prems(5) True by (simp add: less_mult_imp_div_less)
    have "txn q (Suc (k + 6 * c) + 5) (Suc (Suc h)) s" by (rule txn_mono [OF Suc.prems(1)]) simp_all
    then obtain r s1 where r: "bmap ip ?bn s = Inr (r, s1)" "txn q (Suc (k + 6 * c)) (Suc (Suc h)) s1" "igrows q ip s s1"
      "r = iblock q ip s1 ?bn" "r = 0 \<longrightarrow> disk_full q s1" using bmap_ok [OF _ Suc.prems(2) bn] by metis
    note w1 = iwrote_Nil [OF r(3), of off]
    show ?thesis
    proof (cases "r = 0")
      case r0: True
      have "writei_loop ip (Kern bs) off n tot s = Inr (tot + 0, off + 0, s1)"
        using True r(1) r0 by (simp add: writei_loop.simps [of ip _ off n])
      moreover have "txn q k (Suc (Suc h)) s1" by (rule txn_mono [OF r(2)]) simp_all
      ultimately show ?thesis using w1 r(5) r0 by (intro exI [of _ 0] exI [of _ s1]) simp
    next
      case False
      have ok1: "inode_ok q ip s1" using r(3) by (simp add: igrows_def)
      have lm: "length (take ?m bs) = ?m" using m(3) Suc.prems(4) by simp
      obtain i t1 t2 s2 where w: "bread ROOTDEV r s1 = Inr (i, t1)" "fs_env t1 = fs_env s1"
        "log_write i (set_data i (blk_put (bufdata i t1) (off mod BSIZE) (take ?m bs)) t1) = Inr t2" "brelse i t2 = Inr s2"
        "txn q (k + 6 * c) (Suc (Suc h)) s2" "iwrote q ip off (take ?m bs) s1 s2"
        by (rule write_chunk [OF r(2) ok1 bn, of "take ?m bs"]; use False r(4) m(2) lm in simp)
      have w2: "iwrote q ip off (take ?m bs) s s2" using iwrote_trans [OF w1, of "take ?m bs" s2] w(6) Suc.prems(5) by simp
      have nx: "tot + ?m < n \<longrightarrow> (off + ?m) mod BSIZE + (n - (tot + ?m)) \<le> c * BSIZE"
      proof
        assume "tot + ?m < n"
        then have full: "?m = BSIZE - off mod BSIZE" by (auto simp: chunk_def min_def split: if_splits)
        moreover have "off mod BSIZE < BSIZE" by simp
        ultimately have "off + ?m = BSIZE * Suc ?bn" using mult_div_mod_eq [of BSIZE off] unfolding mult_Suc_right by linarith
        then have "(off + ?m) mod BSIZE = 0" by (metis mod_mult_self1_is_0)
        then show "(off + ?m) mod BSIZE + (n - (tot + ?m)) \<le> c * BSIZE" using Suc.prems(6) True full by simp
      qed
      have "\<exists>j s'. writei_loop ip (Kern (drop ?m bs)) (off + ?m) n (tot + ?m) s2 = Inr (tot + ?m + j, off + ?m + j, s') \<and> j \<le> n - (tot + ?m) \<and>
          txn q k (Suc (Suc h)) s' \<and> iwrote q ip (off + ?m) (take j (drop ?m bs)) s2 s' \<and> (j < n - (tot + ?m) \<longrightarrow> disk_full q s')"
        by (rule Suc.IH [OF w(5) iwroteD(2) [OF w2] _ _ _ nx]) (use Suc.prems m True in simp_all)
      then obtain j s' where j: "writei_loop ip (Kern (drop ?m bs)) (off + ?m) n (tot + ?m) s2 = Inr (tot + ?m + j, off + ?m + j, s')"
        "j \<le> n - (tot + ?m)" "txn q k (Suc (Suc h)) s'" "iwrote q ip (off + ?m) (take j (drop ?m bs)) s2 s'"
        "j < n - (tot + ?m) \<longrightarrow> disk_full q s'" by blast
      have "iwrote q ip off (take (?m + j) bs) s s'"
        unfolding take_add using iwrote_trans [OF w2, unfolded lm, OF j(4)] Suc.prems(5) m(3) by simp
      moreover have "writei_loop ip (Kern bs) off n tot s = Inr (tot + (?m + j), off + (?m + j), s')"
      proof -
        obtain p where "curproc s1 = Inr p" using txn_curproc [OF r(2)] by blast
        then have "curproc t1 = Inr p" using fs_env_kfs(5) [OF w(2)] by simp
        moreover have "idev (itable s1 ip) = ROOTDEV" by (rule inode_okD(2) [OF ok1])
        ultimately show ?thesis using True r(1) False w(1,3,4) j(1) by (simp add: writei_loop.simps [of ip _ off n] Let_def add.assoc)
      qed
      ultimately show ?thesis using j(2,3,5) m(3) by (intro exI [of _ "?m + j"] exI [of _ s']) auto
    qed
  qed
qed

text \<open>Writing to a block before the bitmap leaves every file as it is.\<close>

lemma meta_write:
  fixes s s' :: "'a kfs_scheme"
  assumes ok: "inode_ok q ip s" and st: "stays q s s'" and v: "jview (jabs q s') = (jview (jabs q s))(b := d)" and b: "b < bmapstart (fsb s)"
  shows "iwrote q ip off [] s s'"
proof -
  let ?V = "jview (jabs q s)" and ?V' = "jview (jabs q s')" and ?A = "iaddrs (itable s ip)"
  note e = stays_kfs [OF st] and lay = inode_okD(5) [OF ok] and f = inode_okD(3) [OF ok]
  have ds: "bmapstart (fsb s) < datastart (fsb s)" using lay by (auto simp: disk_layout_def)
  have o: "?V' a = ?V a" if "data_block (fsb s) a" for a using that b ds by (auto simp: v data_block_def)
  have "BBLOCK c (fsb s) \<noteq> b" for c using b by (simp add: BBLOCK_def)
  then have mk: "marked (fsb s) ?V' c = marked (fsb s) ?V c" for c by (simp add: marked_def v)
  have "?A NDIRECT \<noteq> 0 \<Longrightarrow> ?V' (?A NDIRECT) = ?V (?A NDIRECT)" using o file_okD(1) [OF f used_indirect] by blast
  then have ba: "baddr ?V' ?A n = baddr ?V ?A n" for n by (simp add: baddr_def)
  have us: "used ?V' ?A = used ?V ?A" by (simp add: used_def ba)
  have "file_ok (fsb s) ?V' ?A" using f by (simp add: file_ok_def us ba mk)
  moreover have "alloc_ok q s'" by (rule alloc_ok_mono [OF inode_okD(1) [OF ok] e(1,5,4)]) (simp add: mk)
  ultimately have "inode_ok q ip s'" using ok by (simp add: inode_ok_def e us)
  moreover have "fbyte ?V' ?A x = fbyte ?V ?A x" if "in_file x" for x
    using o file_okD(1) [OF f used_baddr [OF that]] by (auto simp: fbyte_def ba Let_def)
  moreover have "others_kept (fsb s) ?V ?A ?V' ?A" unfolding others_kept_def us mk using o by blast
  ultimately show ?thesis unfolding iwrote_def e(2) using stays_imoves [OF st] by (auto simp: ba)
qed

definition contents :: "int \<Rightarrow> nat \<Rightarrow> 'a kfs_scheme \<Rightarrow> u8 list" where
  "contents q ip s = map (ifile q ip s) [0..<isize (itable s ip)]"

text \<open>
  An inode that a file-system call has locked: its blocks are in order, the file has no holes, and its block on the disk is
  not locked by anybody.
\<close>

definition file_inv :: "int \<Rightarrow> nat \<Rightarrow> 'a kfs_scheme \<Rightarrow> bool" where
  "file_inv q ip s \<longleftrightarrow> inode_ok q ip s \<and> isize (itable s ip) \<le> MAXFILE * BSIZE \<and>
     (\<forall>x < isize (itable s ip). iblock q ip s (x div BSIZE) \<noteq> 0) \<and>
     inum (itable s ip) < ninodes (fsb s) \<and> IBLOCK (inum (itable s ip)) (fsb s) \<notin> jheld (jabs q s)"

lemma inode_block:
  assumes "inode_ok q ip s" and "n < ninodes (fsb s)"
  shows "IBLOCK n (fsb s) < bmapstart (fsb s)" "IBLOCK n (fsb s) \<in> jhome (jabs q s)"
proof -
  have "n div IPB \<le> ninodes (fsb s) div IPB" using assms(2) by (simp add: div_le_mono)
  then show b: "IBLOCK n (fsb s) < bmapstart (fsb s)" using inode_okD(5) [OF assms(1)] by (simp add: disk_layout_def IBLOCK_def)
  moreover have "datastart (fsb s) \<le> sbsize (fsb s)" by (simp add: datastart_def)
  ultimately show "IBLOCK n (fsb s) \<in> jhome (jabs q s)"
    using inode_okD(5) [OF assms(1)] by (auto simp: disk_layout_def IBLOCK_def)
qed

lemma iupdate_ok:
  fixes s :: "'a kfs_scheme"
  assumes t: "txn q (Suc k) (Suc h) s" and ok: "inode_ok q ip s" and n: "inum (itable s ip) < ninodes (fsb s)"
    "IBLOCK (inum (itable s ip)) (fsb s) \<notin> jheld (jabs q s)"
  shows "\<exists>s'. iupdate ip s = Inr s' \<and> txn q k (Suc h) s' \<and> stays q s s' \<and>
    jview (jabs q s') = (jview (jabs q s))(IBLOCK (inum (itable s ip)) (fsb s) :=
      put_dinode (itable s ip) (inum (itable s ip)) (jview (jabs q s) (IBLOCK (inum (itable s ip)) (fsb s))))"
proof -
  let ?i = "itable s ip" and ?b = "IBLOCK (inum (itable s ip)) (fsb s)"
  obtain i s1 s2 s' where r: "bread ROOTDEV ?b s = Inr (i, s1)" "bdata (bufs s1 i) = jview (jabs q s) ?b"
    "log_write i (set_data i (put_dinode ?i (inum ?i) (jview (jabs q s) ?b)) s1) = Inr s2" "brelse i s2 = Inr s'" "txn q k (Suc h) s'" "stays q s s'"
    "jview (jabs q s') = (jview (jabs q s))(?b := put_dinode ?i (inum ?i) (jview (jabs q s) ?b))"
    by (rule txn_update [OF t n(2) inode_block(2) [OF ok n(1)]])
  then have "iupdate ip s = Inr s'" using inode_okD(2) [OF ok] by (simp add: iupdate_def Let_def)
  then show ?thesis using r(5-7) by blast
qed

lemma inode_ok_size: "inode_ok q ip (upd_inode ip (\<lambda>i. i\<lparr>isize := n\<rparr>) s) = inode_ok q ip s"
  by (simp add: inode_ok_def alloc_ok_def)

lemma writei_ok:
  fixes s :: "'a kfs_scheme"
  assumes t: "txn q (Suc k + 6 * c) (Suc (Suc h)) s" and inv: "file_inv q ip s" and off: "off \<le> isize (itable s ip)"
    and n: "length bs = n" "off + n \<le> MAXFILE * BSIZE" "off mod BSIZE + n \<le> c * BSIZE"
  shows "\<exists>j s'. writei ip (Kern bs) off n s = Inr (int j, s') \<and> j \<le> n \<and> (j < n \<longrightarrow> disk_full q s') \<and> txn q k (Suc (Suc h)) s' \<and>
    file_inv q ip s' \<and> contents q ip s' = take off (contents q ip s) @ take j bs @ drop (off + j) (contents q ip s) \<and>
    others_kept (fsb s) (jview (jabs q s)) (iaddrs (itable s ip)) (jview (jabs q s')) (iaddrs (itable s' ip))"
proof -
  let ?i = "itable s ip"
  have ok: "inode_ok q ip s" and sz: "isize ?i \<le> MAXFILE * BSIZE" and full: "\<And>x. x < isize ?i \<Longrightarrow> iblock q ip s (x div BSIZE) \<noteq> 0"
    and ino: "inum ?i < ninodes (fsb s)" "IBLOCK (inum ?i) (fsb s) \<notin> jheld (jabs q s)" using inv by (auto simp: file_inv_def)
  obtain j s1 where w: "writei_loop ip (Kern bs) off n 0 s = Inr (j, off + j, s1)" "j \<le> n" "txn q (Suc k) (Suc (Suc h)) s1"
    "iwrote q ip off (take j bs) s s1" "j < n \<longrightarrow> disk_full q s1"
    using writei_loop_ok [OF t ok, of 0 n bs off] n by auto
  obtain A where i1: "itable s1 = (itable s)(ip := ?i\<lparr>iaddrs := A\<rparr>)" and e1: "fsb s1 = fsb s" "jheld (jabs q s1) = jheld (jabs q s)"
    using iwroteD(1) [OF w(4)] by (auto simp: imoves_def)
  define s2 where "s2 = (if off + j > isize (itable s1 ip) then upd_inode ip (\<lambda>i. i\<lparr>isize := off + j\<rparr>) s1 else s1)"
  have i2: "itable s2 ip = ?i\<lparr>iaddrs := A, isize := max (off + j) (isize ?i)\<rparr>" by (auto simp: s2_def i1 max_def)
  have e2: "fsb s2 = fsb s" "jview (jabs q s2) = jview (jabs q s1)" "jheld (jabs q s2) = jheld (jabs q s)" "txn q (Suc k) (Suc (Suc h)) s2"
    "inode_ok q ip s2" "disk_full q s2 = disk_full q s1"
    using w(3) iwroteD(2) [OF w(4)] e1 by (simp_all add: s2_def inode_ok_size disk_full_def)
  have ino2: "inum (itable s2 ip) < ninodes (fsb s2)" "IBLOCK (inum (itable s2 ip)) (fsb s2) \<notin> jheld (jabs q s2)"
    using ino by (simp_all add: i2 e2)
  obtain s' where s': "iupdate ip s2 = Inr s'" "txn q k (Suc (Suc h)) s'" "stays q s2 s'"
    "jview (jabs q s') = (jview (jabs q s2))(IBLOCK (inum (itable s2 ip)) (fsb s2) :=
      put_dinode (itable s2 ip) (inum (itable s2 ip)) (jview (jabs q s2) (IBLOCK (inum (itable s2 ip)) (fsb s2))))"
    using iupdate_ok [OF e2(4,5) ino2] by blast
  note e3 = stays_kfs [OF s'(3)]
  note m = meta_write [OF e2(5) s'(3,4) inode_block(1) [OF e2(5) ino2(1)], of 0]
  have f2: "iaddrs (itable s2 ip) = iaddrs (itable s1 ip)" by (simp add: i1 i2)
  have fx: "ifile q ip s' x = (if off \<le> x \<and> x < off + j then bs ! (x - off) else ifile q ip s x)" if "in_file x" for x
    using iwroteD(4) [OF m that] iwroteD(4) [OF w(4) that] w(2) n(1) unfolding e2(2) f2 by (auto simp: min_def)
  have ib: "iblock q ip s1 (x div BSIZE) \<noteq> 0" if "x < max (off + j) (isize ?i)" for x
  proof (cases "off \<le> x \<and> x < off + j")
    case False
    then have "x < isize ?i" "x div BSIZE < MAXFILE" using that off sz by (auto simp: less_mult_imp_div_less)
    then show ?thesis using full iwroteD(5) [OF w(4)] by blast
  qed (use iwroteD(6) [OF w(4), of x] w(2) n(1) in simp)
  have mx: "max (off + j) (isize ?i) \<le> MAXFILE * BSIZE" using sz n(2) w(2) by simp
  have "iblock q ip s' (x div BSIZE) \<noteq> 0" if "x < max (off + j) (isize ?i)" for x
  proof -
    have "in_file x" using less_le_trans [OF that mx] by (rule less_mult_imp_div_less)
    then show ?thesis using iwroteD(5) [OF m, of "x div BSIZE"] ib [OF that] unfolding e2(2) f2 by blast
  qed
  then have "file_inv q ip s'"
    unfolding file_inv_def using iwroteD(2) [OF m] mx ino2 by (simp add: e3(1,2,4) i2)
  moreover have "contents q ip s' = take off (contents q ip s) @ take j bs @ drop (off + j) (contents q ip s)"
  proof (rule nth_equalityI)
    show len: "length (contents q ip s') = length (take off (contents q ip s) @ take j bs @ drop (off + j) (contents q ip s))"
      using off w(2) n(1) by (simp add: contents_def e3(2) i2)
    fix x
    assume "x < length (contents q ip s')"
    then have x: "x < max (off + j) (isize ?i)" by (simp add: contents_def e3(2) i2)
    moreover have "in_file x" using less_le_trans [OF x mx] by (rule less_mult_imp_div_less)
    ultimately show "contents q ip s' ! x = (take off (contents q ip s) @ take j bs @ drop (off + j) (contents q ip s)) ! x"
      using fx off w(2) n(1) by (auto simp: contents_def e3(2) i2 nth_append)
  qed
  moreover have "others_kept (fsb s) (jview (jabs q s)) (iaddrs ?i) (jview (jabs q s')) (iaddrs (itable s' ip))"
    using others_kept_trans [OF iwroteD(3) [OF w(4)] iwroteD(3) [OF m, unfolded e2(1,2) f2]] .
  moreover have "disk_full q s'" if "j < n"
  proof -
    have "disk_full q s2" using w(5) that e2(6) by blast
    moreover have "BBLOCK c (fsb s2) \<noteq> IBLOCK (inum (itable s2 ip)) (fsb s2)" for c using inode_block(1) [OF e2(5) ino2(1)] by (simp add: BBLOCK_def)
    ultimately show ?thesis by (simp add: disk_full_def marked_def e3(1) s'(4))
  qed
  moreover have "writei ip (Kern bs) off n s = Inr (int j, s')"
  proof -
    have "off + n < 4294967296" using n(2) by simp
    then have "\<not> (off + n) mod 4294967296 < off" by simp
    then show ?thesis using off n(2) w(1) s'(1) by (simp add: writei_def Let_def s2_def)
  qed
  ultimately show ?thesis using w(2) s'(2) by blast
qed

lemma readi_ok:
  fixes s :: "'a kfs_scheme"
  assumes t: "txn q k (Suc h) s" and inv: "file_inv q ip s" and n: "off + n < 4294967296"
  shows "\<exists>s'. readi ip (Kern dst) off n s = Inr (int (min n (isize (itable s ip) - off)), Kern (dst @ take n (drop off (contents q ip s))), s') \<and>
    txn q k (Suc h) s' \<and> jabs q s' = jabs q s"
proof (cases "off > isize (itable s ip)")
  case True
  then show ?thesis using t by (simp add: readi_def Let_def contents_def)
next
  case False
  let ?sz = "isize (itable s ip)"
  let ?n = "if off + n > ?sz then ?sz - off else n"
  have ok: "inode_ok q ip s" and sz: "?sz \<le> MAXFILE * BSIZE" and full: "\<And>x. x < ?sz \<Longrightarrow> iblock q ip s (x div BSIZE) \<noteq> 0"
    using inv by (auto simp: file_inv_def)
  have m: "off + ?n \<le> ?sz" "?n = min n (?sz - off)" using False by auto
  have "\<exists>s'. readi_loop ip (Kern dst) off ?n 0 s = Inr (int ?n, Kern (dst @ map (ifile q ip s) [off..<off + (?n - 0)]), s') \<and>
      txn q k (Suc h) s' \<and> jabs q s' = jabs q s"
    by (rule readi_loop_ok [OF t ok]) (use m(1) sz full in auto)
  moreover have "map (ifile q ip s) [off..<off + ?n] = take n (drop off (contents q ip s))"
    unfolding m(2) using False by (auto simp: contents_def drop_map take_map min_def)
  ultimately show ?thesis using False n m(2) by (simp add: readi_def Let_def)
qed

section \<open>A small disk\<close>

definition fs_disk :: "nat \<Rightarrow> blk" where
  "fs_disk n = (\<lambda>i. if n = 45 \<and> i < 6 then - 1 else 0)"

definition empty_inode :: inode where
  "empty_inode = \<lparr>idev = ROOTDEV, inum = 2, iref = 1, ilk = initsleeplock, ivalid = True, itype = T_FILE, imajor = 0, iminor = 0,
     inlink = 1, isize = 0, iaddrs = (\<lambda>_. 0)\<rparr>"

definition demo_fs :: "inode \<Rightarrow> kfs" where
  "demo_fs i = booted_cache fs_disk \<lparr>log = log0, fsb = sb0, itable = (\<lambda>_. i)\<rparr>"

lemma demo_fs_sel: "log (demo_fs i) = log0" "fsb (demo_fs i) = sb0" "itable (demo_fs i) = (\<lambda>_. i)"
proof -
  have "bcache.more (demo_fs i) = \<lparr>log = log0, fsb = sb0, itable = (\<lambda>_. i)\<rparr>" by (simp add: demo_fs_def booted_cache_ok)
  then show "log (demo_fs i) = log0" "fsb (demo_fs i) = sb0" "itable (demo_fs i) = (\<lambda>_. i)" by (cases "demo_fs i"; simp)+
qed

lemma demo_fs_jabs:
  "txn 1 28 2 (demo_fs i)" "jheld (jabs 1 (demo_fs i)) = {}" "jview (jabs 1 (demo_fs i)) = fs_disk"
  "n \<in> jhome (jabs 1 (demo_fs i)) \<longleftrightarrow> (n < 2 \<or> 32 \<le> n) \<and> n < 4294967296"
proof -
  note c = booted_cache_ok [of fs_disk "\<lparr>log = log0, fsb = sb0, itable = (\<lambda>_. i)\<rparr>", folded demo_fs_def]
  have lg: "logged (demo_fs i) = []" by (simp add: logged_def demo_fs_sel log0_def)
  have d: "dirty (demo_fs i) = {}" by (simp add: dirty_def c)
  have "ld32 (fs_disk 2) 0 = 0" by (simp add: fs_disk_def ld32_def ld16_def)
  then have ok: "j_ok 1 (demo_fs i)" by (simp add: j_ok_def log_ok_def d lg c) (simp add: demo_fs_sel log0_def int_of_def)
  show h: "jheld (jabs 1 (demo_fs i)) = {}" by (simp add: jabs_sel c)
  have "at_buf 1 (demo_fs i) = Map.empty" using jl.at_held [OF ok] h by (auto simp: jabs_sel intro!: ext) (metis not_None_eq)
  then have "budget 28 2 (jabs 1 (demo_fs i))" by (simp add: budget_def jabs_sel c) (simp add: demo_fs_sel log0_def)
  then show "txn 1 28 2 (demo_fs i)" using ok d by (simp add: txn_def)
  show "jview (jabs 1 (demo_fs i)) = fs_disk" by (simp add: jabs_sel c)
  show "n \<in> jhome (jabs 1 (demo_fs i)) \<longleftrightarrow> (n < 2 \<or> 32 \<le> n) \<and> n < 4294967296"
    by (auto simp: jabs_sel log_area_def demo_fs_sel log0_def)
qed

lemma demo_fs_inv: "isize i = 0 \<Longrightarrow> iaddrs i = (\<lambda>_. 0) \<Longrightarrow> idev i = ROOTDEV \<Longrightarrow> inum i = 2 \<Longrightarrow> file_inv 1 ip (demo_fs i)"
proof -
  assume i: "isize i = 0" "iaddrs i = (\<lambda>_. 0)" "idev i = ROOTDEV" "inum i = 2"
  have "marked sb0 fs_disk b" if "b < 46" for b
    using that by (simp add: marked_def bit_clear_iff BBLOCK_def sb0_def fs_disk_def)
  moreover have "disk_layout sb0 (jhome (jabs 1 (demo_fs i)))" by (auto simp: disk_layout_def sb0_def datastart_def demo_fs_jabs)
  ultimately have "alloc_ok 1 (demo_fs i)" by (simp add: alloc_ok_def demo_fs_jabs demo_fs_sel) (simp add: datastart_def sb0_def)
  moreover have "used fs_disk (\<lambda>_. 0) = {}" by (auto simp: used_def baddr_def)
  moreover have "baddr fs_disk (\<lambda>_. 0) n = 0" for n by (simp add: baddr_def)
  ultimately show ?thesis
    using i by (simp add: file_inv_def inode_ok_def file_ok_def demo_fs_jabs demo_fs_sel) (simp add: sb0_def)
qed

section \<open>Properties\<close>





end
