(* ===== verification/Dirs.thy ===== *)
theory Dirs
  imports Content
begin

text \<open>
  Directories as tables: what \<open>dirlookup\<close> finds in the contents of a directory, and that \<open>dirlink\<close> adds one name to it.
\<close>

section \<open>The entries of a directory\<close>

definition entry :: "u8 list \<Rightarrow> nat \<Rightarrow> u8 list" where
  "entry c i = take sizeof_dirent (drop (sizeof_dirent * i) c)"

definition matches :: "u8 list \<Rightarrow> u8 list \<Rightarrow> nat \<Rightarrow> bool" where
  "matches c name i \<longleftrightarrow> de_inum (entry c i) \<noteq> 0 \<and> namecmp name (de_name (entry c i)) = 0"

text \<open>The inode number of the first entry with the name, and the offset of the entry.\<close>

definition dir_find :: "u8 list \<Rightarrow> u8 list \<Rightarrow> (nat \<times> nat) option" where
  "dir_find c name = (case filter (matches c name) [0..<length c div sizeof_dirent] of
     [] \<Rightarrow> None | i # _ \<Rightarrow> Some (de_inum (entry c i), sizeof_dirent * i))"

text \<open>The slot \<open>dirlink\<close> writes to: the first that is empty, or the end.\<close>

definition dir_slot :: "u8 list \<Rightarrow> nat" where
  "dir_slot c = (case filter (\<lambda>i. de_inum (entry c i) = 0) [0..<length c div sizeof_dirent] of
     [] \<Rightarrow> length c div sizeof_dirent | i # _ \<Rightarrow> i)"

lemma dir_slot_cases:
  obtains "dir_slot c = length c div sizeof_dirent" | "dir_slot c < length c div sizeof_dirent" "de_inum (entry c (dir_slot c)) = 0"
proof (cases "filter (\<lambda>i. de_inum (entry c i) = 0) [0..<length c div sizeof_dirent]")
  case (Cons i js)
  then have "i \<in> set (filter (\<lambda>i. de_inum (entry c i) = 0) [0..<length c div sizeof_dirent])" by (metis list.set_intros(1))
  then have "i < length c div sizeof_dirent" "de_inum (entry c i) = 0" by auto
  then show thesis using that(2) Cons by (simp add: dir_slot_def)
qed (use that(1) in \<open>simp add: dir_slot_def\<close>)

lemma length_mk_dirent [simp]: "length (mk_dirent n name) = sizeof_dirent"
  by (simp add: mk_dirent_def)

lemma de_inum_mk [simp]: "de_inum (mk_dirent n name) = n mod 65536"
proof -
  have "n mod 256 + 256 * (n div 256 mod 256) = n mod 65536" using mod_mult2_eq [of n 256 256] by simp
  then show ?thesis by (simp add: de_inum_def mk_dirent_def unat_of_nat8)
qed

lemma strncmp_padded: "strncmp_str p (take k (p @ replicate m 0)) k = 0"
proof (induction k arbitrary: p)
  case (Suc k)
  show ?case
  proof (cases p)
    case Nil
    have "str_head (take (Suc k) (replicate m 0)) = 0" by (cases m) (simp_all add: str_head_def)
    then show ?thesis using Nil by (simp add: str_head_def)
  next
    case (Cons x xs)
    then show ?thesis using Suc [of xs] by (simp add: str_head_def)
  qed
qed simp

lemma namecmp_mk [simp]: "namecmp name (de_name (mk_dirent n name)) = 0"
proof -
  have "de_name (mk_dirent n name) = take DIRSIZ (name @ replicate DIRSIZ 0)" by (simp add: de_name_def mk_dirent_def min_def)
  then show ?thesis by (simp only: namecmp_def strncmp_padded)
qed

lemma entry_update:
  assumes "length e = sizeof_dirent" and "sizeof_dirent * i \<le> length c"
  defines "c' \<equiv> take (sizeof_dirent * i) c @ e @ drop (sizeof_dirent * i + sizeof_dirent) c"
  shows "entry c' i = e" "sizeof_dirent * (k + 1) \<le> length c \<Longrightarrow> k \<noteq> i \<Longrightarrow> entry c' k = entry c k"
proof -
  show "entry c' i = e" using assms(1,2) by (simp add: entry_def c'_def)
  assume k: "sizeof_dirent * (k + 1) \<le> length c" "k \<noteq> i"
  show "entry c' k = entry c k"
  proof (rule nth_equalityI)
    have lc: "length c \<le> length c'" using assms(1) by (simp add: c'_def)
    then show l: "length (entry c' k) = length (entry c k)" using k(1) by (simp add: entry_def)
    fix x
    assume "x < length (entry c' k)"
    then have x: "x < sizeof_dirent" by (simp add: entry_def)
    have "sizeof_dirent * k + x < sizeof_dirent * i \<or> sizeof_dirent * i + sizeof_dirent \<le> sizeof_dirent * k + x" using k(2) x by linarith
    then have "c' ! (sizeof_dirent * k + x) = c ! (sizeof_dirent * k + x)"
      using k(1) x assms(1,2) by (auto simp: c'_def nth_append)
    then show "entry c' k ! x = entry c k ! x" using x k(1) lc by (simp add: entry_def)
  qed
qed


text \<open>After \<open>dirlink\<close> has stored an entry in the slot.\<close>

definition dir_add :: "u8 list \<Rightarrow> u8 list \<Rightarrow> nat \<Rightarrow> u8 list" where
  "dir_add c name n = take (sizeof_dirent * dir_slot c) c @ mk_dirent n name @ drop (sizeof_dirent * dir_slot c + sizeof_dirent) c"

lemma dir_slot_le: "sizeof_dirent * dir_slot c \<le> length c"
  by (rule dir_slot_cases [of c]) auto

lemma dir_add_facts:
  fixes name :: "u8 list"
  assumes "length c mod sizeof_dirent = 0" and "0 < n" "n < 65536"
  defines "i \<equiv> dir_slot c" and "c' \<equiv> dir_add c name n"
  shows "entry c' i = mk_dirent n name" "k < length c div sizeof_dirent \<Longrightarrow> k \<noteq> i \<Longrightarrow> entry c' k = entry c k"
    "length c' div sizeof_dirent = max (length c div sizeof_dirent) (Suc i)" "\<not> (i < length c div sizeof_dirent \<and> matches c nm i)"
proof -
  note le = dir_slot_le [of c, folded i_def]
  show "entry c' i = mk_dirent n name" unfolding c'_def dir_add_def i_def by (rule entry_update(1) [OF length_mk_dirent dir_slot_le])
  show "entry c' k = entry c k" if "k < length c div sizeof_dirent" "k \<noteq> i"
    unfolding c'_def dir_add_def
    by (rule entry_update(2) [OF length_mk_dirent dir_slot_le]) (use that in \<open>auto simp: i_def\<close>)
  have "length c' = max (length c) (sizeof_dirent * Suc i)" using le by (auto simp: c'_def dir_add_def simp flip: i_def)
  then show "length c' div sizeof_dirent = max (length c div sizeof_dirent) (Suc i)"
    using assms(1) by (auto simp: max_def div_le_mono)
  show "\<not> (i < length c div sizeof_dirent \<and> matches c nm i)"
    by (rule dir_slot_cases [of c]) (auto simp: i_def matches_def)
qed

lemma filter_upt_hit:
  assumes "i < n" and "P i" and "\<And>k. k < i \<Longrightarrow> \<not> P k"
  shows "\<exists>js. filter P [0..<n] = i # js"
proof -
  have "[0..<n] = [0..<i] @ i # [Suc i..<n]" using assms(1) upt_add_eq_append [of 0 i "n - i"] by (simp add: upt_conv_Cons)
  moreover have "filter P [0..<i] = []" using assms(3) by (auto simp: filter_empty_conv)
  ultimately show ?thesis using assms(2) by simp
qed

lemma dir_find_add:
  assumes c: "length c mod sizeof_dirent = 0" and n: "0 < n" "n < 65536" and none: "dir_find c name = None"
  shows "dir_find (dir_add c name n) name = Some (n, sizeof_dirent * dir_slot c)"
    "namecmp nm (de_name (mk_dirent n name)) \<noteq> 0 \<Longrightarrow> dir_find (dir_add c name n) nm = dir_find c nm"
proof -
  let ?c' = "dir_add c name n" and ?i = "dir_slot c" and ?m = "length c div sizeof_dirent"
  note f = dir_add_facts(1-3) [OF c n, where name = name] dir_add_facts(4) [OF c n]
  have le: "?i \<le> ?m" using dir_slot_cases [of c "?i \<le> ?m"] by linarith
  have no: "\<not> matches c name k" if "k < ?m" for k
    using none that by (auto simp: dir_find_def filter_empty_conv split: list.splits)
  have m: "matches ?c' nm k \<longleftrightarrow> (if k = ?i then namecmp nm (de_name (mk_dirent n name)) = 0 else matches c nm k)" if "k < ?m \<or> k = ?i" for k nm
    using that f(1,2) n by (auto simp: matches_def)
  have "\<exists>js. filter (matches ?c' name) [0..<max ?m (Suc ?i)] = ?i # js"
    by (rule filter_upt_hit) (use m [of _ name] no le in auto)
  then show "dir_find ?c' name = Some (n, sizeof_dirent * ?i)" using f(1,3) n by (auto simp: dir_find_def)
  assume nm: "namecmp nm (de_name (mk_dirent n name)) \<noteq> 0"
  have eq: "matches ?c' nm k \<longleftrightarrow> k < ?m \<and> matches c nm k" if "k < max ?m (Suc ?i)" for k
  proof -
    have "k < ?m \<or> k = ?i" using that le by linarith
    then show ?thesis using m [of k nm] nm f(4) [of nm] by auto
  qed
  have flt: "filter (matches ?c' nm) [0..<max ?m (Suc ?i)] = filter (matches c nm) [0..<?m]"
  proof (cases "?i = ?m")
    case True
    then have "[0..<max ?m (Suc ?i)] = [0..<?m] @ [?m]" by simp
    moreover have "filter (matches ?c' nm) [0..<?m] = filter (matches c nm) [0..<?m]" using eq by (intro filter_cong) auto
    ultimately show ?thesis using eq [of ?m] True by simp
  next
    case False
    then have "max ?m (Suc ?i) = ?m" using le by simp
    then show ?thesis using eq by (intro filter_cong) auto
  qed
  have ent: "entry ?c' k = entry c k" if "k \<in> set (filter (matches c nm) [0..<?m])" for k
    using that f(2) [of k] f(4) [of nm] by auto
  show "dir_find ?c' nm = dir_find c nm"
  proof (cases "filter (matches c nm) [0..<?m]")
    case (Cons k ks)
    then show ?thesis using ent [of k] unfolding dir_find_def f(3) flt by simp
  qed (simp add: dir_find_def f(3) flt)
qed

section \<open>Reading the entries\<close>

declare dirlookup_loop.simps [simp del] empty_dirent.simps [simp del]

lemma jabs_file:
  fixes s s' :: "'a kfs_scheme"
  assumes "jabs q s' = jabs q s"
  shows "file_inv q ip s' = file_inv q ip s" "contents q ip s' = contents q ip s" "itable s' = itable s" "fsb s' = fsb s"
  using assms stays_kfs [OF jabs_stays [OF assms]] by (simp_all add: file_inv_def inode_ok_def alloc_ok_def contents_def)

lemma length_contents [simp]: "length (contents q ip s) = isize (itable s ip)"
  by (simp add: contents_def)

lemma read_dirent_ok:
  fixes s :: "'a kfs_scheme"
  assumes "txn q k (Suc h) s" and inv: "file_inv q dp s" and i: "i < isize (itable s dp) div sizeof_dirent"
  shows "\<exists>s'. read_dirent dp (sizeof_dirent * i) msg s = Inr (entry (contents q dp s) i, s') \<and> txn q k (Suc h) s' \<and> jabs q s' = jabs q s"
proof -
  have le: "sizeof_dirent * i + sizeof_dirent \<le> isize (itable s dp)" using i by auto
  moreover have "isize (itable s dp) \<le> MAXFILE * BSIZE" using inv by (simp add: file_inv_def)
  ultimately have "sizeof_dirent * i + sizeof_dirent < 4294967296" by simp
  from readi_ok [OF assms(1,2) this, of "[]"] show ?thesis using le by (auto simp: read_dirent_def entry_def min_def)
qed

lemma dirlookup_loop_ok:
  fixes s :: "'a kfs_scheme"
  assumes "txn q k (Suc h) s" and "file_inv q dp s" and "isize (itable s dp) mod sizeof_dirent = 0"
    and "j \<le> isize (itable s dp) div sizeof_dirent"
  shows "\<exists>s'. txn q k (Suc h) s' \<and> jabs q s' = jabs q s \<and> dirlookup_loop dp name (isize (itable s dp)) (sizeof_dirent * j) s =
    (case filter (matches (contents q dp s) name) [j..<isize (itable s dp) div sizeof_dirent] of
       [] \<Rightarrow> Inr (None, s')
     | i # _ \<Rightarrow> kbind (iget ROOTDEV (de_inum (entry (contents q dp s) i)) s') (\<lambda>(ip, s''). Inr (Some (ip, sizeof_dirent * i), s'')))"
  using assms
proof (induction "isize (itable s dp) div sizeof_dirent - j" arbitrary: j s)
  case 0
  then have "\<not> sizeof_dirent * j < isize (itable s dp)" by auto
  then show ?case using 0 by (auto simp: dirlookup_loop.simps)
next
  case (Suc d)
  let ?sz = "isize (itable s dp)" and ?c = "contents q dp s"
  have j: "j < ?sz div sizeof_dirent" using Suc.hyps(2) by simp
  then have lt: "sizeof_dirent * j < ?sz" by auto
  obtain s1 where s1: "read_dirent dp (sizeof_dirent * j) ''dirlookup read'' s = Inr (entry ?c j, s1)" "txn q k (Suc h) s1" "jabs q s1 = jabs q s"
    using read_dirent_ok [OF Suc.prems(1,2) j] by blast
  note e = jabs_file [OF s1(3)]
  have dev: "idev (itable s dp) = ROOTDEV" using Suc.prems(2) by (simp add: file_inv_def inode_ok_def)
  have cons: "[j..<?sz div sizeof_dirent] = j # [Suc j..<?sz div sizeof_dirent]" using j by (rule upt_conv_Cons)
  show ?case
  proof (cases "matches ?c name j")
    case True
    then show ?thesis using lt s1 dev
      by (intro exI [of _ s1]) (simp add: dirlookup_loop.simps [of dp name ?sz] cons matches_def e)
  next
    case False
    have "\<exists>s'. txn q k (Suc h) s' \<and> jabs q s' = jabs q s1 \<and> dirlookup_loop dp name (isize (itable s1 dp)) (sizeof_dirent * Suc j) s1 =
      (case filter (matches (contents q dp s1) name) [Suc j..<isize (itable s1 dp) div sizeof_dirent] of
         [] \<Rightarrow> Inr (None, s')
       | i # _ \<Rightarrow> kbind (iget ROOTDEV (de_inum (entry (contents q dp s1) i)) s') (\<lambda>(ip, s''). Inr (Some (ip, sizeof_dirent * i), s'')))"
      by (rule Suc.hyps(1)) (use Suc.hyps(2) Suc.prems s1(2) j in \<open>simp_all add: e\<close>)
    moreover have "dirlookup_loop dp name ?sz (sizeof_dirent * j) s = dirlookup_loop dp name ?sz (sizeof_dirent * Suc j) s1"
      using lt s1(1) False by (subst dirlookup_loop.simps) (auto simp: matches_def add.commute)
    ultimately show ?thesis using False unfolding e cons s1(3) by simp
  qed
qed

lemma dirlookup_ok:
  fixes s :: "'a kfs_scheme"
  assumes "txn q k (Suc h) s" and "file_inv q dp s" and "itype (itable s dp) = T_DIR" "isize (itable s dp) mod sizeof_dirent = 0"
  shows "\<exists>s'. txn q k (Suc h) s' \<and> jabs q s' = jabs q s \<and> dirlookup dp name s =
    (case dir_find (contents q dp s) name of
       None \<Rightarrow> Inr (None, s')
     | Some (n, off) \<Rightarrow> kbind (iget ROOTDEV n s') (\<lambda>(ip, s''). Inr (Some (ip, off), s'')))"
  using dirlookup_loop_ok [OF assms(1,2,4), of 0 name] assms(3)
  by (auto simp: dirlookup_def dir_find_def split: list.splits)

lemma empty_dirent_ok:
  fixes s :: "'a kfs_scheme"
  assumes "txn q k (Suc h) s" and "file_inv q dp s" and "isize (itable s dp) mod sizeof_dirent = 0"
    and "j \<le> isize (itable s dp) div sizeof_dirent"
  shows "\<exists>s'. txn q k (Suc h) s' \<and> jabs q s' = jabs q s \<and> empty_dirent dp (isize (itable s dp)) (sizeof_dirent * j) s =
    Inr (sizeof_dirent * (case filter (\<lambda>i. de_inum (entry (contents q dp s) i) = 0) [j..<isize (itable s dp) div sizeof_dirent] of
       [] \<Rightarrow> isize (itable s dp) div sizeof_dirent | i # _ \<Rightarrow> i), s')"
  using assms
proof (induction "isize (itable s dp) div sizeof_dirent - j" arbitrary: j s)
  case 0
  then have "\<not> sizeof_dirent * j < isize (itable s dp)" "j = isize (itable s dp) div sizeof_dirent" by auto
  then show ?case using 0 by (auto simp: empty_dirent.simps)
next
  case (Suc d)
  let ?sz = "isize (itable s dp)" and ?c = "contents q dp s"
  have j: "j < ?sz div sizeof_dirent" using Suc.hyps(2) by simp
  then have lt: "sizeof_dirent * j < ?sz" by auto
  obtain s1 where s1: "read_dirent dp (sizeof_dirent * j) ''dirlink read'' s = Inr (entry ?c j, s1)" "txn q k (Suc h) s1" "jabs q s1 = jabs q s"
    using read_dirent_ok [OF Suc.prems(1,2) j] by blast
  note e = jabs_file [OF s1(3)]
  have cons: "[j..<?sz div sizeof_dirent] = j # [Suc j..<?sz div sizeof_dirent]" using j by (rule upt_conv_Cons)
  show ?case
  proof (cases "de_inum (entry ?c j) = 0")
    case True
    then show ?thesis using lt s1 by (intro exI [of _ s1]) (simp add: empty_dirent.simps [of dp ?sz] cons)
  next
    case False
    have "\<exists>s'. txn q k (Suc h) s' \<and> jabs q s' = jabs q s1 \<and> empty_dirent dp (isize (itable s1 dp)) (sizeof_dirent * Suc j) s1 =
      Inr (sizeof_dirent * (case filter (\<lambda>i. de_inum (entry (contents q dp s1) i) = 0) [Suc j..<isize (itable s1 dp) div sizeof_dirent] of
        [] \<Rightarrow> isize (itable s1 dp) div sizeof_dirent | i # _ \<Rightarrow> i), s')"
      by (rule Suc.hyps(1)) (use Suc.hyps(2) Suc.prems s1(2) j in \<open>simp_all add: e\<close>)
    moreover have "empty_dirent dp ?sz (sizeof_dirent * j) s = empty_dirent dp ?sz (sizeof_dirent * Suc j) s1"
      using lt s1(1) False by (subst empty_dirent.simps) (auto simp: add.commute)
    ultimately show ?thesis using False unfolding e cons s1(3) by simp
  qed
qed

section \<open>Properties\<close>

text \<open>
  C15. \<open>dirlookup\<close> finds a name in a directory: it returns the inode of the first entry in use with that name and the offset
  of the entry, or nothing exactly if the directory has no such entry, and changes no block.
\<close>

theorem dirlookup_finds:
  fixes s :: "'a kfs_scheme"
  assumes "txn q k 1 s" and "file_inv q dp s" and "itype (itable s dp) = T_DIR" "isize (itable s dp) mod sizeof_dirent = 0"
  shows "\<exists>s'. jview (jabs q s') = jview (jabs q s) \<and> itable s' = itable s \<and> dirlookup dp name s =
    (case dir_find (contents q dp s) name of
       None \<Rightarrow> Inr (None, s')
     | Some (n, off) \<Rightarrow> kbind (iget ROOTDEV n s') (\<lambda>(ip, s''). Inr (Some (ip, off), s'')))"
proof -
  have "txn q k (Suc 0) s" using assms(1) by simp
  from dirlookup_ok [OF this assms(2-4), of name] obtain s' where s': "jabs q s' = jabs q s" "dirlookup dp name s =
    (case dir_find (contents q dp s) name of
       None \<Rightarrow> Inr (None, s')
     | Some (n, off) \<Rightarrow> kbind (iget ROOTDEV n s') (\<lambda>(ip, s''). Inr (Some (ip, off), s'')))" by blast
  show ?thesis using s' jabs_file(3) [OF s'(1)] by (intro exI [of _ s']) simp
qed

definition empty_dir :: inode where
  "empty_dir = empty_inode\<lparr>itype := T_DIR\<rparr>"

lemma demo_dir:
  "file_inv 1 0 (demo_fs empty_dir)" "contents 1 0 (demo_fs empty_dir) = []" "itable (demo_fs empty_dir) 0 = empty_dir"
  by (rule demo_fs_inv; simp add: empty_dir_def empty_inode_def)
    (simp_all add: contents_def demo_fs_sel empty_dir_def empty_inode_def)

theorem dirlookup_finds_witness: "\<exists>s'. dirlookup 0 [97] (demo_fs empty_dir) = Inr (None, s')"
proof -
  have "txn 1 0 1 (demo_fs empty_dir)" by (rule txn_mono [OF demo_fs_jabs(1)]) simp_all
  moreover have "itype empty_dir = T_DIR" "isize empty_dir = 0" by (simp_all add: empty_dir_def empty_inode_def)
  ultimately show ?thesis using dirlookup_finds [OF _ demo_dir(1), of 0 "[97]"] by (auto simp: demo_dir dir_find_def)
qed



end
