(* ===== verification/Grep.thy ===== *)
theory Grep
  imports Printf
begin

text \<open>
  \<open>user/grep.c\<close>: the matcher of Kernighan and Pike and the loop that reads a file into a buffer and prints the lines that
  match. A C string is the list of its bytes without the final NUL.
\<close>

section \<open>The matcher\<close>

abbreviation (input) c_hat :: u8 where "c_hat \<equiv> 94"
abbreviation (input) c_star :: u8 where "c_star \<equiv> 42"
abbreviation (input) c_dollar :: u8 where "c_dollar \<equiv> 36"
abbreviation (input) c_dot :: u8 where "c_dot \<equiv> 46"
abbreviation (input) newline :: u8 where "newline \<equiv> 10"

function matchhere :: "u8 list \<Rightarrow> u8 list \<Rightarrow> bool" and matchstar :: "u8 \<Rightarrow> u8 list \<Rightarrow> u8 list \<Rightarrow> bool" where
  "matchhere re text =
     (case re of
        [] \<Rightarrow> True
      | c # re1 \<Rightarrow>
          if re1 \<noteq> [] \<and> hd re1 = c_star then matchstar c (tl re1) text
          else if c = c_dollar \<and> re1 = [] then text = []
          else if text \<noteq> [] \<and> (c = c_dot \<or> c = hd text) then matchhere re1 (tl text)
          else False)"
| "matchstar c re text =
     (if matchhere re text then True
      else if text \<noteq> [] \<and> (hd text = c \<or> c = c_dot) then matchstar c re (tl text)
      else False)"
  by pat_completeness auto
termination
  by (relation "measures [\<lambda>x. case x of Inl (re, t) \<Rightarrow> length re | Inr (c, re, t) \<Rightarrow> length re,
        \<lambda>x. case x of Inl (re, t) \<Rightarrow> length t | Inr (c, re, t) \<Rightarrow> length t, \<lambda>x. case x of Inl _ \<Rightarrow> 0 | Inr _ \<Rightarrow> 1]")
    (auto simp: neq_Nil_conv)

declare matchhere.simps [simp del] matchstar.simps [simp del]

text \<open>The loop of \<open>match\<close>; it looks at the empty string at the end too.\<close>

fun match_loop :: "u8 list \<Rightarrow> u8 list \<Rightarrow> bool" where
  "match_loop re text =
     (if matchhere re text then True else case text of [] \<Rightarrow> False | c # text \<Rightarrow> match_loop re text)"

definition match :: "u8 list \<Rightarrow> u8 list \<Rightarrow> bool" where
  "match re text = (if re \<noteq> [] \<and> hd re = c_hat then matchhere (tl re) text else match_loop re text)"

section \<open>Lines\<close>

text \<open>\<open>strchr\<close> in a buffer with a NUL behind its last byte: the bytes before the first \<open>c\<close> and those after it.\<close>

fun strchr :: "u8 list \<Rightarrow> u8 \<Rightarrow> (u8 list \<times> u8 list) option" where
  "strchr [] c = None"
| "strchr (x # s) c =
     (if x = 0 then None
      else if x = c then Some ([], s)
      else map_option (\<lambda>(l, r). (x # l, r)) (strchr s c))"

lemma strchr_shorter: "strchr s c = Some (l, r) \<Longrightarrow> length r < length s"
  by (induction s arbitrary: l r) (fastforce split: if_splits)+

text \<open>The inner loop of \<open>grep\<close>: what it writes, and what is left in the buffer.\<close>

function grep_lines :: "u8 list \<Rightarrow> u8 list \<Rightarrow> u8 list \<times> u8 list" where
  "grep_lines pattern p =
     (case strchr p newline of
        None \<Rightarrow> ([], p)
      | Some (l, r) \<Rightarrow>
          let (out, rest) = grep_lines pattern r in
          (if match pattern l then l @ [newline] @ out else out, rest))"
  by pat_completeness auto
termination
  by (relation "measure (\<lambda>(pattern, p). length p)") (auto dest: strchr_shorter)

declare grep_lines.simps [simp del]

text \<open>
  The loop over \<open>read\<close>. The call number \<open>i\<close> returns as many bytes as it is asked for, as the file has left, or as the
  kernel has at hand, \<open>sz i + 1\<close>, whichever is the least; \<open>buf\<close> are the \<open>m\<close> bytes in use.
\<close>

function grep :: "u8 list \<Rightarrow> (nat \<Rightarrow> nat) \<Rightarrow> nat \<Rightarrow> u8 list \<Rightarrow> u8 list \<Rightarrow> u8 list" where
  "grep pattern sz i buf inp =
     (let n = min (1024 - length buf - 1) (min (Suc (sz i)) (length inp)) in
      if n > 0 then
        let (out, rest) = grep_lines pattern (buf @ take n inp) in
        out @ grep pattern sz (Suc i) rest (drop n inp)
      else [])"
  by pat_completeness auto
termination
  by (relation "measure (\<lambda>(pattern, sz, i, buf, inp). length inp)") auto

declare grep.simps [simp del]

section \<open>What the patterns mean\<close>

text \<open>
  A pattern is a sequence of characters and starred characters, where a dot stands for any character; \<open>^\<close> at its beginning
  and \<open>$\<close> at its end tie it to the ends of the line.
\<close>

datatype item = One u8 | Many u8

fun fits :: "u8 \<Rightarrow> u8 \<Rightarrow> bool" where
  "fits c x \<longleftrightarrow> c = c_dot \<or> x = c"

fun words_of :: "item \<Rightarrow> u8 list set" where
  "words_of (One c) = {[x] | x. fits c x}"
| "words_of (Many c) = {w. \<forall>x \<in> set w. fits c x}"

function items :: "u8 list \<Rightarrow> item list" where
  "items re =
     (case re of
        [] \<Rightarrow> []
      | c # re1 \<Rightarrow>
          if re1 \<noteq> [] \<and> hd re1 = c_star then Many c # items (tl re1)
          else if c = c_dollar \<and> re1 = [] then []
          else One c # items re1)"
  by pat_completeness auto
termination
  by (relation "measure length") auto

declare items.simps [simp del]

fun at_end :: "u8 list \<Rightarrow> bool" where
  "at_end [] \<longleftrightarrow> False"
| "at_end [c] \<longleftrightarrow> c = c_dollar"
| "at_end (c # d # re) \<longleftrightarrow> (if d = c_star then at_end re else at_end (d # re))"

definition language :: "item list \<Rightarrow> u8 list set" where
  "language its = {concat ws | ws. list_all2 (\<lambda>it w. w \<in> words_of it) its ws}"

lemma language_Nil [simp]: "language [] = {[]}"
  by (auto simp: language_def)

lemma language_Cons: "language (it # its) = {u @ v | u v. u \<in> words_of it \<and> v \<in> language its}"
proof (intro set_eqI iffI)
  fix x
  assume "x \<in> language (it # its)"
  then obtain w ws where "x = w @ concat ws" "w \<in> words_of it" "list_all2 (\<lambda>it w. w \<in> words_of it) its ws"
    by (auto simp: language_def list_all2_Cons1)
  then show "x \<in> {u @ v | u v. u \<in> words_of it \<and> v \<in> language its}" by (auto simp: language_def)
next
  fix x
  assume "x \<in> {u @ v | u v. u \<in> words_of it \<and> v \<in> language its}"
  then obtain w ws where "x = concat (w # ws)" "list_all2 (\<lambda>it w. w \<in> words_of it) (it # its) (w # ws)"
    by (auto simp: language_def)
  then show "x \<in> language (it # its)" unfolding language_def by blast
qed

text \<open>A prefix of the text is in the language, all of it if the pattern ends in \<open>$\<close>.\<close>

definition here :: "item list \<Rightarrow> bool \<Rightarrow> u8 list \<Rightarrow> bool" where
  "here its e text \<longleftrightarrow> (\<exists>w v. text = w @ v \<and> w \<in> language its \<and> (e \<longrightarrow> v = []))"

lemma here_Nil: "here [] e text \<longleftrightarrow> (e \<longrightarrow> text = [])"
  by (auto simp: here_def)

lemma here_Cons: "here (it # its) e text \<longleftrightarrow> (\<exists>u r. text = u @ r \<and> u \<in> words_of it \<and> here its e r)"
proof
  assume "here (it # its) e text"
  then obtain u w v where "text = (u @ w) @ v" "u \<in> words_of it" "w \<in> language its" "e \<longrightarrow> v = []"
    unfolding here_def language_Cons by blast
  then have "text = u @ (w @ v)" "u \<in> words_of it" "w \<in> language its" "e \<longrightarrow> v = []" by simp_all
  then show "\<exists>u r. text = u @ r \<and> u \<in> words_of it \<and> here its e r" unfolding here_def by blast
next
  assume "\<exists>u r. text = u @ r \<and> u \<in> words_of it \<and> here its e r"
  then obtain u w v where "text = u @ (w @ v)" "u \<in> words_of it" "w \<in> language its" "e \<longrightarrow> v = []"
    unfolding here_def by blast
  then have "text = (u @ w) @ v" "u \<in> words_of it" "w \<in> language its" "e \<longrightarrow> v = []" by simp_all
  then show "here (it # its) e text" unfolding here_def language_Cons by blast
qed

lemma here_One: "here (One c # its) e text \<longleftrightarrow> text \<noteq> [] \<and> (c = c_dot \<or> c = hd text) \<and> here its e (tl text)"
  unfolding here_Cons by (cases "text") (auto intro: exI [of _ "[hd text]"])

lemma here_Many: "here (Many c # its) e text \<longleftrightarrow>
    here its e text \<or> text \<noteq> [] \<and> (hd text = c \<or> c = c_dot) \<and> here (Many c # its) e (tl text)"
proof
  assume "here (Many c # its) e text"
  then obtain u r where t: "text = u @ r" "u \<in> words_of (Many c)" "here its e r" unfolding here_Cons by blast
  show "here its e text \<or> text \<noteq> [] \<and> (hd text = c \<or> c = c_dot) \<and> here (Many c # its) e (tl text)"
  proof (cases u)
    case (Cons x u')
    then have "tl text = u' @ r" "u' \<in> words_of (Many c)" using t by auto
    then have "here (Many c # its) e (tl text)" unfolding here_Cons using t(3) by blast
    then show ?thesis using t Cons by auto
  qed (use t in simp)
next
  assume a: "here its e text \<or> text \<noteq> [] \<and> (hd text = c \<or> c = c_dot) \<and> here (Many c # its) e (tl text)"
  show "here (Many c # its) e text"
  proof (cases "here its e text")
    case True
    then have "text = [] @ text \<and> [] \<in> words_of (Many c) \<and> here its e text" by simp
    then show ?thesis unfolding here_Cons by blast
  next
    case False
    with a obtain u r where "tl text = u @ r" "u \<in> words_of (Many c)" "here its e r" unfolding here_Cons by blast
    then have "text = (hd text # u) @ r" "hd text # u \<in> words_of (Many c)" using a False by (auto simp: neq_Nil_conv)
    with \<open>here its e r\<close> show ?thesis unfolding here_Cons by blast
  qed
qed

lemma pattern_Nil: "matchhere [] text" "items [] = []"
  by (simp_all add: matchhere.simps items.simps)

lemma pattern_Cons:
  "matchhere (c # re) text \<longleftrightarrow>
     (if re \<noteq> [] \<and> hd re = c_star then matchstar c (tl re) text
      else if c = c_dollar \<and> re = [] then text = []
      else text \<noteq> [] \<and> (c = c_dot \<or> c = hd text) \<and> matchhere re (tl text))"
  "items (c # re) =
     (if re \<noteq> [] \<and> hd re = c_star then Many c # items (tl re)
      else if c = c_dollar \<and> re = [] then [] else One c # items re)"
  by (simp_all add: matchhere.simps [of "c # re"] items.simps [of "c # re"])

lemma match_here:
  "matchhere re text \<longleftrightarrow> here (items re) (at_end re) text"
  "matchstar c re text \<longleftrightarrow> here (Many c # items re) (at_end re) text"
proof (induction re "text" and c re "text" rule: matchhere_matchstar.induct)
  case (1 re "text")
  show ?case
  proof (cases re)
    case Nil
    then show ?thesis by (simp add: pattern_Nil here_Nil)
  next
    case (Cons c re1)
    then show ?thesis using 1(1,2) [OF Cons]
      by (cases re1) (auto simp: pattern_Nil pattern_Cons here_Nil here_One)
  qed
next
  case (2 c re "text")
  show ?case using 2 by (subst matchstar.simps, subst here_Many) auto
qed

definition selects :: "u8 list \<Rightarrow> u8 list \<Rightarrow> bool" where
  "selects re text \<longleftrightarrow>
     (let bol = re \<noteq> [] \<and> hd re = c_hat; re = (if bol then tl re else re) in
      \<exists>u w v. text = u @ w @ v \<and> w \<in> language (items re) \<and> (bol \<longrightarrow> u = []) \<and> (at_end re \<longrightarrow> v = []))"

lemma match_loop_iff: "match_loop re text \<longleftrightarrow> (\<exists>u r. text = u @ r \<and> matchhere re r)"
proof (induction "text")
  case (Cons c t)
  have "(\<exists>u r. c # t = u @ r \<and> matchhere re r) \<longleftrightarrow> matchhere re (c # t) \<or> (\<exists>u r. t = u @ r \<and> matchhere re r)"
    by (auto simp: Cons_eq_append_conv)
  then show ?case using Cons by (subst match_loop.simps) simp
qed simp

lemma match_selects: "match re text \<longleftrightarrow> selects re text"
  unfolding match_def selects_def Let_def match_loop_iff match_here here_def by (cases "re \<noteq> [] \<and> hd re = c_hat") auto

section \<open>The file as a sequence of lines\<close>

definition unlines :: "u8 list list \<Rightarrow> u8 list" where
  "unlines ls = concat (map (\<lambda>l. l @ [newline]) ls)"

lemma unlines_simps [simp]: "unlines [] = []" "unlines (l # ls) = l @ newline # unlines ls" "unlines (ks @ ls) = unlines ks @ unlines ls"
  by (simp_all add: unlines_def)

definition a_line :: "u8 list \<Rightarrow> bool" where
  "a_line l \<longleftrightarrow> newline \<notin> set l \<and> 0 \<notin> set l"

lemma strchr_line: "a_line l \<Longrightarrow> strchr (l @ newline # r) newline = Some (l, r)"
  by (induction l) (auto simp: a_line_def)

lemma strchr_none: "a_line l \<Longrightarrow> strchr l newline = None"
  by (induction l) (auto simp: a_line_def)

lemma grep_lines_eq:
  assumes "\<forall>l \<in> set ls. a_line l" and "a_line r"
  shows "grep_lines pattern (unlines ls @ r) = (unlines (filter (match pattern) ls), r)"
  using assms
proof (induction ls)
  case Nil
  then show ?case by (simp add: grep_lines.simps [of pattern r] strchr_none)
next
  case (Cons l ls)
  then show ?case using strchr_line [of l "unlines ls @ r"] by (simp add: grep_lines.simps [of pattern "l @ newline # unlines ls @ r"])
qed

lemma split_line:
  assumes "d @ f = l @ c # r" and "length l < length d"
  shows "\<exists>d'. d = l @ c # d' \<and> d' @ f = r"
proof -
  obtain us where "d = l @ us" "us \<noteq> []" "us @ f = c # r" using assms by (auto simp: append_eq_append_conv2)
  then show ?thesis by (cases us) auto
qed

text \<open>A prefix of the file consists of complete lines and the beginning of the next one.\<close>

lemma prefix_lines:
  assumes "d @ f = unlines ls @ r" and "newline \<notin> set r" and "\<forall>l \<in> set ls. newline \<notin> set l"
  shows "\<exists>ks ls' b. ls = ks @ ls' \<and> d = unlines ks @ b \<and> newline \<notin> set b \<and> b @ f = unlines ls' @ r"
  using assms
proof (induction ls arbitrary: d)
  case Nil
  then have "r = d @ f" by simp
  then have "newline \<notin> set d" using Nil.prems(2) by simp
  then show ?case using Nil by (intro exI [of _ "[]"] exI [of _ d]) simp
next
  case (Cons l ls)
  show ?case
  proof (cases "length d \<le> length l")
    case True
    then obtain us where "l = d @ us" using Cons.prems(1) by (auto simp: append_eq_append_conv2)
    then have "newline \<notin> set d" using Cons.prems(3) by simp
    then show ?thesis using Cons.prems(1) by (intro exI [of _ "[]"] exI [of _ "l # ls"] exI [of _ d]) simp
  next
    case False
    then obtain d' where d: "d = l @ newline # d'" "d' @ f = unlines ls @ r" using split_line [of d f l newline] Cons.prems(1) by auto
    from Cons.IH [OF d(2) Cons.prems(2)] Cons.prems(3) obtain ks ls' b where
      "ls = ks @ ls'" "d' = unlines ks @ b" "newline \<notin> set b" "b @ f = unlines ls' @ r" by auto
    then show ?thesis using d by (intro exI [of _ "l # ks"] exI [of _ ls'] exI [of _ b]) simp
  qed
qed

lemma grep_eq:
  assumes "buf @ inp = unlines ls @ r" and "\<forall>l \<in> set ls. a_line l \<and> length l < 1023" and "a_line r" and "newline \<notin> set buf"
  shows "grep pattern sz i buf inp = unlines (filter (match pattern) ls)"
  using assms
proof (induction pattern sz i buf inp arbitrary: ls rule: grep.induct)
  case (1 pattern sz i buf inp)
  let ?n = "min (1024 - length buf - 1) (min (Suc (sz i)) (length inp))"
  show ?case
  proof (cases "?n > 0")
    case True
    have "(buf @ take ?n inp) @ drop ?n inp = unlines ls @ r" using 1(2) by simp
    from prefix_lines [OF this] 1(3,4) obtain ks ls' b where k: "ls = ks @ ls'" "buf @ take ?n inp = unlines ks @ b"
      "newline \<notin> set b" "b @ drop ?n inp = unlines ls' @ r" by (auto simp: a_line_def)
    have "set b \<subseteq> set (unlines ls' @ r)" using k(4) by (metis set_append Un_upper1)
    moreover have "0 \<notin> set (unlines ls' @ r)" using 1(3,4) k(1) by (auto simp: unlines_def a_line_def)
    ultimately have b: "a_line b" using k(3) by (auto simp: a_line_def)
    have g: "grep_lines pattern (buf @ take ?n inp) = (unlines (filter (match pattern) ks), b)"
      unfolding k(2) using 1(3) k(1) b by (intro grep_lines_eq) auto
    have "grep pattern sz (Suc i) b (drop ?n inp) = unlines (filter (match pattern) ls')"
      by (rule 1(1) [OF refl True g [symmetric] refl k(4) _ 1(4) k(3)]) (use 1(3) k(1) in simp)
    then show ?thesis using True g k(1) by (simp add: grep.simps [of pattern sz i buf inp] Let_def)
  next
    case False
    have "ls = []"
    proof (rule ccontr)
      assume "ls \<noteq> []"
      then obtain l ls' where l: "ls = l # ls'" by (cases ls) auto
      have "length buf < 1023"
      proof (rule ccontr)
        assume "\<not> length buf < 1023"
        then have "length l < length buf" using 1(3) l by auto
        then obtain d where "buf = l @ newline # d" using split_line [of buf inp l newline] 1(2) l by auto
        then show False using 1(5) by simp
      qed
      then have "inp = []" using False by auto
      then show False using 1(2,5) l by auto
    qed
    then show ?thesis unfolding grep.simps [of pattern sz i buf inp] Let_def if_not_P [OF False] by simp
  qed
qed

text \<open>
  C35. However the kernel cuts the file into pieces, \<open>grep\<close> prints exactly the lines that the pattern selects, in order:
  those with a part in the language of the pattern, which begins the line if the pattern begins with \<open>^\<close> and ends it if the
  pattern ends in \<open>$\<close>. The lines have fewer than 1023 bytes and no NUL; what follows the last newline is not a line.
\<close>

theorem grep_prints_selected:
  assumes "\<forall>l \<in> set ls. a_line l \<and> length l < 1023" and "a_line r"
  shows "grep pattern sz 0 [] (unlines ls @ r) = unlines (filter (selects pattern) ls)"
  using grep_eq [OF _ assms, of "[]" "unlines ls @ r"] by (simp add: match_selects [abs_def])

theorem grep_prints_selected_witness:
  "grep (str ''^ab*$'') (\<lambda>_. 2) 0 [] (unlines [str ''abb'', str ''aba''] @ str ''ab'') = str ''abb'' @ [newline]"
proof -
  have m: "matchstar 98 [36] [98, 98]" "\<not> matchstar 98 [36] [98, 97]"
    by (simp_all add: matchstar.simps [of _ _ "_ # _"] matchstar.simps [of _ _ "[]"] matchhere.simps [of "[36]"])
  have "filter (match (str ''^ab*$'')) [str ''abb'', str ''aba''] = [str ''abb'']"
    using m by (simp add: match_def str_def pattern_Cons)
  then show ?thesis
    using grep_prints_selected [of "[str ''abb'', str ''aba'']" "str ''ab''" "str ''^ab*$''" "\<lambda>_. 2"]
    by (simp add: a_line_def str_def match_selects [abs_def])
qed

end
