(* ===== verification/Sh.thy ===== *)
theory Sh
  imports Printf
begin

text \<open>
  The shell, \<open>user/sh.c\<close>: tokens, the recursive-descent parser, \<open>nulterminate\<close>, and \<open>runcmd\<close> as the system calls it makes.
  The command line is the list of the bytes before its NUL; pointers into it are positions.
\<close>

section \<open>Commands\<close>

text \<open>The structures \<open>execcmd\<close>, \<open>redircmd\<close>, \<open>pipecmd\<close>, \<open>listcmd\<close>, \<open>backcmd\<close>; a pair is the beginning and the end of a token.\<close>

type_synonym token = "nat \<times> nat"

datatype cmd =
    ExecCmd "token list"
  | RedirCmd cmd token int int
  | PipeCmd cmd cmd
  | ListCmd cmd cmd
  | BackCmd cmd

abbreviation (input) MAXARGS :: nat where "MAXARGS \<equiv> 10"
abbreviation (input) O_RDONLY :: int where "O_RDONLY \<equiv> 0"
abbreviation (input) O_WRONLY :: int where "O_WRONLY \<equiv> 1"
abbreviation (input) O_CREATE :: int where "O_CREATE \<equiv> 0x200"
abbreviation (input) O_TRUNC :: int where "O_TRUNC \<equiv> 0x400"

section \<open>Tokens\<close>

definition whitespace :: "u8 list" where
  "whitespace = [32, 9, 13, 10, 11]"

definition symbols :: "u8 list" where
  "symbols = str ''<|>&;()''"

text \<open>\<open>*s\<close>; behind the last byte is the NUL.\<close>

definition byte_at :: "u8 list \<Rightarrow> nat \<Rightarrow> u8" where
  "byte_at buf i = (if i < length buf then buf ! i else 0)"

function skip_white :: "u8 list \<Rightarrow> nat \<Rightarrow> nat" where
  "skip_white buf s = (if s < length buf \<and> buf ! s \<in> set whitespace then skip_white buf (s + 1) else s)"
  by pat_completeness auto
termination
  by (relation "measure (\<lambda>(buf, s). length buf - s)") auto

function skip_word :: "u8 list \<Rightarrow> nat \<Rightarrow> nat" where
  "skip_word buf s =
     (if s < length buf \<and> buf ! s \<notin> set whitespace \<and> buf ! s \<notin> set symbols then skip_word buf (s + 1) else s)"
  by pat_completeness auto
termination
  by (relation "measure (\<lambda>(buf, s). length buf - s)") auto

declare skip_white.simps [simp del] skip_word.simps [simp del]

text \<open>The result is the kind of the token, its beginning and its end, and the position after it.\<close>

definition gettoken :: "u8 list \<Rightarrow> nat \<Rightarrow> u8 \<times> nat \<times> nat \<times> nat" where
  "gettoken buf s =
     (let q = skip_white buf s; c = byte_at buf q;
          (ret, eq) =
            (if c = 0 then (c, q)
             else if c \<in> set (str ''|();&<'') then (c, q + 1)
             else if c = of_char (CHR ''>'') then
               (if byte_at buf (q + 1) = of_char (CHR ''>'') then (of_char (CHR ''+''), q + 2) else (c, q + 1))
             else (of_char (CHR ''a''), skip_word buf q))
      in (ret, q, eq, skip_white buf eq))"

definition peek :: "u8 list \<Rightarrow> nat \<Rightarrow> string \<Rightarrow> bool \<times> nat" where
  "peek buf s toks = (let s = skip_white buf s in (byte_at buf s \<noteq> 0 \<and> byte_at buf s \<in> set (str toks), s))"

lemma skip_white_bounds: "s \<le> skip_white buf s" "s \<le> length buf \<Longrightarrow> skip_white buf s \<le> length buf"
proof (induction buf s rule: skip_white.induct)
  case (1 buf s)
  { case 1 then show ?case using "1.IH"(1) by (auto simp: skip_white.simps [of buf s]) }
  { case 2 then show ?case using "1.IH"(2) by (auto simp: skip_white.simps [of buf s]) }
qed

lemma skip_word_bounds: "s \<le> skip_word buf s" "s \<le> length buf \<Longrightarrow> skip_word buf s \<le> length buf"
proof (induction buf s rule: skip_word.induct)
  case (1 buf s)
  { case 1 then show ?case using "1.IH"(1) by (auto simp: skip_word.simps [of buf s]) }
  { case 2 then show ?case using "1.IH"(2) by (auto simp: skip_word.simps [of buf s]) }
qed

lemma skip_white_stop: "skip_white buf s < length buf \<longrightarrow> buf ! skip_white buf s \<notin> set whitespace"
proof (induction buf s rule: skip_white.induct)
  case (1 buf s)
  then show ?case by (cases "s < length buf \<and> buf ! s \<in> set whitespace") (auto simp: skip_white.simps [of buf s])
qed

lemma skip_white_at: "s < length buf \<Longrightarrow> buf ! s \<notin> set whitespace \<Longrightarrow> skip_white buf s = s"
  by (simp add: skip_white.simps [of buf s])

lemma skip_white_idem [simp]: "skip_white buf (skip_white buf s) = skip_white buf s"
  using skip_white_stop [of buf s] by (subst skip_white.simps) auto

lemma byte_at_pos: "byte_at buf i \<noteq> 0 \<Longrightarrow> i < length buf \<and> byte_at buf i = buf ! i"
  by (simp add: byte_at_def split: if_splits)

lemma set_symbols: "set symbols = insert (of_char (CHR ''>'')) (set (str ''|();&<''))"
  by (auto simp: symbols_def str_def)

text \<open>A word: no white space and no symbol in it, and one of these or the end of the line behind it.\<close>

definition is_word :: "u8 list \<Rightarrow> token \<Rightarrow> bool" where
  "is_word buf t \<longleftrightarrow> (case t of (q, e) \<Rightarrow> q < e \<and> e \<le> length buf \<and>
     (\<forall>i \<in> {q..<e}. buf ! i \<notin> set whitespace \<and> buf ! i \<notin> set symbols) \<and>
     (e < length buf \<longrightarrow> buf ! e \<in> set whitespace \<or> buf ! e \<in> set symbols))"

lemma skip_word_word:
  "(\<forall>i \<in> {s..<skip_word buf s}. buf ! i \<notin> set whitespace \<and> buf ! i \<notin> set symbols) \<and>
   (skip_word buf s < length buf \<longrightarrow> buf ! skip_word buf s \<in> set whitespace \<or> buf ! skip_word buf s \<in> set symbols)"
proof (induction buf s rule: skip_word.induct)
  case (1 buf s)
  show ?case
  proof (cases "s < length buf \<and> buf ! s \<notin> set whitespace \<and> buf ! s \<notin> set symbols")
    case True
    have e: "skip_word buf s = skip_word buf (s + 1)" using True by (simp add: skip_word.simps [of buf s])
    have "{s..<skip_word buf (s + 1)} = insert s {s + 1..<skip_word buf (s + 1)}"
      using skip_word_bounds(1) [of "s + 1" buf] by auto
    then show ?thesis using 1 True unfolding e by simp
  next
    case False
    then have "skip_word buf s = s" by (subst skip_word.simps) auto
    then show ?thesis using False by auto
  qed
qed

text \<open>The end of a token; a token of a kind other than 0 is not empty.\<close>

lemma gettoken_cases:
  assumes "gettoken buf s = (ret, q, e, s')"
  shows "q = skip_white buf s" "s' = skip_white buf e" "byte_at buf q = 0 \<Longrightarrow> ret = 0 \<and> e = q"
    "byte_at buf q \<noteq> 0 \<Longrightarrow> q < e \<and> e \<le> length buf \<and> ret \<noteq> 0" "ret = of_char (CHR ''a'') \<Longrightarrow> is_word buf (q, e)"
proof -
  let ?c = "byte_at buf q"
  define X where "X = (\<lambda>q. if byte_at buf q = 0 then (byte_at buf q, q)
       else if byte_at buf q \<in> set (str ''|();&<'') then (byte_at buf q, q + 1)
       else if byte_at buf q = of_char (CHR ''>'') then
         (if byte_at buf (q + 1) = of_char (CHR ''>'') then (of_char (CHR ''+''), q + 2) else (byte_at buf q, q + 1))
       else (of_char (CHR ''a''), skip_word buf q))"
  have "(fst (X (skip_white buf s)), skip_white buf s, snd (X (skip_white buf s)), skip_white buf (snd (X (skip_white buf s)))) = (ret, q, e, s')"
    using assms by (simp only: gettoken_def Let_def case_prod_unfold X_def)
  then have q: "q = skip_white buf s" "s' = skip_white buf e" and r0: "(ret, e) = X q" by auto
  show "q = skip_white buf s" "s' = skip_white buf e" by (rule q)+
  note r = r0 [unfolded X_def]
  show "?c = 0 \<Longrightarrow> ret = 0 \<and> e = q" using r by simp
  have w: "is_word buf (q, skip_word buf q)" if n: "?c \<noteq> 0" "?c \<notin> set symbols"
  proof -
    have c: "q < length buf" "?c = buf ! q" using byte_at_pos [OF n(1)] by simp_all
    have "buf ! q \<notin> set whitespace" using skip_white_stop [of buf s] c(1) q(1) by simp
    then have "skip_word buf q = skip_word buf (q + 1)" using c n(2) by (simp add: skip_word.simps [of buf q])
    then have "q < skip_word buf q" "skip_word buf q \<le> length buf"
      using skip_word_bounds [of "q + 1" buf] c(1) by simp_all
    then show ?thesis using skip_word_word [of q buf] by (simp add: is_word_def)
  qed
  show "q < e \<and> e \<le> length buf \<and> ret \<noteq> 0" if n: "?c \<noteq> 0"
  proof (cases "?c \<in> set symbols")
    case True
    have b: "q < length buf" using byte_at_pos [OF n] by simp
    have "byte_at buf (q + 1) = of_char (CHR ''>'') \<Longrightarrow> q + 1 < length buf" using byte_at_pos [of buf "q + 1"] by simp
    moreover have "e = q + 1 \<and> ret = ?c \<or> e = q + 2 \<and> ret = of_char (CHR ''+'') \<and> byte_at buf (q + 1) = of_char (CHR ''>'')"
      using r n True unfolding set_symbols by (simp split: if_split_asm)
    ultimately show ?thesis using n b by auto
  next
    case False
    then have "e = skip_word buf q \<and> ret = of_char (CHR ''a'')" using r n unfolding set_symbols by simp
    then show ?thesis using w [OF n False] by (simp add: is_word_def)
  qed
  show "is_word buf (q, e)" if a: "ret = of_char (CHR ''a'')"
  proof -
    have n: "?c \<noteq> 0" using r a by auto
    have "?c \<notin> set symbols"
    proof
      assume "?c \<in> set symbols"
      then have "ret = ?c \<or> ret = of_char (CHR ''+'')" using r n unfolding set_symbols by (simp split: if_split_asm)
      then have "of_char (CHR ''a'') \<in> set symbols \<or> of_char (CHR ''a'') = (of_char (CHR ''+'') :: u8)"
        using a \<open>?c \<in> set symbols\<close> by auto
      then show False by (simp add: symbols_def str_def)
    qed
    moreover from this have "e = skip_word buf q" using r n unfolding set_symbols by simp
    ultimately show ?thesis using w [OF n] by simp
  qed
qed

lemma gettoken_progress:
  assumes "s \<le> length buf" and "gettoken buf s = (ret, q, e, s')"
  shows "s \<le> s'" "s' \<le> length buf" "ret \<noteq> 0 \<Longrightarrow> s < s'" "byte_at buf (skip_white buf s) \<noteq> 0 \<Longrightarrow> ret \<noteq> 0"
proof -
  note G = gettoken_cases [OF assms(2)] and q = skip_white_bounds [of s buf] and e = skip_white_bounds [of e buf]
  have le: "q \<le> e" "e \<le> length buf" using G(1,3,4) q assms(1) by (cases "byte_at buf q = 0"; simp)+
  then show "s \<le> s'" "s' \<le> length buf" using G(1,2) q e by simp_all
  show "s < s'" if "ret \<noteq> 0" using that G q(1) e(1) by (cases "byte_at buf q = 0") auto
  show "ret \<noteq> 0" if "byte_at buf (skip_white buf s) \<noteq> 0" using that G(1,4) by simp
qed

lemma peek_cases:
  assumes "peek buf s toks = (b, s')"
  shows "s' = skip_white buf s" "b \<Longrightarrow> byte_at buf (skip_white buf s') \<noteq> 0" "s \<le> length buf \<Longrightarrow> s \<le> s' \<and> s' \<le> length buf"
  using assms skip_white_bounds [of s buf] by (auto simp: peek_def Let_def)

section \<open>The parser\<close>

text \<open>The redirections that \<open>parseredirs\<close> wraps around a command, in order.\<close>

type_synonym redir = "token \<times> int \<times> int"

definition redirs_of :: "u8 \<Rightarrow> token \<Rightarrow> redir list" where
  "redirs_of tok f =
     (if tok = of_char (CHR ''<'') then [(f, O_RDONLY, 0)]
      else if tok = of_char (CHR ''>'') then [(f, O_WRONLY + O_CREATE + O_TRUNC, 1)]
      else if tok = of_char (CHR ''+'') then [(f, O_WRONLY + O_CREATE, 1)]
      else [])"

function parseredirs :: "u8 list \<Rightarrow> nat \<Rightarrow> (redir list \<times> nat) kres" where
  "parseredirs buf s =
     (case peek buf s ''<>'' of (b, s) \<Rightarrow>
      if b then
        (case gettoken buf s of (tok, _, _, s) \<Rightarrow>
         case gettoken buf s of (ret, q, eq, s) \<Rightarrow>
         if ret \<noteq> of_char (CHR ''a'') then Inl (Panic ''missing file for redirection'')
         else kbind (parseredirs buf s) (\<lambda>(rs, s). Inr (redirs_of tok (q, eq) @ rs, s)))
      else Inr ([], s))"
  by pat_completeness auto
termination
proof (relation "measure (\<lambda>(buf, s). length buf - s)", goal_cases)
  case (2 buf s b s1 tok y1 q0 y2 e0 s2 ret z1 q z2 e s3)
  then have p: "peek buf s ''<>'' = (b, s1)" "b" and g: "gettoken buf s1 = (tok, q0, e0, s2)" "gettoken buf s2 = (ret, q, e, s3)"
    and r: "ret = of_char (CHR ''a'')" by auto
  have b: "byte_at buf (skip_white buf s1) \<noteq> 0" "s \<le> s1" "s1 < length buf"
    using peek_cases [OF p(1)] p(2) byte_at_pos [of buf "skip_white buf s1"] skip_white_bounds(1) [of s buf] by auto
  have "s1 < s2" "s2 \<le> length buf" using gettoken_progress [OF less_imp_le [OF b(3)] g(1)] b(1) by auto
  then show ?case using gettoken_progress [OF _ g(2)] b by simp
qed simp

declare parseredirs.simps [simp del]

definition redirect :: "cmd \<Rightarrow> redir list \<Rightarrow> cmd" where
  "redirect c rs = foldl (\<lambda>c (t, m, fd). RedirCmd c t m fd) c rs"

text \<open>
  The loop of \<open>parseexec\<close>: the arguments go into the \<open>execcmd\<close> at the bottom, the redirections around it.
\<close>

function parse_args :: "u8 list \<Rightarrow> nat \<Rightarrow> token list \<Rightarrow> (token list \<times> redir list \<times> nat) kres" where
  "parse_args buf s args =
     (case peek buf s ''|)&;'' of (b, s) \<Rightarrow>
      if b then Inr (args, [], s)
      else
        case gettoken buf s of (tok, q, eq, s) \<Rightarrow>
        if tok = 0 then Inr (args, [], s)
        else if tok \<noteq> of_char (CHR ''a'') then Inl (Panic ''syntax'')
        else if length args + 1 \<ge> MAXARGS then Inl (Panic ''too many args'')
        else
          kbind (parseredirs buf s) (\<lambda>(rs, s).
          kbind (parse_args buf s (args @ [(q, eq)])) (\<lambda>(args, rs', s).
          Inr (args, rs @ rs', s))))"
  by pat_completeness auto
termination
  by (relation "measure (\<lambda>(buf, s, args). MAXARGS - length args)") auto

declare parse_args.simps [simp del]

function parse_backs :: "u8 list \<Rightarrow> cmd \<Rightarrow> nat \<Rightarrow> cmd \<times> nat" where
  "parse_backs buf cmd s =
     (case peek buf s ''&'' of (b, s) \<Rightarrow>
      if b then (case gettoken buf s of (_, _, _, s) \<Rightarrow> parse_backs buf (BackCmd cmd) s)
      else (cmd, s))"
  by pat_completeness auto
termination
proof (relation "measure (\<lambda>(buf, cmd, s). length buf - s)", goal_cases)
  case (2 buf cmd s b s1 tok y1 q0 y2 e0 s2)
  then have p: "peek buf s ''&'' = (b, s1)" "b" and g: "gettoken buf s1 = (tok, q0, e0, s2)" by auto
  have b: "byte_at buf (skip_white buf s1) \<noteq> 0" "s \<le> s1" "s1 < length buf"
    using peek_cases [OF p(1)] p(2) byte_at_pos [of buf "skip_white buf s1"] skip_white_bounds(1) [of s buf] by auto
  then have "s1 < s2" using gettoken_progress [OF less_imp_le [OF b(3)] g] by auto
  then show ?case using b by simp
qed simp

declare parse_backs.simps [simp del]

text \<open>
  The recursive functions; the first argument bounds the depth of the recursion. \<open>parsecmd\<close> gives enough of it for any line.
\<close>

fun parseline :: "nat \<Rightarrow> u8 list \<Rightarrow> nat \<Rightarrow> (cmd \<times> nat) kres"
  and parsepipe :: "nat \<Rightarrow> u8 list \<Rightarrow> nat \<Rightarrow> (cmd \<times> nat) kres"
  and parseexec :: "nat \<Rightarrow> u8 list \<Rightarrow> nat \<Rightarrow> (cmd \<times> nat) kres"
  and parseblock :: "nat \<Rightarrow> u8 list \<Rightarrow> nat \<Rightarrow> (cmd \<times> nat) kres" where
  "parseline 0 buf s = Inl (Undefined ''stack'')"
| "parsepipe 0 buf s = Inl (Undefined ''stack'')"
| "parseexec 0 buf s = Inl (Undefined ''stack'')"
| "parseblock 0 buf s = Inl (Undefined ''stack'')"
| "parseline (Suc n) buf s =
     kbind (parsepipe n buf s) (\<lambda>(cmd, s).
     case parse_backs buf cmd s of (cmd, s) \<Rightarrow>
     case peek buf s '';'' of (b, s) \<Rightarrow>
     if b then
       (case gettoken buf s of (_, _, _, s) \<Rightarrow>
        kbind (parseline n buf s) (\<lambda>(right, s). Inr (ListCmd cmd right, s)))
     else Inr (cmd, s))"
| "parsepipe (Suc n) buf s =
     kbind (parseexec n buf s) (\<lambda>(cmd, s).
     case peek buf s ''|'' of (b, s) \<Rightarrow>
     if b then
       (case gettoken buf s of (_, _, _, s) \<Rightarrow>
        kbind (parsepipe n buf s) (\<lambda>(right, s). Inr (PipeCmd cmd right, s)))
     else Inr (cmd, s))"
| "parseexec (Suc n) buf s =
     (case peek buf s ''('' of (b, s) \<Rightarrow>
      if b then parseblock n buf s
      else
        kbind (parseredirs buf s) (\<lambda>(rs, s).
        kbind (parse_args buf s []) (\<lambda>(args, rs', s).
        Inr (redirect (ExecCmd args) (rs @ rs'), s))))"
| "parseblock (Suc n) buf s =
     (case peek buf s ''('' of (b, s) \<Rightarrow>
      if \<not> b then Inl (Panic ''parseblock'')
      else
        case gettoken buf s of (_, _, _, s) \<Rightarrow>
        kbind (parseline n buf s) (\<lambda>(cmd, s).
        case peek buf s '')'' of (b, s) \<Rightarrow>
        if \<not> b then Inl (Panic ''syntax - missing )'')
        else
          case gettoken buf s of (_, _, _, s) \<Rightarrow>
          kbind (parseredirs buf s) (\<lambda>(rs, s). Inr (redirect cmd rs, s))))"

text \<open>\<open>nulterminate\<close> writes a NUL behind each token, into the array that holds the line and its own NUL.\<close>

primrec nulterminate :: "cmd \<Rightarrow> u8 list \<Rightarrow> u8 list" where
  "nulterminate (ExecCmd args) buf = foldl (\<lambda>buf (q, eq). buf[eq := 0]) buf args"
| "nulterminate (RedirCmd c t m fd) buf = (nulterminate c buf)[snd t := 0]"
| "nulterminate (PipeCmd l r) buf = nulterminate r (nulterminate l buf)"
| "nulterminate (ListCmd l r) buf = nulterminate r (nulterminate l buf)"
| "nulterminate (BackCmd c) buf = nulterminate c buf"

definition parsecmd :: "u8 list \<Rightarrow> (cmd \<times> u8 list) kres" where
  "parsecmd buf =
     kbind (parseline (4 * length buf + 4) buf 0) (\<lambda>(cmd, s).
     case peek buf s [] of (_, s) \<Rightarrow>
     if s \<noteq> length buf then Inl (Panic ''syntax'')
     else Inr (cmd, nulterminate cmd (buf @ [0])))"

section \<open>The parser ends, and its tokens are words\<close>

primrec tokens :: "cmd \<Rightarrow> token list" where
  "tokens (ExecCmd args) = args"
| "tokens (RedirCmd c t m fd) = tokens c @ [t]"
| "tokens (PipeCmd l r) = tokens l @ tokens r"
| "tokens (ListCmd l r) = tokens l @ tokens r"
| "tokens (BackCmd c) = tokens c"

text \<open>A result is a panic, or it satisfies \<open>P\<close>.\<close>

definition yields :: "'a kres \<Rightarrow> ('a \<Rightarrow> bool) \<Rightarrow> bool" where
  "yields m P \<longleftrightarrow> (case m of Inl e \<Rightarrow> (\<exists>msg. e = Panic msg) | Inr x \<Rightarrow> P x)"

lemma yields_simps [simp]: "yields (Inr x) P = P x" "yields (Inl (Panic msg)) P"
  by (simp_all add: yields_def)

lemma yields_kbind: "yields m Q \<Longrightarrow> (\<And>x. Q x \<Longrightarrow> yields (f x) P) \<Longrightarrow> yields (kbind m f) P"
  by (cases m) (auto simp: yields_def)

definition moved :: "u8 list \<Rightarrow> nat \<Rightarrow> nat \<Rightarrow> bool" where
  "moved buf s s' \<longleftrightarrow> s \<le> s' \<and> s' \<le> length buf"

lemma moved_trans: "moved buf s s' \<Longrightarrow> moved buf s' s'' \<Longrightarrow> moved buf s s''"
  by (simp add: moved_def)

lemma peek_moved:
  assumes "s \<le> length buf" and "peek buf s toks = (b, s1)"
  shows "moved buf s s1" "s1 \<le> length buf"
  using peek_cases [OF assms(2)] assms(1) by (simp_all add: moved_def)

lemma gettoken_moved:
  assumes "s \<le> length buf" and "gettoken buf s = (ret, q, e, s1)"
  shows "moved buf s s1" "s1 \<le> length buf"
  using gettoken_progress [OF assms] by (simp_all add: moved_def)

lemma peek_gettoken:
  assumes "s \<le> length buf" and "peek buf s toks = (True, s1)" and "gettoken buf s1 = (ret, q, e, s2)"
  shows "s < s2" "s2 \<le> length buf"
  using peek_cases [OF assms(2)] gettoken_progress [OF peek_moved(2) [OF assms(1,2)] assms(3)] assms(1) by auto

definition redirs_ok :: "u8 list \<Rightarrow> redir list \<Rightarrow> bool" where
  "redirs_ok buf rs \<longleftrightarrow> (\<forall>r \<in> set rs. is_word buf (fst r))"

lemma redirs_ok_append [simp]: "redirs_ok buf (rs @ rs') \<longleftrightarrow> redirs_ok buf rs \<and> redirs_ok buf rs'"
  by (auto simp: redirs_ok_def)

lemma redirs_ok_of: "is_word buf t \<Longrightarrow> redirs_ok buf (redirs_of tok t)" "redirs_ok buf []"
  by (simp_all add: redirs_of_def redirs_ok_def)

lemma parseredirs_yields:
  "s \<le> length buf \<Longrightarrow> yields (parseredirs buf s) (\<lambda>(rs, s'). moved buf s s' \<and> (redirs_ok buf rs))"
proof (induction buf s rule: parseredirs.induct)
  case (1 buf s)
  obtain b s1 where p: "peek buf s ''<>'' = (b, s1)" by fastforce
  note m1 = peek_moved [OF 1(2) p]
  show ?case
  proof (cases b)
    case True
    obtain tok q0 e0 s2 where g: "gettoken buf s1 = (tok, q0, e0, s2)" by (metis prod_cases4)
    obtain ret q e s3 where h: "gettoken buf s2 = (ret, q, e, s3)" by (metis prod_cases4)
    note m2 = gettoken_moved [OF m1(2) g] and m3 = gettoken_moved [OF gettoken_moved(2) [OF m1(2) g] h]
    show ?thesis
    proof (cases "ret = of_char (CHR ''a'')")
      case r: True
      have w: "is_word buf (q, e)" using gettoken_cases(5) [OF h r] .
      have IH: "yields (parseredirs buf s3) (\<lambda>(rs, s'). moved buf s3 s' \<and> (redirs_ok buf rs))"
        using 1(1) [OF p [symmetric] True g [symmetric] refl refl h [symmetric] refl refl] r m3(2) by simp
      have "moved buf s s3" using moved_trans [OF m1(1) moved_trans [OF m2(1) m3(1)]] .
      then have "yields (kbind (parseredirs buf s3) (\<lambda>(rs, s). Inr (redirs_of tok (q, e) @ rs, s)))
          (\<lambda>(rs, s'). moved buf s s' \<and> (redirs_ok buf rs))"
        using w by (intro yields_kbind [OF IH]) (auto simp: redirs_ok_of intro: moved_trans)
      then show ?thesis using p True g h r by (simp add: parseredirs.simps [of buf s])
    next
      case False
      then show ?thesis using p True g h by (simp add: parseredirs.simps [of buf s])
    qed
  next
    case False
    then show ?thesis using p m1 by (simp add: parseredirs.simps [of buf s] redirs_ok_of)
  qed
qed

lemma parse_args_yields:
  "s \<le> length buf \<Longrightarrow> \<forall>t \<in> set args. is_word buf t \<Longrightarrow>
   yields (parse_args buf s args) (\<lambda>(args', rs, s'). moved buf s s' \<and> (\<forall>t \<in> set args'. is_word buf t) \<and> (redirs_ok buf rs))"
proof (induction "MAXARGS - length args" arbitrary: s args rule: less_induct)
  case less
  obtain b s1 where p: "peek buf s ''|)&;'' = (b, s1)" by fastforce
  note m1 = peek_moved [OF less(2) p]
  obtain tok q e s2 where g: "gettoken buf s1 = (tok, q, e, s2)" by (metis prod_cases4)
  note m2 = gettoken_moved [OF m1(2) g]
  have m: "moved buf s s2" using moved_trans [OF m1(1) m2(1)] .
  show ?case
  proof (cases "\<not> b \<and> tok = of_char (CHR ''a'') \<and> length args + 1 < MAXARGS")
    case True
    have w: "\<forall>t \<in> set (args @ [(q, e)]). is_word buf t" using gettoken_cases(5) [OF g] True less(3) by auto
    have IH: "yields (parse_args buf s3 (args @ [(q, e)]))
        (\<lambda>(args', rs, s'). moved buf s3 s' \<and> (\<forall>t \<in> set args'. is_word buf t) \<and> (redirs_ok buf rs))"
      if "moved buf s2 s3" for s3 by (rule less(1) [OF diff_less_mono2 _ w]) (use True that in \<open>simp_all add: moved_def\<close>)
    let ?P = "\<lambda>(args', rs, s'). moved buf s s' \<and> (\<forall>t \<in> set args'. is_word buf t) \<and> redirs_ok buf rs"
    have "yields (kbind (parseredirs buf s2) (\<lambda>(rs, s). kbind (parse_args buf s (args @ [(q, e)])) (\<lambda>(args, rs', s). Inr (args, rs @ rs', s)))) ?P"
    proof (rule yields_kbind [OF parseredirs_yields [OF m2(2)]], clarify)
      fix rs s3
      assume "moved buf s2 s3" "redirs_ok buf rs"
      then show "yields (kbind (parse_args buf s3 (args @ [(q, e)])) (\<lambda>(args, rs', s). Inr (args, rs @ rs', s))) ?P"
        using m by (intro yields_kbind [OF IH]) (auto simp: moved_def)
    qed
    then show ?thesis using p g True by (simp add: parse_args.simps [of buf s])
  next
    case False
    then show ?thesis using p g m m1(1) less(3) by (auto simp: parse_args.simps [of buf s] redirs_ok_of)
  qed
qed

lemma parse_backs_moved:
  "s \<le> length buf \<Longrightarrow> parse_backs buf c s = (c', s') \<Longrightarrow> moved buf s s' \<and> tokens c' = tokens c"
proof (induction buf c s rule: parse_backs.induct)
  case (1 buf c s)
  obtain b s1 where p: "peek buf s ''&'' = (b, s1)" by fastforce
  obtain tok q e s2 where g: "gettoken buf s1 = (tok, q, e, s2)" by (metis prod_cases4)
  note m1 = peek_moved [OF 1(2) p] and m2 = gettoken_moved [OF peek_moved(2) [OF 1(2) p] g]
  show ?case
    using 1(1) [OF p [symmetric] _ g [symmetric] refl refl m2(2)] 1(3) p g m1 moved_trans [OF m1(1) m2(1)]
    by (cases b) (auto simp: parse_backs.simps [of buf c s] intro: moved_trans)
qed

definition parsed :: "u8 list \<Rightarrow> nat \<Rightarrow> cmd \<times> nat \<Rightarrow> bool" where
  "parsed buf s r \<longleftrightarrow> moved buf s (snd r) \<and> (\<forall>t \<in> set (tokens (fst r)). is_word buf t)"

lemma tokens_redirect: "set (tokens (redirect c rs)) = set (tokens c) \<union> fst ` set rs"
  unfolding redirect_def by (induction rs arbitrary: c) (auto simp: case_prod_unfold)

lemma parsed_redirect:
  "\<forall>t \<in> set (tokens c). is_word buf t \<Longrightarrow> redirs_ok buf rs \<Longrightarrow> moved buf s s' \<Longrightarrow> parsed buf s (redirect c rs, s')"
  by (auto simp: parsed_def tokens_redirect redirs_ok_def)

text \<open>A step of the recursive functions: a symbol is consumed, then the rest of the line is parsed.\<close>

lemma yields_next:
  assumes s: "s \<le> length buf" and s0: "moved buf s0 s" and g: "peek buf s toks = (True, s1)" "gettoken buf s1 = (ret, q, e, s2)"
    and f: "s2 \<le> length buf \<Longrightarrow> s < s2 \<Longrightarrow> yields (f s2) (parsed buf s2)"
    and c: "\<And>r s'. \<forall>t \<in> set (tokens r). is_word buf t \<Longrightarrow> moved buf s0 s' \<Longrightarrow> yields (h (r, s')) (parsed buf s0)"
  shows "yields (kbind (f s2) h) (parsed buf s0)"
proof -
  note n = peek_gettoken [OF s g]
  show ?thesis
  proof (rule yields_kbind [OF f [OF n(2,1)]])
    fix x
    assume "parsed buf s2 x"
    then show "yields (h x) (parsed buf s0)" using c [of "fst x" "snd x"] n s0 by (simp add: parsed_def moved_def)
  qed
qed

lemma parse_yields:
  "s \<le> length buf \<Longrightarrow> 4 * (length buf - s) + 4 \<le> n \<Longrightarrow> yields (parseline n buf s) (parsed buf s)"
  "s \<le> length buf \<Longrightarrow> 4 * (length buf - s) + 3 \<le> n \<Longrightarrow> yields (parsepipe n buf s) (parsed buf s)"
  "s \<le> length buf \<Longrightarrow> 4 * (length buf - s) + 2 \<le> n \<Longrightarrow> yields (parseexec n buf s) (parsed buf s)"
  "s \<le> length buf \<Longrightarrow> 4 * (length buf - s) + 1 \<le> n \<Longrightarrow> yields (parseblock n buf s) (parsed buf s)"
proof (induction n arbitrary: s)
  case (Suc n)
  {
    case 1
    have "yields (parsepipe n buf s) (parsed buf s)" using Suc.IH(2) 1 by simp
    then show ?case unfolding parseline.simps
    proof (rule yields_kbind, clarify)
      fix c0 s0
      assume p: "parsed buf s (c0, s0)"
      then have s0: "moved buf s s0" "s0 \<le> length buf" by (simp_all add: parsed_def moved_def)
      obtain c1 s1 where b: "parse_backs buf c0 s0 = (c1, s1)" by fastforce
      from parse_backs_moved [OF s0(2) b] p have s1: "moved buf s s1" "s1 \<le> length buf" "\<forall>t \<in> set (tokens c1). is_word buf t"
        using s0 by (auto simp: parsed_def moved_def)
      obtain k s2 where k: "peek buf s1 '';'' = (k, s2)" by fastforce
      obtain ret q e s3 where g: "gettoken buf s2 = (ret, q, e, s3)" by (metis prod_cases4)
      have "yields (kbind (parseline n buf s3) (\<lambda>(right, s). Inr (ListCmd c1 right, s))) (parsed buf s)" if k
      proof (rule yields_next [OF s1(2,1) _ g])
        show "peek buf s1 '';'' = (True, s2)" using k that by simp
        show "yields (parseline n buf s3) (parsed buf s3)" if "s3 \<le> length buf" "s1 < s3"
          using Suc.IH(1) [OF that(1)] 1 that s1(1) by (simp add: moved_def)
      qed (use s1(3) in \<open>auto simp: parsed_def\<close>)
      moreover have "parsed buf s (c1, s2)" using s1 peek_moved [OF s1(2) k] by (auto simp: parsed_def moved_def)
      ultimately show "yields (case parse_backs buf c0 s0 of (cmd, s) \<Rightarrow> case peek buf s '';'' of (b, s) \<Rightarrow>
          if b then case gettoken buf s of (_, _, _, s) \<Rightarrow> kbind (parseline n buf s) (\<lambda>(right, s). Inr (ListCmd cmd right, s))
          else Inr (cmd, s)) (parsed buf s)"
        using b k g by simp
    qed
  }
  {
    case 2
    have "yields (parseexec n buf s) (parsed buf s)" using Suc.IH(3) 2 by simp
    then show ?case unfolding parsepipe.simps
    proof (rule yields_kbind, clarify)
      fix c1 s1
      assume p: "parsed buf s (c1, s1)"
      then have s1: "moved buf s s1" "s1 \<le> length buf" "\<forall>t \<in> set (tokens c1). is_word buf t" by (simp_all add: parsed_def moved_def)
      obtain k s2 where k: "peek buf s1 ''|'' = (k, s2)" by fastforce
      obtain ret q e s3 where g: "gettoken buf s2 = (ret, q, e, s3)" by (metis prod_cases4)
      have "yields (kbind (parsepipe n buf s3) (\<lambda>(right, s). Inr (PipeCmd c1 right, s))) (parsed buf s)" if k
      proof (rule yields_next [OF s1(2,1) _ g])
        show "peek buf s1 ''|'' = (True, s2)" using k that by simp
        show "yields (parsepipe n buf s3) (parsed buf s3)" if "s3 \<le> length buf" "s1 < s3"
          using Suc.IH(2) [OF that(1)] 2 that s1(1) by (simp add: moved_def)
      qed (use s1(3) in \<open>auto simp: parsed_def\<close>)
      moreover have "parsed buf s (c1, s2)" using s1 peek_moved [OF s1(2) k] by (auto simp: parsed_def moved_def)
      ultimately show "yields (case peek buf s1 ''|'' of (b, s) \<Rightarrow>
          if b then case gettoken buf s of (_, _, _, s) \<Rightarrow> kbind (parsepipe n buf s) (\<lambda>(right, s). Inr (PipeCmd c1 right, s))
          else Inr (c1, s)) (parsed buf s)"
        using k g by simp
    qed
  }
  {
    case 3
    obtain k s1 where k: "peek buf s ''('' = (k, s1)" by fastforce
    note m = peek_moved [OF 3(1) k]
    have "yields (parseblock n buf s1) (parsed buf s)"
    proof -
      have "yields (parseblock n buf s1) (parsed buf s1)" using Suc.IH(4) [OF m(2)] 3 m by (simp add: moved_def)
      then show ?thesis using m(1) by (auto simp: yields_def parsed_def moved_def split: sum.splits)
    qed
    moreover have "yields (kbind (parseredirs buf s1) (\<lambda>(rs, s). kbind (parse_args buf s []) (\<lambda>(args, rs', s).
        Inr (redirect (ExecCmd args) (rs @ rs'), s)))) (parsed buf s)"
    proof (rule yields_kbind [OF parseredirs_yields [OF m(2)]], clarify)
      fix rs s2
      assume r: "moved buf s1 s2" "redirs_ok buf rs"
      then have "s2 \<le> length buf" by (simp add: moved_def)
      from parse_args_yields [OF this, of "[]"]
      show "yields (kbind (parse_args buf s2 []) (\<lambda>(args, rs', s). Inr (redirect (ExecCmd args) (rs @ rs'), s))) (parsed buf s)"
        by (rule yields_kbind) (use r m in \<open>auto intro!: parsed_redirect simp: moved_def\<close>)
    qed
    ultimately show ?case using k by simp
  }
  {
    case 4
    obtain k s1 where k: "peek buf s ''('' = (k, s1)" by fastforce
    obtain ret q e s2 where g: "gettoken buf s1 = (ret, q, e, s2)" by (metis prod_cases4)
    let ?h = "\<lambda>(cmd, s). case peek buf s '')'' of (b, s) \<Rightarrow> if \<not> b then Inl (Panic ''syntax - missing )'')
        else case gettoken buf s of (_, _, _, s) \<Rightarrow> kbind (parseredirs buf s) (\<lambda>(rs, s). Inr (redirect cmd rs, s))"
    have "yields (kbind (parseline n buf s2) ?h) (parsed buf s)" if k
    proof (rule yields_next [OF 4(1) _ _ g])
      show "moved buf s s" using 4(1) by (simp add: moved_def)
      show "peek buf s ''('' = (True, s1)" using k that by simp
      show "yields (parseline n buf s2) (parsed buf s2)" if "s2 \<le> length buf" "s < s2" using Suc.IH(1) [OF that(1)] 4 that by simp
      fix c s3
      assume c: "\<forall>t \<in> set (tokens c). is_word buf t" "moved buf s s3"
      then have s3: "s3 \<le> length buf" by (simp add: moved_def)
      obtain b s4 where b: "peek buf s3 '')'' = (b, s4)" by fastforce
      obtain ret q e s5 where h: "gettoken buf s4 = (ret, q, e, s5)" by (metis prod_cases4)
      note m4 = peek_moved [OF s3 b] and m5 = gettoken_moved [OF peek_moved(2) [OF s3 b] h]
      have "yields (kbind (parseredirs buf s5) (\<lambda>(rs, s). Inr (redirect c rs, s))) (parsed buf s)"
        by (rule yields_kbind [OF parseredirs_yields [OF m5(2)]]) (use c m4 m5 in \<open>auto intro!: parsed_redirect simp: moved_def\<close>)
      then show "yields (?h (c, s3)) (parsed buf s)" using b h by simp
    qed
    then show ?case using k g by simp
  }
qed simp_all

section \<open>Strings\<close>

text \<open>The C string at a position of an array.\<close>

definition cstring :: "u8 list \<Rightarrow> nat \<Rightarrow> u8 list" where
  "cstring mem q = takeWhile (\<lambda>x. x \<noteq> 0) (drop q mem)"

lemma nulterminate_eq: "nulterminate c mem = foldl (\<lambda>mem t. mem[snd t := 0]) mem (tokens c)"
  by (induction c arbitrary: mem) (simp_all add: case_prod_unfold)

lemma nul_marks:
  "length (foldl (\<lambda>mem t. mem[snd t := 0]) mem ts) = length mem"
  "i < length mem \<Longrightarrow> foldl (\<lambda>mem t. mem[snd t := 0]) mem ts ! i = (if i \<in> snd ` set ts then 0 else mem ! i)"
  by (induction ts arbitrary: mem) (auto simp: nth_list_update)

lemma takeWhile_nth:
  assumes "n < length xs" and "\<And>i. i < n \<Longrightarrow> P (xs ! i)" and "\<not> P (xs ! n)"
  shows "takeWhile P xs = take n xs"
  using assms takeWhile_eq_take_P_nth [of n xs P] by blast

lemma nulterminate_words:
  assumes "0 \<notin> set buf" and w: "\<forall>t \<in> set (tokens c). is_word buf t" and t: "(q, e) \<in> set (tokens c)"
  shows "cstring (nulterminate c (buf @ [0])) q = take (e - q) (drop q buf)"
proof -
  let ?m = "nulterminate c (buf @ [0])"
  have qe: "q < e" "e \<le> length buf" "\<And>i. i \<in> {q..<e} \<Longrightarrow> buf ! i \<notin> set whitespace \<and> buf ! i \<notin> set symbols"
    using w t by (auto simp: is_word_def)
  have l: "length ?m = length buf + 1" by (simp add: nulterminate_eq nul_marks)
  have m: "?m ! i = (if i \<in> snd ` set (tokens c) then 0 else (buf @ [0]) ! i)" if "i \<le> length buf" for i
    using that by (simp add: nulterminate_eq nul_marks)
  have i: "?m ! i = buf ! i \<and> buf ! i \<noteq> 0" if "i \<in> {q..<e}" for i
  proof -
    have lt: "i < length buf" using that qe(2) by simp
    have "i \<notin> snd ` set (tokens c)"
    proof
      assume "i \<in> snd ` set (tokens c)"
      then obtain t where "t \<in> set (tokens c)" "snd t = i" by blast
      then have "buf ! i \<in> set whitespace \<or> buf ! i \<in> set symbols" using w lt by (auto simp: is_word_def)
      then show False using qe(3) [OF that] by blast
    qed
    moreover have "buf ! i \<noteq> 0" using assms(1) nth_mem [OF lt] by metis
    ultimately show ?thesis using m [of i] lt by (simp add: nth_append)
  qed
  have "?m ! e = 0" using m [of e] qe(2) t by force
  have "takeWhile (\<lambda>x. x \<noteq> 0) (drop q ?m) = take (e - q) (drop q ?m)"
    by (rule takeWhile_nth) (use i qe l \<open>?m ! e = 0\<close> in \<open>auto simp: less_diff_conv add.commute\<close>)
  also have "\<dots> = take (e - q) (drop q buf)"
    by (rule nth_equalityI) (use i qe l in \<open>auto simp: less_diff_conv add.commute\<close>)
  finally show ?thesis by (simp add: cstring_def)
qed

text \<open>
  C34. The parser of the shell ends on every line, with a command or a report of an error. In the command, every argument and
  every file name is a word of the line, and once \<open>nulterminate\<close> has written its NULs into the line the C string at the
  beginning of the word is exactly the word: no NUL falls into another word.
\<close>

theorem parsecmd_words:
  assumes "0 \<notin> set buf"
  shows "(\<exists>msg. parsecmd buf = Inl (Panic msg)) \<or>
    (\<exists>cmd mem. parsecmd buf = Inr (cmd, mem) \<and>
      (\<forall>(q, e) \<in> set (tokens cmd). is_word buf (q, e) \<and> cstring mem q = take (e - q) (drop q buf)))"
proof -
  let ?P = "\<lambda>(cmd, mem). \<forall>(q, e) \<in> set (tokens cmd). is_word buf (q, e) \<and> cstring mem q = take (e - q) (drop q buf)"
  have "yields (parseline (4 * length buf + 4) buf 0) (parsed buf 0)" by (rule parse_yields(1)) simp_all
  then have "yields (parsecmd buf) ?P"
    unfolding parsecmd_def
  proof (rule yields_kbind, clarify)
    fix c s
    assume "parsed buf 0 (c, s)"
    then have "\<forall>t \<in> set (tokens c). is_word buf t" by (simp add: parsed_def)
    then show "yields (case peek buf s [] of (_, s) \<Rightarrow> if s \<noteq> length buf then Inl (Panic ''syntax'') else Inr (c, nulterminate c (buf @ [0]))) ?P"
      using nulterminate_words [OF assms] by (auto split: prod.splits)
  qed
  then show ?thesis by (auto simp: yields_def split: sum.splits)
qed

theorem parsecmd_words_witness:
  "\<exists>mem. parsecmd (str ''a >b'') = Inr (RedirCmd (ExecCmd [(0, 1)]) (3, 4) 0x601 1, mem) \<and>
     cstring mem 0 = str ''a'' \<and> cstring mem 3 = str ''b''"
proof -
  have "parsecmd (str ''a >b'') = Inr (RedirCmd (ExecCmd [(0, 1)]) (3, 4) 0x601 1, [97, 0, 62, 98, 0])" by code_simp
  then show ?thesis using parsecmd_words [of "str ''a >b''"] by (auto simp: str_def)
qed

section \<open>Running a command\<close>

text \<open>
  What a process does as a tree: it makes a system call and goes on with what depends on the result, or it exits. \<open>fork1\<close> has
  the behaviour of the child beside that of the parent; its result is the pid of the child, or -1.
\<close>

datatype sysop =
    OpExec "u8 list" "u8 list list"
  | OpOpen "u8 list" int
  | OpClose int
  | OpDup int
  | OpPipe
  | OpWait
  | OpPrint "u8 list"
  | OpChdir "u8 list"

text \<open>The result of a call and, for \<open>pipe\<close>, the two descriptors.\<close>

datatype behaviour =
    Exits int
  | Calls sysop "int \<Rightarrow> int \<times> int \<Rightarrow> behaviour"
  | Forks behaviour "int \<Rightarrow> behaviour"

abbreviation (input) op :: "sysop \<Rightarrow> behaviour \<Rightarrow> behaviour" where
  "op c k \<equiv> Calls c (\<lambda>_ _. k)"

definition sh_panic :: "u8 list \<Rightarrow> behaviour" where
  "sh_panic s = op (OpPrint (s @ [10])) (Exits 1)"

text \<open>\<open>fork1\<close>: the child goes on with \<open>child\<close>, the parent with \<open>k\<close>.\<close>

definition fork1 :: "behaviour \<Rightarrow> behaviour \<Rightarrow> behaviour" where
  "fork1 child k = Forks child (\<lambda>pid. if pid = -1 then sh_panic (str ''fork'') else k)"

primrec runcmd :: "u8 list \<Rightarrow> cmd \<Rightarrow> behaviour" where
  "runcmd mem (ExecCmd argv) =
     (if argv = [] then Exits 1
      else
        let args = map (\<lambda>(q, eq). cstring mem q) argv in
        op (OpExec (hd args) args) (op (OpPrint (str ''exec '' @ hd args @ str '' failed'' @ [10])) (Exits 0)))"
| "runcmd mem (RedirCmd c f mode fd) =
     (let name = cstring mem (fst f) in
      op (OpClose fd) (Calls (OpOpen name mode) (\<lambda>r _.
        if r < 0 then op (OpPrint (str ''open '' @ name @ str '' failed'' @ [10])) (Exits 1)
        else runcmd mem c)))"
| "runcmd mem (ListCmd l r) = fork1 (runcmd mem l) (op OpWait (runcmd mem r))"
| "runcmd mem (PipeCmd l r) =
     Calls OpPipe (\<lambda>ret (p0, p1).
       if ret < 0 then sh_panic (str ''pipe'')
       else
         fork1 (op (OpClose 1) (op (OpDup p1) (op (OpClose p0) (op (OpClose p1) (runcmd mem l)))))
        (fork1 (op (OpClose 0) (op (OpDup p0) (op (OpClose p0) (op (OpClose p1) (runcmd mem r)))))
        (op (OpClose p0) (op (OpClose p1) (op OpWait (op OpWait (Exits 0)))))))"
| "runcmd mem (BackCmd c) = fork1 (runcmd mem c) (Exits 0)"

text \<open>What \<open>parsecmd\<close> prints before it panics if the parser stopped inside the line.\<close>

definition leftovers :: "u8 list \<Rightarrow> u8 list" where
  "leftovers buf =
     (case parseline (4 * length buf + 4) buf 0 of
        Inl _ \<Rightarrow> []
      | Inr (_, s) \<Rightarrow>
          (case peek buf s [] of (_, s) \<Rightarrow> if s \<noteq> length buf then str ''leftovers: '' @ drop s buf @ [10] else []))"

text \<open>
  One round of \<open>main\<close> for the line \<open>buf\<close>, which ends in a newline; \<open>k\<close> is the next round.
\<close>

definition shell_line :: "u8 list \<Rightarrow> behaviour \<Rightarrow> behaviour" where
  "shell_line buf k =
     (if take 3 buf = str ''cd '' then
        let dir = drop 3 (butlast buf) in
        Calls (OpChdir dir) (\<lambda>r _. if r < 0 then op (OpPrint (str ''cannot cd '' @ dir @ [10])) k else k)
      else
        fork1
          (case parsecmd buf of
             Inl (Panic msg) \<Rightarrow>
               if leftovers buf = [] then sh_panic (str msg) else op (OpPrint (leftovers buf)) (sh_panic (str msg))
           | Inl _ \<Rightarrow> Exits (-1)
           | Inr (cmd, mem) \<Rightarrow> runcmd mem cmd)
          (op OpWait k))"

text \<open>The loop that opens the console until three descriptors are open: \<open>open\<close> returns the least free one, so four rounds do.\<close>

primrec open_console :: "nat \<Rightarrow> behaviour \<Rightarrow> behaviour" where
  "open_console 0 k = k"
| "open_console (Suc n) k =
     Calls (OpOpen (str ''console'') 2) (\<lambda>fd _.
       if fd < 0 then k else if fd \<ge> 3 then op (OpClose fd) k else open_console n k)"

text \<open>\<open>getcmd\<close> prints the prompt; the argument are the lines that \<open>gets\<close> delivers, where an empty one is the end of the input.\<close>

primrec read_commands :: "u8 list list \<Rightarrow> behaviour" where
  "read_commands [] = op (OpPrint (str ''$ '')) (Exits 0)"
| "read_commands (line # ls) =
     op (OpPrint (str ''$ '')) (if line = [] then Exits 0 else shell_line line (read_commands ls))"

definition sh_main :: "u8 list list \<Rightarrow> behaviour" where
  "sh_main lines = open_console 4 (read_commands lines)"

end
