(* ===== verification/Spec2Isabelle.thy ===== *)
theory Spec2Isabelle
  imports Isolation Spinlock Crash Pipes Vmkeep Freewalk Assembly Dirs Grep Sh
begin

text \<open>
  Verification of the xv6 kernel for RISC-V with copy-on-write \<open>fork\<close>.

  \<^bold>\<open>The program and its state.\<close> The kernel is one program with many entry points: traps from user mode and from the
  kernel itself, system calls, device interrupts and the scheduler. Its state is a chain of extensible records, one per
  component, each of which adds its variables to those below: \<open>mstate\<close> (RAM), \<open>kmem\<close> (free list and reference counts of
  \<open>kernel/kalloc.c\<close>), \<open>kproc\<close> (process table, one running process per hart), \<open>bcache\<close>, \<open>klog\<close>, \<open>kfs\<close> (buffer cache, log
  header, inode table, disk), \<open>kdev\<close> (console, UART and its registers), \<open>kfile\<close> (file table, pipes), \<open>ktrap\<close> (control
  registers, interrupt controller, virtio queue, linker symbols). A function of the C code is a definition of the same
  name that takes the state and returns \<open>kerr + 'a\<close>: \<open>Panic msg\<close> is \<open>panic\<close>, \<open>PageFault a\<close> a kernel access outside its map,
  \<open>Sleeps\<close> a call that waits for another thread, \<open>Undefined\<close> an access to which C gives no meaning. Where a system call
  sleeps inside a loop the result says on which channel and how far it got, and the loop is entered again from there.

  \<^bold>\<open>Memory.\<close> \<open>Riscv\<close>, \<open>Ram\<close>, \<open>Kstring\<close>: page and entry arithmetic of \<open>kernel/riscv.h\<close>, loads and stores of 64 bits, the
  string functions of \<open>kernel/string.c\<close>. \<open>Kalloc\<close>: \<open>kernel/kalloc.c\<close> with the invariant that the free list holds exactly the
  pages with count 0; its contract is the locale \<open>page_allocator\<close>. \<open>Vm\<close>: the functions of \<open>kernel/vm.c\<close> and the two
  copy-on-write functions of \<open>kernel/trap.c\<close>. \<open>Ptree\<close>, \<open>Vmmap\<close>, \<open>Vmspace\<close>, \<open>Cow\<close>, \<open>Cowpage\<close>: page tables as trees, what each of
  these functions does to the entries, the counts and the bytes. \<open>Uspace\<close>, \<open>Uaccess\<close>, \<open>Fork\<close>, \<open>Twoprocs\<close>, \<open>Isolation\<close>: the
  memory that a process sees (\<open>ubyte\<close>), the invariant \<open>spaces\<close> over a set of address spaces and \<open>exclusive\<close> (a page that a
  process may write has one reference), and the properties of \<open>copyin\<close>, \<open>copyout\<close>, \<open>copyinstr\<close>, \<open>uvmcopy\<close>, \<open>uvmalloc\<close> and of
  copy-on-write faults, also interleaved. \<open>Usertrap\<close>: a store fault from \<open>usertrap\<close> to \<open>usertrapret\<close>. \<open>Freewalk\<close>: giving an
  address space back. \<open>Vmkeep\<close>: these functions change nothing above \<open>kmem\<close> in the state.

  \<^bold>\<open>Processes and locks.\<close> \<open>Kproc\<close>: process table, \<open>scheduler\<close>, \<open>sched\<close>, \<open>sleep\<close>, \<open>wakeup\<close>, \<open>kill\<close>, as a step relation over
  harts. \<open>Process\<close>, \<open>Exec\<close>: the rest of \<open>kernel/proc.c\<close> and \<open>kernel/exec.c\<close>. \<open>Spinlock\<close>: \<open>acquire\<close>, \<open>release\<close>, \<open>push_off\<close>,
  \<open>pop_off\<close> as steps of several harts. The other theories treat a critical section as one step, which mutual exclusion
  justifies. \<open>Trap\<close>: \<open>syscall\<close>, \<open>usertrap\<close>, \<open>kerneltrap\<close>, \<open>devintr\<close>, \<open>kernel/sysproc.c\<close>, \<open>kernel/plic.c\<close>. \<open>Assembly\<close>: the
  instructions of \<open>trampoline.S\<close>, \<open>kernelvec.S\<close>, \<open>swtch.S\<close> and \<open>entry.S\<close> on registers and memory.

  \<^bold>\<open>Storage.\<close> \<open>Blocks\<close>, \<open>Blockcache\<close>, \<open>Bio\<close>: \<open>kernel/bio.c\<close> and \<open>kernel/sleeplock.c\<close>; the locale \<open>block_cache\<close> is the contract,
  which the linked list of buffers implements. \<open>Journal\<close>, \<open>Log\<close>, \<open>Crash\<close>: \<open>kernel/log.c\<close>; the locale \<open>journal\<close> is what a
  transaction offers to the file system, and \<open>Crash\<close> lets the machine stop after any disk write. \<open>Fs\<close>: \<open>kernel/fs.c\<close>;
  \<open>Falloc\<close>, \<open>Content\<close>, \<open>Dirs\<close> show what \<open>balloc\<close>, \<open>bmap\<close>, \<open>readi\<close>, \<open>writei\<close>, \<open>dirlookup\<close> and \<open>dirlink\<close> do to files as sequences
  of bytes and to directories as maps of names. \<open>Virtio\<close>: \<open>kernel/virtio_disk.c\<close> with a device that works on the queue.

  \<^bold>\<open>Devices, files, system calls.\<close> \<open>Ring\<close>, \<open>Console\<close>: \<open>kernel/console.c\<close>, \<open>kernel/uart.c\<close>; the locale \<open>ring_buffer\<close> serves the
  console, the UART and the pipes. \<open>Printf\<close>: \<open>kernel/printf.c\<close>. \<open>File\<close>, \<open>Pipes\<close>, \<open>Sysfile\<close>: \<open>kernel/file.c\<close>, \<open>kernel/pipe.c\<close>,
  \<open>kernel/sysfile.c\<close>.

  \<^bold>\<open>User programs.\<close> \<open>Grep\<close>: \<open>user/grep.c\<close>.

  \<^bold>\<open>Bounds.\<close> Loops of the C code are recursive functions with a termination proof wherever they end on every state. Where
  they need not, the recursion carries a count: \<open>freewalk\<close> the nested calls that fit on a kernel stack (8; a table of three
  levels needs 2, as \<open>Freewalk\<close> shows), a scan of the buffer list one more than the number of buffers, \<open>balloc\<close> the blocks of
  the disk. Running out of it is an error value, and the properties show that it does not happen under the invariants.
  Integers have their width where it matters: addresses, entries, reference counts, ring indices.

  \<^bold>\<open>Not modelled.\<close> Test programs and grading scripts; build files; \<open>ramdisk.c\<close>, which does not compile against this kernel;
  the contents of instruction memory; caches and the translation buffer (\<open>sfence.vma\<close> is the identity, since the model walks
  the tables in memory). Memory ordering between harts is sequential consistency.
\<close>

end
